(* ===== verification/Prelude.thy ===== *)
theory Prelude
  imports
    Main
    "HOL-Library.AList"
    "HOL-Library.Char_ord"
    "HOL-Library.List_Lexorder"
    "HOL-Library.Product_Lexorder"
    "HOL-Library.Sublist"
    "HOL-Library.Word"
begin

section \<open>Prelude: byte strings, paths, containers and errors\<close>

text \<open>
  What the components share. A \<open>std::string\<close> is a \<open>string\<close> of HOL: a list of 8-bit characters.
  Conditional compilation (\<open>FS_EVENTS\<close>, \<open>WINDOWS\<close>, \<open>INOTIFY\<close>) is the argument \<open>platform\<close>.
  A \<open>std::map\<close> is an association list sorted by key, a \<open>std::unordered_map\<close> an association
  list without order; both provide the interface \<open>keyed_store\<close>, in which the facts about
  loops of insertions and erasures are proved once. An operation that can throw returns
  a sum, with the message on the left.
\<close>

named_theorems path_simps \<open>membership in a subtree and relocation of paths\<close>

subsection \<open>Platforms and machine integers\<close>

datatype platform = Linux | MacOS | Windows

type_synonym u64 = "64 word"
type_synonym u32 = "32 word"

definition dir_sep :: "platform \<Rightarrow> char" where
  "dir_sep plat = (if plat = Windows then CHR 0x5C else CHR 0x2F)"

lemma dir_sep_cases [simp]:
  "dir_sep Linux = CHR 0x2F" "dir_sep MacOS = CHR 0x2F" "dir_sep Windows = CHR 0x5C"
  by (simp_all add: dir_sep_def)

subsection \<open>Results that can be an error\<close>

definition bindE :: "'e + 'a \<Rightarrow> ('a \<Rightarrow> 'e + 'b) \<Rightarrow> 'e + 'b" where
  "bindE m f = (case m of Inl e \<Rightarrow> Inl e | Inr x \<Rightarrow> f x)"

lemma bindE_simps [simp]: "bindE (Inl e) f = Inl e" "bindE (Inr x) f = f x"
  by (simp_all add: bindE_def)

lemma bindE_eq_Inr: "bindE m f = Inr y \<longleftrightarrow> (\<exists>x. m = Inr x \<and> f x = Inr y)"
  by (cases m) auto

lemma bindE_cong [fundef_cong]:
  "m = m' \<Longrightarrow> (\<And>x. m' = Inr x \<Longrightarrow> f x = f' x) \<Longrightarrow> bindE m f = bindE m' f'"
  by (cases m') auto

subsection \<open>Counting loops\<close>

text \<open>\<open>down_loop f n s\<close> is \<open>for (i = n; i-- > 0;) s = f(i, s)\<close>.\<close>

fun down_loop :: "(nat \<Rightarrow> 's \<Rightarrow> 's) \<Rightarrow> nat \<Rightarrow> 's \<Rightarrow> 's" where
  "down_loop f 0 s = s"
| "down_loop f (Suc i) s = down_loop f i (f i s)"

text \<open>An invariant of such a loop: \<open>P i s\<close> holds when the indices from \<open>i\<close> on are done.\<close>

lemma down_loop_invariant:
  assumes "P n s" and "\<And>i s. i < n \<Longrightarrow> P (Suc i) s \<Longrightarrow> P i (f i s)"
  shows "P 0 (down_loop f n s)"
  using assms by (induction n arbitrary: s) auto

subsection \<open>Paths\<close>

text \<open>
  \<open>under sep base p\<close>: \<open>p\<close> lies strictly below \<open>base\<close>, with \<open>sep\<close> between the two.
  \<open>relocate old new p\<close> is the source's \<open>newPath + path.substr(oldPath.size())\<close>.
\<close>

definition under :: "char \<Rightarrow> string \<Rightarrow> string \<Rightarrow> bool" where
  "under sep base p \<longleftrightarrow> prefix (base @ [sep]) p"

definition in_subtree :: "char \<Rightarrow> string \<Rightarrow> string \<Rightarrow> bool" where
  "in_subtree sep base p \<longleftrightarrow> p = base \<or> under sep base p"

definition relocate :: "string \<Rightarrow> string \<Rightarrow> string \<Rightarrow> string" where
  "relocate old new p = new @ drop (length old) p"

lemma under_iff: "under sep base p \<longleftrightarrow> (\<exists>rest. p = base @ sep # rest)"
  by (auto simp: under_def prefix_def)

lemma in_subtree_iff:
  "in_subtree sep base p \<longleftrightarrow> (\<exists>suf. p = base @ suf \<and> (suf = [] \<or> (\<exists>r. suf = sep # r)))"
  by (auto simp: in_subtree_def under_iff)

lemma in_subtree_refl [simp, intro]: "in_subtree sep base base"
  by (simp add: in_subtree_def)

lemma in_subtree_trans [path_simps]:
  "in_subtree sep a b \<Longrightarrow> in_subtree sep b c \<Longrightarrow> in_subtree sep a c"
  by (fastforce simp: in_subtree_iff)

lemma under_in_subtree: "under sep a b \<Longrightarrow> in_subtree sep a b"
  by (simp add: in_subtree_def)

lemma under_irrefl [simp]: "\<not> under sep p p"
  by (simp add: under_iff)

lemma relocate_self [simp]: "relocate old new old = new"
  by (simp add: relocate_def)

lemma relocate_append [simp]: "relocate old new (old @ suf) = new @ suf"
  by (simp add: relocate_def)

lemma relocate_same: "in_subtree sep old p \<Longrightarrow> relocate old old p = p"
  by (auto simp: in_subtree_iff)

lemma relocate_in_subtree [path_simps]:
  "in_subtree sep old p \<Longrightarrow> in_subtree sep new (relocate old new p)"
  by (auto simp: in_subtree_iff)

lemma relocate_back [path_simps]:
  "in_subtree sep old p \<Longrightarrow> relocate new old (relocate old new p) = p"
  by (auto simp: in_subtree_iff)

lemma relocate_eq_iff:
  "in_subtree sep old p \<Longrightarrow> in_subtree sep new q \<Longrightarrow>
    relocate old new p = q \<longleftrightarrow> p = relocate new old q"
  by (auto simp: in_subtree_iff)

lemma inj_on_relocate: "inj_on (relocate old new) {p. in_subtree sep old p}"
  by (auto simp: inj_on_def in_subtree_iff)

text \<open>The comparison \<open>candidate.compare(0, n, base) == 0 && candidate[n] == sep\<close>.\<close>

lemma compare_under:
  "(length base < length p \<and> take (length base) p = base \<and> p ! length base = sep)
    \<longleftrightarrow> under sep base p"
proof
  assume h: "length base < length p \<and> take (length base) p = base \<and> p ! length base = sep"
  then have "p = take (length base) p @ p ! length base # drop (Suc (length base)) p"
    by (intro id_take_nth_drop) simp
  with h show "under sep base p" by (metis under_iff)
next
  assume "under sep base p"
  then show "length base < length p \<and> take (length base) p = base \<and> p ! length base = sep"
    by (auto simp: under_iff nth_append)
qed

subsection \<open>Keyed containers\<close>

text \<open>
  The interface of a map from keys to values: what a lookup returns after an insertion or
  an erasure, and the invariant every operation keeps.
\<close>

locale keyed_store =
  fixes look :: "'m \<Rightarrow> 'k \<Rightarrow> 'v option"
    and put :: "'k \<Rightarrow> 'v \<Rightarrow> 'm \<Rightarrow> 'm"
    and del :: "'k \<Rightarrow> 'm \<Rightarrow> 'm"
    and ok :: "'m \<Rightarrow> bool"
  assumes look_put: "ok m \<Longrightarrow> look (put k v m) k' = (if k' = k then Some v else look m k')"
    and look_del: "ok m \<Longrightarrow> look (del k m) k' = (if k' = k then None else look m k')"
    and ok_put: "ok m \<Longrightarrow> ok (put k v m)"
    and ok_del: "ok m \<Longrightarrow> ok (del k m)"
begin

lemma ok_fold_put: "ok m \<Longrightarrow> ok (fold (\<lambda>x. put (f x) (g x)) xs m)"
  by (induction xs arbitrary: m) (simp_all add: ok_put)

lemma look_fold_put_other:
  "ok m \<Longrightarrow> k \<notin> f ` set xs \<Longrightarrow> look (fold (\<lambda>x. put (f x) (g x)) xs m) k = look m k"
  by (induction xs arbitrary: m) (auto simp: ok_put look_put)

lemma look_fold_put:
  "ok m \<Longrightarrow> x \<in> set xs \<Longrightarrow> inj_on f (set xs) \<Longrightarrow>
    look (fold (\<lambda>x. put (f x) (g x)) xs m) (f x) = Some (g x)"
proof (induction xs arbitrary: m)
  case Nil
  then show ?case by simp
next
  case (Cons y ys)
  show ?case
  proof (cases "x \<in> set ys")
    case True
    with Cons show ?thesis by (simp add: ok_put)
  next
    case False
    with Cons.prems have "x = y" "f x \<notin> f ` set ys" by (auto simp: inj_on_def)
    with Cons.prems show ?thesis by (simp add: look_fold_put_other ok_put look_put)
  qed
qed

lemma ok_fold_del: "ok m \<Longrightarrow> ok (fold del ks m)"
  by (induction ks arbitrary: m) (simp_all add: ok_del)

lemma look_fold_del:
  "ok m \<Longrightarrow> look (fold del ks m) k = (if k \<in> set ks then None else look m k)"
  by (induction ks arbitrary: m) (simp_all add: ok_del look_del)

end

text \<open>An unordered map: \<open>insert_or_assign\<close> is \<open>AList.update\<close>, \<open>erase\<close> is \<open>AList.delete\<close>.\<close>

definition um_ok :: "('k \<times> 'v) list \<Rightarrow> bool" where
  "um_ok m \<longleftrightarrow> distinct (map fst m)"

interpretation um: keyed_store map_of AList.update AList.delete um_ok
  by unfold_locales
    (auto simp: um_ok_def update_conv' delete_conv' distinct_update distinct_delete)

lemma um_ok_Nil [simp]: "um_ok []"
  by (simp add: um_ok_def)

lemma um_ok_filter: "um_ok m \<Longrightarrow> um_ok (filter P m)"
  by (simp add: um_ok_def distinct_map_filter)

lemma map_of_filter_key:
  "map_of (filter (\<lambda>kv. P (fst kv)) m) k = (if P k then map_of m k else None)"
  by (induction m) auto

lemma um_ok_map_of: "um_ok m \<Longrightarrow> (k, v) \<in> set m \<longleftrightarrow> map_of m k = Some v"
  by (auto simp: um_ok_def dest: map_of_SomeD map_of_is_SomeI)

text \<open>An ordered map: a new key is inserted at its place, a known key keeps its place.\<close>

definition om_put :: "'k::linorder \<Rightarrow> 'v \<Rightarrow> ('k \<times> 'v) list \<Rightarrow> ('k \<times> 'v) list" where
  "om_put k v m = (if k \<in> fst ` set m then AList.update k v m else insort_key fst (k, v) m)"

definition om_ok :: "('k::linorder \<times> 'v) list \<Rightarrow> bool" where
  "om_ok m \<longleftrightarrow> sorted (map fst m) \<and> distinct (map fst m)"

lemma om_ok_Nil [simp]: "om_ok []"
  by (simp add: om_ok_def)

lemma om_ok_um_ok: "om_ok m \<Longrightarrow> um_ok m"
  by (simp add: om_ok_def um_ok_def)

lemma map_fst_update_mem:
  "k \<in> fst ` set m \<Longrightarrow> map fst (AList.update k v m) = map fst m"
  by (induction m) auto

lemma map_of_insort_new:
  "k \<notin> fst ` set m \<Longrightarrow>
    map_of (insort_key fst (k, v) m) k' = (if k' = k then Some v else map_of m k')"
  by (induction m) auto

lemma map_fst_insort: "map fst (insort_key fst kv m) = insort (fst kv) (map fst m)"
  by (induction m) auto

lemma om_ok_put: "om_ok m \<Longrightarrow> om_ok (om_put k v m)"
  by (simp add: om_ok_def om_put_def map_fst_update_mem map_fst_insort sorted_insort
      distinct_insort)

lemma om_ok_filter: "om_ok m \<Longrightarrow> om_ok (filter P m)"
  by (simp add: om_ok_def sorted_filter distinct_map_filter)

lemma om_ok_del: "om_ok m \<Longrightarrow> om_ok (AList.delete k m)"
  by (simp add: AList.delete_eq om_ok_filter)

lemma set_update_subset: "set (AList.update k v m) \<subseteq> insert (k, v) (set m)"
  by (induction m) auto

lemma set_om_put: "set (om_put k v m) \<subseteq> insert (k, v) (set m)"
  using set_update_subset [of k v m] by (auto simp: om_put_def set_insort_key)

interpretation om: keyed_store map_of om_put AList.delete om_ok
proof unfold_locales
  fix m :: "('a \<times> 'b) list" and k k' :: 'a and v :: 'b
  show "map_of (om_put k v m) k' = (if k' = k then Some v else map_of m k')"
    by (simp add: om_put_def update_conv' map_of_insort_new)
qed (simp_all add: om_ok_put om_ok_del delete_conv')

end
