(* ===== verification/Events.thy ===== *)
theory Events
  imports Prelude
begin

section \<open>The event list (src/Event.hh)\<close>

text \<open>
  \<open>EventList\<close> coalesces what happens to a path between two deliveries. Its state is the
  ordered map \<open>mEvents\<close>, keyed by path and entry kind, and the first error. A pointer to
  an event of the map is the event's key: an operation that writes through two pointers
  updates the map twice, so that equal pointers alias as they do in the code. The mutex,
  held for the whole of every operation, makes each operation one step.
\<close>

subsection \<open>Data\<close>

datatype entry_kind = File | Directory

instantiation entry_kind :: linorder
begin

definition less_entry_kind :: "entry_kind \<Rightarrow> entry_kind \<Rightarrow> bool" where
  "less_entry_kind a b \<longleftrightarrow> a = File \<and> b = Directory"

definition less_eq_entry_kind :: "entry_kind \<Rightarrow> entry_kind \<Rightarrow> bool" where
  "less_eq_entry_kind a b \<longleftrightarrow> a = File \<or> b = Directory"

instance
proof
  fix x y z :: entry_kind
  show "(x < y) = (x \<le> y \<and> \<not> y \<le> x)"
    by (cases x; cases y) (simp_all add: less_entry_kind_def less_eq_entry_kind_def)
  show "x \<le> x"
    by (cases x) (simp_all add: less_eq_entry_kind_def)
  show "x \<le> y \<Longrightarrow> y \<le> z \<Longrightarrow> x \<le> z"
    by (cases x; cases y; cases z) (simp_all add: less_eq_entry_kind_def)
  show "x \<le> y \<Longrightarrow> y \<le> x \<Longrightarrow> x = y"
    by (cases x; cases y) (simp_all add: less_eq_entry_kind_def)
  show "x \<le> y \<or> y \<le> x"
    by (cases x; cases y) (simp_all add: less_eq_entry_kind_def)
qed

end

definition entryKind :: "bool \<Rightarrow> entry_kind" where
  "entryKind isDirectory = (if isDirectory then Directory else File)"

lemma entryKind_simps [simp]: "entryKind True = Directory" "entryKind False = File"
  by (simp_all add: entryKind_def)

lemma entryKind_inject [simp]: "entryKind a = entryKind b \<longleftrightarrow> a = b"
  by (simp add: entryKind_def)

record event =
  ev_path :: string
  ev_kind :: entry_kind
  isCreated :: bool
  isDeleted :: bool
  renameId :: "string option"

definition new_event :: "string \<Rightarrow> entry_kind \<Rightarrow> event" where
  "new_event p k =
     \<lparr>ev_path = p, ev_kind = k, isCreated = False, isDeleted = False, renameId = None\<rparr>"

lemma new_event_sel [simp]:
  "ev_path (new_event p k) = p" "ev_kind (new_event p k) = k"
  "\<not> isCreated (new_event p k)" "\<not> isDeleted (new_event p k)"
  "renameId (new_event p k) = None"
  by (simp_all add: new_event_def)

type_synonym event_key = "string \<times> entry_kind"

record event_batch =
  batch_error :: string
  batch_events :: "event list"

record event_list =
  mEvents :: "(event_key \<times> event) list"
  mError :: "string option"

definition el_empty :: event_list where
  "el_empty = \<lparr>mEvents = [], mError = None\<rparr>"

text \<open>What JavaScript sees of an event: \<open>c_str()\<close> ends a string at its first NUL.\<close>

record js_event =
  js_path :: string
  js_type :: string
  js_kind :: string
  js_renameId :: "string option"

definition c_str :: "string \<Rightarrow> string" where
  "c_str s = takeWhile (\<lambda>c. c \<noteq> CHR 0x00) s"

definition event_type :: "event \<Rightarrow> string" where
  "event_type e =
     (if isCreated e then ''create'' else if isDeleted e then ''delete'' else ''update'')"

definition toJS :: "event \<Rightarrow> js_event" where
  "toJS e =
     \<lparr>js_path = c_str (ev_path e),
      js_type = c_str (event_type e),
      js_kind = (if ev_kind e = Directory then ''directory'' else ''file''),
      js_renameId = map_option c_str (renameId e)\<rparr>"

subsection \<open>Operations\<close>

definition find_event :: "event_list \<Rightarrow> event_key \<Rightarrow> event option" where
  "find_event l key = map_of (mEvents l) key"

definition set_event :: "event_key \<Rightarrow> event \<Rightarrow> event_list \<Rightarrow> event_list" where
  "set_event key e l = l\<lparr>mEvents := om_put key e (mEvents l)\<rparr>"

definition erase_event :: "event_key \<Rightarrow> event_list \<Rightarrow> event_list" where
  "erase_event key l = l\<lparr>mEvents := AList.delete key (mEvents l)\<rparr>"

text \<open>\<open>internalUpdate\<close> returns the state and the event its pointer shows.\<close>

definition internalUpdate :: "event_list \<Rightarrow> string \<Rightarrow> entry_kind \<Rightarrow> event_list \<times> event" where
  "internalUpdate l p kind =
     (case find_event l (p, kind) of
        None \<Rightarrow> (set_event (p, kind) (new_event p kind) l, new_event p kind)
      | Some e \<Rightarrow> (l, e))"

definition el_create :: "event_list \<Rightarrow> string \<Rightarrow> entry_kind \<Rightarrow> event_list" where
  "el_create l p kind =
     (let (l1, event) = internalUpdate l p kind in
      if isDeleted event
      then set_event (p, kind) (event\<lparr>isDeleted := False, renameId := None\<rparr>) l1
      else set_event (p, kind) (event\<lparr>isCreated := True\<rparr>) l1)"

definition el_update :: "event_list \<Rightarrow> string \<Rightarrow> entry_kind \<Rightarrow> event_list" where
  "el_update l p kind = fst (internalUpdate l p kind)"

definition el_remove :: "event_list \<Rightarrow> string \<Rightarrow> entry_kind \<Rightarrow> event_list" where
  "el_remove l p kind =
     (let (l1, event) = internalUpdate l p kind in
      set_event (p, kind) (event\<lparr>isDeleted := True, renameId := None\<rparr>) l1)"

text \<open>The source's early return: the old path was created in this batch.\<close>

definition rename_created :: "event_list \<Rightarrow> string \<Rightarrow> string \<Rightarrow> entry_kind \<Rightarrow> event \<Rightarrow> event_list" where
  "rename_created l oldPath newPath kind old =
     (let originalRenameId = renameId old;
          l1 = erase_event (oldPath, kind) l;
          (l2, created) = internalUpdate l1 newPath kind in
      if isDeleted created
      then set_event (newPath, kind) (created\<lparr>isDeleted := False, renameId := None\<rparr>) l2
      else set_event (newPath, kind)
        (created\<lparr>isCreated := True, isDeleted := False, renameId := originalRenameId\<rparr>) l2)"

text \<open>
  The other case. \<open>removed\<close> is written again after \<open>created\<close>: through the pointer, that
  is, on the event the map then holds under the old key.
\<close>

definition modify_event :: "event_key \<Rightarrow> (event \<Rightarrow> event) \<Rightarrow> event_list \<Rightarrow> event_list" where
  "modify_event key f l =
     (case find_event l key of None \<Rightarrow> l | Some e \<Rightarrow> set_event key (f e) l)"

definition rename_existing :: "event_list \<Rightarrow> string \<Rightarrow> string \<Rightarrow> string \<Rightarrow> entry_kind \<Rightarrow> event_list" where
  "rename_existing l oldPath newPath rid kind =
     (let (l1, removed) = internalUpdate l oldPath kind;
          l2 = set_event (oldPath, kind) (removed\<lparr>isDeleted := True\<rparr>) l1;
          (l3, created) = internalUpdate l2 newPath kind in
      if isDeleted created
      then
        let l4 = modify_event (newPath, kind) (\<lambda>e. e\<lparr>isDeleted := False\<rparr>) l3;
            l5 = modify_event (oldPath, kind) (\<lambda>e. e\<lparr>renameId := None\<rparr>) l4
        in modify_event (newPath, kind) (\<lambda>e. e\<lparr>renameId := None\<rparr>) l5
      else
        let l4 = modify_event (newPath, kind) (\<lambda>e. e\<lparr>isCreated := True\<rparr>) l3;
            l5 = modify_event (oldPath, kind) (\<lambda>e. e\<lparr>renameId := Some rid\<rparr>) l4
        in modify_event (newPath, kind) (\<lambda>e. e\<lparr>renameId := Some rid\<rparr>) l5)"

definition el_rename :: "event_list \<Rightarrow> string \<Rightarrow> string \<Rightarrow> string \<Rightarrow> entry_kind \<Rightarrow> event_list" where
  "el_rename l oldPath newPath rid kind =
     (case find_event l (oldPath, kind) of
        Some old \<Rightarrow>
          if isCreated old then rename_created l oldPath newPath kind old
          else rename_existing l oldPath newPath rid kind
      | None \<Rightarrow> rename_existing l oldPath newPath rid kind)"

definition el_size :: "event_list \<Rightarrow> nat" where
  "el_size l = length (mEvents l)"

definition el_error :: "event_list \<Rightarrow> string \<Rightarrow> event_list" where
  "el_error l err = (case mError l of None \<Rightarrow> l\<lparr>mError := Some err\<rparr> | Some _ \<Rightarrow> l)"

definition el_hasError :: "event_list \<Rightarrow> bool" where
  "el_hasError l \<longleftrightarrow> mError l \<noteq> None"

subsection \<open>Draining\<close>

record rename_parts =
  rp_created :: nat
  rp_deleted :: nat
  rp_other :: nat

definition no_parts :: rename_parts where
  "no_parts = \<lparr>rp_created = 0, rp_deleted = 0, rp_other = 0\<rparr>"

definition count_part :: "event \<Rightarrow> rename_parts \<Rightarrow> rename_parts" where
  "count_part e parts =
     (if isCreated e then parts\<lparr>rp_created := Suc (rp_created parts)\<rparr>
      else if isDeleted e then parts\<lparr>rp_deleted := Suc (rp_deleted parts)\<rparr>
      else parts\<lparr>rp_other := Suc (rp_other parts)\<rparr>)"

definition parts_of :: "(string \<times> rename_parts) list \<Rightarrow> string \<Rightarrow> rename_parts" where
  "parts_of m r = (case map_of m r of None \<Rightarrow> no_parts | Some p \<Rightarrow> p)"

definition tally :: "event \<Rightarrow> (string \<times> rename_parts) list \<Rightarrow> (string \<times> rename_parts) list" where
  "tally e m =
     (case renameId e of
        None \<Rightarrow> m
      | Some r \<Rightarrow> AList.update r (count_part e (parts_of m r)) m)"

definition reported :: "event \<Rightarrow> bool" where
  "reported e \<longleftrightarrow> \<not> (isCreated e \<and> isDeleted e)"

definition clear_unpaired :: "(string \<times> rename_parts) list \<Rightarrow> event \<Rightarrow> event" where
  "clear_unpaired m e =
     (case renameId e of
        None \<Rightarrow> e
      | Some r \<Rightarrow>
          let parts = parts_of m r in
          if rp_created parts \<noteq> 1 \<or> rp_deleted parts \<noteq> 1 \<or> rp_other parts \<noteq> 0
          then e\<lparr>renameId := None\<rparr> else e)"

definition el_drain :: "event_list \<Rightarrow> event_batch \<times> event_list" where
  "el_drain l =
     (let events = filter reported (map snd (mEvents l));
          renameParts = fold tally events [] in
      (\<lparr>batch_error = (case mError l of None \<Rightarrow> '''' | Some e \<Rightarrow> e),
        batch_events = map (clear_unpaired renameParts) events\<rparr>,
       l\<lparr>mEvents := [], mError := None\<rparr>))"

subsection \<open>Well-formedness\<close>

text \<open>The map is sorted without duplicates, and an event is stored under its own path and kind.\<close>

definition el_ok :: "event_list \<Rightarrow> bool" where
  "el_ok l \<longleftrightarrow> om_ok (mEvents l) \<and> (\<forall>(k, e) \<in> set (mEvents l). k = (ev_path e, ev_kind e))"

named_theorems event_ok \<open>operations keep the event list well-formed\<close>
named_theorems event_find \<open>what a lookup returns after an operation\<close>

lemma el_ok_om: "el_ok l \<Longrightarrow> om_ok (mEvents l)"
  by (simp add: el_ok_def)

lemma el_ok_empty [event_ok, simp]: "el_ok el_empty"
  by (simp add: el_ok_def el_empty_def)

lemma find_event_empty [simp]: "find_event el_empty k = None"
  by (simp add: find_event_def el_empty_def)

lemma el_ok_findD: "el_ok l \<Longrightarrow> find_event l k = Some e \<Longrightarrow> ev_path e = fst k \<and> ev_kind e = snd k"
  by (auto simp: el_ok_def find_event_def dest!: map_of_SomeD)

lemma el_ok_set [event_ok]:
  "el_ok l \<Longrightarrow> ev_path e = fst k \<Longrightarrow> ev_kind e = snd k \<Longrightarrow> el_ok (set_event k e l)"
  using set_om_put [of k e "mEvents l"]
  by (cases k) (auto simp: el_ok_def set_event_def om_ok_put)

lemma el_ok_erase [event_ok]: "el_ok l \<Longrightarrow> el_ok (erase_event k l)"
  using om_ok_del [of "mEvents l" k] by (auto simp: el_ok_def erase_event_def AList.delete_eq)

lemma find_set_event [event_find]:
  "el_ok l \<Longrightarrow> find_event (set_event k e l) k' = (if k' = k then Some e else find_event l k')"
  by (simp add: find_event_def set_event_def om.look_put el_ok_om)

lemma find_erase_event [event_find]:
  "el_ok l \<Longrightarrow> find_event (erase_event k l) k' = (if k' = k then None else find_event l k')"
  by (simp add: find_event_def erase_event_def om.look_del el_ok_om)

lemma mError_set_erase [simp]:
  "mError (set_event k e l) = mError l" "mError (erase_event k l) = mError l"
  by (simp_all add: set_event_def erase_event_def)

text \<open>The event an operation works on, and what the three simple operations make of it.\<close>

definition event_at :: "event_list \<Rightarrow> event_key \<Rightarrow> event" where
  "event_at l k = (case find_event l k of None \<Rightarrow> new_event (fst k) (snd k) | Some e \<Rightarrow> e)"

definition on_create :: "event \<Rightarrow> event" where
  "on_create e =
     (if isDeleted e then e\<lparr>isDeleted := False, renameId := None\<rparr> else e\<lparr>isCreated := True\<rparr>)"

definition on_remove :: "event \<Rightarrow> event" where
  "on_remove e = e\<lparr>isDeleted := True, renameId := None\<rparr>"

lemma on_create_sel [simp]:
  "ev_path (on_create e) = ev_path e" "ev_kind (on_create e) = ev_kind e"
  "\<not> isDeleted (on_create e)"
  "isCreated (on_create e) \<longleftrightarrow> isCreated e \<or> \<not> isDeleted e"
  by (simp_all add: on_create_def)

lemma on_remove_sel [simp]:
  "ev_path (on_remove e) = ev_path e" "ev_kind (on_remove e) = ev_kind e"
  "isDeleted (on_remove e)" "isCreated (on_remove e) = isCreated e"
  "renameId (on_remove e) = None"
  by (simp_all add: on_remove_def)

lemma event_at_key: "el_ok l \<Longrightarrow> ev_path (event_at l k) = fst k \<and> ev_kind (event_at l k) = snd k"
  by (auto simp: event_at_def el_ok_findD split: option.split)

lemma internalUpdate_snd [simp]: "snd (internalUpdate l p kind) = event_at l (p, kind)"
  by (simp add: internalUpdate_def event_at_def split: option.split)

lemma internalUpdate_fst [simp]: "fst (internalUpdate l p kind) = el_update l p kind"
  by (simp add: el_update_def)

lemma internalUpdate_pair: "internalUpdate l p kind = (el_update l p kind, event_at l (p, kind))"
  by (simp add: prod_eq_iff)

lemma el_update_alt:
  "el_update l p kind =
    (case find_event l (p, kind) of None \<Rightarrow> set_event (p, kind) (new_event p kind) l | Some e \<Rightarrow> l)"
  by (simp add: el_update_def internalUpdate_def split: option.split)

lemma el_ok_update [event_ok]: "el_ok l \<Longrightarrow> el_ok (el_update l p kind)"
  by (auto simp: el_update_alt event_ok split: option.split)

lemma find_el_update [event_find]:
  "el_ok l \<Longrightarrow> find_event (el_update l p kind) k =
    (if k = (p, kind) then Some (event_at l k) else find_event l k)"
  by (auto simp: el_update_alt event_at_def event_find split: option.split)

lemma el_create_alt:
  "el_create l p kind = set_event (p, kind) (on_create (event_at l (p, kind))) (el_update l p kind)"
  by (simp add: el_create_def internalUpdate_pair on_create_def)

lemma el_remove_alt:
  "el_remove l p kind = set_event (p, kind) (on_remove (event_at l (p, kind))) (el_update l p kind)"
  by (simp add: el_remove_def internalUpdate_pair on_remove_def)

lemma el_ok_create [event_ok]: "el_ok l \<Longrightarrow> el_ok (el_create l p kind)"
  by (simp add: el_create_alt event_ok event_at_key)

lemma el_ok_remove [event_ok]: "el_ok l \<Longrightarrow> el_ok (el_remove l p kind)"
  by (simp add: el_remove_alt event_ok event_at_key)

lemma find_el_create [event_find]:
  "el_ok l \<Longrightarrow> find_event (el_create l p kind) k =
    (if k = (p, kind) then Some (on_create (event_at l k)) else find_event l k)"
  by (simp add: el_create_alt event_find event_ok)

lemma find_el_remove [event_find]:
  "el_ok l \<Longrightarrow> find_event (el_remove l p kind) k =
    (if k = (p, kind) then Some (on_remove (event_at l k)) else find_event l k)"
  by (simp add: el_remove_alt event_find event_ok)

lemma el_ok_modify [event_ok]:
  "el_ok l \<Longrightarrow> (\<And>e. ev_path (f e) = ev_path e \<and> ev_kind (f e) = ev_kind e) \<Longrightarrow>
    el_ok (modify_event k f l)"
  by (auto simp: modify_event_def el_ok_findD intro!: el_ok_set split: option.split)

lemma find_modify_event [event_find]:
  "el_ok l \<Longrightarrow> find_event (modify_event k f l) k' =
    (if k' = k then map_option f (find_event l k) else find_event l k')"
  by (simp add: modify_event_def event_find split: option.split)

lemma el_ok_rename_created [event_ok]:
  "el_ok l \<Longrightarrow> el_ok (rename_created l p q kind old)"
  by (simp add: rename_created_def internalUpdate_pair Let_def event_ok event_at_key)

lemma el_ok_rename_existing [event_ok]:
  "el_ok l \<Longrightarrow> el_ok (rename_existing l p q rid kind)"
  by (simp add: rename_existing_def internalUpdate_pair Let_def event_ok event_at_key)

lemma el_ok_rename [event_ok]: "el_ok l \<Longrightarrow> el_ok (el_rename l p q rid kind)"
  by (simp add: el_rename_def event_ok split: option.split)

lemma el_ok_error [event_ok]: "el_ok l \<Longrightarrow> el_ok (el_error l e)"
  by (simp add: el_error_def el_ok_def split: option.split)

lemma find_el_error [event_find]: "find_event (el_error l e) k = find_event l k"
  by (simp add: el_error_def find_event_def split: option.split)

lemma event_at_cong: "find_event l k = find_event l' k \<Longrightarrow> event_at l k = event_at l' k"
  by (simp add: event_at_def)

text \<open>Renames between two different paths.\<close>

lemma find_rename_created:
  "el_ok l \<Longrightarrow> p \<noteq> q \<Longrightarrow> find_event (rename_created l p q kind old) k =
    (if k = (p, kind) then None
     else if k = (q, kind) then
       Some (let e = event_at l k in
         if isDeleted e then e\<lparr>isDeleted := False, renameId := None\<rparr>
         else e\<lparr>isCreated := True, isDeleted := False, renameId := renameId old\<rparr>)
     else find_event l k)"
  using event_at_cong [of "erase_event (p, kind) l" "(q, kind)" l]
  by (auto simp: rename_created_def internalUpdate_pair Let_def event_find event_ok)

lemma find_rename_existing:
  "el_ok l \<Longrightarrow> p \<noteq> q \<Longrightarrow> find_event (rename_existing l p q rid kind) k =
    (let old = event_at l (p, kind); new = event_at l (q, kind) in
     if k = (p, kind) then
       Some (old\<lparr>isDeleted := True, renameId := (if isDeleted new then None else Some rid)\<rparr>)
     else if k = (q, kind) then
       Some (if isDeleted new then new\<lparr>isDeleted := False, renameId := None\<rparr>
         else new\<lparr>isCreated := True, renameId := Some rid\<rparr>)
     else find_event l k)"
  using event_at_cong [of "set_event (p, kind) (event_at l (p, kind)\<lparr>isDeleted := True\<rparr>)
      (el_update l p kind)" "(q, kind)" l]
  by (simp add: rename_existing_def internalUpdate_pair Let_def event_find event_ok event_at_key)

subsection \<open>The contract of a change log\<close>

text \<open>
  What the clients of the event list rely on. A log \<open>tracks\<close> a tree when it knows, for each
  entry, whether it existed at the last delivery (\<open>base\<close>), whether it exists now (\<open>now\<close>) and
  whether it was reported since (\<open>touched\<close>).
\<close>

type_synonym entry_set = "event_key \<Rightarrow> bool"

locale change_log =
  fixes tracks :: "entry_set \<Rightarrow> entry_set \<Rightarrow> event_key set \<Rightarrow> 'l \<Rightarrow> bool"
    and log_create :: "'l \<Rightarrow> string \<Rightarrow> entry_kind \<Rightarrow> 'l"
    and log_update :: "'l \<Rightarrow> string \<Rightarrow> entry_kind \<Rightarrow> 'l"
    and log_remove :: "'l \<Rightarrow> string \<Rightarrow> entry_kind \<Rightarrow> 'l"
    and log_rename :: "'l \<Rightarrow> string \<Rightarrow> string \<Rightarrow> string \<Rightarrow> entry_kind \<Rightarrow> 'l"
  assumes tracks_create: "tracks base now t l \<Longrightarrow> \<not> now (p, k) \<Longrightarrow>
      tracks base (now((p, k) := True)) (insert (p, k) t) (log_create l p k)"
    and tracks_update: "tracks base now t l \<Longrightarrow> now (p, k) \<Longrightarrow>
      tracks base now (insert (p, k) t) (log_update l p k)"
    and tracks_remove: "tracks base now t l \<Longrightarrow> now (p, k) \<Longrightarrow>
      tracks base (now((p, k) := False)) (insert (p, k) t) (log_remove l p k)"
    and tracks_rename: "tracks base now t l \<Longrightarrow> now (p, k) \<Longrightarrow> \<not> now (q, k) \<Longrightarrow>
      tracks base (now((p, k) := False, (q, k) := True)) (insert (p, k) (insert (q, k) t))
        (log_rename l p q r k)"
begin

text \<open>Reporting the loss, or the appearance, of a whole set of entries, one by one.\<close>

lemma tracks_fold_remove:
  "tracks base now t l \<Longrightarrow> distinct ks \<Longrightarrow> (\<And>k. k \<in> set ks \<Longrightarrow> now k) \<Longrightarrow>
    tracks base (\<lambda>k. now k \<and> k \<notin> set ks) (t \<union> set ks)
      (fold (\<lambda>k l. log_remove l (fst k) (snd k)) ks l)"
proof (induction ks arbitrary: now t l)
  case Nil
  then show ?case by simp
next
  case (Cons a ks)
  obtain p k where a: "a = (p, k)" by (cases a)
  from Cons.prems have "tracks base (now(a := False)) (insert a t) (log_remove l p k)"
    by (simp add: a tracks_remove)
  from Cons.IH [OF this] Cons.prems
  have "tracks base (\<lambda>k. (now(a := False)) k \<and> k \<notin> set ks) (insert a t \<union> set ks)
      (fold (\<lambda>k l. log_remove l (fst k) (snd k)) ks (log_remove l p k))"
    by (metis distinct.simps(2) fun_upd_apply list.set_intros(2))
  moreover have "(\<lambda>k. (now(a := False)) k \<and> k \<notin> set ks) = (\<lambda>k. now k \<and> k \<notin> set (a # ks))"
    by auto
  ultimately show ?case by (simp add: a insert_commute)
qed

lemma tracks_fold_create:
  "tracks base now t l \<Longrightarrow> distinct ks \<Longrightarrow> (\<And>k. k \<in> set ks \<Longrightarrow> \<not> now k) \<Longrightarrow>
    tracks base (\<lambda>k. now k \<or> k \<in> set ks) (t \<union> set ks)
      (fold (\<lambda>k l. log_create l (fst k) (snd k)) ks l)"
proof (induction ks arbitrary: now t l)
  case Nil
  then show ?case by simp
next
  case (Cons a ks)
  obtain p k where a: "a = (p, k)" by (cases a)
  from Cons.prems have "tracks base (now(a := True)) (insert a t) (log_create l p k)"
    by (simp add: a tracks_create)
  from Cons.IH [OF this] Cons.prems
  have "tracks base (\<lambda>k. (now(a := True)) k \<or> k \<in> set ks) (insert a t \<union> set ks)
      (fold (\<lambda>k l. log_create l (fst k) (snd k)) ks (log_create l p k))"
    by (metis distinct.simps(2) fun_upd_apply list.set_intros(2))
  moreover have "(\<lambda>k. (now(a := True)) k \<or> k \<in> set ks) = (\<lambda>k. now k \<or> k \<in> set (a # ks))"
    by auto
  ultimately show ?case by (simp add: a insert_commute)
qed

end

text \<open>The event list provides it: its two flags say exactly what was and what is.\<close>

definition tracks :: "entry_set \<Rightarrow> entry_set \<Rightarrow> event_key set \<Rightarrow> event_list \<Rightarrow> bool" where
  "tracks base now t l \<longleftrightarrow>
     el_ok l \<and>
     (\<forall>k. case find_event l k of
            None \<Rightarrow> now k = base k \<and> (k \<in> t \<longrightarrow> \<not> base k)
          | Some e \<Rightarrow> k \<in> t \<and> isCreated e = (\<not> base k) \<and> isDeleted e = (\<not> now k))"

lemma tracks_ok: "tracks base now t l \<Longrightarrow> el_ok l"
  by (simp add: tracks_def)

lemma tracks_cases: "tracks base now t l \<Longrightarrow>
    (case find_event l k of
       None \<Rightarrow> now k = base k \<and> (k \<in> t \<longrightarrow> \<not> base k)
     | Some e \<Rightarrow> k \<in> t \<and> isCreated e = (\<not> base k) \<and> isDeleted e = (\<not> now k))"
  by (simp only: tracks_def)

lemma tracks_None: "tracks base now t l \<Longrightarrow> find_event l k = None \<Longrightarrow> now k = base k \<and> (k \<in> t \<longrightarrow> \<not> base k)"
  using tracks_cases [of base now t l k] by simp

lemma tracks_Some: "tracks base now t l \<Longrightarrow> find_event l k = Some e \<Longrightarrow>
    k \<in> t \<and> isCreated e = (\<not> base k) \<and> isDeleted e = (\<not> now k)"
  using tracks_cases [of base now t l k] by simp

lemma tracksI:
  assumes "el_ok l"
    and "\<And>k. find_event l k = None \<Longrightarrow> now k = base k \<and> (k \<in> t \<longrightarrow> \<not> base k)"
    and "\<And>k e. find_event l k = Some e \<Longrightarrow> k \<in> t \<and> isCreated e = (\<not> base k) \<and> isDeleted e = (\<not> now k)"
  shows "tracks base now t l"
  using assms by (auto simp: tracks_def split: option.split)

lemma tracks_event_at:
  "tracks base now t l \<Longrightarrow>
    (isCreated (event_at l k) \<longrightarrow> \<not> base k) \<and>
    (isDeleted (event_at l k) \<longleftrightarrow> \<not> now k \<and> (base k \<or> isCreated (event_at l k))) \<and>
    (\<not> isCreated (event_at l k) \<longrightarrow> \<not> isDeleted (event_at l k) \<longrightarrow> now k = base k)"
  by (auto simp: event_at_def split: option.split dest: tracks_Some tracks_None)

interpretation el: change_log tracks el_create el_update el_remove el_rename
proof unfold_locales
  fix base now :: entry_set and t l p q r and k :: entry_kind
  assume T: "tracks base now t l"
  note [simp] = tracks_ok [OF T] and dests = tracks_None [OF T] tracks_Some [OF T]
  show "tracks base (now((p, k) := True)) (insert (p, k) t) (el_create l p k)" if "\<not> now (p, k)"
    using that
    by (intro tracksI)
      (auto simp: event_ok event_find event_at_def split: if_splits option.splits dest: dests)
  show "tracks base now (insert (p, k) t) (el_update l p k)" if "now (p, k)"
    using that
    by (intro tracksI)
      (auto simp: event_ok event_find event_at_def split: if_splits option.splits dest: dests)
  show "tracks base (now((p, k) := False)) (insert (p, k) t) (el_remove l p k)" if "now (p, k)"
    using that
    by (intro tracksI)
      (auto simp: event_ok event_find event_at_def split: if_splits option.splits dest: dests)
  assume pq: "now (p, k)" "\<not> now (q, k)"
  then have [simp]: "p \<noteq> q" by auto
  show "tracks base (now((p, k) := False, (q, k) := True)) (insert (p, k) (insert (q, k) t))
        (el_rename l p q r k)"
    using pq
    by (intro tracksI)
      (auto simp: event_ok el_rename_def find_rename_created find_rename_existing event_at_def Let_def
        split: if_splits option.splits dest: dests)
qed

subsection \<open>What a drained batch holds\<close>

lemma parts_of_tally:
  "parts_of (tally e m) r = (if renameId e = Some r then count_part e (parts_of m r) else parts_of m r)"
  by (simp add: tally_def parts_of_def update_conv' split: option.split)

lemma parts_of_fold_tally:
  "rp_created (parts_of (fold tally es m) r) =
     rp_created (parts_of m r) + length (filter (\<lambda>e. renameId e = Some r \<and> isCreated e) es) \<and>
   rp_deleted (parts_of (fold tally es m) r) =
     rp_deleted (parts_of m r)
       + length (filter (\<lambda>e. renameId e = Some r \<and> \<not> isCreated e \<and> isDeleted e) es) \<and>
   rp_other (parts_of (fold tally es m) r) =
     rp_other (parts_of m r)
       + length (filter (\<lambda>e. renameId e = Some r \<and> \<not> isCreated e \<and> \<not> isDeleted e) es)"
  by (induction es arbitrary: m) (simp_all add: parts_of_tally count_part_def)

lemma parts_of_Nil [simp]: "parts_of [] r = no_parts"
  by (simp add: parts_of_def)

lemma clear_unpaired_sel [simp]:
  "ev_path (clear_unpaired m e) = ev_path e" "ev_kind (clear_unpaired m e) = ev_kind e"
  "isCreated (clear_unpaired m e) = isCreated e" "isDeleted (clear_unpaired m e) = isDeleted e"
  by (simp_all add: clear_unpaired_def Let_def split: option.split)

lemma reported_clear [simp]: "reported (clear_unpaired m e) = reported e"
  by (simp add: reported_def)

lemma event_type_clear [simp]: "event_type (clear_unpaired m e) = event_type e"
  by (simp add: event_type_def)

text \<open>An id survives exactly when one creation and one deletion of the batch carry it.\<close>

definition paired_id :: "event list \<Rightarrow> string \<Rightarrow> bool" where
  "paired_id es r \<longleftrightarrow>
     length (filter (\<lambda>e. renameId e = Some r \<and> isCreated e) es) = 1 \<and>
     length (filter (\<lambda>e. renameId e = Some r \<and> \<not> isCreated e \<and> isDeleted e) es) = 1 \<and>
     length (filter (\<lambda>e. renameId e = Some r \<and> \<not> isCreated e \<and> \<not> isDeleted e) es) = 0"

definition clear_ids :: "event list \<Rightarrow> event \<Rightarrow> event" where
  "clear_ids es e =
     (case renameId e of
        None \<Rightarrow> e
      | Some r \<Rightarrow> if paired_id es r then e else e\<lparr>renameId := None\<rparr>)"

lemma clear_unpaired_fold: "clear_unpaired (fold tally es []) e = clear_ids es e"
  using parts_of_fold_tally [of es "[]"]
  by (auto simp: clear_unpaired_def clear_ids_def paired_id_def no_parts_def Let_def split: option.split)

lemma clear_ids_sel [simp]:
  "ev_path (clear_ids es e) = ev_path e" "ev_kind (clear_ids es e) = ev_kind e"
  "isCreated (clear_ids es e) = isCreated e" "isDeleted (clear_ids es e) = isDeleted e"
  by (simp_all add: clear_ids_def split: option.split)

lemma renameId_clear_ids:
  "renameId (clear_ids es e) = Some r \<longleftrightarrow> renameId e = Some r \<and> paired_id es r"
  by (auto simp: clear_ids_def split: option.split)

definition pending_events :: "event_list \<Rightarrow> event list" where
  "pending_events l = filter reported (map snd (mEvents l))"

lemma batch_events_drain:
  "batch_events (fst (el_drain l)) = map (clear_ids (pending_events l)) (pending_events l)"
  by (simp add: el_drain_def Let_def pending_events_def clear_unpaired_fold)

definition batch_find :: "event_batch \<Rightarrow> event_key \<Rightarrow> event option" where
  "batch_find b k = find (\<lambda>e. (ev_path e, ev_kind e) = k) (batch_events b)"

lemma find_pending:
  assumes "um_ok m" "\<forall>(k, e) \<in> set m. k = (ev_path e, ev_kind e)"
  shows "find (\<lambda>e. (ev_path e, ev_kind e) = k) (map (clear_ids es) (filter reported (map snd m))) =
    (case map_of m k of
       None \<Rightarrow> None
     | Some e \<Rightarrow> if reported e then Some (clear_ids es e) else None)"
  using assms
proof (induction m)
  case Nil
  then show ?case by simp
next
  case (Cons a m)
  obtain e where a: "a = ((ev_path e, ev_kind e), e)"
    using Cons.prems(2) by (cases a) auto
  from Cons.prems have "um_ok m" and "(ev_path e, ev_kind e) \<notin> fst ` set m"
    by (auto simp: um_ok_def a)
  then have "map_of m (ev_path e, ev_kind e) = None"
    by (simp add: map_of_eq_None_iff)
  with Cons.IH \<open>um_ok m\<close> Cons.prems(2) show ?case
    by (auto simp: a split: option.splits)
qed

lemma batch_find_drain:
  "el_ok l \<Longrightarrow> batch_find (fst (el_drain l)) k =
    (case find_event l k of
       None \<Rightarrow> None
     | Some e \<Rightarrow> if reported e then Some (clear_ids (pending_events l) e) else None)"
  using find_pending [of "mEvents l" k "pending_events l"]
  by (simp add: batch_find_def batch_events_drain find_event_def el_ok_def om_ok_um_ok)
    (simp only: pending_events_def)

lemma length_filter_events:
  assumes "el_ok l"
  shows "length (filter P (pending_events l)) = card {k. \<exists>e. find_event l k = Some e \<and> reported e \<and> P e}"
proof -
  let ?m = "filter (\<lambda>(k, e). reported e \<and> P e) (mEvents l)"
  have ok: "um_ok (mEvents l)" using assms by (simp add: el_ok_def om_ok_um_ok)
  have "length (filter P (pending_events l)) = length (map fst ?m)"
    by (simp add: pending_events_def filter_map o_def split_def filter_filter conj_commute)
  also have "\<dots> = card (set (map fst ?m))"
    using um_ok_filter [OF ok] by (intro distinct_card [symmetric]) (simp add: um_ok_def)
  also have "set (map fst ?m) = {k. \<exists>e. find_event l k = Some e \<and> reported e \<and> P e}"
    using um_ok_map_of [OF ok] by (force simp: find_event_def)
  finally show ?thesis .
qed

subsection \<open>Sequences of changes\<close>

text \<open>
  Changes of a tree as the backends report them, what they do to the log and to the set of
  entries, and when they are possible: an entry is created where there is none, updated,
  removed or moved where there is one, and moved to a free name.
\<close>

datatype change =
    Created string entry_kind
  | Updated string entry_kind
  | Removed string entry_kind
  | Renamed string string string entry_kind

fun apply_change :: "change \<Rightarrow> event_list \<Rightarrow> event_list" where
  "apply_change (Created p k) l = el_create l p k"
| "apply_change (Updated p k) l = el_update l p k"
| "apply_change (Removed p k) l = el_remove l p k"
| "apply_change (Renamed p q r k) l = el_rename l p q r k"

fun entries_after :: "change \<Rightarrow> entry_set \<Rightarrow> entry_set" where
  "entries_after (Created p k) now = now((p, k) := True)"
| "entries_after (Updated p k) now = now"
| "entries_after (Removed p k) now = now((p, k) := False)"
| "entries_after (Renamed p q r k) now = now((p, k) := False, (q, k) := True)"

fun possible :: "entry_set \<Rightarrow> change \<Rightarrow> bool" where
  "possible now (Created p k) \<longleftrightarrow> \<not> now (p, k)"
| "possible now (Updated p k) \<longleftrightarrow> now (p, k)"
| "possible now (Removed p k) \<longleftrightarrow> now (p, k)"
| "possible now (Renamed p q r k) \<longleftrightarrow> now (p, k) \<and> \<not> now (q, k)"

fun entries_of :: "change \<Rightarrow> event_key set" where
  "entries_of (Created p k) = {(p, k)}"
| "entries_of (Updated p k) = {(p, k)}"
| "entries_of (Removed p k) = {(p, k)}"
| "entries_of (Renamed p q r k) = {(p, k), (q, k)}"

fun possible_all :: "entry_set \<Rightarrow> change list \<Rightarrow> bool" where
  "possible_all now [] = True"
| "possible_all now (c # cs) \<longleftrightarrow> possible now c \<and> possible_all (entries_after c now) cs"

lemma tracks_apply_change:
  "tracks base now t l \<Longrightarrow> possible now c \<Longrightarrow>
    tracks base (entries_after c now) (entries_of c \<union> t) (apply_change c l)"
  by (cases c) (simp_all add: el.tracks_create el.tracks_update el.tracks_remove el.tracks_rename)

lemma tracks_apply_changes:
  "tracks base now t l \<Longrightarrow> possible_all now cs \<Longrightarrow>
    tracks base (fold entries_after cs now) (\<Union>(entries_of ` set cs) \<union> t) (fold apply_change cs l)"
proof (induction cs arbitrary: now t l)
  case Nil
  then show ?case by simp
next
  case (Cons c cs)
  from Cons.prems have "tracks base (entries_after c now) (entries_of c \<union> t) (apply_change c l)"
    by (simp add: tracks_apply_change)
  from Cons.IH [OF this] Cons.prems(2) show ?case
    by (simp add: Un_ac)
qed

text \<open>All entries of the list lie within a set of paths.\<close>

definition events_within :: "(string \<Rightarrow> bool) \<Rightarrow> event_list \<Rightarrow> bool" where
  "events_within P l \<longleftrightarrow> el_ok l \<and> (\<forall>p k. find_event l (p, k) \<noteq> None \<longrightarrow> P p)"

lemma events_within_empty [simp]: "events_within P el_empty"
  by (simp add: events_within_def)

lemma events_within_change:
  assumes "events_within P l" and "\<forall>x \<in> entries_of c. P (fst x)"
  shows "events_within P (apply_change c l)"
proof -
  have ok: "el_ok l" using assms(1) by (simp add: events_within_def)
  have "find_event (apply_change c l) x \<noteq> None \<Longrightarrow> find_event l x \<noteq> None \<or> x \<in> entries_of c" for x
    using ok by (cases c)
      (auto simp: el_rename_def rename_created_def rename_existing_def internalUpdate_pair Let_def event_find event_ok event_at_key
        split: if_splits option.splits)
  moreover have "el_ok (apply_change c l)" using ok by (cases c) (simp_all add: event_ok)
  ultimately show ?thesis using assms unfolding events_within_def by (metis fst_conv)
qed

lemmas events_within_ops =
  events_within_change [of _ _ "Created p k" for p k, simplified]
  events_within_change [of _ _ "Updated p k" for p k, simplified]
  events_within_change [of _ _ "Removed p k" for p k, simplified]
  events_within_change [of _ _ "Renamed p q r k" for p q r k, simplified]

lemma events_within_error [simp]: "events_within P l \<Longrightarrow> events_within P (el_error l err)"
  by (auto simp: events_within_def event_find event_ok)

lemma events_within_changes:
  "events_within P l \<Longrightarrow> \<forall>c \<in> set cs. \<forall>x \<in> entries_of c. P (fst x) \<Longrightarrow> events_within P (fold apply_change cs l)"
  by (induction cs arbitrary: l) (simp_all add: events_within_change)

lemma events_within_drained [simp]: "events_within P (snd (el_drain l))"
  by (simp add: events_within_def el_drain_def Let_def el_ok_def om_ok_def find_event_def)

lemma events_within_batch:
  assumes "events_within P l" and "e \<in> set (batch_events (fst (el_drain l)))"
  shows "P (ev_path e)"
proof -
  have ok: "el_ok l" using assms(1) by (simp add: events_within_def)
  obtain e' where e': "e' \<in> set (pending_events l)" "ev_path e = ev_path e'"
    using assms(2) by (auto simp: batch_events_drain clear_ids_def split: option.splits if_splits)
  then have "find_event l (ev_path e', ev_kind e') = Some e'"
    using ok um_ok_map_of [OF om_ok_um_ok] by (fastforce simp: pending_events_def find_event_def el_ok_def)
  then show ?thesis using assms(1) by (auto simp: events_within_def e'(2))
qed

lemma tracks_empty: "tracks base base {} el_empty"
  by (simp add: tracks_def)

definition net_change :: "bool \<Rightarrow> bool \<Rightarrow> bool \<Rightarrow> string option" where
  "net_change before after touched =
     (if \<not> before \<and> after then Some ''create''
      else if before \<and> \<not> after then Some ''delete''
      else if before \<and> after \<and> touched then Some ''update''
      else None)"

lemma tracks_net_change:
  assumes "tracks base now t l"
  shows "map_option event_type (batch_find (fst (el_drain l)) k) =
    net_change (base k) (now k) (k \<in> t)"
proof (cases "find_event l k")
  case None
  with tracks_None [OF assms None] tracks_ok [OF assms] show ?thesis
    by (auto simp: batch_find_drain net_change_def)
next
  case (Some e)
  with tracks_Some [OF assms Some] tracks_ok [OF assms] show ?thesis
    by (auto simp: batch_find_drain net_change_def reported_def event_type_def)
qed

subsection \<open>Chains of renames\<close>

text \<open>An entry moved several times within one batch: \<open>hops\<close> lists each target with its id.\<close>

fun rename_hops :: "event_list \<Rightarrow> string \<Rightarrow> (string \<times> string) list \<Rightarrow> entry_kind \<Rightarrow> event_list" where
  "rename_hops l p [] kind = l"
| "rename_hops l p ((q, r) # hops) kind = rename_hops (el_rename l p q r kind) q hops kind"

text \<open>The log \<open>l'\<close> is \<open>l\<close> with one open rename from \<open>p\<close> to \<open>q\<close>.\<close>

definition open_rename :: "event_list \<Rightarrow> string \<Rightarrow> string \<Rightarrow> string \<Rightarrow> entry_kind \<Rightarrow> event_list \<Rightarrow> bool" where
  "open_rename l p q r kind l' \<longleftrightarrow>
     el_ok l' \<and>
     (\<forall>k. find_event l' k =
        (if k = (p, kind) then Some ((new_event p kind)\<lparr>isDeleted := True, renameId := Some r\<rparr>)
         else if k = (q, kind) then Some ((new_event q kind)\<lparr>isCreated := True, renameId := Some r\<rparr>)
         else find_event l k))"

lemma open_rename_ok: "open_rename l p q r kind l' \<Longrightarrow> el_ok l'"
  by (simp add: open_rename_def)

lemma open_rename_find: "open_rename l p q r kind l' \<Longrightarrow> find_event l' k =
    (if k = (p, kind) then Some ((new_event p kind)\<lparr>isDeleted := True, renameId := Some r\<rparr>)
     else if k = (q, kind) then Some ((new_event q kind)\<lparr>isCreated := True, renameId := Some r\<rparr>)
     else find_event l k)"
  unfolding open_rename_def by blast

lemma open_rename_first:
  "el_ok l \<Longrightarrow> p \<noteq> q \<Longrightarrow> find_event l (p, kind) = None \<Longrightarrow> find_event l (q, kind) = None \<Longrightarrow>
    open_rename l p q r kind (el_rename l p q r kind)"
  by (simp add: open_rename_def event_ok el_rename_def find_rename_existing event_at_def Let_def
      new_event_def)

lemma open_rename_next:
  assumes "open_rename l p q r kind l'" "p \<noteq> q" "q' \<noteq> p" "q' \<noteq> q"
    and "find_event l (q', kind) = None" "find_event l (q, kind) = None"
  shows "open_rename l p q' r kind (el_rename l' q q' r' kind)"
  using assms
  by (simp add: open_rename_def [of l p q'] event_ok el_rename_def find_rename_created
      open_rename_ok [OF assms(1)] open_rename_find [OF assms(1)] event_at_def Let_def new_event_def)

lemma open_rename_hops:
  "open_rename l p q r kind l' \<Longrightarrow> distinct (p # q # map fst hops) \<Longrightarrow>
    (\<forall>x \<in> set (q # map fst hops). find_event l (x, kind) = None) \<Longrightarrow>
    open_rename l p (last (q # map fst hops)) r kind (rename_hops l' q hops kind)"
proof (induction hops arbitrary: q l')
  case Nil
  then show ?case by simp
next
  case (Cons h hops)
  obtain q' r' where h: "h = (q', r')" by (cases h)
  from Cons.prems have "open_rename l p q' r kind (el_rename l' q q' r' kind)"
    by (intro open_rename_next) (auto simp: h)
  from Cons.IH [OF this] Cons.prems(2,3) show ?case by (simp add: h)
qed

lemma open_rename_paired:
  assumes "open_rename l p q r kind l'" "p \<noteq> q"
    and fresh: "\<And>k e. find_event l k = Some e \<Longrightarrow> renameId e \<noteq> Some r"
  shows "paired_id (pending_events l') r"
proof -
  note ok = open_rename_ok [OF assms(1)] and f = open_rename_find [OF assms(1)]
  have "{k. \<exists>e. find_event l' k = Some e \<and> reported e \<and> renameId e = Some r \<and> isCreated e} = {(q, kind)}"
    using fresh assms(2) by (auto simp: f reported_def split: if_splits)
  moreover have "{k. \<exists>e. find_event l' k = Some e \<and> reported e \<and> renameId e = Some r \<and>
      \<not> isCreated e \<and> isDeleted e} = {(p, kind)}"
    using fresh assms(2) by (auto simp: f reported_def split: if_splits)
  moreover have "{k. \<exists>e. find_event l' k = Some e \<and> reported e \<and> renameId e = Some r \<and>
      \<not> isCreated e \<and> \<not> isDeleted e} = {}"
    using fresh assms(2) by (auto simp: f reported_def split: if_splits)
  ultimately show ?thesis
    by (simp only: paired_id_def length_filter_events [OF ok] card.empty) simp
qed

subsection \<open>Properties\<close>

text \<open>
  C1. Coalescing is exact. Whatever possible sequence of creations, updates, removals and
  renames is recorded between two deliveries, the batch reports for each path and kind the
  net change: a creation if the entry is new, a deletion if it is gone, an update if it was
  there all along and was touched (a removal undone by a creation included), and nothing
  otherwise, in particular nothing for an entry that came and went.
\<close>

theorem drain_reports_net_change:
  assumes "possible_all base cs"
  shows "map_option event_type (batch_find (fst (el_drain (fold apply_change cs el_empty))) k) =
    net_change (base k) (fold entries_after cs base k) (k \<in> \<Union>(entries_of ` set cs))"
  using tracks_net_change [OF tracks_apply_changes [OF tracks_empty assms]] by simp

lemma drain_reports_net_change_witness:
  "map_option event_type (batch_find (fst (el_drain (fold apply_change
      [Removed ''/w/a'' File, Created ''/w/a'' File, Created ''/w/t'' File,
       Renamed ''/w/t'' ''/w/b'' ''1'' File] el_empty))) (''/w/a'', File)) = Some ''update''"
proof -
  let ?base = "\<lambda>k. k = (''/w/a'', File)"
  let ?cs = "[Removed ''/w/a'' File, Created ''/w/a'' File, Created ''/w/t'' File,
       Renamed ''/w/t'' ''/w/b'' ''1'' File]"
  have "possible_all ?base ?cs" by simp
  from drain_reports_net_change [OF this, of "(''/w/a'', File)"] show ?thesis
    by (simp add: net_change_def)
qed

text \<open>
  C26. No half of a rename escapes. In every drained batch, from any state of the list, an
  event that carries a rename id is one of exactly two events with that id: one creation
  and one deletion.
\<close>

theorem drain_pairs_rename_ids:
  assumes "e \<in> set (batch_events (fst (el_drain l)))" and "renameId e = Some r"
  shows "length (filter (\<lambda>e. renameId e = Some r \<and> event_type e = ''create'')
        (batch_events (fst (el_drain l)))) = 1 \<and>
    length (filter (\<lambda>e. renameId e = Some r \<and> event_type e = ''delete'')
        (batch_events (fst (el_drain l)))) = 1 \<and>
    length (filter (\<lambda>e. renameId e = Some r) (batch_events (fst (el_drain l)))) = 2"
proof -
  let ?es = "pending_events l"
  from assms have paired: "paired_id ?es r"
    by (auto simp: batch_events_drain renameId_clear_ids)
  have sum: "length (filter (\<lambda>e. renameId e = Some r) es) =
      length (filter (\<lambda>e. renameId e = Some r \<and> isCreated e) es) +
      length (filter (\<lambda>e. renameId e = Some r \<and> \<not> isCreated e \<and> isDeleted e) es) +
      length (filter (\<lambda>e. renameId e = Some r \<and> \<not> isCreated e \<and> \<not> isDeleted e) es)" for es
    by (induction es) auto
  from paired sum [of ?es] show ?thesis
    by (simp add: batch_events_drain filter_map o_def renameId_clear_ids paired_id_def event_type_def
        conj_commute conj_left_commute cong: conj_cong)
qed


lemma drain_pairs_rename_ids_witness:
  "length (filter (\<lambda>e. renameId e = Some ''7'')
     (batch_events (fst (el_drain (el_rename el_empty ''/w/a'' ''/w/b'' ''7'' File))))) = 2"
proof -
  let ?e = "\<lparr>ev_path = ''/w/a'', ev_kind = File, isCreated = False, isDeleted = True,
    renameId = Some ''7''\<rparr>"
  have "?e \<in> set (batch_events (fst (el_drain (el_rename el_empty ''/w/a'' ''/w/b'' ''7'' File))))"
    by code_simp
  from drain_pairs_rename_ids [OF this, of "''7''"] show ?thesis by simp
qed

text \<open>
  Rename chains stay connected. An entry renamed several times between two deliveries,
  through names that have no event of their own, is reported as one deletion of its first
  name and one creation of its last name, both with the id of the first rename; the names
  in between are not reported.
\<close>

theorem rename_chain_keeps_first_id:
  assumes "el_ok l" and "distinct (p # q # map fst hops)"
    and "\<forall>x \<in> set (p # q # map fst hops). find_event l (x, kind) = None"
    and "\<And>k e. find_event l k = Some e \<Longrightarrow> renameId e \<noteq> Some r"
  shows "let batch = fst (el_drain (rename_hops l p ((q, r) # hops) kind));
             target = last (q # map fst hops)
         in batch_find batch (p, kind) =
              Some \<lparr>ev_path = p, ev_kind = kind, isCreated = False, isDeleted = True,
                renameId = Some r\<rparr> \<and>
            batch_find batch (target, kind) =
              Some \<lparr>ev_path = target, ev_kind = kind, isCreated = True, isDeleted = False,
                renameId = Some r\<rparr> \<and>
            (\<forall>x \<in> set (q # map fst hops) - {target}. batch_find batch (x, kind) = None)"
proof -
  let ?l = "rename_hops (el_rename l p q r kind) q hops kind" and ?t = "last (q # map fst hops)"
  have "open_rename l p q r kind (el_rename l p q r kind)"
    using assms by (intro open_rename_first) auto
  from open_rename_hops [OF this] assms(2,3) have R: "open_rename l p ?t r kind ?l"
    by simp
  have "?t \<in> set (q # map fst hops)" by (rule last_in_set) simp
  with assms(2) have pt: "p \<noteq> ?t" by (metis distinct.simps(2))
  have paired: "paired_id (pending_events ?l) r"
    by (rule open_rename_paired [OF R pt assms(4)])
  have "\<forall>x \<in> set (q # map fst hops) - {?t}. batch_find (fst (el_drain ?l)) (x, kind) = None"
    using assms(2,3)
    by (auto simp: batch_find_drain open_rename_ok [OF R] open_rename_find [OF R])
  with pt paired show ?thesis
    by (simp add: Let_def batch_find_drain open_rename_ok [OF R] open_rename_find [OF R]
        reported_def clear_ids_def new_event_def)
qed

lemma rename_chain_keeps_first_id_witness:
  "map_option renameId (batch_find (fst (el_drain (rename_hops el_empty ''a''
      [(''b'', ''1''), (''c'', ''2'')] File))) (''c'', File)) = Some (Some ''1'')"
  using rename_chain_keeps_first_id [of el_empty "''a''" "''b''" "[(''c'', ''2'')]" File "''1''"]
  by (simp add: Let_def)

text \<open>
  A delivery empties the list: it hands over every stored entry once, in the order of
  path and kind, together with the first error recorded since the previous delivery, and
  leaves neither events nor an error behind.
\<close>

theorem drain_delivers_once:
  assumes "el_ok l" and "mError l = None"
  shows "let (batch, l') = el_drain (fold (\<lambda>err l. el_error l err) errs l) in
    batch_error batch = (case errs of [] \<Rightarrow> '''' | err # _ \<Rightarrow> err) \<and>
    sorted (map (\<lambda>e. (ev_path e, ev_kind e)) (batch_events batch)) \<and>
    distinct (map (\<lambda>e. (ev_path e, ev_kind e)) (batch_events batch)) \<and>
    l' = el_empty"
proof -
  have err: "mEvents (fold (\<lambda>err l. el_error l err) errs l) = mEvents l \<and>
      mError (fold (\<lambda>err l. el_error l err) errs l) =
        (case mError l of None \<Rightarrow> (case errs of [] \<Rightarrow> None | err # _ \<Rightarrow> Some err) | Some e \<Rightarrow> Some e)"
    for l
    by (induction errs arbitrary: l) (auto simp: el_error_def split: option.splits list.splits)
  have keys: "map (\<lambda>e. (ev_path e, ev_kind e)) (pending_events l) =
      map fst (filter (\<lambda>(k, e). reported e) (mEvents l))"
    using assms(1) unfolding el_ok_def pending_events_def
    by (induction "mEvents l" arbitrary: l) (auto simp: filter_map o_def split_def intro!: map_cong)
  have "om_ok (filter (\<lambda>(k, e). reported e) (mEvents l))"
    using assms(1) by (intro om_ok_filter) (simp add: el_ok_def)
  then show ?thesis
    using assms(2) err [of l] keys
    by (simp add: el_drain_def Let_def pending_events_def clear_unpaired_fold el_empty_def om_ok_def
        comp_def split: list.splits)
qed

lemma drain_delivers_once_witness:
  "let (batch, l') = el_drain (fold (\<lambda>err l. el_error l err) [''first'', ''second'']
      (el_create (el_create el_empty ''b'' File) ''a'' Directory)) in
    batch_error batch = ''first'' \<and>
    sorted (map (\<lambda>e. (ev_path e, ev_kind e)) (batch_events batch)) \<and>
    distinct (map (\<lambda>e. (ev_path e, ev_kind e)) (batch_events batch)) \<and>
    l' = el_empty"
proof -
  let ?l = "el_create (el_create el_empty ''b'' File) ''a'' Directory"
  have "el_ok ?l" "mError ?l = None" by code_simp+
  from drain_delivers_once [OF this, of "[''first'', ''second'']"] show ?thesis by simp
qed

end
