(* ===== verification/DirTrees.thy ===== *)
theory DirTrees
  imports Events
begin

section \<open>The directory tree (src/DirTree.hh, src/DirTree.cc)\<close>

text \<open>
  \<open>DirTree\<close> is the index of the entries a backend knows below a root: an unordered map from
  paths to entries. The model keeps the map as an association list, so that the loops over
  it run in some order; the lemmas below describe results by lookups, which do not depend
  on that order. The lock \<open>mDirCacheMutex\<close> makes each operation one step. The field
  \<open>state\<close> of \<open>DirEntry\<close>, which nothing reads or writes after construction, is left out.
\<close>

subsection \<open>Data and operations\<close>

record dir_entry =
  de_path :: string
  de_mtime :: u64
  de_isDir :: bool

record dir_tree =
  dt_root :: string
  isComplete :: bool
  dt_entries :: "(string \<times> dir_entry) list"

definition new_entry :: "string \<Rightarrow> u64 \<Rightarrow> bool \<Rightarrow> dir_entry" where
  "new_entry p t d = \<lparr>de_path = p, de_mtime = t, de_isDir = d\<rparr>"

definition dt_new :: "string \<Rightarrow> dir_tree" where
  "dt_new root = \<lparr>dt_root = root, isComplete = False, dt_entries = []\<rparr>"

text \<open>\<open>unordered_map::emplace\<close> leaves a key that is present as it is.\<close>

definition emplace_entry :: "dir_entry \<Rightarrow> (string \<times> dir_entry) list \<Rightarrow> (string \<times> dir_entry) list" where
  "emplace_entry e m =
     (case map_of m (de_path e) of None \<Rightarrow> AList.update (de_path e) e m | Some _ \<Rightarrow> m)"

definition dt_add :: "dir_tree \<Rightarrow> string \<Rightarrow> u64 \<Rightarrow> bool \<Rightarrow> dir_tree" where
  "dt_add t p mtime isDir = t\<lparr>dt_entries := emplace_entry (new_entry p mtime isDir) (dt_entries t)\<rparr>"

definition dt_find :: "dir_tree \<Rightarrow> string \<Rightarrow> dir_entry option" where
  "dt_find t p = map_of (dt_entries t) p"

definition dt_update :: "dir_tree \<Rightarrow> string \<Rightarrow> u64 \<Rightarrow> bool \<times> dir_tree" where
  "dt_update t p mtime =
     (case dt_find t p of
        None \<Rightarrow> (False, t)
      | Some found \<Rightarrow>
          (True, t\<lparr>dt_entries := AList.update p (found\<lparr>de_mtime := mtime\<rparr>) (dt_entries t)\<rparr>))"

definition in_tree_at :: "platform \<Rightarrow> string \<Rightarrow> string \<Rightarrow> bool" where
  "in_tree_at plat p key \<longleftrightarrow> key = p \<or> prefix (p @ [dir_sep plat]) key"

definition dt_extract :: "platform \<Rightarrow> dir_tree \<Rightarrow> string \<Rightarrow> dir_entry list \<times> dir_tree" where
  "dt_extract plat t p =
     (map snd (filter (\<lambda>(key, e). in_tree_at plat p key) (dt_entries t)),
      t\<lparr>dt_entries := filter (\<lambda>(key, e). \<not> in_tree_at plat p key) (dt_entries t)\<rparr>)"

definition move_entry :: "string \<Rightarrow> string \<Rightarrow> dir_entry \<Rightarrow> dir_entry" where
  "move_entry oldPath newPath e = e\<lparr>de_path := newPath @ drop (length oldPath) (de_path e)\<rparr>"

definition assign_entry :: "dir_entry \<Rightarrow> (string \<times> dir_entry) list \<Rightarrow> (string \<times> dir_entry) list" where
  "assign_entry e m = AList.update (de_path e) e m"

definition dt_restore :: "dir_tree \<Rightarrow> dir_entry list \<Rightarrow> string \<Rightarrow> string \<Rightarrow> dir_tree" where
  "dt_restore t restored oldPath newPath =
     t\<lparr>dt_entries :=
        fold (\<lambda>e m. assign_entry (move_entry oldPath newPath e) m) restored (dt_entries t)\<rparr>"

definition dt_rename :: "platform \<Rightarrow> dir_tree \<Rightarrow> string \<Rightarrow> string \<Rightarrow> dir_tree" where
  "dt_rename plat t oldPath newPath =
     (let moved = map (\<lambda>(key, e). move_entry oldPath newPath e)
            (filter (\<lambda>(key, e). in_tree_at plat oldPath key) (dt_entries t));
          rest = filter (\<lambda>(key, e). \<not> in_tree_at plat oldPath key) (dt_entries t)
      in t\<lparr>dt_entries := fold assign_entry moved rest\<rparr>)"

definition dt_remove :: "platform \<Rightarrow> dir_tree \<Rightarrow> string \<Rightarrow> dir_tree" where
  "dt_remove plat t p =
     (let m = (case dt_find t p of
                 Some found \<Rightarrow>
                   if de_isDir found
                   then filter (\<lambda>(key, e). \<not> prefix (p @ [dir_sep plat]) key) (dt_entries t)
                   else dt_entries t
               | None \<Rightarrow> dt_entries t)
      in t\<lparr>dt_entries := AList.delete p m\<rparr>)"

text \<open>\<open>getChanges\<close>: the two loops, over the tree and over the snapshot.\<close>

definition change_of_entry :: "dir_tree \<Rightarrow> string \<times> dir_entry \<Rightarrow> event_list \<Rightarrow> event_list" where
  "change_of_entry snapshot = (\<lambda>(key, e) events.
     (case dt_find snapshot key of
        None \<Rightarrow> el_create events (de_path e) (entryKind (de_isDir e))
      | Some found \<Rightarrow>
          if de_mtime found \<noteq> de_mtime e \<and> \<not> de_isDir found \<and> \<not> de_isDir e
          then el_update events (de_path e) File
          else events))"

definition removal_of_entry :: "dir_tree \<Rightarrow> string \<times> dir_entry \<Rightarrow> event_list \<Rightarrow> event_list" where
  "removal_of_entry t = (\<lambda>(key, e) events.
     if dt_find t key = None then el_remove events (de_path e) (entryKind (de_isDir e)) else events)"

definition dt_getChanges :: "dir_tree \<Rightarrow> dir_tree \<Rightarrow> event_list \<Rightarrow> event_list" where
  "dt_getChanges t snapshot events =
     fold (removal_of_entry t) (dt_entries snapshot)
       (fold (change_of_entry snapshot) (dt_entries t) events)"

subsection \<open>Serialization\<close>

text \<open>
  A number that does not fit into the \<open>int\<close> of \<open>%d\<close> is undefined behaviour in C; \<open>scan_int\<close> keeps it, and
  only whether it is one matters.
  A \<open>FILE\<close> being read is what is left of its bytes. \<open>scan_unsigned\<close> and \<open>scan_int\<close> are the
  conversions \<open>%zu\<close>, \<open>%lu\<close> and \<open>%d\<close> of \<open>fscanf\<close>: white space is skipped, then a sign and the
  longest run of digits is read; without a digit the conversion fails. As in the C
  library, an unsigned value past the type's range saturates and a minus sign negates.
\<close>

definition isspace :: "char \<Rightarrow> bool" where
  "isspace c \<longleftrightarrow> c \<in> {CHR 0x20, CHR 0x09, CHR 0x0A, CHR 0x0B, CHR 0x0C, CHR 0x0D}"

definition isdigit :: "char \<Rightarrow> bool" where
  "isdigit c \<longleftrightarrow> (48::nat) \<le> of_char c \<and> of_char c \<le> (57::nat)"

definition skip_space :: "string \<Rightarrow> string" where
  "skip_space s = dropWhile isspace s"

definition digits_value :: "string \<Rightarrow> nat" where
  "digits_value ds = foldl (\<lambda>n c. 10 * n + (of_char c - 48)) 0 ds"

definition scan_sign :: "string \<Rightarrow> bool \<times> string" where
  "scan_sign s = (case s of
     [] \<Rightarrow> (False, s)
   | c # r \<Rightarrow> if c = CHR ''-'' then (True, r) else if c = CHR ''+'' then (False, r) else (False, s))"

definition scan_unsigned :: "string \<Rightarrow> u64 option \<times> string" where
  "scan_unsigned s =
     (let (neg, s1) = scan_sign (skip_space s);
          ds = takeWhile isdigit s1; rest = dropWhile isdigit s1; n = digits_value ds
      in if ds = [] then (None, rest)
         else if n \<ge> 2 ^ 64 then (Some (- 1), rest)
         else (Some (if neg then - of_nat n else of_nat n), rest))"

definition scan_int :: "string \<Rightarrow> int option \<times> string" where
  "scan_int s =
     (let (neg, s1) = scan_sign (skip_space s);
          ds = takeWhile isdigit s1; rest = dropWhile isdigit s1; n = int (digits_value ds)
      in if ds = [] then (None, rest) else (Some (if neg then - n else n), rest))"

fun decimal :: "nat \<Rightarrow> string" where
  "decimal n = (if n < 10 then [char_of (48 + n)] else decimal (n div 10) @ [char_of (48 + n mod 10)])"

declare decimal.simps [simp del]

definition de_write :: "dir_entry \<Rightarrow> string" where
  "de_write e =
     decimal (length (de_path e)) @ '':'' @ c_str (de_path e) @ decimal (unat (de_mtime e))
       @ '' '' @ (if de_isDir e then ''1'' else ''0'') @ [CHR 0x0A]"

definition dt_write :: "dir_tree \<Rightarrow> string" where
  "dt_write t =
     decimal (length (dt_entries t)) @ [CHR 0x0A] @ concat (map (\<lambda>(key, e). de_write e) (dt_entries t))"

text \<open>
  The constructor \<open>DirEntry(FILE *)\<close>. When \<open>fread\<close> falls short the path keeps the bytes read,
  padded by the NULs of \<open>resize\<close>, and the other fields keep their initial values.
\<close>

definition de_read :: "string \<Rightarrow> dir_entry \<times> string" where
  "de_read f =
     (let initial = \<lparr>de_path = [], de_mtime = 0, de_isDir = False\<rparr> in
      case scan_unsigned f of
        (None, f1) \<Rightarrow> (initial, f1)
      | (Some sz, f1) \<Rightarrow>
          (case f1 of
             [] \<Rightarrow> (initial, [])
           | c # f2 \<Rightarrow>
               if c \<noteq> CHR '':'' then (initial, f2)
               else
                 let n = unat sz; got = take n f2; f3 = drop n f2 in
                 if length got < n
                 then (initial\<lparr>de_path := got @ replicate (n - length got) CHR 0x00\<rparr>, f3)
                 else
                   case scan_unsigned f3 of
                     (None, f4) \<Rightarrow> (initial\<lparr>de_path := got\<rparr>, f4)
                   | (Some mt, f4) \<Rightarrow>
                       (case scan_int (skip_space f4) of
                          (None, f5) \<Rightarrow> (initial\<lparr>de_path := got, de_mtime := mt\<rparr>, f5)
                        | (Some d, f5) \<Rightarrow>
                            (initial\<lparr>de_path := got, de_mtime := mt, de_isDir := (d = 1)\<rparr>,
                             skip_space f5))))"

fun read_entries :: "nat \<Rightarrow> string \<Rightarrow> (string \<times> dir_entry) list \<Rightarrow> (string \<times> dir_entry) list" where
  "read_entries 0 f m = m"
| "read_entries (Suc n) f m =
     (let (e, f') = de_read f in
      read_entries n f' (if de_path e \<noteq> [] then emplace_entry e m else m))"

definition dt_read :: "string \<Rightarrow> string \<Rightarrow> dir_tree" where
  "dt_read root f =
     \<lparr>dt_root = root, isComplete = True,
      dt_entries = (case scan_unsigned f of
          (None, f1) \<Rightarrow> []
        | (Some sz, f1) \<Rightarrow> read_entries (unat sz) f1 [])\<rparr>"

subsection \<open>Well-formed trees\<close>

definition entries_ok :: "(string \<times> dir_entry) list \<Rightarrow> bool" where
  "entries_ok m \<longleftrightarrow> um_ok m \<and> (\<forall>(k, e) \<in> set m. de_path e = k)"

definition dt_ok :: "dir_tree \<Rightarrow> bool" where
  "dt_ok t \<longleftrightarrow> entries_ok (dt_entries t)"

named_theorems tree_ok \<open>operations keep the tree well-formed\<close>
named_theorems tree_find \<open>what a lookup in the tree returns after an operation\<close>

lemma dt_ok_um: "dt_ok t \<Longrightarrow> um_ok (dt_entries t)"
  by (simp add: dt_ok_def entries_ok_def)

lemma dt_ok_path: "dt_ok t \<Longrightarrow> dt_find t p = Some e \<Longrightarrow> de_path e = p"
  by (auto simp: dt_ok_def entries_ok_def dt_find_def dest!: map_of_SomeD)

lemma dt_ok_new [tree_ok]: "dt_ok (dt_new root)"
  by (simp add: dt_ok_def entries_ok_def dt_new_def)

lemma dt_find_new [tree_find]: "dt_find (dt_new root) p = None"
  by (simp add: dt_find_def dt_new_def)

lemma in_tree_at_subtree: "in_tree_at plat p key \<longleftrightarrow> in_subtree (dir_sep plat) p key"
  by (simp add: in_tree_at_def in_subtree_def under_def)

lemma entries_ok_update: "entries_ok m \<Longrightarrow> de_path e = p \<Longrightarrow> entries_ok (AList.update p e m)"
  using set_update_subset [of p e m] by (auto simp: entries_ok_def um.ok_put)

lemma entries_ok_filter: "entries_ok m \<Longrightarrow> entries_ok (filter P m)"
  by (simp add: entries_ok_def um_ok_filter)

lemma entries_ok_emplace: "entries_ok m \<Longrightarrow> entries_ok (emplace_entry e m)"
  by (simp add: emplace_entry_def entries_ok_update split: option.split)

lemma dt_ok_add [tree_ok]: "dt_ok t \<Longrightarrow> dt_ok (dt_add t p mt d)"
  by (simp add: dt_ok_def dt_add_def entries_ok_emplace)

lemma dt_find_add [tree_find]:
  "dt_ok t \<Longrightarrow> dt_find (dt_add t p mt d) q =
    (if q = p \<and> dt_find t p = None then Some (new_entry p mt d) else dt_find t q)"
  by (auto simp: dt_find_def dt_add_def emplace_entry_def new_entry_def um.look_put dt_ok_um
      split: option.split)

lemma dt_ok_update [tree_ok]: "dt_ok t \<Longrightarrow> dt_ok (snd (dt_update t p mt))"
  using dt_ok_path [of t p]
  by (auto simp: dt_ok_def dt_update_def entries_ok_update split: option.split)

lemma dt_find_update [tree_find]:
  "dt_ok t \<Longrightarrow> dt_find (snd (dt_update t p mt)) q =
    (if q = p then map_option (\<lambda>e. e\<lparr>de_mtime := mt\<rparr>) (dt_find t p) else dt_find t q)"
  by (auto simp: dt_find_def dt_update_def um.look_put dt_ok_um split: option.split)

lemma fst_dt_update [simp]: "fst (dt_update t p mt) \<longleftrightarrow> dt_find t p \<noteq> None"
  by (auto simp: dt_update_def split: option.split)

lemma dt_ok_extract [tree_ok]: "dt_ok t \<Longrightarrow> dt_ok (snd (dt_extract plat t p))"
  by (simp add: dt_ok_def dt_extract_def entries_ok_filter)

lemma dt_find_extract [tree_find]:
  "dt_find (snd (dt_extract plat t p)) q =
    (if in_subtree (dir_sep plat) p q then None else dt_find t q)"
  using map_of_filter_key [of "\<lambda>key. \<not> in_tree_at plat p key" "dt_entries t" q]
  by (simp add: dt_find_def dt_extract_def split_def in_tree_at_subtree)

lemma set_extracted:
  assumes "dt_ok t"
  shows "e \<in> set (fst (dt_extract plat t p)) \<longleftrightarrow>
    dt_find t (de_path e) = Some e \<and> in_subtree (dir_sep plat) p (de_path e)"
proof -
  have "dt_find t (de_path e) = Some e \<longleftrightarrow> (de_path e, e) \<in> set (dt_entries t)"
    using um_ok_map_of [OF dt_ok_um [OF assms]] by (simp add: dt_find_def)
  moreover have "e \<in> set (fst (dt_extract plat t p)) \<longleftrightarrow>
      (\<exists>k. (k, e) \<in> set (dt_entries t) \<and> in_subtree (dir_sep plat) p k)"
    by (force simp: dt_extract_def in_tree_at_subtree)
  moreover have "\<And>k. (k, e) \<in> set (dt_entries t) \<Longrightarrow> de_path e = k"
    using assms by (auto simp: dt_ok_def entries_ok_def)
  ultimately show ?thesis by blast
qed

lemma distinct_extracted:
  assumes "dt_ok t"
  shows "distinct (map de_path (fst (dt_extract plat t p)))"
proof -
  have "map de_path (fst (dt_extract plat t p)) =
      map fst (filter (\<lambda>(key, e). in_tree_at plat p key) (dt_entries t))"
    using assms by (auto simp: dt_ok_def entries_ok_def dt_extract_def)
  with um_ok_filter [OF dt_ok_um [OF assms]] show ?thesis by (simp add: um_ok_def)
qed

lemma inj_on_extracted: "dt_ok t \<Longrightarrow> inj_on de_path (set (fst (dt_extract plat t p)))"
  using distinct_extracted [of t plat p] by (simp add: distinct_map)

text \<open>Restoring: a fold of assignments, described by the laws of the keyed store.\<close>

lemma move_entry_sel [simp]:
  "de_path (move_entry old new e) = relocate old new (de_path e)"
  "de_mtime (move_entry old new e) = de_mtime e" "de_isDir (move_entry old new e) = de_isDir e"
  by (simp_all add: move_entry_def relocate_def)

lemma dt_restore_fold:
  "dt_entries (dt_restore t es old new) =
    fold (\<lambda>e. AList.update (relocate old new (de_path e)) (move_entry old new e)) es (dt_entries t)"
  by (simp add: dt_restore_def assign_entry_def)

lemma dt_ok_restore [tree_ok]: "dt_ok t \<Longrightarrow> dt_ok (dt_restore t es old new)"
proof -
  have "entries_ok m \<Longrightarrow> entries_ok
      (fold (\<lambda>e. AList.update (relocate old new (de_path e)) (move_entry old new e)) es m)" for m
    by (induction es arbitrary: m) (simp_all add: entries_ok_update)
  then show "dt_ok t \<Longrightarrow> ?thesis" by (simp add: dt_ok_def dt_restore_fold)
qed

lemma dt_find_restore_other:
  "dt_ok t \<Longrightarrow> q \<notin> (\<lambda>e. relocate old new (de_path e)) ` set es \<Longrightarrow>
    dt_find (dt_restore t es old new) q = dt_find t q"
  using um.look_fold_put_other [of "dt_entries t" q "\<lambda>e. relocate old new (de_path e)" es
      "move_entry old new"]
  by (simp add: dt_find_def dt_restore_fold dt_ok_um)

lemma dt_find_restore:
  "dt_ok t \<Longrightarrow> e \<in> set es \<Longrightarrow> inj_on (\<lambda>e. relocate old new (de_path e)) (set es) \<Longrightarrow>
    dt_find (dt_restore t es old new) (relocate old new (de_path e)) = Some (move_entry old new e)"
  using um.look_fold_put [of "dt_entries t" e es "\<lambda>e. relocate old new (de_path e)"
      "move_entry old new"]
  by (simp add: dt_find_def dt_restore_fold dt_ok_um)

lemma inj_on_relocate_extracted:
  assumes "dt_ok t"
  shows "inj_on (\<lambda>e. relocate old new (de_path e)) (set (fst (dt_extract plat t old)))"
proof (rule inj_onI)
  fix x y
  assume xy: "x \<in> set (fst (dt_extract plat t old))" "y \<in> set (fst (dt_extract plat t old))"
    and eq: "relocate old new (de_path x) = relocate old new (de_path y)"
  from xy have "in_subtree (dir_sep plat) old (de_path x)" "in_subtree (dir_sep plat) old (de_path y)"
    using set_extracted [OF assms] by auto
  with eq have "de_path x = de_path y" by (metis relocate_back)
  with xy show "x = y" using inj_on_extracted [OF assms] by (meson inj_onD)
qed

lemma dt_rename_extract_restore:
  "dt_rename plat t old new =
    dt_restore (snd (dt_extract plat t old)) (fst (dt_extract plat t old)) old new"
proof -
  have "fold assign_entry (map (move_entry old new) es) m =
      fold (\<lambda>e. assign_entry (move_entry old new e)) es m" for es m
    by (induction es arbitrary: m) simp_all
  from this [of "map snd (filter (\<lambda>(key, e). in_tree_at plat old key) (dt_entries t))"]
  show ?thesis
    by (simp add: dt_rename_def dt_restore_def dt_extract_def Let_def split_def o_def)
qed

lemma dt_ok_rename [tree_ok]: "dt_ok t \<Longrightarrow> dt_ok (dt_rename plat t old new)"
  by (simp add: dt_rename_extract_restore tree_ok)

lemma dt_find_rename [tree_find]:
  assumes "dt_ok t"
  shows "dt_find (dt_rename plat t old new) q =
    (case (if in_subtree (dir_sep plat) new q then dt_find t (relocate new old q) else None) of
       Some e \<Rightarrow> Some (e\<lparr>de_path := q\<rparr>)
     | None \<Rightarrow> if in_subtree (dir_sep plat) old q then None else dt_find t q)"
proof -
  let ?es = "fst (dt_extract plat t old)" and ?t = "snd (dt_extract plat t old)"
  let ?sub = "in_subtree (dir_sep plat)"
  have ok: "dt_ok ?t" using assms by (rule dt_ok_extract)
  show ?thesis
  proof (cases "?sub new q \<and> dt_find t (relocate new old q) \<noteq> None")
    case True
    then obtain e where e: "dt_find t (relocate new old q) = Some e" and q: "?sub new q" by auto
    have p: "de_path e = relocate new old q" using dt_ok_path [OF assms e] .
    then have "relocate old new (de_path e) = q" using q by (simp add: relocate_back)
    moreover have "e \<in> set ?es"
      using e p q by (simp add: set_extracted [OF assms] relocate_in_subtree)
    ultimately have "dt_find (dt_rename plat t old new) q = Some (move_entry old new e)"
      using dt_find_restore [OF ok _ inj_on_relocate_extracted [OF assms], where e = e]
      by (metis dt_rename_extract_restore \<open>relocate old new (de_path e) = q\<close>)
    moreover have "move_entry old new e = e\<lparr>de_path := q\<rparr>"
      using \<open>relocate old new (de_path e) = q\<close> by (simp add: move_entry_def relocate_def)
    ultimately show ?thesis using e q by simp
  next
    case False
    have "q \<notin> (\<lambda>e. relocate old new (de_path e)) ` set ?es"
    proof
      assume "q \<in> (\<lambda>e. relocate old new (de_path e)) ` set ?es"
      then obtain e where "q = relocate old new (de_path e)" "e \<in> set ?es" by auto
      with False show False
        by (auto simp: set_extracted [OF assms] relocate_in_subtree relocate_back)
    qed
    with ok have "dt_find (dt_rename plat t old new) q = dt_find ?t q"
      by (simp add: dt_rename_extract_restore dt_find_restore_other)
    with False show ?thesis by (auto simp: tree_find split: option.split)
  qed
qed

lemma remove_entries_filter:
  "dt_entries (dt_remove plat t p) =
    filter (\<lambda>kv. \<not> (fst kv = p \<or>
      (\<exists>e. dt_find t p = Some e \<and> de_isDir e) \<and> under (dir_sep plat) p (fst kv))) (dt_entries t)"
proof (cases "\<exists>e. dt_find t p = Some e \<and> de_isDir e")
  case True
  then obtain e where "dt_find t p = Some e" "de_isDir e" by blast
  then show ?thesis
    by (simp add: dt_remove_def AList.delete_eq under_def split_def)
      (rule filter_cong, auto)
next
  case False
  then show ?thesis
    by (auto simp: dt_remove_def AList.delete_eq split_def split: option.split intro!: filter_cong)
qed

lemma dt_ok_remove [tree_ok]: "dt_ok t \<Longrightarrow> dt_ok (dt_remove plat t p)"
  by (simp add: dt_ok_def remove_entries_filter entries_ok_filter)

lemma dt_find_remove [tree_find]:
  "dt_find (dt_remove plat t p) q =
    (if q = p \<or> (\<exists>e. dt_find t p = Some e \<and> de_isDir e) \<and> under (dir_sep plat) p q
     then None else dt_find t q)"
  using map_of_filter_key [where P = "\<lambda>key. \<not> (key = p \<or>
      (\<exists>e. dt_find t p = Some e \<and> de_isDir e) \<and> under (dir_sep plat) p key)"
      and m = "dt_entries t" and k = q]
  by (simp only: dt_find_def [of "dt_remove plat t p"] remove_entries_filter)
    (auto simp: dt_find_def [of t q])

subsection \<open>Comparing two trees\<close>

lemma change_of_entry_ok [event_ok]: "el_ok l \<Longrightarrow> el_ok (change_of_entry s a l)"
  by (simp add: change_of_entry_def event_ok split: prod.split option.split)

lemma removal_of_entry_ok [event_ok]: "el_ok l \<Longrightarrow> el_ok (removal_of_entry t a l)"
  by (simp add: removal_of_entry_def event_ok split: prod.split)

lemma change_of_entry_other:
  "el_ok l \<Longrightarrow> de_path (snd a) = fst a \<Longrightarrow> p \<noteq> fst a \<Longrightarrow>
    find_event (change_of_entry s a l) (p, k) = find_event l (p, k)"
  by (cases a) (auto simp: change_of_entry_def event_find split: option.split)

lemma removal_of_entry_other:
  "el_ok l \<Longrightarrow> de_path (snd a) = fst a \<Longrightarrow> p \<noteq> fst a \<Longrightarrow>
    find_event (removal_of_entry t a l) (p, k) = find_event l (p, k)"
  by (cases a) (auto simp: removal_of_entry_def event_find)

lemma change_of_entry_cong:
  "el_ok l \<Longrightarrow> el_ok l' \<Longrightarrow> find_event l (p, k) = find_event l' (p, k) \<Longrightarrow>
    find_event (change_of_entry s a l) (p, k) = find_event (change_of_entry s a l') (p, k)"
  using event_at_cong [of l "(p, k)" l']
  by (cases a) (auto simp: change_of_entry_def event_find split: option.split)

lemma removal_of_entry_cong:
  "el_ok l \<Longrightarrow> el_ok l' \<Longrightarrow> find_event l (p, k) = find_event l' (p, k) \<Longrightarrow>
    find_event (removal_of_entry t a l) (p, k) = find_event (removal_of_entry t a l') (p, k)"
  using event_at_cong [of l "(p, k)" l']
  by (cases a) (auto simp: removal_of_entry_def event_find)

text \<open>A loop that touches each entry once: what it leaves at a path is one step's work.\<close>

lemma find_event_fold_entries:
  assumes ok: "\<And>a l. el_ok l \<Longrightarrow> el_ok (f a l)"
    and other: "\<And>a l p k. el_ok l \<Longrightarrow> de_path (snd a) = fst a \<Longrightarrow> p \<noteq> fst a \<Longrightarrow>
      find_event (f a l) (p, k) = find_event l (p, k)"
    and cong: "\<And>a l l' p k. el_ok l \<Longrightarrow> el_ok l' \<Longrightarrow> find_event l (p, k) = find_event l' (p, k) \<Longrightarrow>
      find_event (f a l) (p, k) = find_event (f a l') (p, k)"
  shows "el_ok l \<Longrightarrow> entries_ok m \<Longrightarrow>
    el_ok (fold f m l) \<and>
    find_event (fold f m l) (p, k) =
      (case map_of m p of None \<Rightarrow> find_event l (p, k) | Some e \<Rightarrow> find_event (f (p, e) l) (p, k))"
proof (induction m arbitrary: l)
  case Nil
  then show ?case by simp
next
  case (Cons a m)
  have a: "de_path (snd a) = fst a" and m: "entries_ok m" and new: "fst a \<notin> fst ` set m"
    using Cons.prems(2) by (auto simp: entries_ok_def um_ok_def)
  note IH = Cons.IH [OF ok [OF Cons.prems(1)] m, of a]
  show ?case
  proof (cases "p = fst a")
    case True
    with new have "map_of m p = None" by (simp add: map_of_eq_None_iff)
    with IH True show ?thesis by (cases a) simp
  next
    case False
    have "find_event (f (p, e) (f a l)) (p, k) = find_event (f (p, e) l) (p, k)" for e
      by (rule cong) (use Cons.prems(1) ok other [OF _ a] False in auto)
    with IH False Cons.prems(1) other [OF _ a] show ?thesis
      by (cases a) (simp split: option.split)
  qed
qed

lemma find_event_getChanges:
  assumes "el_ok l" "dt_ok t" "dt_ok s"
  shows "el_ok (dt_getChanges t s l) \<and> find_event (dt_getChanges t s l) (p, k) =
    (case (dt_find t p, dt_find s p) of
       (Some e, None) \<Rightarrow> find_event (el_create l p (entryKind (de_isDir e))) (p, k)
     | (Some e, Some e') \<Rightarrow>
         if de_mtime e' \<noteq> de_mtime e \<and> \<not> de_isDir e' \<and> \<not> de_isDir e
         then find_event (el_update l p File) (p, k) else find_event l (p, k)
     | (None, Some e) \<Rightarrow> find_event (el_remove l p (entryKind (de_isDir e))) (p, k)
     | (None, None) \<Rightarrow> find_event l (p, k))"
proof -
  let ?l = "fold (change_of_entry s) (dt_entries t) l"
  have 1: "el_ok ?l \<and> find_event ?l (p, k) =
      (case dt_find t p of None \<Rightarrow> find_event l (p, k)
       | Some e \<Rightarrow> find_event (change_of_entry s (p, e) l) (p, k))"
    using assms unfolding dt_find_def
    by (intro find_event_fold_entries)
      (auto simp: dt_ok_def event_ok change_of_entry_other intro: change_of_entry_cong)
  moreover have 2: "el_ok (dt_getChanges t s l) \<and> find_event (dt_getChanges t s l) (p, k) =
      (case dt_find s p of None \<Rightarrow> find_event ?l (p, k)
       | Some e \<Rightarrow> find_event (removal_of_entry t (p, e) ?l) (p, k))"
    using assms 1 unfolding dt_find_def dt_getChanges_def
    by (intro find_event_fold_entries)
      (auto simp: dt_ok_def event_ok removal_of_entry_other intro: removal_of_entry_cong)
  moreover have "find_event (el_remove ?l p x) (p, k) = find_event (el_remove l p x) (p, k)"
    if "find_event ?l (p, k) = find_event l (p, k)" for x
    using that 1 assms(1) event_at_cong [OF that] by (cases "k = x") (simp_all add: event_find)
  ultimately show ?thesis
    using dt_ok_path [OF assms(2), of p] dt_ok_path [OF assms(3), of p]
    by (auto simp: change_of_entry_def removal_of_entry_def split: option.split)
qed

subsection \<open>Reading back what was written\<close>

lemma isdigit_char_of: "d < 10 \<Longrightarrow> isdigit (char_of (48 + d :: nat))"
  by (simp add: isdigit_def of_char_of)

lemma decimal_digits: "c \<in> set (decimal n) \<Longrightarrow> isdigit c"
proof (induction n rule: decimal.induct)
  case (1 n)
  show ?case
  proof (cases "n < 10")
    case True
    with 1 isdigit_char_of [of n] show ?thesis by (simp add: decimal.simps [of n])
  next
    case False
    with 1 isdigit_char_of [of "n mod 10"] show ?thesis by (auto simp: decimal.simps [of n])
  qed
qed

lemma decimal_not_Nil [simp]: "decimal n \<noteq> []"
  by (subst decimal.simps) simp

lemma digits_value_snoc: "digits_value (ds @ [c]) = 10 * digits_value ds + (of_char c - 48)"
  by (simp add: digits_value_def)

lemma digits_value_decimal [simp]: "digits_value (decimal n) = n"
proof (induction n rule: decimal.induct)
  case (1 n)
  show ?case
  proof (cases "n < 10")
    case True
    then show ?thesis by (simp add: decimal.simps [of n] digits_value_def of_char_of)
  next
    case False
    with 1 have "digits_value (decimal (n div 10)) = n div 10" by simp
    moreover have "of_char (char_of (48 + n mod 10) :: char) - 48 = n mod 10"
      by (simp add: of_char_of)
    ultimately show ?thesis
      using False by (simp add: decimal.simps [of n] digits_value_snoc)
  qed
qed

lemma not_space_digit: "isdigit c \<Longrightarrow> \<not> isspace c"
  by (auto simp: isdigit_def isspace_def)

lemma not_sign_digit: "isdigit c \<Longrightarrow> c \<noteq> CHR ''-'' \<and> c \<noteq> CHR ''+''"
  by (auto simp: isdigit_def)

lemma decimal_Cons: "\<exists>c r. decimal n = c # r \<and> isdigit c"
proof (cases "decimal n")
  case (Cons c r)
  then show ?thesis using decimal_digits [of c n] by simp
qed simp

lemma skip_space_decimal:
  "(\<forall>c \<in> set ws. isspace c) \<Longrightarrow> skip_space (ws @ decimal n @ rest) = decimal n @ rest"
  using decimal_Cons [of n] by (auto simp: skip_space_def dropWhile_append3 not_space_digit)

lemma scan_sign_decimal: "scan_sign (decimal n @ rest) = (False, decimal n @ rest)"
  using decimal_Cons [of n] by (auto simp: scan_sign_def not_sign_digit)

lemma takeWhile_decimal:
  "rest = [] \<or> \<not> isdigit (hd rest) \<Longrightarrow>
    takeWhile isdigit (decimal n @ rest) = decimal n \<and> dropWhile isdigit (decimal n @ rest) = rest"
  by (cases rest) (auto simp: takeWhile_append2 dropWhile_append2 decimal_digits)

lemma scan_unsigned_decimal:
  "(\<forall>c \<in> set ws. isspace c) \<Longrightarrow> rest = [] \<or> \<not> isdigit (hd rest) \<Longrightarrow> n < 2 ^ 64 \<Longrightarrow>
    scan_unsigned (ws @ decimal n @ rest) = (Some (of_nat n), rest)"
  by (simp add: scan_unsigned_def skip_space_decimal scan_sign_decimal takeWhile_decimal)

text \<open>An entry that \<open>write\<close> can represent: a path without NUL, neither empty nor too long.\<close>

definition printable :: "dir_entry \<Rightarrow> bool" where
  "printable e \<longleftrightarrow> de_path e \<noteq> [] \<and> CHR 0x00 \<notin> set (de_path e) \<and> length (de_path e) < 2 ^ 64"

lemma c_str_id: "CHR 0x00 \<notin> set s \<Longrightarrow> c_str s = s"
  by (auto simp: c_str_def takeWhile_eq_all_conv)

lemma unat_of_nat64: "n < 2 ^ 64 \<Longrightarrow> unat (of_nat n :: u64) = n"
  by (simp add: unat_of_nat)

lemma de_read_write:
  assumes "printable e" and ws: "\<forall>c \<in> set ws. isspace c"
  shows "de_read (ws @ de_write e @ rest) = (e, skip_space rest)"
proof -
  let ?tail = "decimal (unat (de_mtime e)) @ '' '' @ (if de_isDir e then ''1'' else ''0'')
      @ [CHR 0x0A] @ rest"
  let ?n = "length (de_path e)"
  have n: "?n < 2 ^ 64" and path: "c_str (de_path e) = de_path e"
    using assms(1) by (auto simp: printable_def c_str_id)
  have mt: "unat (de_mtime e) < 2 ^ 64" using unsigned_less [of "de_mtime e"] by simp
  have 1: "scan_unsigned (ws @ de_write e @ rest) = (Some (of_nat ?n), '':'' @ de_path e @ ?tail)"
    using scan_unsigned_decimal [OF ws, of "'':'' @ de_path e @ ?tail" ?n] n
    by (simp add: de_write_def path isdigit_def)
  have 2: "scan_unsigned ?tail = (Some (de_mtime e), '' '' @ (if de_isDir e then ''1'' else ''0'')
      @ [CHR 0x0A] @ rest)"
    using scan_unsigned_decimal [of "[]" "'' '' @ (if de_isDir e then ''1'' else ''0'')
      @ [CHR 0x0A] @ rest" "unat (de_mtime e)"] mt
    by (simp add: isdigit_def)
  have 3: "scan_int (skip_space ('' '' @ (if de_isDir e then ''1'' else ''0'') @ [CHR 0x0A] @ rest)) =
      (Some (if de_isDir e then 1 else 0), CHR 0x0A # rest)"
    by (simp add: scan_int_def skip_space_def isspace_def scan_sign_def isdigit_def digits_value_def)
  have 4: "skip_space (CHR 0x0A # rest) = skip_space rest"
    by (simp add: skip_space_def isspace_def)
  from 1 2 3 4 n show ?thesis
    by (simp add: de_read_def unat_of_nat64)
qed

lemma skip_space_writes: "skip_space (concat (map de_write es)) = concat (map de_write es)"
  using skip_space_decimal [of "[]"] by (cases es) (simp_all add: de_write_def skip_space_def)

lemma read_entries_writes:
  "(\<forall>e \<in> set es. printable e) \<Longrightarrow> (\<forall>c \<in> set ws. isspace c) \<Longrightarrow>
    read_entries (length es) (ws @ concat (map de_write es)) m = fold emplace_entry es m"
proof (induction es arbitrary: ws m)
  case Nil
  then show ?case by simp
next
  case (Cons e es)
  then have "read_entries (length es) ([] @ concat (map de_write es)) (emplace_entry e m) =
      fold emplace_entry es (emplace_entry e m)"
    by (intro Cons.IH) simp_all
  with Cons.prems show ?case
    by (simp add: de_read_write skip_space_writes printable_def)
qed

lemma update_new_key: "k \<notin> fst ` set m \<Longrightarrow> AList.update k v m = m @ [(k, v)]"
  by (induction m) auto

lemma fold_emplace_new:
  "um_ok (m @ es) \<Longrightarrow> (\<forall>(k, e) \<in> set es. de_path e = k) \<Longrightarrow>
    fold emplace_entry (map snd es) m = m @ es"
proof (induction es arbitrary: m)
  case Nil
  then show ?case by simp
next
  case (Cons a es)
  then have "fst a \<notin> fst ` set m" and "de_path (snd a) = fst a" by (auto simp: um_ok_def)
  moreover from this have "map_of m (fst a) = None" by (simp add: map_of_eq_None_iff)
  ultimately have "emplace_entry (snd a) m = m @ [a]"
    by (cases a) (simp add: emplace_entry_def update_new_key)
  with Cons.IH [of "m @ [a]"] Cons.prems show ?case by simp
qed

subsection \<open>Properties\<close>

text \<open>
  C27. Renaming a directory moves its subtree and nothing else: an entry found below the new
  path is the one that was at the corresponding place below the old path, with its time and
  kind, the old subtree is gone, and every other entry (including what the target already
  held at other places) is as before. The result is again a tree whose entries are stored
  under their own paths.
\<close>

theorem tree_rename_moves_subtree:
  assumes "dt_ok t"
  shows "dt_ok (dt_rename plat t old new) \<and>
    dt_find (dt_rename plat t old new) q =
      (case (if in_subtree (dir_sep plat) new q then dt_find t (relocate new old q) else None) of
         Some e \<Rightarrow> Some (e\<lparr>de_path := q\<rparr>)
       | None \<Rightarrow> if in_subtree (dir_sep plat) old q then None else dt_find t q)"
  using assms by (simp add: tree_ok dt_find_rename)

text \<open>A small tree for the witnesses: the root, a directory with a file in it, and a file.\<close>

definition sample_tree :: dir_tree where
  "sample_tree = dt_add (dt_add (dt_add (dt_add (dt_new ''/w'') ''/w'' 1 True) ''/w/d'' 2 True)
     ''/w/d/f'' 3 False) ''/w/g'' 4 False"

lemma dt_ok_sample: "dt_ok sample_tree"
  by (simp add: sample_tree_def tree_ok)

lemma sample_entries: "dt_entries sample_tree =
  [(''/w'', new_entry ''/w'' 1 True), (''/w/d'', new_entry ''/w/d'' 2 True),
   (''/w/d/f'', new_entry ''/w/d/f'' 3 False), (''/w/g'', new_entry ''/w/g'' 4 False)]"
  by (simp add: sample_tree_def dt_add_def dt_new_def emplace_entry_def new_entry_def)

lemma tree_rename_moves_subtree_witness:
  "dt_find (dt_rename Linux sample_tree ''/w/d'' ''/w/e'') ''/w/e/f'' = Some (new_entry ''/w/e/f'' 3 False)"
  using tree_rename_moves_subtree [OF dt_ok_sample, of Linux "''/w/d''" "''/w/e''" "''/w/e/f''"]
  by (simp add: in_subtree_def under_def relocate_def dt_find_def sample_entries new_entry_def)

text \<open>
  A rename can be undone: if nothing was below the new path, renaming there and back
  leaves every lookup as it was.
\<close>

theorem tree_rename_roundtrip:
  assumes "dt_ok t" and "\<And>q. in_subtree (dir_sep plat) new q \<Longrightarrow> dt_find t q = None"
  shows "dt_find (dt_rename plat (dt_rename plat t old new) new old) p = dt_find t p"
proof -
  let ?sub = "in_subtree (dir_sep plat)"
  have ok: "dt_ok (dt_rename plat t old new)" using assms(1) by (rule dt_ok_rename)
  show ?thesis
  proof (cases "?sub old p")
    case True
    then have "?sub new (relocate old new p)" "relocate new old (relocate old new p) = p"
      by (auto simp: path_simps)
    with True assms(2) [of p] dt_ok_path [OF assms(1), of p] assms(2) [OF this(1)] show ?thesis
      by (auto simp: dt_find_rename [OF ok] dt_find_rename [OF assms(1)] split: option.split)
  next
    case False
    with assms(2) [of p] show ?thesis
      by (auto simp: dt_find_rename [OF ok] dt_find_rename [OF assms(1)] split: option.split)
  qed
qed

lemma sample_nothing_below: "in_subtree CHR 0x2F ''/w/e'' q \<Longrightarrow> dt_find sample_tree q = None"
  by (auto simp: in_subtree_def under_iff dt_find_def sample_entries)

lemma tree_rename_roundtrip_witness:
  "dt_find (dt_rename Linux (dt_rename Linux sample_tree ''/w/d'' ''/w/e'') ''/w/e'' ''/w/d'') ''/w/d/f''
    = Some (new_entry ''/w/d/f'' 3 False)"
  using tree_rename_roundtrip [OF dt_ok_sample, of Linux "''/w/e''" "''/w/d''" "''/w/d/f''"]
  by (simp add: sample_nothing_below) (simp add: dt_find_def sample_entries)

text \<open>
  \<open>rename\<close> is \<open>extract\<close> followed by \<open>restore\<close>, on every tree: the two routes by which the
  backends move a subtree (at once, or with the entries held while a move waits for its
  second half) leave the same tree.
\<close>

theorem tree_rename_is_extract_restore:
  "dt_rename plat t old new =
    (let (entries, rest) = dt_extract plat t old in dt_restore rest entries old new)"
  by (simp add: dt_rename_extract_restore split_def Let_def)

text \<open>
  C29. Comparing a tree with an older snapshot reports every path exactly once and correctly:
  new paths as creations, missing paths as deletions, files whose modification time differs
  as updates, each with the kind of the entry; a path present in both trees is otherwise
  silent, even when its kind has changed.
\<close>

theorem tree_changes_exact:
  assumes "dt_ok t" and "dt_ok snapshot"
  shows "map_option event_type (batch_find (fst (el_drain (dt_getChanges t snapshot el_empty))) (p, k)) =
    (case (dt_find t p, dt_find snapshot p) of
       (Some e, None) \<Rightarrow> if k = entryKind (de_isDir e) then Some ''create'' else None
     | (None, Some e) \<Rightarrow> if k = entryKind (de_isDir e) then Some ''delete'' else None
     | (Some e, Some e') \<Rightarrow>
         if k = File \<and> de_mtime e \<noteq> de_mtime e' \<and> \<not> de_isDir e \<and> \<not> de_isDir e'
         then Some ''update'' else None
     | (None, None) \<Rightarrow> None)"
  using find_event_getChanges [OF el_ok_empty assms, of p k]
  by (auto simp: batch_find_drain event_find event_at_def reported_def event_type_def on_create_def
      on_remove_def split: option.split)

lemma tree_changes_exact_witness:
  "map_option event_type (batch_find (fst (el_drain (dt_getChanges
      (dt_rename Linux sample_tree ''/w/d'' ''/w/e'') sample_tree el_empty))) (''/w/d/f'', File))
    = Some ''delete''"
proof -
  have "dt_find (dt_rename Linux sample_tree ''/w/d'' ''/w/e'') ''/w/d/f'' = None"
    by (simp add: dt_find_rename [OF dt_ok_sample] in_subtree_def under_def)
  moreover have "dt_find sample_tree ''/w/d/f'' = Some (new_entry ''/w/d/f'' 3 False)"
    by (simp add: dt_find_def sample_entries)
  ultimately show ?thesis
    using tree_changes_exact [OF dt_ok_rename [OF dt_ok_sample] dt_ok_sample,
        of Linux "''/w/d''" "''/w/e''" "''/w/d/f''" File]
    by (simp add: new_entry_def)
qed

text \<open>
  C30. Serialization round trip: reading back what \<open>write\<close> printed gives the same entries in
  the same order, for every tree whose paths are non-empty and free of NUL, whatever digits,
  colons, blanks or line ends they contain.
\<close>

theorem tree_write_read:
  assumes "dt_ok t" and "\<forall>(p, e) \<in> set (dt_entries t). printable e"
    and "length (dt_entries t) < 2 ^ 64"
  shows "dt_read root (dt_write t) =
    \<lparr>dt_root = root, isComplete = True, dt_entries = dt_entries t\<rparr>"
proof -
  let ?es = "map snd (dt_entries t)"
  have body: "concat (map (\<lambda>(key, e). de_write e) (dt_entries t)) = concat (map de_write ?es)"
    by (simp add: split_def o_def)
  have "scan_unsigned (dt_write t) =
      (Some (of_nat (length (dt_entries t))), [CHR 0x0A] @ concat (map de_write ?es))"
    using scan_unsigned_decimal [of "[]" "[CHR 0x0A] @ concat (map de_write ?es)"
        "length (dt_entries t)"] assms(3)
    by (simp add: dt_write_def body isdigit_def)
  moreover have "read_entries (length ?es) ([CHR 0x0A] @ concat (map de_write ?es)) [] =
      fold emplace_entry ?es []"
    using assms(2) by (intro read_entries_writes) (auto simp: isspace_def)
  moreover have "fold emplace_entry ?es [] = dt_entries t"
    using fold_emplace_new [of "[]" "dt_entries t"] assms(1) by (simp add: dt_ok_def entries_ok_def)
  ultimately show ?thesis
    using assms(3) by (simp add: dt_read_def unat_of_nat64)
qed

lemma tree_write_read_witness:
  "dt_read ''root'' (dt_write (dt_add (dt_new ''x'') ''7:re port'' 45 False)) =
    \<lparr>dt_root = ''root'', isComplete = True,
     dt_entries = [(''7:re port'', new_entry ''7:re port'' 45 False)]\<rparr>"
proof -
  let ?t = "dt_add (dt_new ''x'') ''7:re port'' 45 False"
  have "dt_entries ?t = [(''7:re port'', new_entry ''7:re port'' 45 False)]"
    by (simp add: dt_add_def dt_new_def emplace_entry_def new_entry_def)
  with tree_write_read [of ?t "''root''"] show ?thesis
    by (simp add: tree_ok printable_def new_entry_def)
qed

end
