(* ===== verification/CaseSense.thy ===== *)
theory CaseSense
  imports Prelude
begin

section \<open>Case sensitivity of a directory (src/CaseSensitivity.hh, src/CaseSensitivity.cc)\<close>

text \<open>
  The query asks the operating system, in a different way on each platform. The system calls
  are the fields of \<open>case_os\<close>: an error number on the left or the data the code reads on the
  right. The descriptor or handle that is opened and closed in between carries no further
  information, so a call on it is a call on the path.
\<close>

datatype sensitivity = Sensitive | Insensitive | Unknown

datatype errno =
    ENOENT | ENOTDIR | ELOOP | ENOTTY | EOPNOTSUPP | EINVAL | ENOSYS | EACCES | EAGAIN
  | EOther nat

text \<open>Windows error codes, with the numbers of the Windows headers.\<close>

definition ERROR_FILE_NOT_FOUND :: nat where "ERROR_FILE_NOT_FOUND = 2"

definition ERROR_PATH_NOT_FOUND :: nat where "ERROR_PATH_NOT_FOUND = 3"

definition ERROR_NOT_SUPPORTED :: nat where "ERROR_NOT_SUPPORTED = 50"

definition ERROR_INVALID_PARAMETER :: nat where "ERROR_INVALID_PARAMETER = 87"

definition ERROR_CALL_NOT_IMPLEMENTED :: nat where "ERROR_CALL_NOT_IMPLEMENTED = 120"

definition ERROR_DIRECTORY :: nat where "ERROR_DIRECTORY = 267"

record case_os =
  getattrlist :: "string \<Rightarrow> errno + u32 \<times> u32"  \<comment> \<open>valid and capability bits of the volume format\<close>
  createFile :: "string \<Rightarrow> nat + unit"
  getFileInfo :: "string \<Rightarrow> nat + u32"
  openDirectory :: "string \<Rightarrow> errno + unit"
  ioctlGetFlags :: "string \<Rightarrow> errno + u32"
  strerror :: "errno \<Rightarrow> string"
  decimal_of :: "nat \<Rightarrow> string"

definition isUnavailableError :: "platform \<Rightarrow> errno \<Rightarrow> bool" where
  "isUnavailableError plat e \<longleftrightarrow>
     (if plat = MacOS
      then e = ENOENT \<or> e = ENOTDIR \<or> e = EOPNOTSUPP \<or> e = ENOSYS \<or> e = EINVAL
      else e = ENOENT \<or> e = ENOTDIR \<or> e = ELOOP \<or> e = ENOTTY \<or> e = EOPNOTSUPP \<or> e = EINVAL)"

definition VOL_CAP_FMT_CASE_SENSITIVE :: u32 where "VOL_CAP_FMT_CASE_SENSITIVE = 0x100"

definition FILE_CS_FLAG_CASE_SENSITIVE_DIR :: u32 where "FILE_CS_FLAG_CASE_SENSITIVE_DIR = 1"

definition FS_CASEFOLD_FL :: u32 where "FS_CASEFOLD_FL = 0x40000000"

definition unable :: "string \<Rightarrow> string" where
  "unable p = ''Unable to determine directory case sensitivity for '' @ p"

unbundle bit_operations_syntax

fun directoryCaseSensitivity :: "platform \<Rightarrow> case_os \<Rightarrow> string \<Rightarrow> string + sensitivity" where
  "directoryCaseSensitivity MacOS os p =
     (case getattrlist os p of
        Inl e \<Rightarrow>
          if isUnavailableError MacOS e then Inr Unknown
          else Inl (unable p @ '': '' @ strerror os e)
      | Inr (valid, capabilities) \<Rightarrow>
          if valid AND VOL_CAP_FMT_CASE_SENSITIVE = 0 then Inr Unknown
          else if capabilities AND VOL_CAP_FMT_CASE_SENSITIVE \<noteq> 0 then Inr Sensitive
          else Inr Insensitive)"
| "directoryCaseSensitivity Windows os p =
     (case createFile os p of
        Inl e \<Rightarrow>
          if e = ERROR_FILE_NOT_FOUND \<or> e = ERROR_PATH_NOT_FOUND \<or> e = ERROR_DIRECTORY
          then Inr Unknown
          else Inl (unable p @ '' (Windows error '' @ decimal_of os e @ '')'')
      | Inr _ \<Rightarrow>
          (case getFileInfo os p of
             Inl e \<Rightarrow>
               if e = ERROR_INVALID_PARAMETER \<or> e = ERROR_NOT_SUPPORTED \<or>
                  e = ERROR_CALL_NOT_IMPLEMENTED
               then Inr Unknown
               else Inl (unable p @ '' (Windows error '' @ decimal_of os e @ '')'')
           | Inr flags \<Rightarrow>
               if flags AND FILE_CS_FLAG_CASE_SENSITIVE_DIR \<noteq> 0 then Inr Sensitive
               else Inr Insensitive))"
| "directoryCaseSensitivity Linux os p =
     (case openDirectory os p of
        Inl e \<Rightarrow>
          if isUnavailableError Linux e then Inr Unknown
          else Inl (unable p @ '': '' @ strerror os e)
      | Inr _ \<Rightarrow>
          (case ioctlGetFlags os p of
             Inl e \<Rightarrow>
               if isUnavailableError Linux e then Inr Unknown
               else Inl (unable p @ '': '' @ strerror os e)
           | Inr flags \<Rightarrow>
               if flags AND FS_CASEFOLD_FL \<noteq> 0 then Inr Insensitive else Inr Sensitive))"

end
