(* ===== verification/Wildcards.thy ===== *)
theory Wildcards
  imports CaseSense
begin

section \<open>Matching one component of a glob (src/Glob.cc, lines 19 to 277)\<close>

text \<open>
  The helpers of \<open>Glob.cc\<close> up to \<open>componentMatchesFolded\<close>, with a declarative description of
  what they decide: \<open>wild\<close>, a match in which a star stands for any run of elements. The same
  description serves bytes (one \<open>*\<close> in a component), UTF-8 characters, and whole components
  of a path (\<open>**\<close>).
  The functions of CoreFoundation and of the Windows API that fold case are parameters:
  \<open>cf_fold\<close> is the result of folding and normalizing a string, or nothing where the library
  fails, \<open>native_equal\<close> is the platform's comparison without case of strings that are not
  ASCII: \<open>CompareStringOrdinal\<close> on Windows, \<open>CFStringCompare\<close> on macOS.
  \<open>string_hash\<close> is the library's \<open>std::hash<std::string>\<close>.
\<close>

record text_env =
  te_platform :: platform
  cf_fold :: "string \<Rightarrow> string option"
  native_equal :: "string \<Rightarrow> string \<Rightarrow> bool"
  string_hash :: "string \<Rightarrow> u64"

subsection \<open>The declarative match\<close>

fun wild :: "('p \<Rightarrow> bool) \<Rightarrow> ('p \<Rightarrow> 'v \<Rightarrow> bool) \<Rightarrow> 'p list \<Rightarrow> 'v list \<Rightarrow> bool" where
  "wild star eq [] vs \<longleftrightarrow> vs = []"
| "wild star eq (p # ps) [] \<longleftrightarrow> star p \<and> wild star eq ps []"
| "wild star eq (p # ps) (v # vs) \<longleftrightarrow>
     (if star p then wild star eq ps (v # vs) \<or> wild star eq (p # ps) vs
      else eq p v \<and> wild star eq ps vs)"

subsection \<open>Bytes\<close>

abbreviation byte :: "char \<Rightarrow> nat" where
  "byte c \<equiv> of_char c"

definition isAsciiString :: "string \<Rightarrow> bool" where
  "isAsciiString value \<longleftrightarrow> (\<forall>c \<in> set value. byte c < 0x80)"

text \<open>\<open>if (ch >= 'A' && ch <= 'Z') ch += 'a' - 'A'\<close>\<close>

definition ascii_lower :: "char \<Rightarrow> char" where
  "ascii_lower c = (if 65 \<le> byte c \<and> byte c \<le> 90 then char_of (byte c + 32) else c)"

definition toAsciiLower :: "string \<Rightarrow> string" where
  "toAsciiLower value = map ascii_lower value"

definition equalsAsciiLower :: "string \<Rightarrow> string \<Rightarrow> bool" where
  "equalsAsciiLower lowerPattern value \<longleftrightarrow>
     length lowerPattern = length value \<and>
     list_all2 (\<lambda>l v. l = ascii_lower v) lowerPattern value"

text \<open>
  The loop of \<open>matchWildcardAscii\<close>, with its four variables; \<open>star = npos\<close> is \<open>None\<close>. The three
  \<open>continue\<close> statements are the three recursive calls. A byte match consumes a byte, a star
  moves the last star to the right, a retry moves the position of its match to the right.
\<close>

definition bytes_equal :: "bool \<Rightarrow> char \<Rightarrow> char \<Rightarrow> bool" where
  "bytes_equal ignoreCase pc vc \<longleftrightarrow>
     (if ignoreCase then ascii_lower pc = ascii_lower vc else pc = vc)"

function wildcard_loop ::
  "string \<Rightarrow> string \<Rightarrow> bool \<Rightarrow> nat \<Rightarrow> nat \<Rightarrow> nat option \<Rightarrow> nat \<Rightarrow> nat option" where
  "wildcard_loop pat val ignoreCase p v star mtch =
     (if \<not> v < length val then Some p
      else if p < length pat \<and> pat ! p \<noteq> CHR ''*'' \<and> bytes_equal ignoreCase (pat ! p) (val ! v)
      then wildcard_loop pat val ignoreCase (p + 1) (v + 1) star mtch
      else if p < length pat \<and> pat ! p = CHR ''*''
      then wildcard_loop pat val ignoreCase (p + 1) v (Some p) v
      else
        (case star of
           Some s \<Rightarrow> wildcard_loop pat val ignoreCase (s + 1) (mtch + 1) star (mtch + 1)
         | None \<Rightarrow> None))"
  by pat_completeness auto

definition star_measure :: "string \<Rightarrow> nat \<Rightarrow> nat option \<Rightarrow> nat" where
  "star_measure pat p star =
     (case star of
        None \<Rightarrow> length pat + 1
      | Some s \<Rightarrow> if s < p then length pat - s else length pat + 2)"

termination wildcard_loop
  by (relation "measures
      [\<lambda>(pat, val, ic, p, v, star, m). star_measure pat p star,
       \<lambda>(pat, val, ic, p, v, star, m). Suc (length val) - m,
       \<lambda>(pat, val, ic, p, v, star, m). length val - v]")
    (auto simp: star_measure_def split: option.splits)

declare wildcard_loop.simps [simp del]

text \<open>\<open>None\<close> is the \<open>return false\<close> of the loop; \<open>Some p\<close> leaves it with that pattern position.\<close>

definition matchWildcardAscii :: "string \<Rightarrow> string \<Rightarrow> bool \<Rightarrow> bool" where
  "matchWildcardAscii pat val ignoreCase =
     (case wildcard_loop pat val ignoreCase 0 0 None 0 of
        None \<Rightarrow> False
      | Some p \<Rightarrow> p + length (takeWhile (\<lambda>c. c = CHR ''*'') (drop p pat)) = length pat)"

fun collapse_from :: "string \<Rightarrow> string \<Rightarrow> string" where
  "collapse_from result [] = result"
| "collapse_from result (ch # chs) =
     (if ch = CHR ''*'' \<and> result \<noteq> [] \<and> last result = CHR ''*'' then collapse_from result chs
      else collapse_from (result @ [ch]) chs)"

definition collapseStars :: "string \<Rightarrow> string" where
  "collapseStars value = collapse_from [] value"

text \<open>\<open>cur\<close> is \<open>path.substr(start, index - start)\<close>: the component read so far.\<close>

fun components_from :: "string \<Rightarrow> string \<Rightarrow> string list" where
  "components_from cur [] = [cur]"
| "components_from cur (c # cs) =
     (if c = CHR ''/'' then cur # components_from [] cs else components_from (cur @ [c]) cs)"

definition components :: "string \<Rightarrow> string list" where
  "components path = (if path = [] then [] else components_from [] path)"

subsection \<open>Case folding\<close>

definition equal_ascii_case :: "string \<Rightarrow> string \<Rightarrow> bool" where
  "equal_ascii_case left right \<longleftrightarrow>
     length left = length right \<and> list_all2 (\<lambda>a b. ascii_lower a = ascii_lower b) left right"

definition equalIgnoringCase :: "text_env \<Rightarrow> string \<Rightarrow> string \<Rightarrow> bool" where
  "equalIgnoringCase env left right =
     (if te_platform env = Windows
      then if isAsciiString left \<and> isAsciiString right then equal_ascii_case left right
           else native_equal env left right
      else equal_ascii_case left right)"

definition foldedComponent :: "text_env \<Rightarrow> string \<Rightarrow> string" where
  "foldedComponent env value =
     (if isAsciiString value then toAsciiLower value
      else (case cf_fold env value of None \<Rightarrow> value | Some folded \<Rightarrow> folded))"

subsection \<open>UTF-8 characters\<close>

definition continuation :: "string \<Rightarrow> nat \<Rightarrow> bool" where
  "continuation s i \<longleftrightarrow> i < length s \<and> 0x80 \<le> byte (s ! i) \<and> byte (s ! i) < 0xC0"

text \<open>
  The length of the character at the start of \<open>s\<close>, the rest of the value: 1 for a byte that
  does not start a well-formed sequence. \<open>(b & 0xc0) == 0x80\<close> says that \<open>b\<close> lies between 0x80
  and 0xbf.
\<close>

definition character_length :: "string \<Rightarrow> nat" where
  "character_length s =
     (let first = byte (s ! 0) in
      if 0xC2 \<le> first \<and> first \<le> 0xDF \<and> continuation s 1 then 2
      else if 0xE0 \<le> first \<and> first \<le> 0xEF \<and> continuation s 1 \<and> continuation s 2 \<and>
          \<not> (first = 0xE0 \<and> byte (s ! 1) < 0xA0) \<and> \<not> (first = 0xED \<and> 0xA0 \<le> byte (s ! 1)) then 3
      else if 0xF0 \<le> first \<and> first \<le> 0xF4 \<and> continuation s 1 \<and> continuation s 2 \<and>
          continuation s 3 \<and>
          \<not> (first = 0xF0 \<and> byte (s ! 1) < 0x90) \<and> \<not> (first = 0xF4 \<and> 0x90 \<le> byte (s ! 1)) then 4
      else 1)"

lemma character_length_bounds: "1 \<le> character_length s \<and> character_length s \<le> 4"
  by (simp add: character_length_def Let_def)

function utf8Characters :: "string \<Rightarrow> string list" where
  "utf8Characters s =
     (if s = [] then []
      else take (character_length s) s # utf8Characters (drop (character_length s) s))"
  by pat_completeness auto
termination utf8Characters
proof (relation "measure length", goal_cases)
  case (2 s)
  then show ?case using character_length_bounds [of s] by (cases s) auto
qed simp

declare utf8Characters.simps [simp del]

text \<open>
  The table of \<open>matchWildcardUtf8\<close>, a row per pattern character from the last to the first.
  \<open>current\<close> starts all false, and a false cell is left as it is.
\<close>

definition utf8_cell_equal :: "text_env \<Rightarrow> bool \<Rightarrow> string \<Rightarrow> string \<Rightarrow> bool" where
  "utf8_cell_equal env ignoreCase pc vc =
     (if te_platform env = MacOS then pc = vc
      else if ignoreCase then equalIgnoringCase env pc vc
      else pc = vc)"

definition utf8_cell ::
  "text_env \<Rightarrow> bool \<Rightarrow> string list \<Rightarrow> string \<Rightarrow> bool list \<Rightarrow> nat \<Rightarrow> bool list \<Rightarrow> bool list" where
  "utf8_cell env ignoreCase valueChars patternChar next valueIndex current =
     (if patternChar = ''*'' then
        current[valueIndex := next ! valueIndex \<or>
          (valueIndex < length valueChars \<and> current ! (valueIndex + 1))]
      else if valueIndex < length valueChars \<and>
          utf8_cell_equal env ignoreCase patternChar (valueChars ! valueIndex) then
        current[valueIndex := next ! (valueIndex + 1)]
      else current)"

definition matchWildcardUtf8 :: "text_env \<Rightarrow> string list \<Rightarrow> string \<Rightarrow> bool \<Rightarrow> bool" where
  "matchWildcardUtf8 env patternChars value ignoreCase =
     (let valueChars = utf8Characters value; n = length valueChars;
          last_row = (replicate (n + 1) False)[n := True];
          first_row = down_loop
            (\<lambda>patternIndex next.
               down_loop (utf8_cell env ignoreCase valueChars (patternChars ! patternIndex) next)
                 (n + 1) (replicate (n + 1) False))
            (length patternChars) last_row
      in first_row ! 0)"

subsection \<open>Compiled components\<close>

record glob_component =
  gc_raw :: string
  gc_folded :: string
  gc_chars :: "string list"
  gc_foldedChars :: "string list"
  isDoubleStar :: bool
  isSingleStar :: bool
  hasWildcard :: bool
  isAscii :: bool
  isFoldedAscii :: bool

text \<open>The body of the constructor's loop, for one component.\<close>

definition compile_component :: "text_env \<Rightarrow> string \<Rightarrow> glob_component" where
  "compile_component env part =
     (let double = (part = ''**'');
          wildcard = (CHR ''*'' \<in> set part);
          raw = (if wildcard \<and> \<not> double then collapseStars part else part);
          single = (wildcard \<and> \<not> double \<and> raw = ''*'');
          folded = (if te_platform env = MacOS then foldedComponent env raw
                    else if isAsciiString raw then toAsciiLower raw else raw);
          split = (wildcard \<and> \<not> double \<and> \<not> single)
      in \<lparr>gc_raw = raw, gc_folded = folded,
          gc_chars = (if split then utf8Characters raw else []),
          gc_foldedChars = (if split then utf8Characters folded else []),
          isDoubleStar = double, isSingleStar = single, hasWildcard = wildcard,
          isAscii = isAsciiString raw, isFoldedAscii = isAsciiString folded\<rparr>)"

definition componentMatchesExact :: "text_env \<Rightarrow> glob_component \<Rightarrow> string \<Rightarrow> bool" where
  "componentMatchesExact env part value =
     (if isSingleStar part then True
      else if \<not> hasWildcard part then gc_raw part = value
      else if isAscii part \<and> isAsciiString value then matchWildcardAscii (gc_raw part) value False
      else matchWildcardUtf8 env (gc_chars part) value False)"

definition componentMatchesFolded :: "text_env \<Rightarrow> glob_component \<Rightarrow> string \<Rightarrow> bool" where
  "componentMatchesFolded env part value =
     (if isSingleStar part then True
      else if isFoldedAscii part \<and> isAsciiString value then
        (if \<not> hasWildcard part then equalsAsciiLower (gc_folded part) value
         else matchWildcardAscii (gc_folded part) value True)
      else if te_platform env = MacOS then
        (let foldedVal = foldedComponent env value in
         if \<not> hasWildcard part then gc_folded part = foldedVal
         else if isFoldedAscii part \<and> isAsciiString foldedVal
         then matchWildcardAscii (gc_folded part) foldedVal False
         else matchWildcardUtf8 env (gc_foldedChars part) foldedVal False)
      else
        (if \<not> hasWildcard part then equalIgnoringCase env (gc_raw part) value
         else matchWildcardUtf8 env (gc_chars part) value True))"

subsection \<open>Laws of the declarative match\<close>

named_theorems wild_simps \<open>laws of the declarative match\<close>

lemma wild_nonstar [wild_simps]:
  "\<not> star p \<Longrightarrow> wild star eq (p # ps) vs \<longleftrightarrow> (\<exists>v vs'. vs = v # vs' \<and> eq p v \<and> wild star eq ps vs')"
  by (cases vs) auto

lemma wild_star_unfold:
  "star p \<Longrightarrow> wild star eq (p # ps) vs \<longleftrightarrow>
    wild star eq ps vs \<or> (\<exists>v vs'. vs = v # vs' \<and> wild star eq (p # ps) vs')"
  by (cases vs) auto

lemma wild_star:
  "star p \<Longrightarrow> wild star eq (p # ps) vs \<longleftrightarrow> (\<exists>j \<le> length vs. wild star eq ps (drop j vs))"
proof (induction vs)
  case Nil
  then show ?case by simp
next
  case (Cons v vs)
  have "(\<exists>j \<le> length (v # vs). wild star eq ps (drop j (v # vs))) \<longleftrightarrow>
      wild star eq ps (v # vs) \<or> (\<exists>j \<le> length vs. wild star eq ps (drop j vs))"
    by (simp add: less_Suc_eq_le [symmetric] Ex_less_Suc2)
  with Cons show ?case by simp
qed

lemma wild_Nil: "wild star eq ps [] \<longleftrightarrow> (\<forall>p \<in> set ps. star p)"
  by (induction ps) auto

lemma wild_star_weaken: "star p \<Longrightarrow> wild star eq (p # ps) (drop k vs) \<Longrightarrow> wild star eq (p # ps) vs"
proof (cases "k \<le> length vs")
  case True
  assume "star p" "wild star eq (p # ps) (drop k vs)"
  with True obtain j where "j \<le> length vs - k" "wild star eq ps (drop (k + j) vs)"
    by (auto simp: wild_star add.commute)
  with True \<open>star p\<close> show ?thesis by (auto simp: wild_star intro!: exI [of _ "k + j"])
next
  case False
  assume "star p" "wild star eq (p # ps) (drop k vs)"
  with False show ?thesis by (auto simp: wild_star intro!: exI [of _ "length vs"])
qed

lemma wild_append_literal:
  "(\<forall>p \<in> set seg. \<not> star p) \<Longrightarrow>
    wild star eq (seg @ ps) vs \<longleftrightarrow>
      length seg \<le> length vs \<and> list_all2 eq seg (take (length seg) vs) \<and>
      wild star eq ps (drop (length seg) vs)"
proof (induction seg arbitrary: vs)
  case Nil
  then show ?case by simp
next
  case (Cons p seg)
  then show ?case by (cases vs) auto
qed

lemma wild_literal:
  "(\<forall>p \<in> set ps. \<not> star p) \<Longrightarrow> wild star eq ps vs \<longleftrightarrow> list_all2 eq ps vs"
  using wild_append_literal [of ps star eq "[]" vs]
  by (cases "length ps = length vs") (auto dest: list_all2_lengthD)

lemma wild_all_star: "star p \<Longrightarrow> wild star eq [p] vs"
  by (auto simp: wild_star)

lemma wild_cong:
  "(\<And>p v. p \<in> set ps \<Longrightarrow> v \<in> set vs \<Longrightarrow> \<not> star p \<Longrightarrow> eq p v = eq' p v) \<Longrightarrow>
    wild star eq ps vs = wild star eq' ps vs"
  by (induction star eq ps vs rule: wild.induct) auto

lemma wild_map:
  "wild star eq (map f ps) (map g vs) = wild (\<lambda>p. star (f p)) (\<lambda>p v. eq (f p) (g v)) ps vs"
  by (induction "\<lambda>p. star (f p)" "\<lambda>p v. eq (f p) (g v)" ps vs rule: wild.induct) auto

text \<open>Two stars in a row are one star.\<close>

lemma wild_double_star:
  assumes "star p" "star q"
  shows "wild star eq (p # q # ps) vs = wild star eq (q # ps) vs"
proof
  assume "wild star eq (p # q # ps) vs"
  with assms show "wild star eq (q # ps) vs"
    using wild_star_weaken [of star q eq ps] by (auto simp: wild_star [of star p])
next
  assume "wild star eq (q # ps) vs"
  with assms show "wild star eq (p # q # ps) vs"
    by (auto simp: wild_star [of star p] intro: exI [of _ 0])
qed

lemma wild_append_star_cong:
  "(\<And>vs. wild star eq ps vs = wild star eq qs vs) \<Longrightarrow>
    wild star eq (pre @ ps) vs = wild star eq (pre @ qs) vs"
proof (induction pre arbitrary: vs)
  case Nil
  then show ?case by simp
next
  case (Cons p pre)
  then show ?case by (cases "star p") (simp_all add: wild_star wild_simps)
qed

text \<open>The match seen from the right: what an automaton that reads the values one by one needs.\<close>

lemma wild_snoc_Nil: "wild star eq (ps @ [p]) [] \<longleftrightarrow> star p \<and> wild star eq ps []"
  by (auto simp: wild_Nil)

lemma wild_snoc_star:
  "star p \<Longrightarrow> wild star eq (ps @ [p]) (vs @ [v]) \<longleftrightarrow>
    wild star eq ps (vs @ [v]) \<or> wild star eq (ps @ [p]) vs"
proof (induction star eq ps vs rule: wild.induct)
  case (1 star eq vs)
  then show ?case by (cases vs) (auto simp: wild_all_star)
next
  case (2 star eq q ps)
  then show ?case by (cases ps) (auto simp: wild_all_star wild_Nil)
next
  case (3 star eq q ps u vs)
  then show ?case by auto
qed

lemma wild_snoc:
  "\<not> star p \<Longrightarrow> wild star eq (ps @ [p]) (vs @ [v]) \<longleftrightarrow> eq p v \<and> wild star eq ps vs"
proof (induction star eq ps vs rule: wild.induct)
  case (1 star eq vs)
  then show ?case by (cases vs) auto
next
  case (2 star eq q ps)
  then show ?case by (cases ps) (auto simp: wild_Nil)
next
  case (3 star eq q ps u vs)
  then show ?case by auto
qed

subsection \<open>The byte matcher decides the declarative match\<close>

abbreviation star_byte :: "char \<Rightarrow> bool" where
  "star_byte \<equiv> \<lambda>c. c = CHR ''*''"

text \<open>
  Since the last star, at \<open>s\<close>, was tried at position \<open>m\<close> of the value, the pattern bytes up to
  \<open>p\<close> have matched the value bytes up to \<open>v\<close>.
\<close>

definition since_star ::
  "('p \<Rightarrow> bool) \<Rightarrow> ('p \<Rightarrow> 'v \<Rightarrow> bool) \<Rightarrow> 'p list \<Rightarrow> 'v list \<Rightarrow> nat \<Rightarrow> nat \<Rightarrow> nat \<Rightarrow> nat \<Rightarrow> bool" where
  "since_star st eq pat val p v s m \<longleftrightarrow>
     s < length pat \<and> st (pat ! s) \<and> s < p \<and> p \<le> length pat \<and> m \<le> v \<and> v \<le> length val \<and>
     (\<exists>seg. drop (Suc s) pat = seg @ drop p pat \<and> length seg = v - m \<and>
        (\<forall>x \<in> set seg. \<not> st x) \<and> list_all2 eq seg (take (v - m) (drop m val)))"

lemma drop_at: "s < length pat \<Longrightarrow> drop s pat = pat ! s # drop (Suc s) pat"
  by (rule Cons_nth_drop_Suc [symmetric])

lemma since_star_tail:
  assumes "since_star st eq pat val p v s m"
  shows "wild st eq (drop (Suc s) pat) (drop (m + k) val) \<longrightarrow>
      wild st eq (drop p pat) (drop (v + k) val)"
    and "wild st eq (drop p pat) (drop v val) \<Longrightarrow> wild st eq (drop (Suc s) pat) (drop m val)"
proof -
  from assms obtain seg where seg: "drop (Suc s) pat = seg @ drop p pat" "length seg = v - m"
      "\<forall>x \<in> set seg. \<not> st x" "list_all2 eq seg (take (v - m) (drop m val))"
      and mv: "m \<le> v" "v \<le> length val"
    by (auto simp: since_star_def)
  have split: "wild st eq (drop (Suc s) pat) vs \<longleftrightarrow> length seg \<le> length vs \<and>
      list_all2 eq seg (take (length seg) vs) \<and> wild st eq (drop p pat) (drop (length seg) vs)" for vs
    unfolding seg(1) by (rule wild_append_literal [OF seg(3)])
  have "v - m + (m + k) = v + k" using mv by simp
  then show "wild st eq (drop (Suc s) pat) (drop (m + k) val) \<longrightarrow>
      wild st eq (drop p pat) (drop (v + k) val)"
    using seg(2) mv by (auto simp: split)
  assume "wild st eq (drop p pat) (drop v val)"
  with seg mv show "wild st eq (drop (Suc s) pat) (drop m val)"
    unfolding split by (simp add: le_diff_conv2)
qed

text \<open>Trying the star one position later gives nothing new once the next star is reached.\<close>

lemma since_star_next:
  assumes "since_star st eq pat val p v s m" and "drop p pat = q # ps" "st q"
  shows "wild st eq (drop s pat) (drop m val) \<longleftrightarrow> wild st eq (drop p pat) (drop v val)"
proof
  have s: "drop s pat = pat ! s # drop (Suc s) pat" "st (pat ! s)"
    using assms(1) by (auto simp: since_star_def intro: drop_at)
  assume "wild st eq (drop s pat) (drop m val)"
  with s obtain j where "wild st eq (drop (Suc s) pat) (drop (m + j) val)"
    by (auto simp: wild_star add.commute)
  then have "wild st eq (drop p pat) (drop (v + j) val)"
    using since_star_tail(1) [OF assms(1), of j] by blast
  then show "wild st eq (drop p pat) (drop v val)"
    using wild_star_weaken [of st q eq ps j "drop v val"] assms(3)
    by (simp add: assms(2) add.commute)
next
  have s: "drop s pat = pat ! s # drop (Suc s) pat" "st (pat ! s)"
    using assms(1) by (auto simp: since_star_def intro: drop_at)
  assume "wild st eq (drop p pat) (drop v val)"
  with since_star_tail(2) [OF assms(1)] s show "wild st eq (drop s pat) (drop m val)"
    by (auto simp: wild_star intro!: exI [of _ 0])
qed

text \<open>At the end of the value no later position can help.\<close>

lemma since_star_end:
  assumes "since_star st eq pat val p v s m" and "v = length val"
  shows "wild st eq (drop s pat) (drop m val) \<longleftrightarrow> wild st eq (drop p pat) []"
proof
  have s: "drop s pat = pat ! s # drop (Suc s) pat" "st (pat ! s)"
    using assms(1) by (auto simp: since_star_def intro: drop_at)
  assume "wild st eq (drop s pat) (drop m val)"
  with s obtain j where "wild st eq (drop (Suc s) pat) (drop (m + j) val)"
    by (auto simp: wild_star add.commute)
  then have "wild st eq (drop p pat) (drop (v + j) val)"
    using since_star_tail(1) [OF assms(1), of j] by blast
  with assms(2) show "wild st eq (drop p pat) []" by simp
next
  have s: "drop s pat = pat ! s # drop (Suc s) pat" "st (pat ! s)"
    using assms(1) by (auto simp: since_star_def intro: drop_at)
  assume "wild st eq (drop p pat) []"
  with assms(2) have "wild st eq (drop p pat) (drop v val)" by simp
  with since_star_tail(2) [OF assms(1)] s show "wild st eq (drop s pat) (drop m val)"
    by (auto simp: wild_star intro!: exI [of _ 0])
qed

text \<open>After a mismatch the star is tried one position later.\<close>

lemma since_star_retry:
  assumes "since_star st eq pat val p v s m" and "v < length val"
    and "\<not> wild st eq (drop p pat) (drop v val)"
  shows "since_star st eq pat val (Suc s) (Suc m) s (Suc m)"
    and "wild st eq (drop s pat) (drop m val) = wild st eq (drop s pat) (drop (Suc m) val)"
proof -
  show "since_star st eq pat val (Suc s) (Suc m) s (Suc m)"
    using assms(1,2) by (auto simp: since_star_def)
  have s: "drop s pat = pat ! s # drop (Suc s) pat" "st (pat ! s)" and m: "m < length val"
    using assms(1,2) by (auto simp: since_star_def intro: drop_at)
  have "\<not> wild st eq (drop (Suc s) pat) (drop m val)"
    using since_star_tail(1) [OF assms(1), of 0] assms(3) by auto
  then show "wild st eq (drop s pat) (drop m val) = wild st eq (drop s pat) (drop (Suc m) val)"
    using s m by (simp add: drop_at [of m val])
qed

lemma since_star_match:
  assumes "since_star st eq pat val p v s m" and "v < length val" "p < length pat"
    and "\<not> st (pat ! p)" "eq (pat ! p) (val ! v)"
  shows "since_star st eq pat val (Suc p) (Suc v) s m"
proof -
  from assms(1) obtain seg where seg: "drop (Suc s) pat = seg @ drop p pat" "length seg = v - m"
      "\<forall>x \<in> set seg. \<not> st x" "list_all2 eq seg (take (v - m) (drop m val))" and mv: "m \<le> v"
    by (auto simp: since_star_def)
  have "drop (Suc s) pat = (seg @ [pat ! p]) @ drop (Suc p) pat"
    using seg(1) drop_at [OF assms(3)] by simp
  moreover have "take (Suc v - m) (drop m val) = take (v - m) (drop m val) @ [val ! v]"
    using mv assms(2) by (simp add: Suc_diff_le take_Suc_conv_app_nth)
  ultimately show ?thesis
    using assms seg mv
    by (auto simp: since_star_def list_all2_append intro!: exI [of _ "seg @ [pat ! p]"])
qed

lemma since_star_start:
  "p < length pat \<Longrightarrow> st (pat ! p) \<Longrightarrow> v \<le> length val \<Longrightarrow> since_star st eq pat val (Suc p) v p v"
  by (auto simp: since_star_def)

text \<open>The answer the loop is working on, in each of its states.\<close>

definition loop_goal ::
  "string \<Rightarrow> string \<Rightarrow> bool \<Rightarrow> nat \<Rightarrow> nat \<Rightarrow> nat option \<Rightarrow> nat \<Rightarrow> bool" where
  "loop_goal pat val ic p v star m =
     (case star of
        None \<Rightarrow> wild star_byte (bytes_equal ic) (drop p pat) (drop v val)
      | Some s \<Rightarrow> wild star_byte (bytes_equal ic) (drop s pat) (drop m val))"

definition loop_ok ::
  "string \<Rightarrow> string \<Rightarrow> bool \<Rightarrow> nat \<Rightarrow> nat \<Rightarrow> nat option \<Rightarrow> nat \<Rightarrow> bool" where
  "loop_ok pat val ic p v star m \<longleftrightarrow>
     p \<le> length pat \<and> v \<le> length val \<and>
     (case star of
        None \<Rightarrow> True
      | Some s \<Rightarrow> since_star star_byte (bytes_equal ic) pat val p v s m)"

definition loop_answer :: "string \<Rightarrow> nat option \<Rightarrow> bool" where
  "loop_answer pat r =
     (case r of
        None \<Rightarrow> False
      | Some p \<Rightarrow> p + length (takeWhile star_byte (drop p pat)) = length pat)"

lemma all_stars_left:
  "p \<le> length pat \<Longrightarrow>
    p + length (takeWhile st (drop p pat)) = length pat \<longleftrightarrow> wild st eq (drop p pat) []"
proof -
  assume "p \<le> length pat"
  then have "p + length (takeWhile st (drop p pat)) = length pat \<longleftrightarrow>
      length (takeWhile st (drop p pat)) = length (drop p pat)" by auto
  also have "\<dots> \<longleftrightarrow> takeWhile st (drop p pat) = drop p pat"
    by (metis append_eq_conv_conj append_take_drop_id length_takeWhile_le takeWhile_eq_take take_all_iff)
  also have "\<dots> \<longleftrightarrow> wild st eq (drop p pat) []"
    by (simp add: wild_Nil takeWhile_eq_all_conv)
  finally show ?thesis .
qed

lemma wildcard_loop_correct:
  "loop_ok pat val ic p v star m \<Longrightarrow>
    loop_answer pat (wildcard_loop pat val ic p v star m) = loop_goal pat val ic p v star m"
proof (induction pat val ic p v star m rule: wildcard_loop.induct)
  case (1 pat val ic p v star m)
  let ?W = "wild star_byte (bytes_equal ic)"
  note ok = "1.prems"
  note step = wildcard_loop.simps [of pat val ic p v star m]
  consider (fin) "\<not> v < length val"
    | (byte) "v < length val" "p < length pat" "pat ! p \<noteq> CHR ''*''" "bytes_equal ic (pat ! p) (val ! v)"
    | (star) "v < length val" "p < length pat" "pat ! p = CHR ''*''"
    | (retry) "v < length val" "p < length pat \<longrightarrow> pat ! p \<noteq> CHR ''*'' \<and> \<not> bytes_equal ic (pat ! p) (val ! v)"
    by blast
  then show ?case
  proof cases
    case fin
    then have "wildcard_loop pat val ic p v star m = Some p" by (simp add: step)
    with ok fin show ?thesis
      by (auto simp: loop_answer_def loop_goal_def loop_ok_def since_star_end
          all_stars_left [of _ _ _ "bytes_equal ic"] split: option.split)
  next
    case byte
    then have "loop_ok pat val ic (Suc p) (Suc v) star m"
      using ok by (auto simp: loop_ok_def since_star_match split: option.split)
    moreover have "loop_goal pat val ic (Suc p) (Suc v) star m = loop_goal pat val ic p v star m"
      using byte by (simp add: loop_goal_def drop_at [of p] drop_at [of v] split: option.split)
    ultimately show ?thesis using "1.IH"(1) byte by (simp add: step)
  next
    case star
    then have "loop_ok pat val ic (Suc p) v (Some p) v"
      using ok by (auto simp: loop_ok_def intro: since_star_start)
    moreover have "loop_goal pat val ic (Suc p) v (Some p) v = loop_goal pat val ic p v star m"
      using star ok since_star_next [of star_byte "bytes_equal ic" pat val p v _ m "pat ! p" "drop (Suc p) pat"]
      by (auto simp: loop_goal_def loop_ok_def drop_at [of p] split: option.split)
    ultimately show ?thesis using "1.IH"(2) star by (simp add: step)
  next
    case retry
    then have no: "\<not> ?W (drop p pat) (drop v val)"
      by (cases "p < length pat") (simp_all add: drop_at [of p] drop_at [of v])
    show ?thesis
    proof (cases star)
      case None
      with retry have "wildcard_loop pat val ic p v star m = None" unfolding step by auto
      with None no show ?thesis by (simp add: loop_answer_def loop_goal_def)
    next
      case (Some s)
      then have since: "since_star star_byte (bytes_equal ic) pat val p v s m"
        using ok by (simp add: loop_ok_def)
      have "loop_ok pat val ic (Suc s) (Suc m) star (Suc m)"
        using since_star_retry(1) [OF since retry(1) no] Some
        by (auto simp: loop_ok_def since_star_def)
      moreover have "loop_goal pat val ic (Suc s) (Suc m) star (Suc m) = loop_goal pat val ic p v star m"
        using since_star_retry(2) [OF since retry(1) no] Some by (simp add: loop_goal_def)
      moreover have "wildcard_loop pat val ic p v star m =
          wildcard_loop pat val ic (Suc s) (Suc m) star (Suc m)"
        unfolding step using retry Some by auto
      ultimately show ?thesis using "1.IH"(3) retry Some by simp
    qed
  qed
qed

lemma matchWildcardAscii_wild:
  "matchWildcardAscii pat val ic = wild star_byte (bytes_equal ic) pat val"
proof -
  have "loop_ok pat val ic 0 0 None 0" by (simp add: loop_ok_def)
  from wildcard_loop_correct [OF this] show ?thesis
    by (simp add: matchWildcardAscii_def loop_answer_def loop_goal_def)
qed

subsection \<open>The character matcher decides the declarative match\<close>

text \<open>One row of the table, filled from the right; \<open>nxt\<close> is the row of the pattern after it.\<close>

definition row_done ::
  "('v list \<Rightarrow> bool) \<Rightarrow> 'v list \<Rightarrow> nat \<Rightarrow> bool list \<Rightarrow> bool" where
  "row_done W vs i row \<longleftrightarrow>
     length row = Suc (length vs) \<and>
     (\<forall>j \<le> length vs. row ! j = (i \<le> j \<and> W (drop j vs)))"

lemma utf8_cell_step:
  assumes below: "row_done (wild star eq ps) vs 0 nxt"
    and row: "row_done (wild star eq (p # ps)) vs (Suc i) row" and i: "i \<le> length vs"
    and star: "star p \<longleftrightarrow> p = ''*''"
    and eq: "\<And>v. eq p v = utf8_cell_equal env ic p v"
  shows "row_done (wild star eq (p # ps)) vs i (utf8_cell env ic vs p nxt i row)"
proof -
  have old: "row ! j = (Suc i \<le> j \<and> wild star eq (p # ps) (drop j vs))" if "j \<le> length vs" for j
    using row that by (simp add: row_done_def)
  have nxt: "nxt ! j = wild star eq ps (drop j vs)" if "j \<le> length vs" for j
    using below that by (simp add: row_done_def)
  have len: "length row = Suc (length vs)" using row by (simp add: row_done_def)
  have cell: "utf8_cell env ic vs p nxt i row ! i = wild star eq (p # ps) (drop i vs)"
  proof (cases "i < length vs")
    case True
    then show ?thesis
      using star eq by (simp add: utf8_cell_def drop_at [of i vs] len nxt old)
  next
    case False
    with i show ?thesis using star by (simp add: utf8_cell_def len nxt old)
  qed
  have others: "utf8_cell env ic vs p nxt i row ! j = row ! j" if "j \<noteq> i" for j
    using that by (simp add: utf8_cell_def)
  have "(utf8_cell env ic vs p nxt i row) ! j = (i \<le> j \<and> wild star eq (p # ps) (drop j vs))"
    if "j \<le> length vs" for j
    by (cases "j = i") (use that cell others old in auto)
  then show ?thesis by (simp add: row_done_def utf8_cell_def len)
qed

lemma matchWildcardUtf8_wild:
  "matchWildcardUtf8 env ps val ic =
     wild (\<lambda>p. p = ''*'') (utf8_cell_equal env ic) ps (utf8Characters val)"
proof -
  define vs where "vs = utf8Characters val"
  let ?W = "\<lambda>k. wild (\<lambda>p. p = ''*'') (utf8_cell_equal env ic) (drop k ps)"
  let ?row = "\<lambda>i nxt. down_loop (utf8_cell env ic vs (ps ! i) nxt) (length vs + 1)
      (replicate (length vs + 1) False)"
  let ?last = "(replicate (length vs + 1) False)[length vs := True]"
  have row: "row_done (?W i) vs 0 (?row i nxt)"
    if "i < length ps" "row_done (?W (Suc i)) vs 0 nxt" for i nxt
  proof (rule down_loop_invariant)
    show "row_done (?W i) vs (length vs + 1) (replicate (length vs + 1) False)"
      by (simp add: row_done_def del: replicate_Suc)
    show "row_done (?W i) vs j (utf8_cell env ic vs (ps ! i) nxt j row)"
      if "j < length vs + 1" "row_done (?W i) vs (Suc j) row" for j row
      using utf8_cell_step [OF \<open>row_done (?W (Suc i)) vs 0 nxt\<close>, of "ps ! i" j row env ic]
        that drop_at [OF \<open>i < length ps\<close>] by simp
  qed
  have "row_done (?W 0) vs 0 (down_loop ?row (length ps) ?last)"
  proof (rule down_loop_invariant [where P = "\<lambda>k. row_done (?W k) vs 0"])
    show "row_done (?W (length ps)) vs 0 ?last"
      by (auto simp: row_done_def nth_list_update simp del: replicate_Suc)
    show "row_done (?W i) vs 0 (?row i s)" if "i < length ps" "row_done (?W (Suc i)) vs 0 s" for i s
      using row that by simp
  qed
  then show ?thesis
    unfolding matchWildcardUtf8_def Let_def vs_def [symmetric] by (simp add: row_done_def)
qed

subsection \<open>Splitting into characters\<close>

lemma utf8Characters_Nil [simp]: "utf8Characters [] = []"
  by (simp add: utf8Characters.simps)

lemma concat_utf8Characters [simp]: "concat (utf8Characters s) = s"
  by (induction s rule: utf8Characters.induct) (subst utf8Characters.simps, simp)

lemma utf8Characters_inject: "utf8Characters s = utf8Characters t \<longleftrightarrow> s = t"
  by (metis concat_utf8Characters)

lemma continuation_less: "continuation s i \<Longrightarrow> i < length s"
  by (simp add: continuation_def)

lemma character_length_le: "s \<noteq> [] \<Longrightarrow> character_length s \<le> length s"
  by (auto simp: character_length_def Let_def Suc_le_eq dest!: continuation_less)

text \<open>A byte below 0x80 is a character, and no character goes across it.\<close>

lemma continuation_append:
  "byte c < 0x80 \<Longrightarrow> i \<le> length a \<Longrightarrow> continuation (a @ c # b) i = continuation a i"
  by (auto simp: continuation_def nth_append)

lemma character_length_append:
  assumes "a \<noteq> []" and "byte c < 0x80"
  shows "character_length (a @ c # b) = character_length a"
proof -
  have nth: "(a @ c # b) ! i = a ! i" if "i < length a" for i using that by (simp add: nth_append)
  note less = continuation_less [of a]
  have one: "continuation (a @ c # b) 1 = continuation a 1"
    using assms by (intro continuation_append) (auto simp: Suc_le_eq)
  have two: "continuation (a @ c # b) 2 = continuation a 2" if "continuation a 1"
    using less [OF that] assms by (intro continuation_append) auto
  have three: "continuation (a @ c # b) 3 = continuation a 3" if "continuation a 2"
    using less [OF that] assms by (intro continuation_append) auto
  show ?thesis
  proof (cases "continuation a 1")
    case False
    then show ?thesis using assms by (simp add: character_length_def Let_def one [unfolded One_nat_def])
  next
    case True
    note at = nth [of 0] nth [of "Suc 0"]
    show ?thesis
    proof (cases "continuation a 2")
      case False
      with True show ?thesis using assms less [OF True] one two
        by (simp add: character_length_def Let_def at)
    next
      case True2: True
      with True show ?thesis using assms less [OF True] one two three
        by (simp add: character_length_def Let_def at)
    qed
  qed
qed

lemma utf8Characters_append:
  "byte c < 0x80 \<Longrightarrow> utf8Characters (a @ c # b) = utf8Characters a @ [c] # utf8Characters b"
proof (induction a rule: utf8Characters.induct)
  case (1 a)
  show ?case
  proof (cases "a = []")
    case True
    have "character_length (c # b) = 1"
      using "1.prems" by (simp add: character_length_def Let_def)
    then show ?thesis using True by (simp add: utf8Characters.simps [of "c # b"])
  next
    case False
    then show ?thesis
      using "1.IH" "1.prems" character_length_le [OF False] character_length_append [OF False]
      by (simp add: utf8Characters.simps [of "a @ c # b"] utf8Characters.simps [of a])
  qed
qed

lemma utf8Characters_ascii_Cons:
  "byte c < 0x80 \<Longrightarrow> utf8Characters (c # s) = [c] # utf8Characters s"
  using utf8Characters_append [of c "[]" s] by simp

lemma utf8Characters_ascii: "isAsciiString s \<Longrightarrow> utf8Characters s = map (\<lambda>c. [c]) s"
  by (induction s) (auto simp: isAsciiString_def utf8Characters_ascii_Cons)

lemma star_char_in_utf8Characters:
  "''*'' \<in> set (utf8Characters s) \<Longrightarrow> CHR ''*'' \<in> set s"
proof -
  assume "''*'' \<in> set (utf8Characters s)"
  then have "CHR ''*'' \<in> set (concat (utf8Characters s))"
    unfolding set_concat by (intro UN_I) auto
  then show ?thesis by simp
qed

subsection \<open>What a compiled component matches\<close>

lemma wild_collapse_from:
  "wild (\<lambda>p. p = ''*'') eq (utf8Characters (collapse_from r cs)) vs =
    wild (\<lambda>p. p = ''*'') eq (utf8Characters (r @ cs)) vs"
proof (induction cs arbitrary: r vs)
  case Nil
  then show ?case by simp
next
  case (Cons c cs)
  show ?case
  proof (cases "c = CHR ''*'' \<and> r \<noteq> [] \<and> last r = CHR ''*''")
    case True
    then obtain r' where r: "r = r' @ [CHR ''*'']" by (metis append_butlast_last_id)
    let ?u = utf8Characters
    have "?u (r @ cs) = ?u r' @ ''*'' # ?u cs" "?u (r @ c # cs) = ?u r' @ ''*'' # ''*'' # ?u cs"
      using True by (simp_all add: r utf8Characters_append utf8Characters_ascii_Cons)
    then have "wild (\<lambda>p. p = ''*'') eq (?u (r @ c # cs)) vs = wild (\<lambda>p. p = ''*'') eq (?u (r @ cs)) vs"
      by (simp only:) (rule wild_append_star_cong, rule wild_double_star, simp_all)
    with Cons True show ?thesis by simp
  next
    case False
    then show ?thesis using Cons [of "r @ [c]"] by auto
  qed
qed

lemma wild_collapseStars:
  "wild (\<lambda>p. p = ''*'') eq (utf8Characters (collapseStars s)) vs =
    wild (\<lambda>p. p = ''*'') eq (utf8Characters s) vs"
  by (simp add: collapseStars_def wild_collapse_from)

lemma wild_bytes_of_ascii:
  "isAsciiString s \<Longrightarrow> isAsciiString v \<Longrightarrow> (\<And>a b. eq [a] [b] = eqb a b) \<Longrightarrow>
    wild (\<lambda>p. p = ''*'') eq (utf8Characters s) (utf8Characters v) = wild star_byte eqb s v"
  by (simp add: utf8Characters_ascii wild_map)

lemma wild_no_star:
  "CHR ''*'' \<notin> set s \<Longrightarrow>
    wild (\<lambda>p. p = ''*'') eq (utf8Characters s) vs = list_all2 eq (utf8Characters s) vs"
  by (rule wild_literal) (auto dest: star_char_in_utf8Characters)

lemma compile_component_fields:
  "gc_raw (compile_component env s) =
     (if CHR ''*'' \<in> set s \<and> s \<noteq> ''**'' then collapseStars s else s)"
  "isDoubleStar (compile_component env s) \<longleftrightarrow> s = ''**''"
  "hasWildcard (compile_component env s) \<longleftrightarrow> CHR ''*'' \<in> set s"
  "isSingleStar (compile_component env s) \<longleftrightarrow>
     CHR ''*'' \<in> set s \<and> s \<noteq> ''**'' \<and> collapseStars s = ''*''"
  "isAscii (compile_component env s) = isAsciiString (gc_raw (compile_component env s))"
  by (auto simp: compile_component_def Let_def)

lemma componentMatchesExact_wild:
  assumes "s \<noteq> ''**''"
  shows "componentMatchesExact env (compile_component env s) v =
    wild (\<lambda>p. p = ''*'') (=) (utf8Characters s) (utf8Characters v)"
proof (cases "CHR ''*'' \<in> set s")
  case False
  then show ?thesis
    by (simp add: componentMatchesExact_def compile_component_fields wild_no_star
        list.rel_eq utf8Characters_inject)
next
  case True
  let ?raw = "collapseStars s"
  have cell: "utf8_cell_equal env False = (=)" by (auto simp: utf8_cell_equal_def fun_eq_iff)
  have byte: "bytes_equal False = (=)" by (auto simp: bytes_equal_def fun_eq_iff)
  consider (single) "?raw = ''*''" | (ascii) "?raw \<noteq> ''*''" "isAsciiString ?raw" "isAsciiString v"
    | (wide) "?raw \<noteq> ''*''" "\<not> (isAsciiString ?raw \<and> isAsciiString v)" by blast
  then have "componentMatchesExact env (compile_component env s) v =
      wild (\<lambda>p. p = ''*'') (=) (utf8Characters ?raw) (utf8Characters v)"
  proof cases
    case single
    then show ?thesis using True assms
      by (simp add: componentMatchesExact_def compile_component_def utf8Characters_ascii_Cons
          wild_all_star Let_def)
  next
    case ascii
    then show ?thesis using True assms
      by (simp add: componentMatchesExact_def compile_component_def Let_def matchWildcardAscii_wild
          wild_bytes_of_ascii [of _ _ "(=)" "(=)"] byte)
  next
    case wide
    then show ?thesis using True assms
      by (auto simp add: componentMatchesExact_def compile_component_def Let_def
          matchWildcardUtf8_wild cell)
  qed
  then show ?thesis by (simp add: wild_collapseStars)
qed

subsection \<open>Matching without case\<close>

lemma ascii_lower_byte:
  "byte (ascii_lower c) = (if 65 \<le> byte c \<and> byte c \<le> 90 then byte c + 32 else byte c)"
  by (simp add: ascii_lower_def of_char_of)

lemma ascii_lower_idem [simp]: "ascii_lower (ascii_lower c) = ascii_lower c"
  using ascii_lower_byte [of c]
  by (auto simp add: ascii_lower_def [of "ascii_lower c"] split: if_splits)

lemma ascii_lower_star [simp]: "ascii_lower c = CHR ''*'' \<longleftrightarrow> c = CHR ''*''"
proof
  have star: "byte CHR ''*'' = 42" by simp
  assume "ascii_lower c = CHR ''*''"
  then have "byte (ascii_lower c) = 42" using star by metis
  then have "byte c = 42" by (simp add: ascii_lower_byte split: if_splits)
  then show "c = CHR ''*''" using star by (metis of_char_eq_iff)
qed (simp add: ascii_lower_def)

lemma continuation_lower: "continuation (map ascii_lower s) i = continuation s i"
  by (auto simp: continuation_def ascii_lower_byte split: if_splits)

lemma character_length_lower:
  assumes "s \<noteq> []"
  shows "character_length (map ascii_lower s) = character_length s"
proof -
  have lower: "k \<le> byte (ascii_lower (s ! i)) \<longleftrightarrow> k \<le> byte (s ! i)"
    "byte (ascii_lower (s ! i)) < k \<longleftrightarrow> byte (s ! i) < k"
    "byte (ascii_lower (s ! i)) \<le> k \<longleftrightarrow> byte (s ! i) \<le> k"
    "byte (ascii_lower (s ! i)) = k \<longleftrightarrow> byte (s ! i) = k" if "0x80 \<le> k" for k i
    using that by (auto simp: ascii_lower_byte)
  show ?thesis
  proof (cases "continuation s 1")
    case True
    then have "1 < length s" by (rule continuation_less)
    then show ?thesis using assms
      by (simp add: character_length_def Let_def continuation_lower lower)
  next
    case False
    then show ?thesis by (simp add: character_length_def Let_def continuation_lower)
  qed
qed

lemma utf8Characters_lower: "utf8Characters (toAsciiLower s) = map toAsciiLower (utf8Characters s)"
proof (induction s rule: utf8Characters.induct)
  case (1 s)
  then show ?case
    by (cases "s = []")
      (simp_all add: toAsciiLower_def utf8Characters.simps [of s]
        utf8Characters.simps [of "map ascii_lower s"] character_length_lower take_map drop_map)
qed

lemma equal_ascii_case_lower: "equal_ascii_case l r \<longleftrightarrow> toAsciiLower l = toAsciiLower r"
  by (auto simp: equal_ascii_case_def toAsciiLower_def list_all2_conv_all_nth list_eq_iff_nth_eq)

lemma equalsAsciiLower_lower: "equalsAsciiLower (toAsciiLower l) r = equal_ascii_case l r"
  by (simp add: equalsAsciiLower_def equal_ascii_case_def toAsciiLower_def list_all2_map1)

lemma toAsciiLower_star [simp]: "toAsciiLower s = ''*'' \<longleftrightarrow> s = ''*''"
  by (auto simp: toAsciiLower_def)

lemma equal_ascii_case_star: "equal_ascii_case ''*'' v \<longleftrightarrow> v = ''*''"
proof -
  have "toAsciiLower ''*'' = ''*''" by (simp add: toAsciiLower_def ascii_lower_def)
  then show ?thesis by (metis equal_ascii_case_lower toAsciiLower_star)
qed

lemma wild_lower:
  "wild (\<lambda>p. p = ''*'') equal_ascii_case (utf8Characters s) (utf8Characters v) =
    wild (\<lambda>p. p = ''*'') (=) (utf8Characters (toAsciiLower s)) (utf8Characters (toAsciiLower v))"
  by (simp add: utf8Characters_lower wild_map equal_ascii_case_lower [abs_def])

lemma isAsciiString_lower [simp]: "isAsciiString (toAsciiLower s) = isAsciiString s"
  by (auto simp: isAsciiString_def toAsciiLower_def ascii_lower_byte)

lemma toAsciiLower_has_star [simp]: "CHR ''*'' \<in> set (toAsciiLower s) \<longleftrightarrow> CHR ''*'' \<in> set s"
  by (auto simp: toAsciiLower_def image_iff eq_commute [of "CHR ''*''"])

lemma toAsciiLower_inject_matches:
  "CHR ''*'' \<notin> set s \<Longrightarrow>
    wild (\<lambda>p. p = ''*'') equal_ascii_case (utf8Characters s) (utf8Characters v) \<longleftrightarrow>
    equal_ascii_case s v"
  by (simp add: wild_lower wild_no_star list.rel_eq utf8Characters_inject equal_ascii_case_lower)

lemma componentMatchesFolded_wild:
  assumes "te_platform env = Linux" and "s \<noteq> ''**''"
  shows "componentMatchesFolded env (compile_component env s) v =
    wild (\<lambda>p. p = ''*'') equal_ascii_case (utf8Characters s) (utf8Characters v)"
proof (cases "CHR ''*'' \<in> set s")
  case False
  then show ?thesis using assms
    by (simp add: componentMatchesFolded_def compile_component_def Let_def equalIgnoringCase_def
        toAsciiLower_inject_matches equalsAsciiLower_lower)
next
  case True
  let ?raw = "collapseStars s"
  have cell: "utf8_cell_equal env True = equal_ascii_case"
    using assms(1) by (auto simp: utf8_cell_equal_def equalIgnoringCase_def fun_eq_iff)
  consider (single) "?raw = ''*''" | (ascii) "?raw \<noteq> ''*''" "isAsciiString ?raw" "isAsciiString v"
    | (wide) "?raw \<noteq> ''*''" "\<not> (isAsciiString ?raw \<and> isAsciiString v)" by blast
  then have "componentMatchesFolded env (compile_component env s) v =
      wild (\<lambda>p. p = ''*'') equal_ascii_case (utf8Characters ?raw) (utf8Characters v)"
  proof cases
    case single
    then show ?thesis using True assms
      by (simp add: componentMatchesFolded_def compile_component_def utf8Characters_ascii_Cons
          wild_all_star Let_def)
  next
    case ascii
    have "wild star_byte (bytes_equal True) (toAsciiLower ?raw) v =
        wild (\<lambda>c. star_byte (ascii_lower c)) (\<lambda>p v. bytes_equal True (ascii_lower p) v) ?raw v"
      using wild_map [of star_byte "bytes_equal True" ascii_lower ?raw "\<lambda>c. c" v]
      by (simp add: toAsciiLower_def)
    also have "\<dots> = wild star_byte (bytes_equal True) ?raw v"
      by (simp add: bytes_equal_def [abs_def])
    also have "\<dots> = wild (\<lambda>p. p = ''*'') equal_ascii_case (utf8Characters ?raw) (utf8Characters v)"
      using ascii by (intro wild_bytes_of_ascii [symmetric])
        (auto simp: equal_ascii_case_def bytes_equal_def)
    finally show ?thesis using ascii True assms
      by (simp add: componentMatchesFolded_def compile_component_def Let_def matchWildcardAscii_wild)
  next
    case wide
    then show ?thesis using True assms
      by (auto simp add: componentMatchesFolded_def compile_component_def Let_def
          matchWildcardUtf8_wild cell)
  qed
  then show ?thesis by (simp add: wild_collapseStars)
qed

end
