(* ===== verification/Globs.thy ===== *)
theory Globs
  imports Wildcards
begin

section \<open>Glob patterns (src/Glob.hh, src/Glob.cc)\<close>

text \<open>
  A glob is split into components. Below 63 components it is an automaton with one bit per
  position, run over the components of a path by \<open>stepBitmask\<close>; from 63 on it is matched by
  a table, as characters are. The lemmas show that both decide the declarative match \<open>wild\<close>
  of the pattern's components against the path's, where one component matches another
  exactly, or without case in a directory whose file names are case-insensitive.
  \<open>query\<close> is \<open>directoryCaseSensitivity\<close>: its error is the exception that leaves the function. It is a function of the
  directory, so during one question the file system stands still; between questions its answers may differ, which
  \<open>Ignoring\<close> makes explicit where answers are kept.
\<close>

type_synonym case_query = "string \<Rightarrow> string + sensitivity"

record glob =
  mHash :: u64
  mRaw :: string
  mComponents :: "string list"
  mParts :: "glob_component list"
  mDoubleStarMask :: u64
  mActiveMask :: u64
  mInitialState :: u64
  mAcceptBit :: u64
  mUseBitmask :: bool

subsection \<open>Construction\<close>

definition to_slashes :: "platform \<Rightarrow> string \<Rightarrow> string" where
  "to_slashes plat s =
     (if plat = Windows then map (\<lambda>c. if c = CHR 0x5C then CHR ''/'' else c) s else s)"

fun compile_parts :: "text_env \<Rightarrow> glob_component list \<Rightarrow> string list \<Rightarrow> glob_component list" where
  "compile_parts env parts [] = parts"
| "compile_parts env parts (part # rest) =
     (if part = ''**'' \<and> parts \<noteq> [] \<and> isDoubleStar (last parts) then compile_parts env parts rest
      else compile_parts env (parts @ [compile_component env part]) rest)"

text \<open>The loop that fills \<open>mDoubleStarMask\<close> and \<open>mActiveMask\<close>.\<close>

definition set_part_bit :: "glob_component list \<Rightarrow> nat \<Rightarrow> u64 \<times> u64 \<Rightarrow> u64 \<times> u64" where
  "set_part_bit parts i masks =
     (let (dbl, act) = masks in
      if isDoubleStar (parts ! i) then (dbl OR push_bit i 1, act) else (dbl, act OR push_bit i 1))"

definition part_masks :: "glob_component list \<Rightarrow> u64 \<times> u64" where
  "part_masks parts = fold (set_part_bit parts) [0..<length parts] (0, 0)"

definition make_glob :: "text_env \<Rightarrow> string \<Rightarrow> glob" where
  "make_glob env raw =
     (let empty = \<lparr>mHash = string_hash env raw, mRaw = raw, mComponents = [], mParts = [],
            mDoubleStarMask = 0, mActiveMask = 0, mInitialState = 0, mAcceptBit = 0,
            mUseBitmask = False\<rparr> in
      if raw = [] then empty
      else
        (let comps = components (to_slashes (te_platform env) raw);
             parts = compile_parts env [] comps;
             split = empty\<lparr>mComponents := comps, mParts := parts\<rparr> in
         if parts \<noteq> [] \<and> length parts < 63 then
           (let (dbl, act) = part_masks parts in
            split\<lparr>mUseBitmask := True, mDoubleStarMask := dbl, mActiveMask := act,
              mInitialState := 1 OR push_bit 1 (1 AND dbl),
              mAcceptBit := push_bit (length parts) 1\<rparr>)
         else split))"

text \<open>\<open>operator==\<close>\<close>

definition glob_equal :: "glob \<Rightarrow> glob \<Rightarrow> bool" where
  "glob_equal a b \<longleftrightarrow> mHash a = mHash b \<and> mRaw a = mRaw b"

subsection \<open>Directories whose case sensitivity is asked for\<close>

definition buildParentDirectory :: "platform \<Rightarrow> string \<Rightarrow> string \<Rightarrow> string" where
  "buildParentDirectory plat root relativeParent =
     (if relativeParent = [] then root
      else if plat = Windows then
        root @ [CHR 0x5C] @ map (\<lambda>ch. if ch = CHR ''/'' then CHR 0x5C else ch) relativeParent
      else root @ ''/'' @ relativeParent)"

definition parentDirectory :: "platform \<Rightarrow> string \<Rightarrow> string list \<Rightarrow> nat \<Rightarrow> string" where
  "parentDirectory plat root path component =
     fold (\<lambda>index result. result @ [dir_sep plat] @ path ! index) [0..<component] root"

subsection \<open>One step of the automaton\<close>

text \<open>The index of the lowest bit that is set.\<close>

definition trailingZeros :: "u64 \<Rightarrow> nat" where
  "trailingZeros value = length (takeWhile (\<lambda>i. \<not> bit value i) [0..<64])"

text \<open>
  The loop over the candidates: a bit moves up when its component matches, without case only
  in a case-insensitive directory, which is asked for at most once.
\<close>

lemma lowest_bit_cleared_less: "c \<noteq> 0 \<Longrightarrow> unat (c AND (c - 1)) < unat (c :: u64)"
proof -
  assume "c \<noteq> 0"
  then have "unat (c - 1) < unat c"
    by (simp add: unat_minus_one unat_gt_0)
  moreover have "unat (c AND (c - 1)) \<le> unat (c - 1)"
    by (simp add: word_and_le1 word_le_nat_alt [symmetric])
  ultimately show ?thesis by linarith
qed

function step_candidates ::
  "text_env \<Rightarrow> case_query \<Rightarrow> glob \<Rightarrow> string \<Rightarrow> string \<Rightarrow> string \<Rightarrow> u64 \<Rightarrow> u64 \<Rightarrow>
    sensitivity option \<Rightarrow> string + u64 \<times> sensitivity option" where
  "step_candidates env query g component root relativeParent candidates next cached =
     (if candidates = 0 then Inr (next, cached)
      else
        (let p = trailingZeros candidates;
             rest = candidates AND (candidates - 1);
             part = mParts g ! p;
             moved = next OR push_bit (p + 1) 1
         in
         if componentMatchesExact env part component then
           step_candidates env query g component root relativeParent rest moved cached
         else if \<not> componentMatchesFolded env part component then
           step_candidates env query g component root relativeParent rest next cached
         else
           bindE
             (case cached of
                None \<Rightarrow> query (buildParentDirectory (te_platform env) root relativeParent)
              | Some s \<Rightarrow> Inr s)
             (\<lambda>s. step_candidates env query g component root relativeParent rest
                (if s = Insensitive then moved else next) (Some s))))"
  by pat_completeness auto
termination step_candidates
  by (relation "measure (\<lambda>(env, query, g, component, root, relativeParent, candidates, next, cached).
      unat candidates)") (auto simp: lowest_bit_cleared_less)

declare step_candidates.simps [simp del]

definition stepBitmask ::
  "text_env \<Rightarrow> case_query \<Rightarrow> glob \<Rightarrow> u64 \<Rightarrow> string \<Rightarrow> string \<Rightarrow> string \<Rightarrow> sensitivity option \<Rightarrow>
    string + u64 \<times> sensitivity option" where
  "stepBitmask env query g state component root relativeParent cachedSensitivity =
     bindE
       (step_candidates env query g component root relativeParent
         (state AND mActiveMask g) (state AND mDoubleStarMask g) cachedSensitivity)
       (\<lambda>(next, cached). Inr (next OR push_bit 1 (next AND mDoubleStarMask g), cached))"

subsection \<open>Matching a path\<close>

text \<open>
  The two loops over the characters of a path, with their variables \<open>index\<close>, \<open>start\<close> and
  \<open>state\<close>; the component ends at a separator and at the end of the path.
\<close>

definition path_component :: "string \<Rightarrow> nat \<Rightarrow> nat \<Rightarrow> string" where
  "path_component path start index = take (index - start) (drop start path)"

definition relative_parent :: "string \<Rightarrow> nat \<Rightarrow> string" where
  "relative_parent path start = (if start = 0 then [] else take (start - 1) path)"

function ignored_loop ::
  "text_env \<Rightarrow> case_query \<Rightarrow> glob \<Rightarrow> string \<Rightarrow> string \<Rightarrow> nat \<Rightarrow> nat \<Rightarrow> u64 \<Rightarrow> string + bool" where
  "ignored_loop env query g root path index start state =
     (if \<not> index \<le> length path then Inr (state AND mAcceptBit g \<noteq> 0)
      else if index = length path \<or> path ! index = CHR ''/'' then
        bindE
          (stepBitmask env query g state (path_component path start index) root
            (relative_parent path start) None)
          (\<lambda>(state', _).
            if state' = 0 then Inr False
            else ignored_loop env query g root path (index + 1) (index + 1) state')
      else ignored_loop env query g root path (index + 1) start state)"
  by pat_completeness auto
termination ignored_loop
  by (relation "measure (\<lambda>(env, query, g, root, path, index, start, state).
      Suc (length path) - index)") auto

function ancestor_loop ::
  "text_env \<Rightarrow> case_query \<Rightarrow> glob \<Rightarrow> string \<Rightarrow> string \<Rightarrow> nat \<Rightarrow> nat \<Rightarrow> u64 \<Rightarrow> string + bool" where
  "ancestor_loop env query g root path index start state =
     (if \<not> index \<le> length path then Inr False
      else if index = length path \<or> path ! index = CHR ''/'' then
        bindE
          (stepBitmask env query g state (path_component path start index) root
            (relative_parent path start) None)
          (\<lambda>(state', _).
            if state' AND mAcceptBit g \<noteq> 0 then Inr True
            else if state' = 0 then Inr False
            else ancestor_loop env query g root path (index + 1) (index + 1) state')
      else ancestor_loop env query g root path (index + 1) start state)"
  by pat_completeness auto
termination ancestor_loop
  by (relation "measure (\<lambda>(env, query, g, root, path, index, start, state).
      Suc (length path) - index)") auto

declare ignored_loop.simps [simp del] ancestor_loop.simps [simp del]

text \<open>
  The table for long patterns: a row per part from the last to the first, a cell per path
  component from the right. The map of the answers already asked for is kept across rows.
\<close>

type_synonym case_map = "(string \<times> sensitivity) list"

definition table_cell ::
  "text_env \<Rightarrow> case_query \<Rightarrow> string \<Rightarrow> string list \<Rightarrow> glob_component \<Rightarrow> bool list \<Rightarrow> nat \<Rightarrow>
    bool list \<times> case_map \<Rightarrow> string + bool list \<times> case_map" where
  "table_cell env query root pathParts part next pathIndex st =
     (let (current, sensitivity) = st in
      if isDoubleStar part then
        Inr (current[pathIndex := next ! pathIndex \<or>
               (pathIndex < length pathParts \<and> current ! (pathIndex + 1))], sensitivity)
      else if pathIndex = length pathParts \<or> \<not> next ! (pathIndex + 1) then Inr (current, sensitivity)
      else if componentMatchesExact env part (pathParts ! pathIndex) then
        Inr (current[pathIndex := True], sensitivity)
      else if \<not> componentMatchesFolded env part (pathParts ! pathIndex) then
        Inr (current, sensitivity)
      else
        (let parent = parentDirectory (te_platform env) root pathParts pathIndex in
         bindE
           (case map_of sensitivity parent of
              None \<Rightarrow> bindE (query parent) (\<lambda>s. Inr (s, AList.update parent s sensitivity))
            | Some s \<Rightarrow> Inr (s, sensitivity))
           (\<lambda>(s, sensitivity').
              Inr (if s = Insensitive then current[pathIndex := True] else current, sensitivity'))))"

definition table_row ::
  "text_env \<Rightarrow> case_query \<Rightarrow> string \<Rightarrow> string list \<Rightarrow> glob_component \<Rightarrow>
    bool list \<times> case_map \<Rightarrow> string + bool list \<times> case_map" where
  "table_row env query root pathParts part st =
     (let (next, sensitivity) = st in
      down_loop (\<lambda>pathIndex r. bindE r (table_cell env query root pathParts part next pathIndex))
        (length pathParts + 1)
        (Inr (replicate (length pathParts + 1) False, sensitivity)))"

definition match_table ::
  "text_env \<Rightarrow> case_query \<Rightarrow> string \<Rightarrow> glob_component list \<Rightarrow> string list \<Rightarrow> string + bool" where
  "match_table env query root patternParts pathParts =
     bindE
       (down_loop
         (\<lambda>patternIndex r. bindE r (table_row env query root pathParts (patternParts ! patternIndex)))
         (length patternParts)
         (Inr ((replicate (length pathParts + 1) False)[length pathParts := True], [])))
       (\<lambda>(next, _). Inr (next ! 0))"

definition isIgnored :: "text_env \<Rightarrow> case_query \<Rightarrow> glob \<Rightarrow> string \<Rightarrow> string \<Rightarrow> string + bool" where
  "isIgnored env query g relativePath root =
     (if mRaw g = [] then Inr False
      else
        (let path = to_slashes (te_platform env) relativePath in
         if mUseBitmask g then
           if path = [] then Inr (mInitialState g AND mAcceptBit g \<noteq> 0)
           else ignored_loop env query g root path 0 0 (mInitialState g)
         else match_table env query root (mParts g) (components path)))"

text \<open>\<open>prefixes_ignored\<close> is the loop over \<open>path.find('/', end + 1)\<close>.\<close>

fun prefixes_ignored ::
  "text_env \<Rightarrow> case_query \<Rightarrow> glob \<Rightarrow> string \<Rightarrow> string \<Rightarrow> nat list \<Rightarrow> string + bool" where
  "prefixes_ignored env query g root path [] = Inr False"
| "prefixes_ignored env query g root path (stop # stops) =
     bindE (isIgnored env query g (take stop path) root)
       (\<lambda>b. if b then Inr True else prefixes_ignored env query g root path stops)"

definition separators :: "string \<Rightarrow> nat list" where
  "separators path = filter (\<lambda>i. path ! i = CHR ''/'') [0..<length path]"

definition isPathOrAncestorIgnored ::
  "text_env \<Rightarrow> case_query \<Rightarrow> glob \<Rightarrow> string \<Rightarrow> string \<Rightarrow> string + bool" where
  "isPathOrAncestorIgnored env query g relativePath root =
     (if mRaw g = [] \<or> relativePath = [] then Inr False
      else
        (let path = to_slashes (te_platform env) relativePath in
         if mUseBitmask g then ancestor_loop env query g root path 0 0 (mInitialState g)
         else
           bindE (isIgnored env query g relativePath root)
             (\<lambda>b. if b then Inr True
                  else prefixes_ignored env query g root path (separators path))))"

subsection \<open>The bits of the automaton\<close>

lemma trailingZeros_spec:
  assumes "c \<noteq> 0"
  shows "bit c (trailingZeros c)" "trailingZeros c < 64" "i < trailingZeros c \<Longrightarrow> \<not> bit c i"
proof -
  let ?P = "\<lambda>i. \<not> bit c i"
  obtain n where n: "bit c n" using assms by (auto simp: bit_eq_iff)
  then have "n < 64" using bit_imp_le_length [of c n] by simp
  then have "takeWhile ?P [0..<64] \<noteq> [0..<64]"
    using n by (auto simp: takeWhile_eq_all_conv)
  then show len: "trailingZeros c < 64"
    unfolding trailingZeros_def
    by (metis diff_zero length_takeWhile_le length_upt nat_less_le takeWhile_eq_take take_all_iff verit_comp_simplify1(1))
  have "\<not> ?P ([0..<64] ! trailingZeros c)"
    using len unfolding trailingZeros_def by (intro nth_length_takeWhile) simp
  then show "bit c (trailingZeros c)" using len by simp
  assume i: "i < trailingZeros c"
  then have "takeWhile ?P [0..<64] ! i = i"
    using len unfolding trailingZeros_def by (subst takeWhile_nth) auto
  moreover have "takeWhile ?P [0..<64] ! i \<in> set (takeWhile ?P [0..<64])"
    using i unfolding trailingZeros_def by (intro nth_mem)
  ultimately show "\<not> bit c i" using set_takeWhileD by metis
qed

text \<open>\<open>candidates &= candidates - 1\<close> clears the lowest bit and no other.\<close>

lemma bit_clear_lowest:
  assumes "c \<noteq> 0"
  shows "bit (c AND (c - 1)) i \<longleftrightarrow> bit c i \<and> i \<noteq> trailingZeros (c :: u64)"
proof -
  define k where "k = trailingZeros c"
  have k: "bit c k" "k < 64" "\<And>i. i < k \<Longrightarrow> \<not> bit c i"
    using trailingZeros_spec [OF assms] by (auto simp: k_def)
  define d where "d = unset_bit k c"
  have "d OR push_bit k 1 = c" by (rule bit_eqI) (auto simp: d_def bit_simps k(1))
  moreover have "d + push_bit k 1 = d OR push_bit k 1"
    by (rule disjunctive_add) (auto simp: d_def bit_simps)
  ultimately have c: "c = d + push_bit k 1" by simp
  have "c - 1 = d + mask k" by (simp add: c mask_eq_exp_minus_1 push_bit_of_1)
  also have "\<dots> = d OR mask k"
    unfolding d_def by (rule disjunctive_add) (auto simp: bit_simps dest: k(3))
  finally show ?thesis
    using k by (auto simp: bit_simps d_def k_def [symmetric] dest: bit_imp_le_length)
qed

text \<open>What it takes for a part to move on a component, in the directory that holds it.\<close>

definition part_matches ::
  "text_env \<Rightarrow> case_query \<Rightarrow> glob_component \<Rightarrow> string \<times> string \<Rightarrow> bool" where
  "part_matches env query part v \<longleftrightarrow>
     componentMatchesExact env part (fst v) \<or>
     (componentMatchesFolded env part (fst v) \<and> query (snd v) = Inr Insensitive)"

text \<open>\<open>cached\<close> holds what \<open>query\<close> answered for the directory, or nothing.\<close>

definition cached_ok :: "case_query \<Rightarrow> string \<Rightarrow> sensitivity option \<Rightarrow> bool" where
  "cached_ok query dir cached \<longleftrightarrow> (\<forall>s. cached = Some s \<longrightarrow> query dir = Inr s)"

lemma cached_ok_None [simp]: "cached_ok query dir None"
  by (simp add: cached_ok_def)

lemma step_candidates_bits:
  assumes "step_candidates env query g component root relativeParent candidates next cached =
      Inr (next', cached')"
    and "cached_ok query (buildParentDirectory (te_platform env) root relativeParent) cached"
    and "\<And>i. bit candidates i \<Longrightarrow> i < 63"
  shows "bit next' j \<longleftrightarrow> bit next j \<or>
      (\<exists>p. j = Suc p \<and> bit candidates p \<and> part_matches env query (mParts g ! p)
        (component, buildParentDirectory (te_platform env) root relativeParent))"
  using assms
proof (induction env query g component root relativeParent candidates "next" cached
    rule: step_candidates.induct)
  case (1 env query g component root relativeParent candidates nxt cached)
  let ?dir = "buildParentDirectory (te_platform env) root relativeParent"
  let ?p = "trailingZeros candidates"
  let ?ok = "\<lambda>p. part_matches env query (mParts g ! p) (component, ?dir)"
  let ?rest = "candidates AND (candidates - 1)"
  let ?moved = "nxt OR push_bit (?p + 1) 1"
  note step = step_candidates.simps [of env query g component root relativeParent candidates nxt cached]
  show ?case
  proof (cases "candidates = 0")
    case True
    with "1.prems"(1) show ?thesis unfolding step by simp
  next
    case False
    note low = trailingZeros_spec [OF False] and clear = bit_clear_lowest [OF False]
    have p: "?p < 63" using "1.prems"(3) low(1) by blast
    have rest63: "\<And>i. bit ?rest i \<Longrightarrow> i < 63" using "1.prems"(3) by (simp add: clear)
    have moved: "bit ?moved j \<longleftrightarrow> bit nxt j \<or> j = Suc ?p"
      using p by (auto simp: bit_simps dest: bit_imp_le_length)
    have split: "(\<exists>p. j = Suc p \<and> bit candidates p \<and> ?ok p) \<longleftrightarrow>
        (j = Suc ?p \<and> ?ok ?p) \<or> (\<exists>p. j = Suc p \<and> bit ?rest p \<and> ?ok p)"
      using low(1) by (auto simp: clear)
    consider (exact) "componentMatchesExact env (mParts g ! ?p) component"
      | (differs) "\<not> componentMatchesExact env (mParts g ! ?p) component"
          "\<not> componentMatchesFolded env (mParts g ! ?p) component"
      | (folded) "\<not> componentMatchesExact env (mParts g ! ?p) component"
          "componentMatchesFolded env (mParts g ! ?p) component"
      by blast
    then show ?thesis
    proof cases
      case exact
      then have "?ok ?p" by (simp add: part_matches_def)
      moreover have "bit next' j \<longleftrightarrow> bit ?moved j \<or> (\<exists>p. j = Suc p \<and> bit ?rest p \<and> ?ok p)"
        using "1.IH"(1) [OF False refl refl refl refl exact _ "1.prems"(2) rest63] "1.prems"(1) False exact
        by (simp add: step Let_def)
      ultimately show ?thesis using moved split by blast
    next
      case differs
      then have "\<not> ?ok ?p" by (simp add: part_matches_def)
      moreover have "bit next' j \<longleftrightarrow> bit nxt j \<or> (\<exists>p. j = Suc p \<and> bit ?rest p \<and> ?ok p)"
        using "1.IH"(2) [OF False refl refl refl refl differs _ "1.prems"(2) rest63] "1.prems"(1) False differs
        by (simp add: step Let_def)
      ultimately show ?thesis using split by blast
    next
      case folded
      with False "1.prems"(1) obtain s where
        s: "(case cached of None \<Rightarrow> query ?dir | Some s \<Rightarrow> Inr s) = Inr s"
        and go: "step_candidates env query g component root relativeParent ?rest
            (if s = Insensitive then ?moved else nxt) (Some s) = Inr (next', cached')"
        by (auto simp: step Let_def bindE_eq_Inr simp del: push_bit_of_1 push_bit_Suc One_nat_def add_Suc_right)
      have q: "query ?dir = Inr s"
        using s "1.prems"(2) by (auto simp: cached_ok_def split: option.splits)
      then have "?ok ?p \<longleftrightarrow> s = Insensitive" using folded by (simp add: part_matches_def)
      moreover have "bit next' j \<longleftrightarrow> bit (if s = Insensitive then ?moved else nxt) j \<or>
          (\<exists>p. j = Suc p \<and> bit ?rest p \<and> ?ok p)"
        using "1.IH"(3) [OF False refl refl refl refl folded(1) _ s go _ rest63] folded q
        by (simp add: cached_ok_def)
      ultimately show ?thesis using moved split by auto
    qed
  qed
qed

lemma step_candidates_cached:
  "step_candidates env query g component root relativeParent candidates next cached = Inr (next', cached') \<Longrightarrow>
    cached_ok query (buildParentDirectory (te_platform env) root relativeParent) cached \<Longrightarrow>
    cached_ok query (buildParentDirectory (te_platform env) root relativeParent) cached'"
proof (induction env query g component root relativeParent candidates "next" cached
    rule: step_candidates.induct)
  case (1 env query g component root relativeParent candidates nxt cached)
  let ?part = "mParts g ! trailingZeros candidates"
  let ?dir = "buildParentDirectory (te_platform env) root relativeParent"
  note step = step_candidates.simps [of env query g component root relativeParent candidates nxt cached]
  consider (zero) "candidates = 0"
    | (exact) "candidates \<noteq> 0" "componentMatchesExact env ?part component"
    | (differs) "candidates \<noteq> 0" "\<not> componentMatchesExact env ?part component"
        "\<not> componentMatchesFolded env ?part component"
    | (folded) "candidates \<noteq> 0" "\<not> componentMatchesExact env ?part component"
        "componentMatchesFolded env ?part component"
    by blast
  then show ?case
  proof cases
    case zero
    then show ?thesis using "1.prems" [unfolded step] by simp
  next
    case exact
    then show ?thesis
      using "1.IH"(1) [OF exact(1) refl refl refl refl exact(2)] "1.prems" [unfolded step Let_def] by simp
  next
    case differs
    then show ?thesis
      using "1.IH"(2) [OF differs(1) refl refl refl refl differs(2,3)] "1.prems" [unfolded step Let_def] by simp
  next
    case folded
    with "1.prems"(1) obtain s where
      s: "(case cached of None \<Rightarrow> query ?dir | Some s \<Rightarrow> Inr s) = Inr s"
      and go: "step_candidates env query g component root relativeParent (candidates AND (candidates - 1))
          (if s = Insensitive then nxt OR push_bit (trailingZeros candidates + 1) 1 else nxt)
          (Some s) = Inr (next', cached')"
      by (auto simp: step Let_def bindE_eq_Inr simp del: push_bit_of_1 push_bit_Suc One_nat_def add_Suc_right)
    then have "cached_ok query ?dir (Some s)"
      using "1.prems"(2) by (auto simp: cached_ok_def split: option.splits)
    then show ?thesis using "1.IH"(3) [OF folded(1) refl refl refl refl folded(2) _ s go] folded(3) by simp
  qed
qed

text \<open>An error of a step is an error of the query for the directory.\<close>

lemma step_candidates_error:
  "step_candidates env query g component root relativeParent candidates next cached = Inl e \<Longrightarrow>
    query (buildParentDirectory (te_platform env) root relativeParent) = Inl e"
proof (induction env query g component root relativeParent candidates "next" cached
    rule: step_candidates.induct)
  case (1 env query g component root relativeParent candidates nxt cached)
  let ?part = "mParts g ! trailingZeros candidates"
  note step = step_candidates.simps [of env query g component root relativeParent candidates nxt cached]
  have nonzero: "candidates \<noteq> 0" using "1.prems" by (auto simp: step_candidates.simps)
  consider (exact) "componentMatchesExact env ?part component"
    | (differs) "\<not> componentMatchesExact env ?part component" "\<not> componentMatchesFolded env ?part component"
    | (folded) "\<not> componentMatchesExact env ?part component" "componentMatchesFolded env ?part component"
    by blast
  then show ?case
  proof cases
    case exact
    then show ?thesis
      using "1.IH"(1) [OF nonzero refl refl refl refl exact] "1.prems" nonzero by (simp add: step Let_def)
  next
    case differs
    then show ?thesis
      using "1.IH"(2) [OF nonzero refl refl refl refl differs] "1.prems" nonzero by (simp add: step Let_def)
  next
    case folded
    then show ?thesis
      using "1.IH"(3) [OF nonzero refl refl refl refl folded(1)] "1.prems" [unfolded step Let_def] nonzero
      by (cases cached; cases "query (buildParentDirectory (te_platform env) root relativeParent)")
        (simp_all del: push_bit_of_1 push_bit_Suc)
  qed
qed

subsection \<open>The masks\<close>

lemma bit_single: "k < 64 \<Longrightarrow> bit (push_bit k 1 :: u64) i \<longleftrightarrow> i = k"
  by (auto simp add: bit_push_bit_iff bit_1_iff simp del: push_bit_of_1)

lemma set_part_bit_bits:
  assumes "k < 64"
  shows "bit (fst (set_part_bit parts k m)) i \<longleftrightarrow> bit (fst m) i \<or> (i = k \<and> isDoubleStar (parts ! k))"
    and "bit (snd (set_part_bit parts k m)) i \<longleftrightarrow> bit (snd m) i \<or> (i = k \<and> \<not> isDoubleStar (parts ! k))"
  by (cases "isDoubleStar (parts ! k)";
      simp add: set_part_bit_def split_def bit_or_iff bit_single [OF assms] del: push_bit_of_1)+

lemma fold_part_masks:
  assumes "length parts < 64"
  shows "k \<le> length parts \<Longrightarrow>
      bit (fst (fold (set_part_bit parts) [0..<k] (0, 0))) i \<longleftrightarrow> i < k \<and> isDoubleStar (parts ! i)"
    and "k \<le> length parts \<Longrightarrow>
      bit (snd (fold (set_part_bit parts) [0..<k] (0, 0))) i \<longleftrightarrow> i < k \<and> \<not> isDoubleStar (parts ! i)"
  using assms by (induction k) (auto simp: set_part_bit_bits less_Suc_eq)

lemma bit_part_masks:
  assumes "length parts < 64"
  shows "bit (fst (part_masks parts)) i \<longleftrightarrow> i < length parts \<and> isDoubleStar (parts ! i)"
    and "bit (snd (part_masks parts)) i \<longleftrightarrow> i < length parts \<and> \<not> isDoubleStar (parts ! i)"
  using fold_part_masks [OF assms, of "length parts" i] by (auto simp: part_masks_def)

text \<open>No two adjacent parts are \<open>**\<close>.\<close>

definition no_adjacent_stars :: "glob_component list \<Rightarrow> bool" where
  "no_adjacent_stars ps \<longleftrightarrow>
     (\<forall>i. Suc i < length ps \<longrightarrow> \<not> (isDoubleStar (ps ! i) \<and> isDoubleStar (ps ! Suc i)))"

lemma no_adjacent_stars_snoc:
  "no_adjacent_stars (ps @ [p]) \<longleftrightarrow>
    no_adjacent_stars ps \<and> (ps = [] \<or> \<not> (isDoubleStar (last ps) \<and> isDoubleStar p))"
proof -
  have "(\<forall>i. Suc i < length (ps @ [p]) \<longrightarrow> P i) \<longleftrightarrow>
      (\<forall>i. Suc i < length ps \<longrightarrow> P i) \<and> (ps = [] \<or> P (length ps - 1))" for P
    by (cases ps) (auto simp: less_Suc_eq)
  then show ?thesis
    unfolding no_adjacent_stars_def by (auto simp: nth_append last_conv_nth)
qed

lemma compile_parts_no_adjacent:
  "no_adjacent_stars parts \<Longrightarrow> no_adjacent_stars (compile_parts env parts comps)"
  by (induction env parts comps rule: compile_parts.induct)
    (auto simp: no_adjacent_stars_snoc compile_component_fields)

text \<open>What the automaton needs of a glob.\<close>

definition automaton :: "glob \<Rightarrow> bool" where
  "automaton g \<longleftrightarrow>
     mParts g \<noteq> [] \<and> length (mParts g) < 63 \<and> no_adjacent_stars (mParts g) \<and>
     (mDoubleStarMask g, mActiveMask g) = part_masks (mParts g) \<and>
     mInitialState g = 1 OR push_bit 1 (1 AND mDoubleStarMask g) \<and>
     mAcceptBit g = push_bit (length (mParts g)) 1"

lemma make_glob_parts:
  "mParts (make_glob env raw) =
    (if raw = [] then [] else compile_parts env [] (components (to_slashes (te_platform env) raw)))"
  by (simp add: make_glob_def Let_def split_def)

lemma make_glob_raw [simp]: "mRaw (make_glob env raw) = raw"
  by (simp add: make_glob_def Let_def split_def)

lemma make_glob_automaton: "mUseBitmask (make_glob env raw) \<Longrightarrow> automaton (make_glob env raw)"
  using compile_parts_no_adjacent [of "[]" env "components (to_slashes (te_platform env) raw)"]
  by (auto simp: automaton_def make_glob_def Let_def split_def no_adjacent_stars_def split: if_splits)

subsection \<open>The automaton decides the declarative match\<close>

text \<open>
  The components of a path with the directories that hold them, as the loops find them:
  each component with its \<open>relParent\<close>.
\<close>

function path_steps :: "string \<Rightarrow> nat \<Rightarrow> nat \<Rightarrow> (string \<times> string) list" where
  "path_steps path index start =
     (if \<not> index \<le> length path then []
      else if index = length path \<or> path ! index = CHR ''/''
      then (path_component path start index, relative_parent path start) #
        path_steps path (index + 1) (index + 1)
      else path_steps path (index + 1) start)"
  by pat_completeness auto
termination path_steps
  by (relation "measure (\<lambda>(path, index, start). Suc (length path) - index)") auto

declare path_steps.simps [simp del]

definition located :: "platform \<Rightarrow> string \<Rightarrow> (string \<times> string) list \<Rightarrow> (string \<times> string) list" where
  "located plat root steps = map (\<lambda>(c, rp). (c, buildParentDirectory plat root rp)) steps"

fun run_steps ::
  "text_env \<Rightarrow> case_query \<Rightarrow> glob \<Rightarrow> string \<Rightarrow> u64 \<Rightarrow> (string \<times> string) list \<Rightarrow> string + bool" where
  "run_steps env query g root state [] = Inr (state AND mAcceptBit g \<noteq> 0)"
| "run_steps env query g root state ((component, relParent) # steps) =
     bindE (stepBitmask env query g state component root relParent None)
       (\<lambda>(state', _). if state' = 0 then Inr False else run_steps env query g root state' steps)"

fun run_prefixes ::
  "text_env \<Rightarrow> case_query \<Rightarrow> glob \<Rightarrow> string \<Rightarrow> u64 \<Rightarrow> (string \<times> string) list \<Rightarrow> string + bool" where
  "run_prefixes env query g root state [] = Inr False"
| "run_prefixes env query g root state ((component, relParent) # steps) =
     bindE (stepBitmask env query g state component root relParent None)
       (\<lambda>(state', _).
         if state' AND mAcceptBit g \<noteq> 0 then Inr True
         else if state' = 0 then Inr False
         else run_prefixes env query g root state' steps)"

lemma ignored_loop_steps:
  "ignored_loop env query g root path index start state =
    run_steps env query g root state (path_steps path index start)"
proof (induction env query g root path index start state rule: ignored_loop.induct)
  case (1 env query g root path index start state)
  show ?case
    by (subst ignored_loop.simps, subst path_steps.simps)
      (use 1 in \<open>auto intro!: bindE_cong\<close>)
qed

lemma ancestor_loop_steps:
  "ancestor_loop env query g root path index start state =
    run_prefixes env query g root state (path_steps path index start)"
proof (induction env query g root path index start state rule: ancestor_loop.induct)
  case (1 env query g root path index start state)
  show ?case
    by (subst ancestor_loop.simps, subst path_steps.simps)
      (use 1 in \<open>auto intro!: bindE_cong\<close>)
qed

abbreviation parts_wild ::
  "text_env \<Rightarrow> case_query \<Rightarrow> glob_component list \<Rightarrow> (string \<times> string) list \<Rightarrow> bool" where
  "parts_wild env query \<equiv> wild isDoubleStar (part_matches env query)"

text \<open>
  The state after some components: a bit tells whether the parts before it match what was
  read; for a \<open>**\<close>, together with the \<open>**\<close> itself.
\<close>

definition reached :: "glob_component list \<Rightarrow> nat \<Rightarrow> glob_component list" where
  "reached ps i = take (if i < length ps \<and> isDoubleStar (ps ! i) then Suc i else i) ps"

definition state_ok ::
  "text_env \<Rightarrow> case_query \<Rightarrow> glob \<Rightarrow> (string \<times> string) list \<Rightarrow> u64 \<Rightarrow> bool" where
  "state_ok env query g vs state \<longleftrightarrow>
     (\<forall>i. bit state i \<longleftrightarrow> i \<le> length (mParts g) \<and> parts_wild env query (reached (mParts g) i) vs)"

lemma automaton_masks:
  assumes "automaton g"
  shows "bit (mDoubleStarMask g) i \<longleftrightarrow> i < length (mParts g) \<and> isDoubleStar (mParts g ! i)"
    and "bit (mActiveMask g) i \<longleftrightarrow> i < length (mParts g) \<and> \<not> isDoubleStar (mParts g ! i)"
proof -
  from assms have masks: "mDoubleStarMask g = fst (part_masks (mParts g))"
      "mActiveMask g = snd (part_masks (mParts g))" and "length (mParts g) < 64"
    by (auto simp: automaton_def prod_eq_iff)
  then show "bit (mDoubleStarMask g) i \<longleftrightarrow> i < length (mParts g) \<and> isDoubleStar (mParts g ! i)"
    and "bit (mActiveMask g) i \<longleftrightarrow> i < length (mParts g) \<and> \<not> isDoubleStar (mParts g ! i)"
    by (simp_all add: bit_part_masks)
qed

lemma bit_shift_one: "bit (push_bit 1 w) i \<longleftrightarrow> (\<exists>p. i = Suc p \<and> i < 64 \<and> bit (w :: u64) p)"
  unfolding bit_push_bit_iff by (cases i) (auto simp del: push_bit_Suc)

lemma stepBitmask_bits:
  assumes "automaton g"
    and "stepBitmask env query g state component root relParent cached = Inr (state', cached')"
    and "cached_ok query (buildParentDirectory (te_platform env) root relParent) cached"
  defines "v \<equiv> (component, buildParentDirectory (te_platform env) root relParent)"
  defines "next \<equiv> \<lambda>j. (bit state j \<and> j < length (mParts g) \<and> isDoubleStar (mParts g ! j)) \<or>
      (\<exists>p. j = Suc p \<and> bit state p \<and> p < length (mParts g) \<and> \<not> isDoubleStar (mParts g ! p) \<and>
        part_matches env query (mParts g ! p) v)"
  shows "bit state' j \<longleftrightarrow>
      next j \<or> (\<exists>p. j = Suc p \<and> next p \<and> p < length (mParts g) \<and> isDoubleStar (mParts g ! p))"
proof -
  from assms(2) obtain nxt where
    step: "step_candidates env query g component root relParent (state AND mActiveMask g)
        (state AND mDoubleStarMask g) cached = Inr (nxt, cached')"
    and state': "state' = nxt OR push_bit 1 (nxt AND mDoubleStarMask g)"
    by (auto simp: stepBitmask_def bindE_eq_Inr)
  have short: "length (mParts g) < 63" using assms(1) by (simp add: automaton_def)
  have "bit nxt j \<longleftrightarrow> next j" for j
    using step_candidates_bits [OF step assms(3), of j] short
    by (auto simp: bit_and_iff automaton_masks [OF assms(1)] next_def v_def)
  then show ?thesis
    using short unfolding state' bit_or_iff bit_shift_one bit_and_iff automaton_masks [OF assms(1)]
    by auto
qed

lemma wild_take_snoc:
  assumes "i < length ps"
  shows "star (ps ! i) \<Longrightarrow> wild star eq (take (Suc i) ps) (vs @ [v]) \<longleftrightarrow>
      wild star eq (take i ps) (vs @ [v]) \<or> wild star eq (take (Suc i) ps) vs"
    and "\<not> star (ps ! i) \<Longrightarrow> wild star eq (take (Suc i) ps) (vs @ [v]) \<longleftrightarrow>
      eq (ps ! i) v \<and> wild star eq (take i ps) vs"
  using assms by (simp_all add: take_Suc_conv_app_nth wild_snoc_star wild_snoc)

lemma state_ok_step:
  assumes g: "automaton g" and ok: "state_ok env query g vs state"
    and step: "stepBitmask env query g state component root relParent cached = Inr (state', cached')"
    and cached: "cached_ok query (buildParentDirectory (te_platform env) root relParent) cached"
  shows "state_ok env query g
      (vs @ [(component, buildParentDirectory (te_platform env) root relParent)]) state'"
proof -
  define ps n where "ps = mParts g" and "n = length ps"
  define v where "v = (component, buildParentDirectory (te_platform env) root relParent)"
  define W where "W = (\<lambda>k. parts_wild env query (take k ps) vs)"
  define W' where "W' = (\<lambda>k. parts_wild env query (take k ps) (vs @ [v]))"
  define S where "S = (\<lambda>i. i < n \<and> isDoubleStar (ps ! i))"
  have alone: "\<not> (S i \<and> S (Suc i))" for i
    using g by (auto simp: automaton_def no_adjacent_stars_def ps_def n_def S_def)
  have state: "bit state i \<longleftrightarrow> i \<le> n \<and> W (if S i then Suc i else i)" for i
    using ok by (simp add: state_ok_def reached_def ps_def n_def W_def S_def)
  have star: "S i \<Longrightarrow> W' (Suc i) \<longleftrightarrow> W' i \<or> W (Suc i)" for i
    by (simp add: W_def W'_def S_def n_def wild_take_snoc)
  have part: "i < n \<Longrightarrow> \<not> S i \<Longrightarrow> W' (Suc i) \<longleftrightarrow> part_matches env query (ps ! i) v \<and> W i" for i
    by (simp add: W_def W'_def S_def n_def wild_take_snoc)
  have zero: "\<not> W' 0" by (simp add: W'_def)
  define N where "N = (\<lambda>j. (bit state j \<and> S j) \<or>
      (\<exists>p. j = Suc p \<and> bit state p \<and> p < n \<and> \<not> S p \<and> part_matches env query (ps ! p) v))"
  have bits: "bit state' j \<longleftrightarrow> N j \<or> (\<exists>p. j = Suc p \<and> N p \<and> S p)" for j
    using stepBitmask_bits [OF g step cached, of j]
    by (auto simp: N_def S_def n_def ps_def v_def)
  have N_star: "N j \<longleftrightarrow> W' (Suc j)" if "S j" for j
  proof (cases j)
    case 0
    then show ?thesis using that star zero by (auto simp: N_def state S_def)
  next
    case (Suc p)
    moreover have "\<not> S p" "p < n" using that alone [of p] Suc by (auto simp: S_def)
    ultimately show ?thesis using that star part by (auto simp: N_def state S_def)
  qed
  have N_part: "N (Suc p) \<longleftrightarrow> W' (Suc p)" if "\<not> S (Suc p)" "\<not> S p" "p < n" for p
    using that part by (auto simp: N_def state)
  have "bit state' j \<longleftrightarrow> j \<le> n \<and> W' (if S j then Suc j else j)" for j
  proof (cases "S j")
    case True
    have "(\<exists>p. j = Suc p \<and> N p \<and> S p) = False" using True alone by blast
    with True show ?thesis by (auto simp: bits N_star S_def)
  next
    case False
    show ?thesis
    proof (cases j)
      case 0
      with False zero show ?thesis by (auto simp: bits N_def)
    next
      case (Suc p)
      show ?thesis
      proof (cases "S p")
        case True
        then have "\<not> N (Suc p)" using False Suc by (auto simp: N_def)
        with True False Suc show ?thesis by (auto simp: bits N_star S_def)
      next
        case notS: False
        show ?thesis
        proof (cases "p < n")
          case True
          with notS False Suc show ?thesis by (auto simp: bits N_part)
        next
          case beyond: False
          then have "\<not> N (Suc p)" using notS False Suc by (auto simp: N_def)
          with notS beyond Suc show ?thesis by (auto simp: bits)
        qed
      qed
    qed
  qed
  then show ?thesis
    by (simp add: state_ok_def reached_def W'_def S_def ps_def n_def v_def)
qed

lemma stepBitmask_cached:
  "stepBitmask env query g state component root relParent cached = Inr (state', cached') \<Longrightarrow>
    cached_ok query (buildParentDirectory (te_platform env) root relParent) cached \<Longrightarrow>
    cached_ok query (buildParentDirectory (te_platform env) root relParent) cached'"
  by (auto simp: stepBitmask_def bindE_eq_Inr dest: step_candidates_cached)

lemma step_from_zero:
  "stepBitmask env query g 0 component root relParent None = Inr (0, None)"
  by (simp add: stepBitmask_def step_candidates.simps)

lemma state_ok_dead:
  "automaton g \<Longrightarrow> state_ok env query g vs 0 \<Longrightarrow>
    state_ok env query g (vs @ located (te_platform env) root steps) 0"
proof (induction steps arbitrary: vs)
  case Nil
  then show ?case by (simp add: located_def)
next
  case (Cons s steps)
  obtain c rp where s: "s = (c, rp)" by (cases s)
  from Cons.IH [OF Cons.prems(1) state_ok_step [OF Cons.prems step_from_zero [of env query g c root rp] cached_ok_None]]
  show ?case by (simp add: located_def s)
qed

lemma word_zero_bits: "w = 0 \<longleftrightarrow> (\<forall>i. \<not> bit (w :: u64) i)"
  by (metis bit_eqI bit_0_eq bot_apply bot_bool_def)

lemma accept_bit:
  "automaton g \<Longrightarrow> state_ok env query g vs state \<Longrightarrow>
    state AND mAcceptBit g \<noteq> 0 \<longleftrightarrow> parts_wild env query (mParts g) vs"
proof -
  assume g: "automaton g" and ok: "state_ok env query g vs state"
  let ?n = "length (mParts g)"
  have "mAcceptBit g = push_bit ?n 1" "?n < 64" using g by (auto simp: automaton_def)
  then have "bit (mAcceptBit g) i \<longleftrightarrow> i = ?n" for i by (simp add: bit_single del: push_bit_of_1)
  then have "bit (state AND mAcceptBit g) i \<longleftrightarrow> bit state i \<and> i = ?n" for i
    by (simp add: bit_and_iff)
  then have "state AND mAcceptBit g \<noteq> 0 \<longleftrightarrow> bit state ?n"
    by (simp only: word_zero_bits) blast
  then show ?thesis using ok by (simp add: state_ok_def reached_def)
qed

lemma run_steps_correct:
  "automaton g \<Longrightarrow> state_ok env query g vs state \<Longrightarrow>
    run_steps env query g root state steps = Inr b \<Longrightarrow>
    b \<longleftrightarrow> parts_wild env query (mParts g) (vs @ located (te_platform env) root steps)"
proof (induction steps arbitrary: vs state)
  case Nil
  then show ?case by (auto simp: accept_bit located_def)
next
  case (Cons s steps)
  obtain c rp where s: "s = (c, rp)" by (cases s)
  from Cons.prems(3) obtain state' cached' where
    step: "stepBitmask env query g state c root rp None = Inr (state', cached')"
    and go: "(if state' = 0 then Inr False else run_steps env query g root state' steps) = Inr b"
    by (auto simp: s bindE_eq_Inr)
  note ok = state_ok_step [OF Cons.prems(1,2) step cached_ok_None]
  show ?case
  proof (cases "state' = 0")
    case True
    then have "\<not> b" using go by simp
    moreover have "state_ok env query g (vs @ located (te_platform env) root (s # steps)) 0"
      using state_ok_dead [OF Cons.prems(1), of env query
          "vs @ [(c, buildParentDirectory (te_platform env) root rp)]" root steps] ok True
      by (simp add: located_def s)
    ultimately show ?thesis using accept_bit [OF Cons.prems(1)] by fastforce
  next
    case False
    then show ?thesis using Cons.IH [OF Cons.prems(1) ok] go by (simp add: located_def s)
  qed
qed

lemma Ex_prefix_Suc:
  "(\<exists>k. 1 \<le> k \<and> k \<le> Suc n \<and> P k) \<longleftrightarrow> P 1 \<or> (\<exists>k. 1 \<le> k \<and> k \<le> n \<and> P (Suc k))"
proof
  assume "\<exists>k. 1 \<le> k \<and> k \<le> Suc n \<and> P k"
  then obtain k where "1 \<le> k" "k \<le> Suc n" "P k" by blast
  then show "P 1 \<or> (\<exists>k. 1 \<le> k \<and> k \<le> n \<and> P (Suc k))"
    by (cases k; cases "k - 1") auto
next
  assume "P 1 \<or> (\<exists>k. 1 \<le> k \<and> k \<le> n \<and> P (Suc k))"
  then show "\<exists>k. 1 \<le> k \<and> k \<le> Suc n \<and> P k" by (auto intro: exI [of _ "Suc _"])
qed

lemma run_prefixes_correct:
  "automaton g \<Longrightarrow> state_ok env query g vs state \<Longrightarrow>
    run_prefixes env query g root state steps = Inr b \<Longrightarrow>
    b \<longleftrightarrow> (\<exists>k. 1 \<le> k \<and> k \<le> length steps \<and>
      parts_wild env query (mParts g) (vs @ located (te_platform env) root (take k steps)))"
proof (induction steps arbitrary: vs state)
  case Nil
  then show ?case by auto
next
  case (Cons s steps)
  let ?loc = "located (te_platform env) root"
  obtain c rp where s: "s = (c, rp)" by (cases s)
  let ?vs = "vs @ [(c, buildParentDirectory (te_platform env) root rp)]"
  from Cons.prems(3) obtain state' cached' where
    step: "stepBitmask env query g state c root rp None = Inr (state', cached')"
    and go: "(if state' AND mAcceptBit g \<noteq> 0 then Inr True
        else if state' = 0 then Inr False else run_prefixes env query g root state' steps) = Inr b"
    by (auto simp: s bindE_eq_Inr)
  note ok = state_ok_step [OF Cons.prems(1,2) step cached_ok_None]
  have goal: "(\<exists>k. 1 \<le> k \<and> k \<le> length (s # steps) \<and>
        parts_wild env query (mParts g) (vs @ ?loc (take k (s # steps)))) \<longleftrightarrow>
      parts_wild env query (mParts g) ?vs \<or>
      (\<exists>k. 1 \<le> k \<and> k \<le> length steps \<and> parts_wild env query (mParts g) (?vs @ ?loc (take k steps)))"
    unfolding length_Cons Ex_prefix_Suc by (simp add: located_def s)
  note accept = accept_bit [OF Cons.prems(1) ok]
  consider (yes) "state' AND mAcceptBit g \<noteq> 0" | (dead) "state' = 0" "state' AND mAcceptBit g = 0"
    | (more) "state' \<noteq> 0" "state' AND mAcceptBit g = 0" by blast
  then show ?case
  proof cases
    case yes
    with go accept show ?thesis unfolding goal by simp
  next
    case dead
    have "\<not> parts_wild env query (mParts g) (?vs @ ?loc steps')" for steps'
      using accept_bit [OF Cons.prems(1) state_ok_dead [OF Cons.prems(1), of env query ?vs root steps']]
        ok dead by simp
    with dead go accept show ?thesis unfolding goal by auto
  next
    case more
    with go have "run_prefixes env query g root state' steps = Inr b" by simp
    from Cons.IH [OF Cons.prems(1) ok this] more accept show ?thesis unfolding goal by blast
  qed
qed

lemma state_ok_initial: "automaton g \<Longrightarrow> state_ok env query g [] (mInitialState g)"
proof -
  assume g: "automaton g"
  let ?n = "length (mParts g)"
  have short: "0 < ?n" "?n < 63" using g by (auto simp: automaton_def)
  have init: "bit (mInitialState g) i \<longleftrightarrow> i = 0 \<or> (i = 1 \<and> isDoubleStar (mParts g ! 0))" for i
  proof -
    have "mInitialState g = 1 OR push_bit 1 (1 AND mDoubleStarMask g)"
      using g by (simp add: automaton_def)
    then show ?thesis
      using short
      by (simp only: bit_or_iff bit_shift_one bit_and_iff automaton_masks [OF g] bit_1_iff) auto
  qed
  have "i \<le> ?n \<and> parts_wild env query (reached (mParts g) i) [] \<longleftrightarrow>
      i = 0 \<or> (i = 1 \<and> isDoubleStar (mParts g ! 0))" for i
  proof -
    have all: "parts_wild env query (take k (mParts g)) [] \<longleftrightarrow>
        (\<forall>j < min k ?n. isDoubleStar (mParts g ! j))" for k
      by (auto simp: wild_Nil all_set_conv_all_nth)
    have alone: "Suc j < ?n \<Longrightarrow> \<not> (isDoubleStar (mParts g ! j) \<and> isDoubleStar (mParts g ! Suc j))" for j
      using g by (auto simp: automaton_def no_adjacent_stars_def)
    show ?thesis
    proof (cases "i \<le> 1")
      case True
      then have "i = 0 \<or> i = 1" by auto
      moreover obtain m where "?n = Suc m" using short by (cases ?n) auto
      ultimately show ?thesis using alone [of 0] by (auto simp: reached_def all)
    next
      case False
      then have "i \<le> ?n \<Longrightarrow> \<exists>j < i. j < ?n \<and> \<not> isDoubleStar (mParts g ! j)"
        using alone [of 0] by (auto intro: exI [of _ 0] exI [of _ "Suc 0"])
      then have "i \<le> ?n \<Longrightarrow> i \<le> k \<Longrightarrow> \<not> parts_wild env query (take k (mParts g)) []" for k
        unfolding all by (meson min_less_iff_conj order_less_le_trans)
      then show ?thesis using False by (simp add: reached_def)
    qed
  qed
  then show ?thesis by (simp add: state_ok_def init)
qed

subsection \<open>The components of a path\<close>

lemma path_component_snoc:
  "start \<le> index \<Longrightarrow> index < length path \<Longrightarrow>
    path_component path start (Suc index) = path_component path start index @ [path ! index]"
  by (simp add: path_component_def Suc_diff_le take_Suc_conv_app_nth)

lemma path_steps_components:
  "start \<le> index \<Longrightarrow> index \<le> length path \<Longrightarrow>
    map fst (path_steps path index start) =
      components_from (path_component path start index) (drop index path)"
proof (induction path index start rule: path_steps.induct)
  case (1 path index start)
  show ?case
  proof (cases "index = length path")
    case True
    then show ?thesis by (simp add: path_steps.simps)
  next
    case False
    then have less: "index < length path" using "1.prems" by simp
    show ?thesis
    proof (cases "path ! index = CHR ''/''")
      case True
      then show ?thesis using "1.IH"(1) less False "1.prems"
        by (simp add: path_steps.simps [of path index] drop_at [OF less] path_component_def)
    next
      case slash: False
      then show ?thesis
        using "1.IH"(2) less False slash "1.prems" path_component_snoc [OF "1.prems"(1) less]
        by (simp add: path_steps.simps [of path index] drop_at [OF less])
    qed
  qed
qed

lemma components_steps: "path \<noteq> [] \<Longrightarrow> components path = map fst (path_steps path 0 0)"
  using path_steps_components [of 0 0 path] by (simp add: components_def path_component_def)

text \<open>The components of a path with the directories that hold them.\<close>

definition path_parts :: "text_env \<Rightarrow> string \<Rightarrow> string \<Rightarrow> (string \<times> string) list" where
  "path_parts env root path =
     (if path = [] then [] else located (te_platform env) root (path_steps path 0 0))"

lemma fst_path_parts: "map fst (path_parts env root path) = components path"
  by (simp add: path_parts_def components_steps located_def case_prod_beta o_def)
    (simp add: components_def)

lemma isIgnored_automaton:
  assumes "mUseBitmask g" "automaton g" "mRaw g \<noteq> []"
    and "isIgnored env query g relativePath root = Inr b"
  shows "b \<longleftrightarrow> parts_wild env query (mParts g)
      (path_parts env root (to_slashes (te_platform env) relativePath))"
proof -
  note start = state_ok_initial [OF assms(2), of env query]
  show ?thesis
  proof (cases "to_slashes (te_platform env) relativePath = []")
    case True
    then show ?thesis using accept_bit [OF assms(2) start] assms
      by (auto simp: isIgnored_def path_parts_def)
  next
    case False
    then show ?thesis using run_steps_correct [OF assms(2) start] assms
      by (simp add: isIgnored_def path_parts_def ignored_loop_steps Let_def)
  qed
qed

lemma ancestors_automaton:
  assumes "mUseBitmask g" "automaton g" "mRaw g \<noteq> []" "relativePath \<noteq> []"
    and "isPathOrAncestorIgnored env query g relativePath root = Inr b"
  defines "parts \<equiv> path_parts env root (to_slashes (te_platform env) relativePath)"
  shows "b \<longleftrightarrow> (\<exists>k. 1 \<le> k \<and> k \<le> length parts \<and> parts_wild env query (mParts g) (take k parts))"
proof -
  have "to_slashes (te_platform env) relativePath \<noteq> []"
    using assms(4) by (auto simp: to_slashes_def)
  then show ?thesis
    using run_prefixes_correct [OF assms(2) state_ok_initial [OF assms(2)], of env query] assms
    by (simp add: isPathOrAncestorIgnored_def path_parts_def ancestor_loop_steps Let_def
        located_def take_map)
qed

subsection \<open>The table decides the declarative match\<close>

definition table_parts :: "text_env \<Rightarrow> string \<Rightarrow> string list \<Rightarrow> (string \<times> string) list" where
  "table_parts env root comps =
     map (\<lambda>i. (comps ! i, parentDirectory (te_platform env) root comps i)) [0..<length comps]"

definition case_map_ok :: "case_query \<Rightarrow> case_map \<Rightarrow> bool" where
  "case_map_ok query m \<longleftrightarrow> (\<forall>d s. map_of m d = Some s \<longrightarrow> query d = Inr s)"

lemma length_table_parts [simp]: "length (table_parts env root comps) = length comps"
  by (simp add: table_parts_def)

lemma nth_table_parts:
  "i < length comps \<Longrightarrow>
    table_parts env root comps ! i = (comps ! i, parentDirectory (te_platform env) root comps i)"
  by (simp add: table_parts_def)

lemma row_done_set:
  "row_done W vs (Suc i) row \<Longrightarrow> i \<le> length vs \<Longrightarrow> b = W (drop i vs) \<Longrightarrow>
    row_done W vs i (row[i := b])"
  by (auto simp: row_done_def nth_list_update)

lemma row_done_keep: "row_done W vs (Suc i) row \<Longrightarrow> \<not> W (drop i vs) \<Longrightarrow> row_done W vs i row"
  by (auto simp: row_done_def) (metis Suc_leI le_neq_implies_less)

lemma table_cell_step:
  assumes nxt: "row_done (parts_wild env query ps) vs 0 nxt"
    and row: "row_done (parts_wild env query (p # ps)) vs (Suc i) row" and i: "i \<le> length vs"
    and sens: "case_map_ok query sens" and vs: "vs = table_parts env root comps"
    and cell: "table_cell env query root comps p nxt i (row, sens) = Inr (row', sens')"
  shows "row_done (parts_wild env query (p # ps)) vs i row' \<and> case_map_ok query sens'"
proof -
  let ?W = "parts_wild env query"
  have next_at: "nxt ! j = ?W ps (drop j vs)" if "j \<le> length vs" for j
    using nxt that by (simp add: row_done_def)
  have row_at: "row ! (i + 1) = ?W (p # ps) (drop (i + 1) vs)" if "i < length vs"
    using row that by (simp add: row_done_def)
  have len: "length vs = length comps" by (simp add: vs)
  show ?thesis
  proof (cases "isDoubleStar p")
    case True
    then have "row' = row[i := nxt ! i \<or> (i < length comps \<and> row ! (i + 1))]" "sens' = sens"
      using cell by (auto simp: table_cell_def)
    moreover have "(nxt ! i \<or> (i < length comps \<and> row ! (i + 1))) = ?W (p # ps) (drop i vs)"
    proof (cases "i < length vs")
      case True
      with \<open>isDoubleStar p\<close> show ?thesis
        using next_at row_at len by (simp add: drop_at [of i vs])
    next
      case False
      with i \<open>isDoubleStar p\<close> show ?thesis using next_at len by simp
    qed
    ultimately show ?thesis using sens by (simp only: row_done_set [OF row i refl] simp_thms)
  next
    case part: False
    show ?thesis
    proof (cases "i < length comps \<and> nxt ! (i + 1)")
      case False
      then have "\<not> ?W (p # ps) (drop i vs)"
        using part next_at len i by (cases "i < length vs") (simp_all add: drop_at [of i vs])
      moreover have "row' = row" "sens' = sens"
        using cell False part i len by (auto simp: table_cell_def)
      ultimately show ?thesis using row_done_keep [OF row] sens by blast
    next
      case True
      let ?dir = "parentDirectory (te_platform env) root comps i"
      have W: "?W (p # ps) (drop i vs) = part_matches env query p (comps ! i, ?dir)"
        using True part next_at [of "i + 1"] len
        by (simp add: drop_at [of i vs]) (simp add: vs nth_table_parts)
      show ?thesis
      proof (cases "componentMatchesExact env p (comps ! i) \<or>
          \<not> componentMatchesFolded env p (comps ! i)")
        case exact: True
        then have "sens' = sens" "row' = (if componentMatchesExact env p (comps ! i) then row[i := True] else row)"
          using True part cell by (auto simp: table_cell_def split: if_splits)
        then show ?thesis
          using exact W sens row_done_set [OF row i, of True] row_done_keep [OF row]
          by (auto simp: part_matches_def)
      next
        case folded: False
        then obtain s where row': "row' = (if s = Insensitive then row[i := True] else row)"
          and s: "(case map_of sens ?dir of
              None \<Rightarrow> bindE (query ?dir) (\<lambda>s. Inr (s, AList.update ?dir s sens))
            | Some s \<Rightarrow> Inr (s, sens)) = Inr (s, sens')"
          using True part cell by (auto simp: table_cell_def Let_def bindE_eq_Inr)
        have q: "query ?dir = Inr s" and sens': "case_map_ok query sens'"
          using s sens
          by (auto simp: case_map_ok_def bindE_eq_Inr update_conv' split: option.splits if_splits)
        then show ?thesis
          using row' folded W q row_done_set [OF row i, of True] row_done_keep [OF row]
          by (auto simp: part_matches_def)
      qed
    qed
  qed
qed

lemma table_row_step:
  assumes nxt: "row_done (parts_wild env query ps) vs 0 nxt" and sens: "case_map_ok query sens"
    and vs: "vs = table_parts env root comps"
    and row: "table_row env query root comps p (nxt, sens) = Inr (row', sens')"
  shows "row_done (parts_wild env query (p # ps)) vs 0 row' \<and> case_map_ok query sens'"
proof -
  let ?ok = "\<lambda>i r. \<forall>row sens. r = Inr (row, sens) \<longrightarrow>
      row_done (parts_wild env query (p # ps)) vs i row \<and> case_map_ok query sens"
  have "?ok 0 (down_loop (\<lambda>i r. bindE r (table_cell env query root comps p nxt i))
      (length comps + 1) (Inr (replicate (length comps + 1) False, sens)))"
  proof (rule down_loop_invariant [where P = ?ok])
    show "?ok (length comps + 1) (Inr (replicate (length comps + 1) False, sens))"
      using sens by (simp add: row_done_def vs del: replicate_Suc)
    show "?ok i (bindE r (table_cell env query root comps p nxt i))"
      if "i < length comps + 1" "?ok (Suc i) r" for i r
      using that table_cell_step [OF nxt _ _ _ vs] by (force simp: bindE_eq_Inr vs)
  qed
  then show ?thesis using row by (simp add: table_row_def)
qed

lemma match_table_correct:
  assumes "match_table env query root ps comps = Inr b"
  shows "b \<longleftrightarrow> parts_wild env query ps (table_parts env root comps)"
proof -
  let ?vs = "table_parts env root comps"
  let ?ok = "\<lambda>k r. \<forall>row sens. r = Inr (row, sens) \<longrightarrow>
      row_done (parts_wild env query (drop k ps)) ?vs 0 row \<and> case_map_ok query sens"
  let ?table = "down_loop (\<lambda>k r. bindE r (table_row env query root comps (ps ! k))) (length ps)
      (Inr ((replicate (length comps + 1) False)[length comps := True], []))"
  have "?ok 0 ?table"
  proof (rule down_loop_invariant [where P = ?ok])
    show "?ok (length ps) (Inr ((replicate (length comps + 1) False)[length comps := True], []))"
      by (auto simp: row_done_def case_map_ok_def nth_list_update simp del: replicate_Suc)
    show "?ok k (bindE r (table_row env query root comps (ps ! k)))"
      if "k < length ps" "?ok (Suc k) r" for k r
      using that table_row_step [of env query "drop (Suc k) ps" ?vs] drop_at [OF that(1)]
      by (force simp: bindE_eq_Inr)
  qed
  moreover obtain row sens where "?table = Inr (row, sens)" "b = row ! 0"
    using assms by (auto simp: match_table_def bindE_eq_Inr)
  ultimately show ?thesis by (auto simp: row_done_def)
qed

subsection \<open>Both name the same directories\<close>

fun with_parents :: "char \<Rightarrow> string \<Rightarrow> string list \<Rightarrow> (string \<times> string) list" where
  "with_parents sep dir [] = []"
| "with_parents sep dir (c # cs) = (c, dir) # with_parents sep (dir @ [sep] @ c) cs"

lemma parentDirectory_concat:
  "k \<le> length comps \<Longrightarrow>
    parentDirectory plat root comps k = root @ concat (map (\<lambda>c. dir_sep plat # c) (take k comps))"
  by (induction k) (simp_all add: parentDirectory_def take_Suc_conv_app_nth)

lemma table_parts_with_parents:
  "table_parts env root comps = with_parents (dir_sep (te_platform env)) root comps"
proof -
  have "map (\<lambda>i. (cs ! i, dir @ concat (map (\<lambda>c. sep # c) (take i cs)))) [0..<length cs] =
      with_parents sep dir cs" for sep dir and cs :: "string list"
  proof (induction cs arbitrary: dir)
    case Nil
    then show ?case by simp
  next
    case (Cons c cs)
    show ?case using Cons [of "dir @ sep # c"]
      by (simp add: upt_conv_Cons map_Suc_upt [symmetric] o_def del: upt_Suc)
  qed
  moreover have "table_parts env root comps =
      map (\<lambda>i. (comps ! i, root @ concat (map (\<lambda>c. dir_sep (te_platform env) # c) (take i comps))))
        [0..<length comps]"
    unfolding table_parts_def by (intro map_cong) (simp_all add: parentDirectory_concat)
  ultimately show ?thesis by simp
qed

definition relative_path :: "string \<Rightarrow> bool" where
  "relative_path path \<longleftrightarrow> path \<noteq> [] \<and> path ! 0 \<noteq> CHR ''/''"

lemma buildParentDirectory_next:
  assumes "relative_path path" "start \<le> index" "index \<le> length path"
    and "CHR ''/'' \<notin> set (path_component path start index)"
    and "start = 0 \<or> path ! (start - 1) = CHR ''/''"
    and "index = length path \<or> path ! index = CHR ''/''"
  shows "buildParentDirectory plat root (relative_parent path (index + 1)) =
    buildParentDirectory plat root (relative_parent path start) @ [dir_sep plat] @
      path_component path start index"
proof -
  let ?sub = "map (\<lambda>ch. if ch = CHR ''/'' then CHR 0x5C else ch)"
  have same: "?sub (path_component path start index) = path_component path start index"
    using assms(4) by (intro map_idI) auto
  have index: "take index path \<noteq> []"
    using assms(1,3,6) by (cases index) (auto simp: relative_path_def)
  show ?thesis
  proof (cases start)
    case 0
    then show ?thesis using index same
      by (auto simp: buildParentDirectory_def relative_parent_def path_component_def dir_sep_def)
  next
    case (Suc s)
    have "s < length path" "path ! s = CHR ''/''" using Suc assms(2,3,5) by auto
    then have "take index path = take s path @ CHR ''/'' # path_component path start index"
      using Suc assms(2) take_add [of s "index - s" path]
      by (simp add: path_component_def drop_at [of s path] take_Cons' )
    moreover have "take s path \<noteq> []"
      using assms(1) \<open>path ! s = CHR ''/''\<close> by (cases s) (auto simp: relative_path_def)
    ultimately show ?thesis using index same Suc
      by (auto simp: buildParentDirectory_def relative_parent_def dir_sep_def)
  qed
qed

lemma located_steps_with_parents:
  "relative_path path \<Longrightarrow> start \<le> index \<Longrightarrow> index \<le> length path \<Longrightarrow>
    CHR ''/'' \<notin> set (path_component path start index) \<Longrightarrow>
    start = 0 \<or> path ! (start - 1) = CHR ''/'' \<Longrightarrow>
    located plat root (path_steps path index start) =
      with_parents (dir_sep plat) (buildParentDirectory plat root (relative_parent path start))
        (map fst (path_steps path index start))"
proof (induction path index start rule: path_steps.induct)
  case (1 path index start)
  note step = path_steps.simps [of path index start]
  show ?case
  proof (cases "index = length path \<or> path ! index = CHR ''/''")
    case True
    note dir = buildParentDirectory_next [OF "1.prems" True, of plat root]
    show ?thesis
    proof (cases "index = length path")
      case True
      then show ?thesis
        unfolding step by (simp add: path_steps.simps [of path "Suc (length path)"] located_def)
    next
      case False
      then have "located plat root (path_steps path (index + 1) (index + 1)) =
          with_parents (dir_sep plat) (buildParentDirectory plat root (relative_parent path (index + 1)))
            (map fst (path_steps path (index + 1) (index + 1)))"
        using "1.IH"(1) "1.prems" True by (simp add: path_component_def)
      then show ?thesis using "1.prems" True dir by (simp add: step located_def)
    qed
  next
    case False
    then have "path_component path start (index + 1) = path_component path start index @ [path ! index]"
      using "1.prems" path_component_snoc [of start index path] by simp
    then show ?thesis using "1.IH"(2) "1.prems" False by (simp add: step)
  qed
qed

lemma path_parts_table:
  "relative_path path \<or> path = [] \<Longrightarrow> path_parts env root path = table_parts env root (components path)"
proof -
  assume "relative_path path \<or> path = []"
  moreover have "path_parts env root path = table_parts env root (components path)" if "relative_path path"
    using that located_steps_with_parents [of path 0 0 "te_platform env" root]
    by (simp add: path_parts_def table_parts_with_parents components_steps path_component_def
        relative_parent_def buildParentDirectory_def relative_path_def)
  ultimately show ?thesis by (auto simp: path_parts_def components_def table_parts_def)
qed

subsection \<open>What a glob ignores\<close>

lemma compile_parts_wild:
  "parts_wild env query (compile_parts env parts comps) vs =
    parts_wild env query (parts @ map (compile_component env) comps) vs"
proof (induction env parts comps arbitrary: vs rule: compile_parts.induct)
  case (1 env parts)
  then show ?case by simp
next
  case (2 env parts part rest)
  show ?case
  proof (cases "part = ''**'' \<and> parts \<noteq> [] \<and> isDoubleStar (last parts)")
    case True
    then obtain ps p where parts: "parts = ps @ [p]" by (metis append_butlast_last_id)
    let ?tail = "map (compile_component env) rest"
    let ?q = "compile_component env part"
    have stars: "isDoubleStar p" "isDoubleStar ?q"
      using True by (simp_all add: parts compile_component_fields)
    have "parts_wild env query (p # ?q # ?tail) vs = parts_wild env query (p # ?tail) vs" for vs
      by (subst wild_double_star) (simp_all add: stars wild_star)
    then have "parts_wild env query (ps @ p # ?q # ?tail) vs = parts_wild env query (ps @ p # ?tail) vs"
      by (rule wild_append_star_cong)
    then show ?thesis using 2 True parts by simp
  next
    case False
    then show ?thesis using "2.IH"(2) [OF False] by auto
  qed
qed

text \<open>A pattern against components of a path with their directories, without compiled parts.\<close>

definition pattern_wild ::
  "text_env \<Rightarrow> case_query \<Rightarrow> string \<Rightarrow> (string \<times> string) list \<Rightarrow> bool" where
  "pattern_wild env query raw vs =
     wild (\<lambda>c. c = ''**'') (\<lambda>c. part_matches env query (compile_component env c))
       (components (to_slashes (te_platform env) raw)) vs"

lemma make_glob_wild:
  "raw \<noteq> [] \<Longrightarrow> parts_wild env query (mParts (make_glob env raw)) vs = pattern_wild env query raw vs"
  using wild_map [of isDoubleStar "part_matches env query" "compile_component env" _ "\<lambda>v. v" vs]
  by (simp add: make_glob_parts compile_parts_wild pattern_wild_def compile_component_fields)

lemma isIgnored_pattern:
  assumes "isIgnored env query (make_glob env raw) path root = Inr b" and "raw \<noteq> []"
    and "relative_path (to_slashes (te_platform env) path) \<or> path = []"
  shows "b \<longleftrightarrow> pattern_wild env query raw
      (table_parts env root (components (to_slashes (te_platform env) path)))"
proof -
  let ?path = "to_slashes (te_platform env) path"
  have "relative_path ?path \<or> ?path = []" using assms(3) by (auto simp: to_slashes_def)
  note same = path_parts_table [OF this, of env root]
  show ?thesis
  proof (cases "mUseBitmask (make_glob env raw)")
    case True
    then show ?thesis
      using isIgnored_automaton [OF True make_glob_automaton [OF True] _ assms(1)] assms(2)
      by (simp add: same make_glob_wild)
  next
    case False
    then have "match_table env query root (mParts (make_glob env raw)) (components ?path) = Inr b"
      using assms by (simp add: isIgnored_def)
    then show ?thesis using match_table_correct make_glob_wild [OF assms(2)] by blast
  qed
qed

lemma prefixes_ignored_Ex:
  assumes "prefixes_ignored env query g root path stops = Inr b"
    and "\<And>stop b. stop \<in> set stops \<Longrightarrow> isIgnored env query g (take stop path) root = Inr b \<Longrightarrow>
      b = Q (take stop path)"
  shows "b \<longleftrightarrow> (\<exists>stop \<in> set stops. Q (take stop path))"
  using assms
  by (induction stops) (auto simp: bindE_eq_Inr split: if_splits)

lemma components_from_nonempty [simp]: "components_from cur cs \<noteq> []"
  by (induction cur cs rule: components_from.induct) auto

lemma components_from_prefixes:
  "(\<exists>s < length cs. cs ! s = CHR ''/'' \<and> P (components_from cur (take s cs))) \<longleftrightarrow>
    (\<exists>k. 1 \<le> k \<and> k < length (components_from cur cs) \<and> P (take k (components_from cur cs)))"
proof (induction cs arbitrary: cur P)
  case Nil
  then show ?case by auto
next
  case (Cons c cs)
  have Ex: "(\<exists>s < Suc n. Q s) \<longleftrightarrow> Q 0 \<or> (\<exists>s < n. Q (Suc s))" for n and Q :: "nat \<Rightarrow> bool"
    by (metis Suc_less_eq gr0_conv_Suc nat_neq_iff not_less_zero zero_less_Suc)
  show ?case
  proof (cases "c = CHR ''/''")
    case True
    have "(\<exists>k. 1 \<le> k \<and> k < Suc n \<and> Q k) \<longleftrightarrow> Q 1 \<or> (\<exists>k. 1 \<le> k \<and> k < n \<and> Q (Suc k))"
      if "0 < n" for n and Q :: "nat \<Rightarrow> bool"
      using that Ex_prefix_Suc [of "n - 1" Q] by (auto simp: less_Suc_eq_le Suc_le_eq)
    with True show ?thesis using Cons [where cur = "[]" and P = "\<lambda>x. P (cur # x)"] by (simp add: Ex)
  next
    case False
    then show ?thesis using Cons [where cur = "cur @ [c]" and P = P] by (simp add: Ex)
  qed
qed

lemma table_parts_take:
  "k \<le> length comps \<Longrightarrow> table_parts env root (take k comps) = take k (table_parts env root comps)"
proof -
  have "with_parents sep dir (take k cs) = take k (with_parents sep dir cs)" for sep dir and cs :: "string list"
    by (induction cs arbitrary: dir k) (simp_all add: take_Cons split: nat.split)
  then show ?thesis by (simp add: table_parts_with_parents)
qed

lemma to_slashes_take: "to_slashes plat (take k (to_slashes plat s)) = take k (to_slashes plat s)"
  by (auto simp: to_slashes_def take_map)

lemma ancestors_pattern:
  assumes "isPathOrAncestorIgnored env query (make_glob env raw) path root = Inr b" and "raw \<noteq> []"
    and "relative_path (to_slashes (te_platform env) path)"
  defines "comps \<equiv> components (to_slashes (te_platform env) path)"
  shows "b \<longleftrightarrow> (\<exists>k. 1 \<le> k \<and> k \<le> length comps \<and>
    pattern_wild env query raw (take k (table_parts env root comps)))"
proof -
  let ?path = "to_slashes (te_platform env) path" and ?g = "make_glob env raw"
  let ?P = "\<lambda>cs. pattern_wild env query raw (table_parts env root cs)"
  have ne: "path \<noteq> []" "?path \<noteq> []" using assms(3) by (auto simp: relative_path_def to_slashes_def)
  show ?thesis
  proof (cases "mUseBitmask ?g")
    case True
    then show ?thesis
      using ancestors_automaton [OF True make_glob_automaton [OF True] _ ne(1) assms(1)] assms(2,3)
      by (simp add: path_parts_table make_glob_wild comps_def)
  next
    case False
    have cut: "b' = ?P (components (take stop ?path))"
      if "isIgnored env query ?g (take stop ?path) root = Inr b'" for stop b'
    proof -
      have "relative_path (take stop ?path) \<or> take stop ?path = []"
        using assms(3) by (cases stop) (auto simp: relative_path_def)
      then show ?thesis using isIgnored_pattern [OF that assms(2)] by (simp add: to_slashes_take)
    qed
    obtain b1 where whole: "isIgnored env query ?g path root = Inr b1"
      and rest: "(if b1 then Inr True
        else prefixes_ignored env query ?g root ?path (separators ?path)) = Inr b"
      using assms(1,2) ne False by (auto simp: isPathOrAncestorIgnored_def Let_def bindE_eq_Inr)
    have b1: "b1 \<longleftrightarrow> ?P comps"
      using isIgnored_pattern [OF whole assms(2)] assms(3) by (simp add: comps_def)
    have b: "b \<longleftrightarrow> ?P comps \<or> (\<exists>stop \<in> set (separators ?path). ?P (components (take stop ?path)))"
    proof (cases b1)
      case True
      then show ?thesis using rest b1 by simp
    next
      case no: False
      then have "prefixes_ignored env query ?g root ?path (separators ?path) = Inr b" using rest by simp
      from prefixes_ignored_Ex [OF this, of "\<lambda>s. ?P (components s)"] cut no b1 show ?thesis by blast
    qed
    have "(\<exists>stop \<in> set (separators ?path). ?P (components (take stop ?path))) \<longleftrightarrow>
        (\<exists>s < length ?path. ?path ! s = CHR ''/'' \<and> ?P (components (take s ?path)))"
      by (auto simp: separators_def)
    also have "\<dots> \<longleftrightarrow>
        (\<exists>s < length ?path. ?path ! s = CHR ''/'' \<and> ?P (components_from [] (take s ?path)))"
      using assms(3)
      by (intro ex_cong1 conj_cong refl) (auto simp: components_def relative_path_def)
    also have "\<dots> \<longleftrightarrow> (\<exists>k. 1 \<le> k \<and> k < length comps \<and> ?P (take k comps))"
      using components_from_prefixes [where cur = "[]" and cs = ?path and P = ?P] ne
      by (simp add: comps_def components_def)
    finally have "b \<longleftrightarrow> ?P comps \<or> (\<exists>k. 1 \<le> k \<and> k < length comps \<and> ?P (take k comps))"
      using b by simp
    moreover have "1 \<le> length comps"
      using ne by (simp add: comps_def components_def Suc_le_eq)
    ultimately have "b \<longleftrightarrow> (\<exists>k. 1 \<le> k \<and> k \<le> length comps \<and> ?P (take k comps))"
      by (auto simp: le_less)
    also have "\<dots> \<longleftrightarrow> (\<exists>k. 1 \<le> k \<and> k \<le> length comps \<and>
        pattern_wild env query raw (take k (table_parts env root comps)))"
      by (intro ex_cong1) (auto simp: table_parts_take)
    finally show ?thesis .
  qed
qed

text \<open>
  The language of a pattern, without any of the code's structures: \<open>**\<close> stands for any run of
  components, \<open>*\<close> within a component for any run of characters, and a component may differ
  in case when \<open>insensitive\<close> holds of the directory that contains it.
\<close>

definition text_matches :: "string \<Rightarrow> string \<Rightarrow> bool" where
  "text_matches c v = wild (\<lambda>p. p = ''*'') (=) (utf8Characters c) (utf8Characters v)"

definition text_matches_folded :: "string \<Rightarrow> string \<Rightarrow> bool" where
  "text_matches_folded c v = wild (\<lambda>p. p = ''*'') equal_ascii_case (utf8Characters c) (utf8Characters v)"

definition glob_language ::
  "(string \<Rightarrow> bool) \<Rightarrow> string \<Rightarrow> (string \<times> string) list \<Rightarrow> bool" where
  "glob_language insensitive pat vs =
     wild (\<lambda>c. c = ''**'')
       (\<lambda>c (v, dir). text_matches c v \<or> (insensitive dir \<and> text_matches_folded c v))
       (components pat) vs"

lemma pattern_wild_language:
  "te_platform env = Linux \<Longrightarrow>
    pattern_wild env query raw vs = glob_language (\<lambda>d. query d = Inr Insensitive) raw vs"
  unfolding pattern_wild_def glob_language_def
  by (simp add: to_slashes_def)
    (auto intro!: wild_cong simp: part_matches_def componentMatchesExact_wild
      componentMatchesFolded_wild text_matches_def text_matches_folded_def split: prod.splits)

text \<open>
  C24. On Linux, whichever of its two representations a glob has, \<open>isIgnored\<close> decides the
  language of its pattern: the automaton of bits, the table for long patterns, the byte and
  the character matchers, the folded forms and the cached answers about case sensitivity
  all agree with the declarative match of the pattern's text against the path's components.
\<close>

theorem isIgnored_decides_language:
  assumes "te_platform env = Linux" "pat \<noteq> []" "relative_path path \<or> path = []"
    and "isIgnored env query (make_glob env pat) path root = Inr answer"
  shows "answer \<longleftrightarrow> glob_language (\<lambda>dir. query dir = Inr Insensitive) pat
    (table_parts env root (components path))"
  using isIgnored_pattern [OF assms(4,2)] assms(1,3)
  by (simp add: pattern_wild_language to_slashes_def)

definition linux_text :: text_env where
  "linux_text = \<lparr>te_platform = Linux, cf_fold = (\<lambda>s. None), native_equal = (=), string_hash = (\<lambda>s. 0)\<rparr>"

theorem isIgnored_decides_language_witness:
  "isIgnored linux_text (\<lambda>d. Inr Insensitive) (make_glob linux_text ''a/**/*.js'') ''A/b/c.js'' ''/r'' = Inr True \<and>
    glob_language (\<lambda>dir. True) ''a/**/*.js'' [(''A'', ''/r''), (''b'', ''/r/A''), (''c.js'', ''/r/A/b'')]"
proof -
  have run: "isIgnored linux_text (\<lambda>d. Inr Insensitive) (make_glob linux_text ''a/**/*.js'') ''A/b/c.js'' ''/r'' = Inr True"
    by code_simp
  have "table_parts linux_text ''/r'' (components ''A/b/c.js'') =
      [(''A'', ''/r''), (''b'', ''/r/A''), (''c.js'', ''/r/A/b'')]" by code_simp
  with run isIgnored_decides_language [OF _ _ _ run] show ?thesis
    by (simp add: linux_text_def relative_path_def)
qed

text \<open>
  C25. On Linux, \<open>isPathOrAncestorIgnored\<close> accepts a path exactly when the pattern matches the
  path or one of its ancestors below the root, also where the automaton stops early.
\<close>

theorem ancestors_decide_language:
  assumes "te_platform env = Linux" "pat \<noteq> []" "relative_path path"
    and "isPathOrAncestorIgnored env query (make_glob env pat) path root = Inr answer"
  shows "answer \<longleftrightarrow> (\<exists>k. 1 \<le> k \<and> k \<le> length (components path) \<and>
    glob_language (\<lambda>dir. query dir = Inr Insensitive) pat
      (take k (table_parts env root (components path))))"
  using ancestors_pattern [OF assms(4,2)] assms(1,3)
  by (simp add: pattern_wild_language to_slashes_def)

theorem ancestors_decide_language_witness:
  "isPathOrAncestorIgnored linux_text (\<lambda>d. Inr Sensitive) (make_glob linux_text ''**/lib'') ''a/lib/x/y'' ''/r'' = Inr True \<and>
    (\<exists>k. 1 \<le> k \<and> k \<le> length (components ''a/lib/x/y'') \<and> glob_language (\<lambda>dir. False) ''**/lib''
      (take k (table_parts linux_text ''/r'' (components ''a/lib/x/y''))))"
proof -
  have run: "isPathOrAncestorIgnored linux_text (\<lambda>d. Inr Sensitive) (make_glob linux_text ''**/lib'') ''a/lib/x/y'' ''/r'' = Inr True"
    by code_simp
  from ancestors_decide_language [OF _ _ _ run] run show ?thesis
    by (simp add: linux_text_def relative_path_def)
qed

text \<open>
  C28. The automaton is equivalent to the table: forcing the table on a glob that uses the
  automaton gives the same answer on every platform, when neither meets an error.
\<close>

theorem automaton_equals_table:
  assumes "pat \<noteq> []" "relative_path (to_slashes (te_platform env) path)"
    and "isIgnored env query (make_glob env pat) path root = Inr fast"
    and "isIgnored env query ((make_glob env pat)\<lparr>mUseBitmask := False\<rparr>) path root = Inr slow"
  shows "fast = slow"
proof -
  have "match_table env query root (mParts (make_glob env pat))
      (components (to_slashes (te_platform env) path)) = Inr slow"
    using assms(1,4) by (simp add: isIgnored_def)
  then have "slow \<longleftrightarrow> pattern_wild env query pat
      (table_parts env root (components (to_slashes (te_platform env) path)))"
    using match_table_correct make_glob_wild [OF assms(1)] by blast
  then show ?thesis using isIgnored_pattern [OF assms(3,1)] assms(2) by simp
qed

theorem automaton_equals_table_witness:
  "isIgnored linux_text (\<lambda>d. Inr Insensitive) (make_glob linux_text ''*.O'') ''m.o'' ''/r'' = Inr True \<and>
    isIgnored linux_text (\<lambda>d. Inr Insensitive) ((make_glob linux_text ''*.O'')\<lparr>mUseBitmask := False\<rparr>) ''m.o'' ''/r'' = Inr True"
proof -
  let ?q = "\<lambda>d :: string. Inr Insensitive :: string + sensitivity"
  have fast: "isIgnored linux_text ?q (make_glob linux_text ''*.O'') ''m.o'' ''/r'' = Inr True"
    by code_simp
  have "\<exists>slow. isIgnored linux_text ?q ((make_glob linux_text ''*.O'')\<lparr>mUseBitmask := False\<rparr>) ''m.o'' ''/r'' = Inr slow"
    by (rule exI [of _ True]) code_simp
  then obtain slow where
    "isIgnored linux_text ?q ((make_glob linux_text ''*.O'')\<lparr>mUseBitmask := False\<rparr>) ''m.o'' ''/r'' = Inr slow" by blast
  with automaton_equals_table [OF _ _ fast this] fast show ?thesis
    by (simp add: linux_text_def relative_path_def to_slashes_def)
qed

subsection \<open>Errors\<close>

lemma stepBitmask_error:
  "stepBitmask env query g state component root relParent cached = Inl e \<Longrightarrow> \<exists>dir. query dir = Inl e"
  by (auto simp: stepBitmask_def bindE_def split: sum.splits dest: step_candidates_error)

lemma run_steps_error:
  "run_steps env query g root state steps = Inl e \<Longrightarrow> \<exists>dir. query dir = Inl e"
  by (induction steps arbitrary: state)
    (auto simp: bindE_def split: sum.splits if_splits dest: stepBitmask_error)

lemma table_cell_error:
  "table_cell env query root comps p nxt i (row, sens) = Inl e \<Longrightarrow> \<exists>dir. query dir = Inl e"
  by (auto simp: table_cell_def Let_def bindE_def split: if_splits option.splits sum.splits)

lemma down_loop_error:
  "\<lbrakk>down_loop (\<lambda>i r. bindE r (f i)) n r = Inl e; \<And>i st. f i st = Inl e \<Longrightarrow> P; r = Inl e \<Longrightarrow> P\<rbrakk> \<Longrightarrow> P"
proof (induction n arbitrary: r)
  case 0
  then show ?case by simp
next
  case (Suc n)
  show ?case
    by (rule Suc.IH [of "bindE r (f n)"])
      (use Suc.prems in \<open>auto simp: bindE_def split: sum.splits\<close>)
qed

lemma match_table_error:
  assumes "match_table env query root ps comps = Inl e"
  shows "\<exists>dir. query dir = Inl e"
proof -
  have row: "\<exists>dir. query dir = Inl e" if "table_row env query root comps p st = Inl e" for p st
    using that unfolding table_row_def Let_def
    by (cases st) (auto elim!: down_loop_error dest: table_cell_error)
  from assms have "down_loop (\<lambda>k r. bindE r (table_row env query root comps (ps ! k))) (length ps)
      (Inr ((replicate (length comps + 1) False)[length comps := True], [])) = Inl e"
    by (auto simp: match_table_def bindE_def split: sum.splits)
  then show ?thesis by (rule down_loop_error) (auto dest: row)
qed

text \<open>
  The only exceptions that leave \<open>isIgnored\<close> are those of the query about a directory:
  the loops over bits, components and cells add none.
\<close>

theorem isIgnored_error:
  assumes "isIgnored env query g path root = Inl e"
  shows "\<exists>dir. query dir = Inl e"
  using assms
  by (auto simp: isIgnored_def Let_def ignored_loop_steps split: if_splits
      dest: run_steps_error match_table_error)

theorem isIgnored_error_witness:
  "\<exists>dir. (\<lambda>d. if d = ''/r/a'' then Inl ''EACCES'' else Inr Sensitive) dir = (Inl ''EACCES'' :: string + sensitivity)"
proof -
  have "isIgnored linux_text (\<lambda>d. if d = ''/r/a'' then Inl ''EACCES'' else Inr Sensitive)
      (make_glob linux_text ''a/B'') ''a/b'' ''/r'' = Inl ''EACCES''" by code_simp
  then show ?thesis by (rule isIgnored_error)
qed

end
