(* ===== verification/Ignoring.thy ===== *)
theory Ignoring
  imports Globs
begin

section \<open>Which paths a watcher ignores (src/Watcher.hh, src/Watcher.cc)\<close>

text \<open>
  The constructor of a watcher, which normalizes its glob patterns, and \<open>Watcher::isIgnored\<close>
  with the per-thread cache of automaton states it keeps for directories. The lemmas show
  that the cache never changes an answer, that the cached path agrees with matching every
  glob separately, and that the normalization keeps what a pattern ignores.
  The cache is a \<open>thread_local\<close> of the C++ code: a state passed in and out. An exception
  leaves it with the entries stored so far, so a result comes with the cache in both cases.
  The file-system queries of \<open>refersToSameEntry\<close> are the fields of \<open>entry_query\<close>; \<open>None\<close> is an error.
\<close>

record watcher =
  mDir :: string
  mIgnorePaths :: "string list"
  mIgnoreGlobs :: "glob list"
  mCompiledGlobs :: "glob list"
  mId :: u64
  mAllGlobsUseBitmask :: bool
  mHasIgnoreAliases :: bool
  mIgnoreAliases :: "string list"

record entry_query =
  eq_is_symlink :: "string \<Rightarrow> bool option"
  eq_equivalent :: "string \<Rightarrow> string \<Rightarrow> bool option"
  eq_canonical :: "string \<Rightarrow> string option"

subsection \<open>Construction\<close>

definition ends_with_stars :: "string \<Rightarrow> bool" where
  "ends_with_stars s \<longleftrightarrow>
     length s > 3 \<and> (drop (length s - 3) s = ''/**'' \<or> drop (length s - 3) s = [CHR 0x5C, CHR ''*'', CHR ''*''])"

function normalize_pattern :: "string \<Rightarrow> string" where
  "normalize_pattern normalized =
     (if ends_with_stars normalized
      then normalize_pattern (take (length normalized - 3) normalized)
      else normalized)"
  by pat_completeness auto
termination normalize_pattern
  by (relation "measure length") (auto simp: ends_with_stars_def)

declare normalize_pattern.simps [simp del]

text \<open>\<open>emplace\<close> into an \<open>unordered_set<Glob>\<close>: an equal glob that is there already stays.\<close>

definition emplace_glob :: "glob \<Rightarrow> glob list \<Rightarrow> glob list" where
  "emplace_glob g gs = (if \<exists>h \<in> set gs. glob_equal g h then gs else gs @ [g])"

definition compile_globs :: "text_env \<Rightarrow> glob list \<Rightarrow> glob list" where
  "compile_globs env globs =
     fold (\<lambda>g gs. if mRaw g = [] then gs else emplace_glob (make_glob env (normalize_pattern (mRaw g))) gs)
       globs []"

definition make_watcher :: "text_env \<Rightarrow> u64 \<Rightarrow> string \<Rightarrow> string list \<Rightarrow> glob list \<Rightarrow> watcher" where
  "make_watcher env nextId dir ignorePaths ignoreGlobs =
     (let compiled = compile_globs env ignoreGlobs in
      \<lparr>mDir = dir, mIgnorePaths = ignorePaths, mIgnoreGlobs = ignoreGlobs,
       mCompiledGlobs = compiled, mId = nextId,
       mAllGlobsUseBitmask = (\<forall>g \<in> set compiled. mUseBitmask g),
       mHasIgnoreAliases = False, mIgnoreAliases = []\<rparr>)"

subsection \<open>Ignored paths and their aliases\<close>

definition isPathOrDescendant :: "platform \<Rightarrow> string \<Rightarrow> string \<Rightarrow> bool" where
  "isPathOrDescendant plat path base \<longleftrightarrow>
     path = base \<or>
     (length path > length base \<and> take (length base) path = base \<and>
      path ! length base = dir_sep plat)"

definition watcher_equalIgnoringCase :: "text_env \<Rightarrow> string \<Rightarrow> string \<Rightarrow> bool" where
  "watcher_equalIgnoringCase env left right =
     (if isAsciiString left \<and> isAsciiString right then equal_ascii_case left right
      else native_equal env left right)"

definition refersToSameEntry :: "platform \<Rightarrow> entry_query \<Rightarrow> string \<Rightarrow> string \<Rightarrow> bool" where
  "refersToSameEntry plat fs left right =
     (if eq_is_symlink fs left \<noteq> Some False then False
      else if eq_is_symlink fs right \<noteq> Some False then False
      else if eq_equivalent fs left right \<noteq> Some True then False
      else if plat = MacOS then
        (case eq_canonical fs left of
           None \<Rightarrow> False
         | Some a \<Rightarrow> eq_canonical fs right = Some a)
      else True)"

text \<open>\<open>rfind c s n\<close>: the last position at most \<open>n\<close> where \<open>c\<close> stands (\<open>s.rfind(c, n)\<close>).\<close>

definition rfind :: "char \<Rightarrow> string \<Rightarrow> nat \<Rightarrow> nat option" where
  "rfind c s n =
     (let found = filter (\<lambda>i. s ! i = c) [0..<min (Suc n) (length s)] in
      if found = [] then None else Some (last found))"

lemma rfind_Some:
  assumes "rfind c s n = Some i"
  shows "i \<le> n" "i < length s" "s ! i = c"
proof -
  let ?found = "filter (\<lambda>i. s ! i = c) [0..<min (Suc n) (length s)]"
  from assms have "?found \<noteq> []" "i = last ?found" by (auto simp: rfind_def Let_def split: if_splits)
  then have "i \<in> set ?found" using last_in_set by blast
  then show "i \<le> n" "i < length s" "s ! i = c" by auto
qed

text \<open>The ancestors of a path that the alias loop looks at, from the path itself upwards.\<close>

function ancestors_of :: "char \<Rightarrow> string \<Rightarrow> string list" where
  "ancestors_of sep ancestor =
     (if ancestor = [] then []
      else ancestor #
        (case rfind sep ancestor (length ancestor) of
           None \<Rightarrow> []
         | Some i \<Rightarrow> ancestors_of sep (take i ancestor)))"
  by pat_completeness auto
termination ancestors_of
  by (relation "measure (length \<circ> snd)") (auto dest: rfind_Some)

declare ancestors_of.simps [simp del]

definition find_alias :: "text_env \<Rightarrow> entry_query \<Rightarrow> string list \<Rightarrow> string \<Rightarrow> string option" where
  "find_alias env fs ignorePaths path =
     (case concat (map (\<lambda>ignored.
         filter (\<lambda>a. watcher_equalIgnoringCase env a ignored \<and>
             refersToSameEntry (te_platform env) fs a ignored)
           (ancestors_of (dir_sep (te_platform env)) path)) ignorePaths) of
        [] \<Rightarrow> None
      | a # _ \<Rightarrow> Some a)"

subsection \<open>The states of the automata in a directory\<close>

text \<open>
  Up to eight states are stored inline, more in a vector that \<open>init\<close> allocates.
\<close>

definition kInlineGlobs :: nat where "kInlineGlobs = 8"

record dir_glob_state =
  ds_ignored :: bool
  ds_allDead :: bool
  ds_inlineStates :: "u64 list"
  ds_overflowStates :: "u64 list"

definition ds_new :: dir_glob_state where
  "ds_new = \<lparr>ds_ignored = False, ds_allDead = False,
     ds_inlineStates = replicate kInlineGlobs 0, ds_overflowStates = []\<rparr>"

definition ds_init :: "nat \<Rightarrow> dir_glob_state \<Rightarrow> dir_glob_state" where
  "ds_init count s =
     (let s' = s\<lparr>ds_ignored := False, ds_allDead := False\<rparr> in
      if count > kInlineGlobs then s'\<lparr>ds_overflowStates := replicate count 0\<rparr> else s')"

definition ds_data :: "nat \<Rightarrow> dir_glob_state \<Rightarrow> u64 list" where
  "ds_data count s = (if count \<le> kInlineGlobs then ds_inlineStates s else ds_overflowStates s)"

definition ds_store :: "nat \<Rightarrow> nat \<Rightarrow> u64 \<Rightarrow> dir_glob_state \<Rightarrow> dir_glob_state" where
  "ds_store count i v s =
     (if count \<le> kInlineGlobs then s\<lparr>ds_inlineStates := (ds_inlineStates s)[i := v]\<rparr>
      else s\<lparr>ds_overflowStates := (ds_overflowStates s)[i := v]\<rparr>)"

fun root_states :: "glob list \<Rightarrow> nat \<Rightarrow> nat \<Rightarrow> bool \<Rightarrow> dir_glob_state \<Rightarrow> dir_glob_state" where
  "root_states [] count i anyAlive root = root\<lparr>ds_allDead := \<not> anyAlive\<rparr>"
| "root_states (g # gs) count i anyAlive root =
     (let root' = ds_store count i (mInitialState g) root in
      if mInitialState g AND mAcceptBit g \<noteq> 0 then root'\<lparr>ds_ignored := True\<rparr>
      else root_states gs count (i + 1) (anyAlive \<or> mInitialState g \<noteq> 0) root')"

definition makeRootGlobState :: "'a watcher_scheme \<Rightarrow> dir_glob_state" where
  "makeRootGlobState w =
     (let count = length (mCompiledGlobs w) in
      root_states (mCompiledGlobs w) count 0 False (ds_init count ds_new))"

fun step_states ::
  "text_env \<Rightarrow> case_query \<Rightarrow> string \<Rightarrow> string \<Rightarrow> string \<Rightarrow> dir_glob_state \<Rightarrow> glob list \<Rightarrow> nat \<Rightarrow> nat \<Rightarrow>
    sensitivity option \<Rightarrow> bool \<Rightarrow> dir_glob_state \<Rightarrow> string + dir_glob_state" where
  "step_states env query dir component relParent parent [] count i sens anyAlive next =
     Inr (next\<lparr>ds_allDead := \<not> anyAlive\<rparr>)"
| "step_states env query dir component relParent parent (g # gs) count i sens anyAlive next =
     (let s = ds_data count parent ! i in
      if s = 0 then
        step_states env query dir component relParent parent gs count (i + 1) sens anyAlive
          (ds_store count i 0 next)
      else
        bindE (stepBitmask env query g s component dir relParent sens)
          (\<lambda>(stepped, sens').
            if stepped AND mAcceptBit g \<noteq> 0 then Inr (next\<lparr>ds_ignored := True\<rparr>)
            else step_states env query dir component relParent parent gs count (i + 1) sens'
              (anyAlive \<or> stepped \<noteq> 0) (ds_store count i stepped next)))"

definition stepDirGlobState ::
  "text_env \<Rightarrow> case_query \<Rightarrow> 'a watcher_scheme \<Rightarrow> dir_glob_state \<Rightarrow> string \<Rightarrow> string \<Rightarrow>
    string + dir_glob_state" where
  "stepDirGlobState env query w parentState component relParent =
     (if ds_ignored parentState then Inr (ds_new\<lparr>ds_ignored := True\<rparr>)
      else if ds_allDead parentState then Inr (ds_new\<lparr>ds_allDead := True\<rparr>)
      else
        (let count = length (mCompiledGlobs w) in
         step_states env query (mDir w) component relParent parentState (mCompiledGlobs w) count 0
           None False (ds_init count ds_new)))"

fun component_ignored ::
  "text_env \<Rightarrow> case_query \<Rightarrow> string \<Rightarrow> string \<Rightarrow> string \<Rightarrow> dir_glob_state \<Rightarrow> glob list \<Rightarrow> nat \<Rightarrow> nat \<Rightarrow>
    sensitivity option \<Rightarrow> string + bool" where
  "component_ignored env query dir component relParent parent [] count i sens = Inr False"
| "component_ignored env query dir component relParent parent (g # gs) count i sens =
     (let s = ds_data count parent ! i in
      if s = 0 then
        component_ignored env query dir component relParent parent gs count (i + 1) sens
      else
        bindE (stepBitmask env query g s component dir relParent sens)
          (\<lambda>(stepped, sens').
            if stepped AND mAcceptBit g \<noteq> 0 then Inr True
            else component_ignored env query dir component relParent parent gs count (i + 1) sens'))"

definition isComponentIgnored ::
  "text_env \<Rightarrow> case_query \<Rightarrow> 'a watcher_scheme \<Rightarrow> dir_glob_state \<Rightarrow> string \<Rightarrow> string \<Rightarrow>
    string + bool" where
  "isComponentIgnored env query w parentState component relParent =
     (if ds_ignored parentState then Inr True
      else if ds_allDead parentState then Inr False
      else component_ignored env query (mDir w) component relParent parentState (mCompiledGlobs w)
        (length (mCompiledGlobs w)) 0 None)"

subsection \<open>The cache of a thread\<close>

record ignore_cache =
  ic_watcherId :: u64
  ic_rootState :: dir_glob_state
  ic_lastRelDir :: string
  ic_lastState :: dir_glob_state
  ic_hasLast :: bool
  ic_dirs :: "(string \<times> dir_glob_state) list"

definition new_cache :: ignore_cache where
  "new_cache = \<lparr>ic_watcherId = 0, ic_rootState = ds_new, ic_lastRelDir = [], ic_lastState = ds_new,
     ic_hasLast = False, ic_dirs = []\<rparr>"

definition max_cached_dirs :: nat where "max_cached_dirs = 16384"

text \<open>The loop over \<open>searchEnd\<close>: the state of the nearest cached ancestor, and where to go on.\<close>

function cached_ancestor ::
  "char \<Rightarrow> (string \<times> dir_glob_state) list \<Rightarrow> string \<Rightarrow> nat option \<Rightarrow> (dir_glob_state \<times> nat) option" where
  "cached_ancestor sep dirs relDir searchEnd =
     (case searchEnd of
        None \<Rightarrow> None
      | Some n \<Rightarrow>
          (case map_of dirs (take n relDir) of
             Some st \<Rightarrow> Some (st, n + 1)
           | None \<Rightarrow>
               if n = 0 then None else cached_ancestor sep dirs relDir (rfind sep relDir (n - 1))))"
  by pat_completeness auto
termination cached_ancestor
  by (relation "measure (\<lambda>(sep, dirs, relDir, e). case e of None \<Rightarrow> 0 | Some n \<Rightarrow> Suc n)")
    (auto split: option.splits dest: rfind_Some(1))

declare cached_ancestor.simps [simp del]

text \<open>\<open>find\<close>, with the end of the string for \<open>npos\<close>.\<close>

definition find_or_end :: "char \<Rightarrow> string \<Rightarrow> nat \<Rightarrow> nat" where
  "find_or_end c s pos = pos + length (takeWhile (\<lambda>x. x \<noteq> c) (drop pos s))"

lemma find_or_end_ge: "pos \<le> find_or_end c s pos"
  by (simp add: find_or_end_def)

text \<open>\<open>dirs.emplace\<close> keeps an entry that is there.\<close>

definition emplace_dir ::
  "string \<Rightarrow> dir_glob_state \<Rightarrow> (string \<times> dir_glob_state) list \<Rightarrow> (string \<times> dir_glob_state) list" where
  "emplace_dir k st dirs = (if map_of dirs k = None then AList.update k st dirs else dirs)"

function walk_dirs ::
  "text_env \<Rightarrow> case_query \<Rightarrow> 'a watcher_scheme \<Rightarrow> string \<Rightarrow> nat \<Rightarrow> dir_glob_state \<Rightarrow>
    (string \<times> dir_glob_state) list \<Rightarrow> (string + dir_glob_state) \<times> (string \<times> dir_glob_state) list" where
  "walk_dirs env query w relDir pos state dirs =
     (if \<not> pos < length relDir then (Inr state, dirs)
      else
        (let sep = find_or_end (dir_sep (te_platform env)) relDir pos;
             component = take (sep - pos) (drop pos relDir);
             relParent = (if pos = 0 then [] else take (pos - 1) relDir) in
         (case stepDirGlobState env query w state component relParent of
            Inl e \<Rightarrow> (Inl e, dirs)
          | Inr state' \<Rightarrow>
              walk_dirs env query w relDir (sep + 1) state' (emplace_dir (take sep relDir) state' dirs))))"
  by pat_completeness auto
termination walk_dirs
  by (relation "measure (\<lambda>(env, query, w, relDir, pos, state, dirs). length relDir - pos)")
    (auto simp: le_imp_less_Suc find_or_end_ge diff_less_mono2)

declare walk_dirs.simps [simp del]

definition claim_cache :: "'a watcher_scheme \<Rightarrow> ignore_cache \<Rightarrow> ignore_cache" where
  "claim_cache w cache =
     (if ic_watcherId cache \<noteq> mId w then
        cache\<lparr>ic_watcherId := mId w, ic_rootState := makeRootGlobState w, ic_lastRelDir := [],
          ic_hasLast := False, ic_dirs := []\<rparr>
      else cache)"

definition resolveDirGlobState ::
  "text_env \<Rightarrow> case_query \<Rightarrow> 'a watcher_scheme \<Rightarrow> string \<Rightarrow> ignore_cache \<Rightarrow>
    (string + dir_glob_state) \<times> ignore_cache" where
  "resolveDirGlobState env query w relDir cache0 =
     (let cache = claim_cache w cache0; sep = dir_sep (te_platform env) in
      if relDir = [] then (Inr (ic_rootState cache), cache)
      else if ic_hasLast cache \<and> ic_lastRelDir cache = relDir then (Inr (ic_lastState cache), cache)
      else
        (case map_of (ic_dirs cache) relDir of
           Some st \<Rightarrow>
             (Inr st, cache\<lparr>ic_lastRelDir := relDir, ic_lastState := st, ic_hasLast := True\<rparr>)
         | None \<Rightarrow>
             (let dirs = (if length (ic_dirs cache) \<ge> max_cached_dirs then [] else ic_dirs cache);
                  (state, pos) =
                    (case cached_ancestor sep dirs relDir (rfind sep relDir (length relDir)) of
                       Some found \<Rightarrow> found
                     | None \<Rightarrow> (ic_rootState cache, 0));
                  (r, dirs') = walk_dirs env query w relDir pos state dirs;
                  cache' = cache\<lparr>ic_dirs := dirs'\<rparr>
              in
              (case r of
                 Inl e \<Rightarrow> (Inl e, cache')
               | Inr st \<Rightarrow>
                   (Inr st, cache'\<lparr>ic_lastRelDir := relDir, ic_lastState := st, ic_hasLast := True\<rparr>)))))"

subsection \<open>Watcher::isIgnored\<close>

fun any_glob_ignores ::
  "text_env \<Rightarrow> case_query \<Rightarrow> string \<Rightarrow> string \<Rightarrow> glob list \<Rightarrow> string + bool" where
  "any_glob_ignores env query relativePath root [] = Inr False"
| "any_glob_ignores env query relativePath root (g # gs) =
     bindE (isPathOrAncestorIgnored env query g relativePath root)
       (\<lambda>b. if b then Inr True else any_glob_ignores env query relativePath root gs)"

definition globs_ignore ::
  "text_env \<Rightarrow> case_query \<Rightarrow> 'a watcher_scheme \<Rightarrow> string \<Rightarrow> ignore_cache \<Rightarrow>
    (string + bool) \<times> ignore_cache" where
  "globs_ignore env query w path cache =
     (let sep = dir_sep (te_platform env); n = length (mDir w) in
      if mCompiledGlobs w = [] then (Inr False, cache)
      else if length path \<le> n \<or> take n path \<noteq> mDir w \<or> path ! n \<noteq> sep then (Inr False, cache)
      else
        (let relativePath = drop (n + 1) path in
         if relativePath = [] then (Inr False, cache)
         else if mAllGlobsUseBitmask w \<and> mId w \<noteq> 0 then
           (let relSep = rfind sep relativePath (length relativePath);
                relDir = (case relSep of None \<Rightarrow> [] | Some i \<Rightarrow> take i relativePath);
                leafName = (case relSep of None \<Rightarrow> relativePath | Some i \<Rightarrow> drop (i + 1) relativePath);
                (r, cache') = resolveDirGlobState env query w relDir cache in
            (bindE r (\<lambda>parentState. isComponentIgnored env query w parentState leafName relDir), cache'))
         else (any_glob_ignores env query relativePath (mDir w) (mCompiledGlobs w), cache)))"

definition watcher_isIgnored ::
  "text_env \<Rightarrow> entry_query \<Rightarrow> case_query \<Rightarrow> 'a watcher_scheme \<Rightarrow> string \<Rightarrow> ignore_cache \<Rightarrow>
    (string + bool) \<times> 'a watcher_scheme \<times> ignore_cache" where
  "watcher_isIgnored env fs query w path cache =
     (let plat = te_platform env;
          by_globs = (let (r, cache') = globs_ignore env query w path cache in (r, w, cache')) in
      if mIgnorePaths w \<noteq> [] then
        if \<exists>ignored \<in> set (mIgnorePaths w). isPathOrDescendant plat path ignored then (Inr True, w, cache)
        else if mHasIgnoreAliases w \<and> (\<exists>a \<in> set (mIgnoreAliases w). isPathOrDescendant plat path a)
        then (Inr True, w, cache)
        else if plat \<noteq> Linux then
          (case find_alias env fs (mIgnorePaths w) path of
             Some a \<Rightarrow>
               (Inr True,
                w\<lparr>mIgnoreAliases := List.insert a (mIgnoreAliases w), mHasIgnoreAliases := True\<rparr>, cache)
           | None \<Rightarrow> by_globs)
        else by_globs
      else by_globs)"

subsection \<open>The cache is transparent\<close>

text \<open>A path without empty components.\<close>

definition clean_path :: "char \<Rightarrow> string \<Rightarrow> bool" where
  "clean_path sep d \<longleftrightarrow>
     d \<noteq> [] \<and> d ! 0 \<noteq> sep \<and> last d \<noteq> sep \<and>
     (\<forall>i. Suc i < length d \<longrightarrow> \<not> (d ! i = sep \<and> d ! Suc i = sep))"

text \<open>The steps of \<open>walk_dirs\<close>, and their effect without any cache.\<close>

function walk_steps :: "char \<Rightarrow> string \<Rightarrow> nat \<Rightarrow> (string \<times> string) list" where
  "walk_steps c d pos =
     (if \<not> pos < length d then []
      else (take (find_or_end c d pos - pos) (drop pos d), if pos = 0 then [] else take (pos - 1) d) #
        walk_steps c d (find_or_end c d pos + 1))"
  by pat_completeness auto
termination walk_steps
  by (relation "measure (\<lambda>(c, d, pos). length d - pos)")
    (auto simp: le_imp_less_Suc find_or_end_ge diff_less_mono2)

declare walk_steps.simps [simp del]

fun run_dir ::
  "text_env \<Rightarrow> case_query \<Rightarrow> 'a watcher_scheme \<Rightarrow> dir_glob_state \<Rightarrow> (string \<times> string) list \<Rightarrow>
    string + dir_glob_state" where
  "run_dir env query w st [] = Inr st"
| "run_dir env query w st ((c, rp) # steps) =
     bindE (stepDirGlobState env query w st c rp) (\<lambda>st'. run_dir env query w st' steps)"

definition uncached ::
  "text_env \<Rightarrow> case_query \<Rightarrow> 'a watcher_scheme \<Rightarrow> string \<Rightarrow> string + dir_glob_state" where
  "uncached env query w relDir =
     run_dir env query w (makeRootGlobState w) (walk_steps (dir_sep (te_platform env)) relDir 0)"

text \<open>
  The case sensitivity of a directory is asked of the file system each time, and the answer may be an error now and
  none later. \<open>consistent t q\<close> says that the answers \<open>q\<close> agree with \<open>t\<close> as to which directories are case insensitive, as
  far as they are answers. What was computed from \<open>q\<close> then holds for \<open>t\<close>.
\<close>

definition consistent :: "case_query \<Rightarrow> case_query \<Rightarrow> bool" where
  "consistent t q \<longleftrightarrow> (\<forall>d s. q d = Inr s \<longrightarrow> (\<exists>s'. t d = Inr s' \<and> (s' = Insensitive \<longleftrightarrow> s = Insensitive)))"

abbreviation same_sense :: "sensitivity option \<Rightarrow> sensitivity option \<Rightarrow> bool" where
  "same_sense \<equiv> rel_option (\<lambda>s s'. s' = Insensitive \<longleftrightarrow> s = Insensitive)"

lemma step_candidates_consistent:
  assumes "consistent t q"
  shows "step_candidates env q g c root rp candidates next a = Inr (v, b) \<Longrightarrow> same_sense a a' \<Longrightarrow>
    \<exists>b'. step_candidates env t g c root rp candidates next a' = Inr (v, b') \<and> same_sense b b'"
  using assms
proof (induction env q g c root rp candidates "next" a arbitrary: a' rule: step_candidates.induct)
  case (1 env q g c root rp candidates "next" a)
  let ?p = "trailingZeros candidates"
  let ?part = "mParts g ! ?p" and ?rest = "candidates AND (candidates - 1)" and ?moved = "next OR push_bit (?p + 1) 1"
  let ?ask = "\<lambda>q a. (case a of None \<Rightarrow> q (buildParentDirectory (te_platform env) root rp) | Some s \<Rightarrow> Inr s)"
  show ?case
  proof (cases "candidates = 0")
    case True
    then show ?thesis using 1 by (simp add: step_candidates.simps)
  next
    case more: False
    consider (exact) "componentMatchesExact env ?part c" | (never) "\<not> componentMatchesExact env ?part c" "\<not> componentMatchesFolded env ?part c"
      | (asks) "\<not> componentMatchesExact env ?part c" "componentMatchesFolded env ?part c" by blast
    then show ?thesis
    proof cases
      case exact
      then have "step_candidates env q g c root rp ?rest ?moved a = Inr (v, b)"
        using 1(4) more by (simp add: step_candidates.simps [of _ _ _ _ _ _ candidates] Let_def)
      from 1(1) [OF more refl refl refl refl exact this 1(5,6)] exact more show ?thesis
        by (simp add: step_candidates.simps [of _ _ _ _ _ _ candidates] Let_def)
    next
      case never
      then have "step_candidates env q g c root rp ?rest next a = Inr (v, b)"
        using 1(4) more by (simp add: step_candidates.simps [of _ _ _ _ _ _ candidates] Let_def)
      from 1(2) [OF more refl refl refl refl _ _ this 1(5,6)] never more show ?thesis
        by (simp add: step_candidates.simps [of _ _ _ _ _ _ candidates] Let_def)
    next
      case asks
      have run: "bindE (?ask q a) (\<lambda>s. step_candidates env q g c root rp ?rest (if s = Insensitive then ?moved else next) (Some s)) = Inr (v, b)"
        using 1(4) more asks by (simp add: step_candidates.simps [of _ _ _ _ _ _ candidates] Let_def cong: if_cong)
      then obtain s where s: "?ask q a = Inr s"
        and rest: "step_candidates env q g c root rp ?rest (if s = Insensitive then ?moved else next) (Some s) = Inr (v, b)"
        by (cases "?ask q a") auto
      obtain s' where s': "?ask t a' = Inr s'" "s' = Insensitive \<longleftrightarrow> s = Insensitive"
        using s 1(5,6) by (cases a; cases a') (auto simp: consistent_def)
      then have "same_sense (Some s) (Some s')" by simp
      from 1(3) [OF more refl refl refl refl _ _ s rest this 1(6)] asks more s' show ?thesis
        by (simp add: step_candidates.simps [of _ _ _ _ _ _ candidates] Let_def cong: if_cong)
    qed
  qed
qed

lemma stepBitmask_consistent:
  assumes "consistent t q" and "stepBitmask env q g state c root rp a = Inr (v, b)" and "same_sense a a'"
  shows "\<exists>b'. stepBitmask env t g state c root rp a' = Inr (v, b') \<and> same_sense b b'"
proof -
  obtain n where n: "step_candidates env q g c root rp (state AND mActiveMask g) (state AND mDoubleStarMask g) a = Inr (n, b)"
    "v = (n OR push_bit 1 (n AND mDoubleStarMask g))"
    using assms(2) by (auto simp: stepBitmask_def bindE_def split: sum.splits)
  from step_candidates_consistent [OF assms(1) n(1) assms(3)] show ?thesis by (auto simp: stepBitmask_def n(2))
qed

lemma step_states_consistent:
  assumes "consistent t q"
  shows "step_states env q dir c rp parent gs count i a alive next = Inr st \<Longrightarrow> same_sense a a' \<Longrightarrow>
    step_states env t dir c rp parent gs count i a' alive next = Inr st"
proof (induction gs arbitrary: i a a' alive "next")
  case (Cons g gs)
  let ?s = "ds_data count parent ! i"
  show ?case
  proof (cases "?s = 0")
    case False
    then obtain v b where v: "stepBitmask env q g ?s c dir rp a = Inr (v, b)"
      using Cons.prems(1) by (cases "stepBitmask env q g ?s c dir rp a") auto
    obtain b' where "stepBitmask env t g ?s c dir rp a' = Inr (v, b')" "same_sense b b'"
      using stepBitmask_consistent [OF assms v Cons.prems(2)] by blast
    then show ?thesis using Cons.IH [of "i + 1" b] Cons.prems(1) False v by (auto split: if_splits)
  qed (use Cons in simp)
qed simp

lemma component_ignored_consistent:
  assumes "consistent t q"
  shows "component_ignored env q dir c rp parent gs count i a = Inr x \<Longrightarrow> same_sense a a' \<Longrightarrow>
    component_ignored env t dir c rp parent gs count i a' = Inr x"
proof (induction gs arbitrary: i a a')
  case (Cons g gs)
  let ?s = "ds_data count parent ! i"
  show ?case
  proof (cases "?s = 0")
    case False
    then obtain v b where v: "stepBitmask env q g ?s c dir rp a = Inr (v, b)"
      using Cons.prems(1) by (cases "stepBitmask env q g ?s c dir rp a") auto
    obtain b' where "stepBitmask env t g ?s c dir rp a' = Inr (v, b')" "same_sense b b'"
      using stepBitmask_consistent [OF assms v Cons.prems(2)] by blast
    then show ?thesis using Cons.IH [of "i + 1" b] Cons.prems(1) False v by (auto split: if_splits)
  qed (use Cons in simp)
qed simp

lemma stepDirGlobState_consistent:
  "consistent t q \<Longrightarrow> stepDirGlobState env q w parent c rp = Inr st \<Longrightarrow> stepDirGlobState env t w parent c rp = Inr st"
  using step_states_consistent by (auto simp: stepDirGlobState_def Let_def split: if_splits)

lemma isComponentIgnored_consistent:
  "consistent t q \<Longrightarrow> isComponentIgnored env q w parent c rp = Inr x \<Longrightarrow> isComponentIgnored env t w parent c rp = Inr x"
  using component_ignored_consistent by (auto simp: isComponentIgnored_def split: if_splits)

lemma run_dir_append:
  "run_dir env query w st (xs @ ys) = bindE (run_dir env query w st xs) (\<lambda>st'. run_dir env query w st' ys)"
proof (induction xs arbitrary: st)
  case (Cons x xs)
  obtain c rp where "x = (c, rp)" by (cases x)
  with Cons show ?case by (cases "stepDirGlobState env query w st c rp") simp_all
qed simp

lemma find_or_end_le: "pos \<le> length d \<Longrightarrow> find_or_end c d pos \<le> length d"
  using length_takeWhile_le [of "\<lambda>x. x \<noteq> c" "drop pos d"] by (simp add: find_or_end_def)

lemma find_or_end_at:
  "pos \<le> length d \<Longrightarrow> find_or_end c d pos < length d \<Longrightarrow> d ! find_or_end c d pos = c"
  using nth_length_takeWhile [of "\<lambda>x. x \<noteq> c" "drop pos d"] by (simp add: find_or_end_def)

lemma find_or_end_take:
  assumes "pos \<le> n" "n < length d" "d ! n = c"
  shows "find_or_end c (take n d) pos = find_or_end c d pos" "find_or_end c d pos \<le> n"
proof -
  have d: "drop pos d = drop pos (take n d) @ c # drop (Suc n) d"
    using assms by (metis append_take_drop_id drop_append diff_is_0_eq drop0 drop_at length_take min.absorb4)
  have "takeWhile (\<lambda>x. x \<noteq> c) (drop pos d) = takeWhile (\<lambda>x. x \<noteq> c) (drop pos (take n d))"
    unfolding d
    by (auto simp: takeWhile_append intro!: takeWhile_eq_all_conv [THEN iffD2, symmetric])
  then show eq: "find_or_end c (take n d) pos = find_or_end c d pos" by (simp add: find_or_end_def)
  show "find_or_end c d pos \<le> n" using find_or_end_le [of pos "take n d" c] assms by (simp add: eq)
qed

lemma clean_path_take:
  assumes "clean_path c d" "n < length d" "d ! n = c"
  shows "0 < n" "clean_path c (take n d)"
proof -
  show n: "0 < n" using assms by (cases n) (auto simp: clean_path_def)
  then obtain m where m: "n = Suc m" by (cases n) auto
  then have "d ! m \<noteq> c" using assms by (auto simp: clean_path_def)
  then show "clean_path c (take n d)"
    using assms n m by (auto simp: clean_path_def last_conv_nth)
qed

lemma walk_steps_take:
  assumes "clean_path c d" "n < length d" "d ! n = c"
  shows "pos < n \<Longrightarrow> walk_steps c d pos = walk_steps c (take n d) pos @ walk_steps c d (n + 1)"
proof (induction "length d - pos" arbitrary: pos rule: less_induct)
  case less
  let ?s = "find_or_end c d pos"
  note found = find_or_end_take [of pos n d c]
  have in_take: "find_or_end c (take n d) pos = ?s" and le: "?s \<le> n"
    using found less.prems assms(2,3) by simp_all
  have comp: "take (?s - pos) (drop pos (take n d)) = take (?s - pos) (drop pos d)"
    using le less.prems by (simp add: drop_take)
  have parent: "take (pos - 1) (take n d) = take (pos - 1) d" using less.prems by simp
  have whole: "walk_steps c d pos =
      (take (?s - pos) (drop pos d), if pos = 0 then [] else take (pos - 1) d) # walk_steps c d (?s + 1)"
    using less.prems assms(2) by (simp add: walk_steps.simps [of c d pos])
  have part: "walk_steps c (take n d) pos =
      (take (?s - pos) (drop pos d), if pos = 0 then [] else take (pos - 1) d) #
        walk_steps c (take n d) (?s + 1)"
    using less.prems assms(2) comp parent by (simp add: walk_steps.simps [of c "take n d" pos] in_take)
  show ?case
  proof (cases "?s = n")
    case True
    then show ?thesis
      using assms(2) whole part by (simp add: walk_steps.simps [of c "take n d" "Suc n"])
  next
    case False
    then have "?s < n" using le by simp
    moreover have "d ! ?s = c" using \<open>?s < n\<close> find_or_end_at [of pos d c] less.prems assms(2) by simp
    ultimately have "?s + 1 < n"
      using assms by (metis Suc_eq_plus1 clean_path_def less_antisym not_less_eq Suc_lessI)
    then show ?thesis
      using less.hyps [of "?s + 1"] whole part find_or_end_ge [of pos c d] less.prems assms(2) by simp
  qed
qed

definition dirs_ok ::
  "text_env \<Rightarrow> case_query \<Rightarrow> 'a watcher_scheme \<Rightarrow> (string \<times> dir_glob_state) list \<Rightarrow> bool" where
  "dirs_ok env query w dirs \<longleftrightarrow>
     (\<forall>d st. map_of dirs d = Some st \<longrightarrow> uncached env query w d = Inr st)"

definition cache_ok :: "text_env \<Rightarrow> case_query \<Rightarrow> 'a watcher_scheme \<Rightarrow> ignore_cache \<Rightarrow> bool" where
  "cache_ok env query w cache \<longleftrightarrow>
     (ic_watcherId cache = mId w \<longrightarrow>
        ic_rootState cache = makeRootGlobState w \<and> dirs_ok env query w (ic_dirs cache) \<and>
        (ic_hasLast cache \<longrightarrow> uncached env query w (ic_lastRelDir cache) = Inr (ic_lastState cache)))"

lemma dirs_ok_emplace:
  "dirs_ok env query w dirs \<Longrightarrow> uncached env query w d = Inr st \<Longrightarrow>
    dirs_ok env query w (emplace_dir d st dirs)"
  by (auto simp: dirs_ok_def emplace_dir_def update_conv')

lemma run_dir_consistent:
  "consistent t q \<Longrightarrow> run_dir env q w st steps = Inr st' \<Longrightarrow> run_dir env t w st steps = Inr st'"
proof (induction steps arbitrary: st)
  case (Cons x steps)
  obtain c rp where x: "x = (c, rp)" by (cases x)
  obtain st1 where st1: "stepDirGlobState env q w st c rp = Inr st1"
    using Cons.prems(2) x by (cases "stepDirGlobState env q w st c rp") auto
  then show ?case using Cons stepDirGlobState_consistent [OF Cons.prems(1) st1] by (simp add: x)
qed simp


lemma uncached_consistent:
  "consistent t q \<Longrightarrow> uncached env q w relDir = Inr st \<Longrightarrow> uncached env t w relDir = Inr st"
  unfolding uncached_def by (rule run_dir_consistent)

lemma consistent_refl [simp]: "consistent q q"
  by (simp add: consistent_def)

text \<open>
  \<open>walk_dirs\<close> from a position it can go on from: it makes the steps that are left, and the states it adds are right.
\<close>

lemma walk_dirs_run:
  "fst (walk_dirs env q w relDir pos state dirs) = run_dir env q w state (walk_steps (dir_sep (te_platform env)) relDir pos)"
proof (induction "length relDir - pos" arbitrary: pos state dirs rule: less_induct)
  case less
  let ?c = "dir_sep (te_platform env)"
  let ?s = "find_or_end ?c relDir pos"
  let ?comp = "take (?s - pos) (drop pos relDir)" and ?rp = "if pos = 0 then [] else take (pos - 1) relDir"
  show ?case
  proof (cases "pos < length relDir")
    case False
    then show ?thesis by (simp add: walk_steps.simps [of _ _ pos] walk_dirs.simps [of _ _ _ relDir])
  next
    case True
    have split: "walk_steps ?c relDir pos = (?comp, ?rp) # walk_steps ?c relDir (?s + 1)"
      using True by (simp add: walk_steps.simps [of _ _ pos])
    show ?thesis
    proof (cases "stepDirGlobState env q w state ?comp ?rp")
      case (Inl e)
      then show ?thesis using True by (simp add: walk_dirs.simps [of _ _ _ relDir] split Let_def)
    next
      case (Inr state')
      then have "walk_dirs env q w relDir pos state dirs =
          walk_dirs env q w relDir (?s + 1) state' (emplace_dir (take ?s relDir) state' dirs)"
        using True by (simp add: walk_dirs.simps [of _ _ _ relDir pos] Let_def)
      then show ?thesis
        using less.hyps [of "?s + 1"] True find_or_end_ge [of pos ?c relDir] Inr by (simp add: split)
    qed
  qed
qed

lemma walk_dirs_ok:
  assumes "clean_path (dir_sep (te_platform env)) relDir" and "consistent t q"
  defines "steps \<equiv> walk_steps (dir_sep (te_platform env)) relDir"
  shows "steps 0 = pre @ steps pos \<Longrightarrow> run_dir env t w (makeRootGlobState w) pre = Inr state \<Longrightarrow>
    dirs_ok env t w dirs \<Longrightarrow> dirs_ok env t w (snd (walk_dirs env q w relDir pos state dirs))"
proof (induction "length relDir - pos" arbitrary: pos pre state dirs rule: less_induct)
  case less
  let ?c = "dir_sep (te_platform env)" and ?root = "makeRootGlobState w"
  let ?s = "find_or_end ?c relDir pos"
  let ?comp = "take (?s - pos) (drop pos relDir)"
  let ?rp = "if pos = 0 then [] else take (pos - 1) relDir"
  show ?case
  proof (cases "pos < length relDir")
    case False
    then show ?thesis using less.prems by (simp add: walk_dirs.simps [of _ _ _ relDir])
  next
    case True
    have split: "steps pos = (?comp, ?rp) # steps (?s + 1)"
      using True by (simp add: steps_def walk_steps.simps [of _ _ pos])
    show ?thesis
    proof (cases "stepDirGlobState env q w state ?comp ?rp")
      case (Inl e)
      then show ?thesis using True less.prems by (simp add: walk_dirs.simps [of _ _ _ relDir] Let_def)
    next
      case (Inr state')
      let ?pre = "pre @ [(?comp, ?rp)]"
      have run: "run_dir env t w ?root ?pre = Inr state'"
        using less.prems(2) stepDirGlobState_consistent [OF assms(2) Inr] by (simp add: run_dir_append)
      have all: "steps 0 = ?pre @ steps (?s + 1)" using less.prems(1) split by simp
      have "walk_steps ?c (take ?s relDir) 0 = ?pre"
      proof (cases "?s < length relDir")
        case False
        then have "?s = length relDir" using find_or_end_le [of pos relDir ?c] True by simp
        then show ?thesis using all by (simp add: steps_def walk_steps.simps [of _ _ "Suc (length relDir)"])
      next
        case inside: True
        then have at: "relDir ! ?s = ?c" using find_or_end_at True by simp
        show ?thesis
          using walk_steps_take [OF assms(1) inside at clean_path_take(1) [OF assms(1) inside at]] all
          by (simp add: steps_def)
      qed
      then have "uncached env t w (take ?s relDir) = Inr state'"
        using run by (simp add: uncached_def)
      then have dirs: "dirs_ok env t w (emplace_dir (take ?s relDir) state' dirs)"
        by (rule dirs_ok_emplace [OF less.prems(3)])
      have "walk_dirs env q w relDir pos state dirs =
          walk_dirs env q w relDir (?s + 1) state' (emplace_dir (take ?s relDir) state' dirs)"
        using True Inr by (simp add: walk_dirs.simps [of _ _ _ relDir pos] Let_def)
      then show ?thesis
        using less.hyps [OF _ all run dirs] True find_or_end_ge [of pos ?c relDir] by simp
    qed
  qed
qed

lemma cached_ancestor_uncached:
  assumes "clean_path c relDir" and "dirs_ok env query w dirs" and "c = dir_sep (te_platform env)"
  shows "(\<And>n. e = Some n \<Longrightarrow> n < length relDir \<and> relDir ! n = c) \<Longrightarrow>
    cached_ancestor c dirs relDir e = Some (st, pos) \<Longrightarrow>
    \<exists>pre. walk_steps c relDir 0 = pre @ walk_steps c relDir pos \<and>
      run_dir env query w (makeRootGlobState w) pre = Inr st"
proof (induction "case e of None \<Rightarrow> 0 | Some n \<Rightarrow> Suc n" arbitrary: e rule: less_induct)
  case less
  from less.prems(2) obtain n where e: "e = Some n"
    by (cases e) (auto simp: cached_ancestor.simps)
  have n: "n < length relDir" "relDir ! n = c" using less.prems(1) e by auto
  note prefix = clean_path_take [OF assms(1) n]
  show ?case
  proof (cases "map_of dirs (take n relDir)")
    case (Some st')
    then have "st' = st" "pos = n + 1"
      using less.prems(2) e by (simp_all add: cached_ancestor.simps [of _ _ _ "Some n"])
    moreover have "run_dir env query w (makeRootGlobState w) (walk_steps c (take n relDir) 0) = Inr st'"
      using assms(2,3) Some by (auto simp: dirs_ok_def uncached_def)
    ultimately show ?thesis using walk_steps_take [OF assms(1) n prefix(1)] by blast
  next
    case None
    then have rest: "cached_ancestor c dirs relDir (rfind c relDir (n - 1)) = Some (st, pos)"
      using less.prems(2) e prefix(1) by (simp add: cached_ancestor.simps [of _ _ _ "Some n"])
    show ?thesis
    proof (rule less.hyps [OF _ _ rest])
      show "(case rfind c relDir (n - 1) of None \<Rightarrow> 0 | Some n \<Rightarrow> Suc n) < (case e of None \<Rightarrow> 0 | Some n \<Rightarrow> Suc n)"
        using e prefix(1) rfind_Some(1) [of c relDir "n - 1"] by (fastforce split: option.split)
      show "\<And>m. rfind c relDir (n - 1) = Some m \<Longrightarrow> m < length relDir \<and> relDir ! m = c"
        using rfind_Some(2,3) by blast
    qed
  qed
qed

lemma claim_cache_ok:
  "cache_ok env query w cache \<Longrightarrow> cache_ok env query w (claim_cache w cache) \<and>
    ic_watcherId (claim_cache w cache) = mId w"
  by (auto simp: cache_ok_def claim_cache_def dirs_ok_def)

text \<open>The answer from the cache: what the file system is asked now, from a state that is right.\<close>

lemma resolve_served:
  assumes ok: "cache_ok env t w cache" and "relDir = [] \<or> clean_path (dir_sep (te_platform env)) relDir" and q: "consistent t q"
  shows "cache_ok env t w (snd (resolveDirGlobState env q w relDir cache))"
    and "uncached env q w relDir = Inr st \<Longrightarrow> fst (resolveDirGlobState env q w relDir cache) = Inr st"
    and "fst (resolveDirGlobState env q w relDir cache) = Inr st \<Longrightarrow> uncached env t w relDir = Inr st"
proof -
  let ?cache = "claim_cache w cache" and ?c = "dir_sep (te_platform env)" and ?root = "makeRootGlobState w"
  have id: "ic_watcherId ?cache = mId w" and ok': "cache_ok env t w ?cache"
    using claim_cache_ok [OF ok] by auto
  then have root: "ic_rootState ?cache = ?root"
    and dirs: "dirs_ok env t w (ic_dirs ?cache)"
    and last: "ic_hasLast ?cache \<Longrightarrow> uncached env t w (ic_lastRelDir ?cache) = Inr (ic_lastState ?cache)"
    by (auto simp: cache_ok_def)
  have empty: "uncached env p w [] = Inr ?root" for p by (simp add: uncached_def walk_steps.simps)
  \<comment> \<open>a state that is right without having asked\<close>
  have known: "fst (resolveDirGlobState env q w relDir cache) = Inr st"
    if "uncached env q w relDir = Inr st" "fst (resolveDirGlobState env q w relDir cache) = Inr st'" "uncached env t w relDir = Inr st'" for st'
    using uncached_consistent [OF q that(1)] that by simp
  consider (root) "relDir = []"
    | (last) "relDir \<noteq> []" "ic_hasLast ?cache \<and> ic_lastRelDir ?cache = relDir"
    | (found) s where "relDir \<noteq> []" "\<not> (ic_hasLast ?cache \<and> ic_lastRelDir ?cache = relDir)"
        "map_of (ic_dirs ?cache) relDir = Some s"
    | (walk) "relDir \<noteq> []" "\<not> (ic_hasLast ?cache \<and> ic_lastRelDir ?cache = relDir)"
        "map_of (ic_dirs ?cache) relDir = None"
    by (cases "map_of (ic_dirs ?cache) relDir") blast+
  then have "cache_ok env t w (snd (resolveDirGlobState env q w relDir cache)) \<and>
    (uncached env q w relDir = Inr st \<longrightarrow> fst (resolveDirGlobState env q w relDir cache) = Inr st) \<and>
    (fst (resolveDirGlobState env q w relDir cache) = Inr st \<longrightarrow> uncached env t w relDir = Inr st)"
  proof cases
    case root
    then have "resolveDirGlobState env q w relDir cache = (Inr ?root, ?cache)"
      using \<open>ic_rootState ?cache = ?root\<close> by (simp add: resolveDirGlobState_def Let_def)
    then show ?thesis using ok' empty root by simp
  next
    case last
    then have "resolveDirGlobState env q w relDir cache = (Inr (ic_lastState ?cache), ?cache)"
      by (simp add: resolveDirGlobState_def Let_def)
    then show ?thesis using ok' known \<open>ic_hasLast ?cache \<Longrightarrow> _\<close> last by auto
  next
    case (found s)
    then have s: "uncached env t w relDir = Inr s" using dirs by (simp add: dirs_ok_def)
    have "resolveDirGlobState env q w relDir cache = (Inr s, ?cache\<lparr>ic_lastRelDir := relDir, ic_lastState := s, ic_hasLast := True\<rparr>)"
      using found by (auto simp: resolveDirGlobState_def Let_def)
    then show ?thesis using known [of s] s id root dirs by (auto simp: cache_ok_def)
  next
    case walk
    then have clean: "clean_path ?c relDir" using assms(2) by simp
    define ds where "ds = (if length (ic_dirs ?cache) \<ge> max_cached_dirs then [] else ic_dirs ?cache)"
    have ds: "dirs_ok env t w ds" using dirs by (auto simp: ds_def dirs_ok_def)
    obtain state pos where start: "(case cached_ancestor ?c ds relDir (rfind ?c relDir (length relDir)) of
        Some found \<Rightarrow> found | None \<Rightarrow> (ic_rootState ?cache, 0)) = (state, pos)" by fastforce
    have "\<exists>pre. walk_steps ?c relDir 0 = pre @ walk_steps ?c relDir pos \<and> run_dir env t w ?root pre = Inr state"
    proof (cases "cached_ancestor ?c ds relDir (rfind ?c relDir (length relDir))")
      case None
      then show ?thesis using start root by (auto intro: exI [of _ "[]"])
    next
      case (Some found)
      then have "cached_ancestor ?c ds relDir (rfind ?c relDir (length relDir)) = Some (state, pos)"
        using start by simp
      from cached_ancestor_uncached [OF clean ds refl _ this] rfind_Some(2,3) show ?thesis by blast
    qed
    then obtain pre where pre: "walk_steps ?c relDir 0 = pre @ walk_steps ?c relDir pos"
        "run_dir env t w ?root pre = Inr state" by blast
    obtain r ds' where r: "walk_dirs env q w relDir pos state ds = (r, ds')" by fastforce
    have run: "r = run_dir env q w state (walk_steps ?c relDir pos)" using walk_dirs_run [of env q w relDir pos state ds] r by simp
    have ds': "dirs_ok env t w ds'" using walk_dirs_ok [OF clean q pre ds] by (simp add: r)
    have res: "resolveDirGlobState env q w relDir cache = (r, case r of Inl e \<Rightarrow> ?cache\<lparr>ic_dirs := ds'\<rparr>
        | Inr st \<Rightarrow> ?cache\<lparr>ic_dirs := ds', ic_lastRelDir := relDir, ic_lastState := st, ic_hasLast := True\<rparr>)"
      using walk by (auto simp: resolveDirGlobState_def Let_def ds_def [symmetric] start r split: sum.split)
    have right: "uncached env t w relDir = Inr s" if "r = Inr s" for s
      using run_dir_consistent [OF q, of env w state _ s] run that pre by (simp add: uncached_def run_dir_append)
    moreover have "r = Inr s" if s: "uncached env q w relDir = Inr s" for s
    proof -
      obtain state' where state': "run_dir env q w ?root pre = Inr state'"
        "run_dir env q w state' (walk_steps ?c relDir pos) = Inr s"
        using s pre(1) by (auto simp: uncached_def run_dir_append bindE_eq_Inr)
      then have "state' = state" using run_dir_consistent [OF q state'(1)] pre(2) by simp
      then show ?thesis using state' run by simp
    qed
    ultimately show ?thesis using id root ds' last
      by (cases r) (auto simp: res cache_ok_def)
  qed
  then show "cache_ok env t w (snd (resolveDirGlobState env q w relDir cache))"
    and "uncached env q w relDir = Inr st \<Longrightarrow> fst (resolveDirGlobState env q w relDir cache) = Inr st"
    and "fst (resolveDirGlobState env q w relDir cache) = Inr st \<Longrightarrow> uncached env t w relDir = Inr st" by auto
qed


subsection \<open>The states of a directory are those of every glob\<close>

lemma ds_fields [simp]:
  "ds_ignored (ds_store count i v s) = ds_ignored s"
  "ds_data count (ds_store count i v s) = (ds_data count s)[i := v]"
  "ds_data count (s\<lparr>ds_allDead := b\<rparr>) = ds_data count s"
  "ds_data count (s\<lparr>ds_ignored := b\<rparr>) = ds_data count s"
  "ds_ignored (ds_init count s) = False"
  by (simp_all add: ds_store_def ds_data_def ds_init_def Let_def)

lemma ds_data_init [simp]: "count \<le> length (ds_data count (ds_init count ds_new))"
  by (simp add: ds_data_def ds_init_def ds_new_def Let_def kInlineGlobs_def)

definition dir_tracks ::
  "text_env \<Rightarrow> case_query \<Rightarrow> glob list \<Rightarrow> (string \<times> string) list \<Rightarrow> dir_glob_state \<Rightarrow> bool" where
  "dir_tracks env query gs vs st \<longleftrightarrow>
     (if ds_ignored st then \<exists>g \<in> set gs. \<exists>k \<le> length vs. parts_wild env query (mParts g) (take k vs)
      else (\<forall>g \<in> set gs. \<forall>k \<le> length vs. \<not> parts_wild env query (mParts g) (take k vs)) \<and>
        (if ds_allDead st then \<forall>i < length gs. state_ok env query (gs ! i) vs 0
         else length gs \<le> length (ds_data (length gs) st) \<and>
           (\<forall>i < length gs. state_ok env query (gs ! i) vs (ds_data (length gs) st ! i))))"

text \<open>The states filled in by a loop over the globs, up to index \<open>i\<close>.\<close>

definition filled ::
  "text_env \<Rightarrow> case_query \<Rightarrow> glob list \<Rightarrow> (string \<times> string) list \<Rightarrow> nat \<Rightarrow> bool \<Rightarrow> dir_glob_state \<Rightarrow> bool" where
  "filled env query gs vs i anyAlive st \<longleftrightarrow>
     length gs \<le> length (ds_data (length gs) st) \<and> \<not> ds_ignored st \<and>
     (anyAlive \<longleftrightarrow> (\<exists>j < i. ds_data (length gs) st ! j \<noteq> 0)) \<and>
     (\<forall>j < i. state_ok env query (gs ! j) vs (ds_data (length gs) st ! j) \<and>
       \<not> parts_wild env query (mParts (gs ! j)) vs)"

lemma filled_store:
  assumes "filled env query gs vs i anyAlive st" "i < length gs"
    and "state_ok env query (gs ! i) vs s" "\<not> parts_wild env query (mParts (gs ! i)) vs"
  shows "filled env query gs vs (Suc i) (anyAlive \<or> s \<noteq> 0) (ds_store (length gs) i s st)"
  using assms by (auto simp: filled_def less_Suc_eq nth_list_update)

lemma filled_done:
  assumes "filled env query gs vs (length gs) anyAlive st"
    and "\<And>g k. g \<in> set gs \<Longrightarrow> k < length vs \<Longrightarrow> \<not> parts_wild env query (mParts g) (take k vs)"
  shows "dir_tracks env query gs vs (st\<lparr>ds_allDead := \<not> anyAlive\<rparr>)"
proof -
  have "\<not> parts_wild env query (mParts g) (take k vs)" if "g \<in> set gs" "k \<le> length vs" for g k
  proof (cases "k < length vs")
    case False
    moreover obtain j where "j < length gs" "g = gs ! j" using \<open>g \<in> set gs\<close> by (metis in_set_conv_nth)
    ultimately show ?thesis using assms(1) \<open>k \<le> length vs\<close> by (auto simp: filled_def)
  qed (use assms(2) that in blast)
  moreover have "\<not> anyAlive \<Longrightarrow> i < length gs \<Longrightarrow> ds_data (length gs) st ! i = 0" for i
    using assms(1) by (auto simp: filled_def)
  ultimately show ?thesis using assms(1) by (auto simp: dir_tracks_def filled_def)
qed

lemma root_states_tracks:
  assumes "\<forall>g \<in> set gs. automaton g"
  shows "gs = pre @ rest \<Longrightarrow> filled env query gs [] (length pre) anyAlive st \<Longrightarrow>
    dir_tracks env query gs [] (root_states rest (length gs) (length pre) anyAlive st)"
proof (induction rest arbitrary: pre anyAlive st)
  case Nil
  then show ?case using filled_done [of env query gs "[]"] by simp
next
  case (Cons g rest)
  have g: "g = gs ! length pre" "length pre < length gs" "g \<in> set gs" "automaton g"
    using Cons.prems(1) assms by auto
  note init = state_ok_initial [OF g(4), of env query]
  note accept = accept_bit [OF g(4) init]
  show ?case
  proof (cases "mInitialState g AND mAcceptBit g \<noteq> 0")
    case True
    then show ?thesis using accept g(3) by (auto simp: dir_tracks_def)
  next
    case False
    then have "filled env query gs [] (length (pre @ [g])) (anyAlive \<or> mInitialState g \<noteq> 0)
        (ds_store (length gs) (length pre) (mInitialState g) st)"
      using filled_store [OF Cons.prems(2) g(2)] init accept g(1) by simp
    then show ?thesis using Cons.IH [of "pre @ [g]"] Cons.prems(1) False by (simp add: Let_def)
  qed
qed

lemma root_tracks:
  "\<forall>g \<in> set (mCompiledGlobs w). automaton g \<Longrightarrow>
    dir_tracks env query (mCompiledGlobs w) [] (makeRootGlobState w)"
  using root_states_tracks [where pre = "[]" and rest = "mCompiledGlobs w" and anyAlive = False
      and st = "ds_init (length (mCompiledGlobs w)) ds_new"]
  by (simp add: makeRootGlobState_def Let_def filled_def)

lemma state_ok_zero_step:
  "automaton g \<Longrightarrow> state_ok env query g vs 0 \<Longrightarrow>
    state_ok env query g (vs @ [(component, buildParentDirectory (te_platform env) dir relParent)]) 0"
  using state_ok_dead [of g env query vs dir "[(component, relParent)]"] by (simp add: located_def)

lemma step_states_tracks:
  assumes automata: "\<forall>g \<in> set gs. automaton g"
    and parent: "dir_tracks env query gs vs parent" "\<not> ds_ignored parent" "\<not> ds_allDead parent"
    and v_def: "v = (component, buildParentDirectory (te_platform env) dir relParent)"
  shows "gs = pre @ rest \<Longrightarrow> filled env query gs (vs @ [v]) (length pre) anyAlive st \<Longrightarrow>
    cached_ok query (snd v) sens \<Longrightarrow>
    step_states env query dir component relParent parent rest (length gs) (length pre) sens anyAlive st =
      Inr st' \<Longrightarrow> dir_tracks env query gs (vs @ [v]) st'"
proof (induction rest arbitrary: pre sens anyAlive st)
  case Nil
  have "\<not> parts_wild env query (mParts g) (take k (vs @ [v]))" if "g \<in> set gs" "k < length (vs @ [v])" for g k
    using parent that by (auto simp: dir_tracks_def)
  then show ?case using filled_done [of env query gs "vs @ [v]"] Nil by auto
next
  case (Cons g rest)
  let ?i = "length pre" and ?s = "ds_data (length gs) parent ! length pre"
  have g: "g = gs ! ?i" "?i < length gs" "g \<in> set gs" "automaton g"
    using Cons.prems(1) automata by auto
  have s: "state_ok env query g vs ?s"
    using parent g by (auto simp: dir_tracks_def)
  show ?case
  proof (cases "?s = 0")
    case True
    have dead: "state_ok env query g (vs @ [v]) 0"
      unfolding v_def by (rule state_ok_zero_step [OF g(4) s [unfolded True]])
    then have "\<not> parts_wild env query (mParts g) (vs @ [v])"
      using accept_bit [OF g(4) dead] by simp
    then have "filled env query gs (vs @ [v]) (length (pre @ [g])) anyAlive (ds_store (length gs) ?i 0 st)"
      using filled_store [OF Cons.prems(2) g(2), of 0] dead g(1) by simp
    then show ?thesis using Cons.IH [of "pre @ [g]"] Cons.prems True by (simp add: Let_def)
  next
    case False
    with Cons.prems(4) obtain stepped sens' where
      step: "stepBitmask env query g ?s component dir relParent sens = Inr (stepped, sens')"
      and go: "(if stepped AND mAcceptBit g \<noteq> 0 then Inr (st\<lparr>ds_ignored := True\<rparr>)
        else step_states env query dir component relParent parent rest (length gs) (?i + 1) sens'
          (anyAlive \<or> stepped \<noteq> 0) (ds_store (length gs) ?i stepped st)) = Inr st'"
      by (auto simp: Let_def bindE_eq_Inr)
    note sens = Cons.prems(3) [unfolded v_def snd_conv]
    have ok: "state_ok env query g (vs @ [v]) stepped"
      unfolding v_def by (rule state_ok_step [OF g(4) s step sens])
    note accept = accept_bit [OF g(4) ok]
    show ?thesis
    proof (cases "stepped AND mAcceptBit g \<noteq> 0")
      case True
      then show ?thesis using go accept g(3)
        by (auto simp: dir_tracks_def intro!: bexI [of _ g] exI [of _ "Suc (length vs)"])
    next
      case False
      then have "filled env query gs (vs @ [v]) (length (pre @ [g])) (anyAlive \<or> stepped \<noteq> 0)
          (ds_store (length gs) ?i stepped st)"
        using filled_store [OF Cons.prems(2) g(2)] ok accept g(1) by simp
      moreover have "cached_ok query (snd v) sens'"
        using stepBitmask_cached [OF step sens] by (simp add: v_def)
      ultimately show ?thesis using Cons.IH [of "pre @ [g]"] Cons.prems(1) go False by simp
    qed
  qed
qed

lemma component_ignored_tracks:
  assumes automata: "\<forall>g \<in> set gs. automaton g"
    and parent: "dir_tracks env query gs vs parent" "\<not> ds_ignored parent" "\<not> ds_allDead parent"
    and v_def: "v = (component, buildParentDirectory (te_platform env) dir relParent)"
  shows "gs = pre @ rest \<Longrightarrow> cached_ok query (snd v) sens \<Longrightarrow>
    component_ignored env query dir component relParent parent rest (length gs) (length pre) sens = Inr b \<Longrightarrow>
    b \<longleftrightarrow> (\<exists>g \<in> set rest. parts_wild env query (mParts g) (vs @ [v]))"
proof (induction rest arbitrary: pre sens)
  case Nil
  then show ?case by simp
next
  case (Cons g rest)
  let ?i = "length pre" and ?s = "ds_data (length gs) parent ! length pre"
  have g: "g = gs ! ?i" "?i < length gs" "g \<in> set gs" "automaton g"
    using Cons.prems(1) automata by auto
  have s: "state_ok env query g vs ?s"
    using parent g by (auto simp: dir_tracks_def)
  show ?case
  proof (cases "?s = 0")
    case True
    have dead: "state_ok env query g (vs @ [v]) 0"
      unfolding v_def by (rule state_ok_zero_step [OF g(4) s [unfolded True]])
    then have "\<not> parts_wild env query (mParts g) (vs @ [v])"
      using accept_bit [OF g(4) dead] by simp
    then show ?thesis using Cons.IH [of "pre @ [g]" sens] Cons.prems True by (simp add: Let_def)
  next
    case False
    with Cons.prems(3) obtain stepped sens' where
      step: "stepBitmask env query g ?s component dir relParent sens = Inr (stepped, sens')"
      and go: "(if stepped AND mAcceptBit g \<noteq> 0 then Inr True
        else component_ignored env query dir component relParent parent rest (length gs) (?i + 1) sens') = Inr b"
      by (auto simp: Let_def bindE_eq_Inr)
    note sens = Cons.prems(2) [unfolded v_def snd_conv]
    have ok: "state_ok env query g (vs @ [v]) stepped"
      unfolding v_def by (rule state_ok_step [OF g(4) s step sens])
    note accept = accept_bit [OF g(4) ok]
    have "cached_ok query (snd v) sens'"
      using stepBitmask_cached [OF step sens] by (simp add: v_def)
    then show ?thesis using Cons.IH [of "pre @ [g]" sens'] Cons.prems(1) go accept by (auto split: if_splits)
  qed
qed

lemma dir_tracks_dead:
  assumes automata: "\<forall>g \<in> set gs. automaton g" and v: "v = (c, buildParentDirectory (te_platform env) dir rp)"
    and "dir_tracks env query gs vs parent" "\<not> ds_ignored parent" "ds_allDead parent"
  shows "\<forall>g \<in> set gs. state_ok env query g (vs @ [v]) 0 \<and>
    (\<forall>k \<le> length (vs @ [v]). \<not> parts_wild env query (mParts g) (take k (vs @ [v])))"
proof
  fix g
  assume g: "g \<in> set gs"
  then have auto: "automaton g" using automata by blast
  have "state_ok env query g vs 0"
    using assms g by (auto simp: dir_tracks_def in_set_conv_nth)
  then have dead: "state_ok env query g (vs @ [v]) 0"
    unfolding v by (rule state_ok_zero_step [OF auto])
  have "\<not> parts_wild env query (mParts g) (take k (vs @ [v]))" if "k \<le> length (vs @ [v])" for k
  proof (cases "k \<le> length vs")
    case True
    then show ?thesis using assms g by (auto simp: dir_tracks_def)
  next
    case False
    then show ?thesis using that accept_bit [OF auto dead] by simp
  qed
  with dead show "state_ok env query g (vs @ [v]) 0 \<and>
    (\<forall>k \<le> length (vs @ [v]). \<not> parts_wild env query (mParts g) (take k (vs @ [v])))" by blast
qed

lemma stepDirGlobState_tracks:
  assumes automata: "\<forall>g \<in> set (mCompiledGlobs w). automaton g"
    and parent: "dir_tracks env query (mCompiledGlobs w) vs parent"
    and step: "stepDirGlobState env query w parent c rp = Inr st"
  shows "dir_tracks env query (mCompiledGlobs w)
    (vs @ [(c, buildParentDirectory (te_platform env) (mDir w) rp)]) st"
proof -
  let ?v = "(c, buildParentDirectory (te_platform env) (mDir w) rp)"
  consider (ignored) "ds_ignored parent" | (dead) "\<not> ds_ignored parent" "ds_allDead parent"
    | (alive) "\<not> ds_ignored parent" "\<not> ds_allDead parent" by blast
  then show ?thesis
  proof cases
    case ignored
    then obtain g k where "g \<in> set (mCompiledGlobs w)" "k \<le> length vs"
        "parts_wild env query (mParts g) (take k (vs @ [?v]))"
      using parent by (auto simp: dir_tracks_def)
    then show ?thesis using ignored step
      by (auto simp: stepDirGlobState_def dir_tracks_def intro!: bexI [of _ g] exI [of _ k])
  next
    case dead
    then show ?thesis using step dir_tracks_dead [OF automata refl parent dead, of c "mDir w" rp]
      by (auto simp: stepDirGlobState_def dir_tracks_def ds_new_def)
  next
    case alive
    have "filled env query (mCompiledGlobs w) (vs @ [?v]) 0 False
        (ds_init (length (mCompiledGlobs w)) ds_new)" by (simp add: filled_def)
    moreover have "step_states env query (mDir w) c rp parent (mCompiledGlobs w)
        (length (mCompiledGlobs w)) (length ([] :: glob list)) None False
        (ds_init (length (mCompiledGlobs w)) ds_new) = Inr st"
      using step alive by (simp add: stepDirGlobState_def Let_def)
    ultimately show ?thesis
      using step_states_tracks [OF automata parent alive refl, where pre = "[]" and
          rest = "mCompiledGlobs w" and sens = None and anyAlive = False and component = c and
          dir = "mDir w" and relParent = rp and st = "ds_init (length (mCompiledGlobs w)) ds_new"]
      by simp
  qed
qed

lemma run_dir_tracks:
  assumes "\<forall>g \<in> set (mCompiledGlobs w). automaton g"
  shows "dir_tracks env query (mCompiledGlobs w) vs st \<Longrightarrow> run_dir env query w st steps = Inr st' \<Longrightarrow>
    dir_tracks env query (mCompiledGlobs w) (vs @ located (te_platform env) (mDir w) steps) st'"
proof (induction steps arbitrary: vs st)
  case Nil
  then show ?case by (simp add: located_def)
next
  case (Cons s steps)
  obtain c rp where s: "s = (c, rp)" by (cases s)
  with Cons.prems(2) obtain st1 where
    "stepDirGlobState env query w st c rp = Inr st1" "run_dir env query w st1 steps = Inr st'"
    by (auto simp: bindE_eq_Inr)
  with Cons.IH [OF stepDirGlobState_tracks [OF assms Cons.prems(1)]] show ?case
    by (simp add: s located_def)
qed

text \<open>The last component of a path, below a directory whose state is known.\<close>

lemma isComponentIgnored_tracks:
  assumes automata: "\<forall>g \<in> set (mCompiledGlobs w). automaton g"
    and parent: "dir_tracks env query (mCompiledGlobs w) vs parent"
    and leaf: "isComponentIgnored env query w parent c rp = Inr b"
  defines "v \<equiv> (c, buildParentDirectory (te_platform env) (mDir w) rp)"
  shows "b \<longleftrightarrow> (\<exists>g \<in> set (mCompiledGlobs w). \<exists>k \<le> length (vs @ [v]).
    parts_wild env query (mParts g) (take k (vs @ [v])))"
proof -
  have split: "(\<exists>k \<le> length (vs @ [v]). P (take k (vs @ [v]))) \<longleftrightarrow>
      (\<exists>k \<le> length vs. P (take k vs)) \<or> P (vs @ [v])" for P
    by (auto simp: le_Suc_eq)
  consider (ignored) "ds_ignored parent" | (dead) "\<not> ds_ignored parent" "ds_allDead parent"
    | (alive) "\<not> ds_ignored parent" "\<not> ds_allDead parent" by blast
  then show ?thesis
  proof cases
    case ignored
    then show ?thesis using parent leaf
      unfolding split by (auto simp: isComponentIgnored_def dir_tracks_def)
  next
    case dead
    then show ?thesis using leaf dir_tracks_dead [OF automata refl parent dead, of c "mDir w" rp]
      by (auto simp: isComponentIgnored_def v_def)
  next
    case alive
    then have "b \<longleftrightarrow> (\<exists>g \<in> set (mCompiledGlobs w). parts_wild env query (mParts g) (vs @ [v]))"
      using component_ignored_tracks [OF automata parent alive, of v c "mDir w" rp "[]"
          "mCompiledGlobs w" None b] leaf
      by (simp add: isComponentIgnored_def v_def)
    then show ?thesis using alive parent unfolding split by (auto simp: dir_tracks_def)
  qed
qed

subsection \<open>Cached and separate matching agree\<close>

lemma rfind_None: "rfind c s (length s) = None \<Longrightarrow> j < length s \<Longrightarrow> s ! j \<noteq> c"
  by (auto simp: rfind_def Let_def filter_empty_conv split: if_splits)

lemma rfind_last:
  assumes "rfind c s (length s) = Some i" "i < j" "j < length s"
  shows "s ! j \<noteq> c"
proof
  assume "s ! j = c"
  let ?P = "\<lambda>i. s ! i = c"
  have "[0..<length s] = [0..<j] @ [j..<length s]" 
    using upt_add_eq_append [of 0 j "length s - j"] assms(3) by simp
  then have split: "filter ?P [0..<length s] = filter ?P [0..<j] @ filter ?P [j..<length s]" by simp
  moreover have "filter ?P [j..<length s] \<noteq> []"
    using assms(3) \<open>s ! j = c\<close> by (auto simp: filter_empty_conv)
  ultimately have "last (filter ?P [0..<length s]) \<in> set (filter ?P [j..<length s])"
    by (metis last_appendR last_in_set)
  then have "j \<le> last (filter ?P [0..<length s])" by simp
  moreover have "i = last (filter ?P [0..<length s])"
    using assms(1) by (auto simp: rfind_def Let_def split: if_splits)
  ultimately show False using assms(2) by simp
qed

lemma find_or_end_none:
  assumes "pos \<le> length d" "\<And>j. pos \<le> j \<Longrightarrow> j < length d \<Longrightarrow> d ! j \<noteq> c"
  shows "find_or_end c d pos = length d"
proof (rule ccontr)
  assume "find_or_end c d pos \<noteq> length d"
  then have "find_or_end c d pos < length d" using find_or_end_le [OF assms(1), of c] by simp
  with assms find_or_end_at [OF assms(1)] find_or_end_ge [of pos c d] show False by blast
qed

text \<open>The directory and the last component of a path, as \<open>isIgnored\<close> takes them apart.\<close>

lemma walk_steps_leaf:
  assumes "clean_path c rel"
  defines "relDir \<equiv> (case rfind c rel (length rel) of None \<Rightarrow> [] | Some i \<Rightarrow> take i rel)"
    and "leaf \<equiv> (case rfind c rel (length rel) of None \<Rightarrow> rel | Some i \<Rightarrow> drop (i + 1) rel)"
  shows "walk_steps c rel 0 = walk_steps c relDir 0 @ [(leaf, relDir)]"
    and "relDir = [] \<or> clean_path c relDir"
proof -
  have ne: "rel \<noteq> []" using assms(1) by (simp add: clean_path_def)
  have "walk_steps c rel 0 = walk_steps c relDir 0 @ [(leaf, relDir)] \<and> (relDir = [] \<or> clean_path c relDir)"
  proof (cases "rfind c rel (length rel)")
    case None
    have "find_or_end c rel 0 = length rel"
      using rfind_None [OF None] by (intro find_or_end_none) auto
    then show ?thesis using ne None
      by (simp add: relDir_def leaf_def walk_steps.simps [of c rel 0] walk_steps.simps [of c "[]"]
          walk_steps.simps [of c rel "Suc (length rel)"])
  next
    case (Some i)
    note i = rfind_Some(2,3) [OF Some]
    note dir = clean_path_take [OF assms(1) i]
    have "i + 1 < length rel"
      using i assms(1) by (metis Suc_eq_plus1 Suc_lessI clean_path_def diff_Suc_1 last_conv_nth)
    moreover from this have "find_or_end c rel (i + 1) = length rel"
      using rfind_last [OF Some] by (intro find_or_end_none) auto
    ultimately have "walk_steps c rel (i + 1) = [(leaf, relDir)]"
      using Some by (simp add: walk_steps.simps [of c rel "Suc i"] leaf_def relDir_def
          walk_steps.simps [of c rel "Suc (length rel)"])
    then show ?thesis using walk_steps_take [OF assms(1) i dir(1)] dir(2) Some
      by (simp add: relDir_def)
  qed
  then show "walk_steps c rel 0 = walk_steps c relDir 0 @ [(leaf, relDir)]"
    and "relDir = [] \<or> clean_path c relDir" by auto
qed

lemma automaton_empty_match:
  "automaton g \<Longrightarrow> parts_wild env query (mParts g) [] \<Longrightarrow> parts_wild env query (mParts g) vs"
proof -
  assume g: "automaton g" and all: "parts_wild env query (mParts g) []"
  obtain p ps where ps: "mParts g = p # ps" using g by (cases "mParts g") (auto simp: automaton_def)
  have "ps = []"
    using g all by (cases ps) (auto simp: automaton_def ps no_adjacent_stars_def wild_Nil)
  then show ?thesis using all by (simp add: ps wild_all_star wild_Nil)
qed

lemma globs_ignore_cached:
  assumes automata: "\<forall>g \<in> set (mCompiledGlobs w). automaton g" "mAllGlobsUseBitmask w" "mId w \<noteq> 0"
    and path: "path = mDir w @ dir_sep (te_platform env) # rel" "clean_path (dir_sep (te_platform env)) rel"
    and cache: "cache_ok env query w cache"
    and result: "fst (globs_ignore env query w path cache) = Inr b"
  defines "vs \<equiv> located (te_platform env) (mDir w) (walk_steps (dir_sep (te_platform env)) rel 0)"
  shows "b \<longleftrightarrow> (\<exists>g \<in> set (mCompiledGlobs w). \<exists>k. 1 \<le> k \<and> k \<le> length vs \<and>
    parts_wild env query (mParts g) (take k vs))"
proof (cases "mCompiledGlobs w = []")
  case True
  then show ?thesis using result by (simp add: globs_ignore_def)
next
  case False
  let ?c = "dir_sep (te_platform env)"
  define relDir where "relDir = (case rfind ?c rel (length rel) of None \<Rightarrow> [] | Some i \<Rightarrow> take i rel)"
  define leaf where "leaf = (case rfind ?c rel (length rel) of None \<Rightarrow> rel | Some i \<Rightarrow> drop (i + 1) rel)"
  note parts = walk_steps_leaf [OF path(2), folded relDir_def leaf_def]
  have "rel \<noteq> []" using path(2) by (simp add: clean_path_def)
  then obtain parent where
    parent: "fst (resolveDirGlobState env query w relDir cache) = Inr parent"
    and leaf: "isComponentIgnored env query w parent leaf relDir = Inr b"
    using result False automata path(1)
    by (auto simp: globs_ignore_def Let_def relDir_def [symmetric] leaf_def [symmetric] bindE_eq_Inr
        split: prod.splits)
  define ds where "ds = located (te_platform env) (mDir w) (walk_steps ?c relDir 0)"
  have "uncached env query w relDir = Inr parent"
    using resolve_served(3) [OF cache parts(2) consistent_refl parent] .
  then have "dir_tracks env query (mCompiledGlobs w) ds parent"
    using run_dir_tracks [OF automata(1) root_tracks [OF automata(1)], of env query]
    by (simp add: uncached_def ds_def)
  note b = isComponentIgnored_tracks [OF automata(1) this leaf]
  have vs: "vs = ds @ [(leaf, buildParentDirectory (te_platform env) (mDir w) relDir)]"
    by (simp add: vs_def ds_def parts(1) located_def)
  have "(\<exists>k \<le> length vs. parts_wild env query (mParts g) (take k vs)) \<longleftrightarrow>
      (\<exists>k. 1 \<le> k \<and> k \<le> length vs \<and> parts_wild env query (mParts g) (take k vs))"
    if "g \<in> set (mCompiledGlobs w)" for g
  proof
    assume "\<exists>k \<le> length vs. parts_wild env query (mParts g) (take k vs)"
    then obtain k where k: "k \<le> length vs" "parts_wild env query (mParts g) (take k vs)" by blast
    show "\<exists>k. 1 \<le> k \<and> k \<le> length vs \<and> parts_wild env query (mParts g) (take k vs)"
    proof (cases k)
      case 0
      with k automata(1) that have "parts_wild env query (mParts g) (take 1 vs)"
        using automaton_empty_match [of g env query "take 1 vs"] by simp
      then show ?thesis by (intro exI [of _ 1]) (simp add: vs)
    next
      case (Suc m)
      with k show ?thesis by (intro exI [of _ k]) simp
    qed
  qed blast
  then show ?thesis using b unfolding vs [symmetric] by blast
qed

lemma globs_ignore_separate:
  assumes "any_glob_ignores env query rel root gs = Inr b"
    and "\<And>g b. g \<in> set gs \<Longrightarrow> isPathOrAncestorIgnored env query g rel root = Inr b \<Longrightarrow> b = Q g"
  shows "b \<longleftrightarrow> (\<exists>g \<in> set gs. Q g)"
  using assms by (induction gs) (auto simp: bindE_eq_Inr split: if_splits)

lemma path_steps_find:
  assumes "start \<le> index" "index \<le> length d" "\<And>j. start \<le> j \<Longrightarrow> j < index \<Longrightarrow> d ! j \<noteq> CHR ''/''"
  shows "path_steps d index start =
    (path_component d start (find_or_end CHR ''/'' d start), relative_parent d start) #
      path_steps d (find_or_end CHR ''/'' d start + 1) (find_or_end CHR ''/'' d start + 1)"
  using assms
proof (induction "length d - index" arbitrary: index rule: less_induct)
  case less
  let ?s = "find_or_end CHR ''/'' d start"
  show ?case
  proof (cases "index = length d \<or> d ! index = CHR ''/''")
    case True
    have "?s = index"
    proof (cases "index = length d")
      case True
      then show ?thesis using less.prems by (intro find_or_end_none [of start d, THEN trans]) auto
    next
      case False
      then have "index < length d" "d ! index = CHR ''/''" using True less.prems by auto
      then have "?s \<le> index" using find_or_end_take(2) [of start index d "CHR ''/''"] less.prems by simp
      moreover have "\<not> ?s < index"
        using find_or_end_at [of start d "CHR ''/''"] find_or_end_ge [of start "CHR ''/''" d]
          less.prems \<open>index < length d\<close> by auto
      ultimately show ?thesis by simp
    qed
    then show ?thesis using True less.prems by (simp add: path_steps.simps [of d index])
  next
    case False
    have "path_steps d (Suc index) start =
        (path_component d start ?s, relative_parent d start) # path_steps d (?s + 1) (?s + 1)"
      using less.prems False by (intro less.hyps) (auto simp: less_Suc_eq)
    then show ?thesis using False less.prems by (simp add: path_steps.simps [of d index])
  qed
qed

lemma path_steps_walk:
  assumes "clean_path CHR ''/'' d"
  shows "pos < length d \<Longrightarrow> path_steps d pos pos = walk_steps CHR ''/'' d pos"
proof (induction "length d - pos" arbitrary: pos rule: less_induct)
  case less
  let ?s = "find_or_end CHR ''/'' d pos"
  have step: "path_steps d pos pos = (path_component d pos ?s, relative_parent d pos) # path_steps d (?s + 1) (?s + 1)"
    using less.prems by (intro path_steps_find) auto
  have walk: "walk_steps CHR ''/'' d pos = (path_component d pos ?s, relative_parent d pos) # walk_steps CHR ''/'' d (?s + 1)"
    using less.prems by (simp add: walk_steps.simps [of _ d pos] path_component_def relative_parent_def)
  show ?case
  proof (cases "?s < length d")
    case True
    then have "d ! ?s = CHR ''/''" using find_or_end_at less.prems by simp
    then have "?s + 1 < length d"
      using True assms by (metis Suc_eq_plus1 Suc_lessI clean_path_def diff_Suc_1 last_conv_nth)
    then show ?thesis using less.hyps [of "?s + 1"] find_or_end_ge [of pos "CHR ''/''" d] less.prems step walk
      by simp
  next
    case False
    then have "?s = length d" using find_or_end_le [of pos d "CHR ''/''"] less.prems by simp
    then show ?thesis using step walk
      by (simp add: path_steps.simps [of d "Suc (length d)"] walk_steps.simps [of _ d "Suc (length d)"])
  qed
qed

lemma located_walk_table:
  assumes "clean_path CHR ''/'' rel"
  shows "located (te_platform env) root (walk_steps CHR ''/'' rel 0) = table_parts env root (components rel)"
proof -
  have rel: "rel \<noteq> []" "relative_path rel" using assms by (auto simp: clean_path_def relative_path_def)
  then show ?thesis
    using path_parts_table [of rel env root] path_steps_walk [OF assms, of 0] by (simp add: path_parts_def)
qed

subsection \<open>Normalized patterns ignore the same paths\<close>

lemma wild_append_star:
  "star s \<Longrightarrow> wild star eq (ps @ [s]) vs \<longleftrightarrow> (\<exists>j \<le> length vs. wild star eq ps (take j vs))"
proof (induction vs rule: rev_induct)
  case Nil
  then show ?case by (simp add: wild_Nil)
next
  case (snoc v vs)
  have "(\<exists>j \<le> length (vs @ [v]). wild star eq ps (take j (vs @ [v]))) \<longleftrightarrow>
      wild star eq ps (vs @ [v]) \<or> (\<exists>j \<le> length vs. wild star eq ps (take j vs))"
    by (auto simp: le_Suc_eq)
  then show ?case using snoc by (simp add: wild_snoc_star)
qed

lemma components_from_append:
  "components_from cur (a @ CHR ''/'' # b) = components_from cur a @ components_from [] b"
  by (induction cur a rule: components_from.induct) auto

definition ignored_by :: "(string \<Rightarrow> bool) \<Rightarrow> string \<Rightarrow> (string \<times> string) list \<Rightarrow> bool" where
  "ignored_by insensitive pat vs \<longleftrightarrow>
     (\<exists>k. 1 \<le> k \<and> k \<le> length vs \<and> glob_language insensitive pat (take k vs))"

lemma ignored_by_stars:
  assumes "pat \<noteq> []"
  shows "ignored_by insensitive (pat @ ''/**'') vs = ignored_by insensitive pat vs"
proof -
  have comps: "components (pat @ ''/**'') = components pat @ [''**'']"
    using assms components_from_append [of "[]" pat "''**''"] by (simp add: components_def)
  have cut: "glob_language insensitive (pat @ ''/**'') us \<longleftrightarrow>
      (\<exists>j \<le> length us. glob_language insensitive pat (take j us))" for us
    by (simp add: glob_language_def comps wild_append_star)
  have empty: "glob_language insensitive pat us" if "glob_language insensitive pat []" for us
  proof -
    have "components pat \<noteq> []" using assms by (simp add: components_def)
    moreover have stars: "\<forall>p \<in> set (components pat). p = ''**''"
      using that by (simp add: glob_language_def wild_Nil)
    ultimately obtain ps where "components pat = ps @ [''**'']"
      by (metis append_butlast_last_id last_in_set)
    moreover have "wild (\<lambda>c. c = ''**'') eq ps (take 0 us)" if "components pat = ps @ [''**'']" for ps eq
      using stars that by (simp add: wild_Nil)
    ultimately show ?thesis unfolding glob_language_def by (auto simp: wild_append_star)
  qed
  show ?thesis
  proof
    assume "ignored_by insensitive (pat @ ''/**'') vs"
    then obtain k where k: "1 \<le> k" "k \<le> length vs" "glob_language insensitive (pat @ ''/**'') (take k vs)"
      by (auto simp: ignored_by_def)
    then obtain j where "j \<le> length (take k vs)" "glob_language insensitive pat (take j (take k vs))"
      unfolding cut by blast
    then have "j \<le> length vs" "glob_language insensitive pat (take j vs)"
      using k by (simp_all add: min_absorb1)
    with k show "ignored_by insensitive pat vs"
      by (cases j) (auto simp: ignored_by_def intro: empty)
  next
    assume "ignored_by insensitive pat vs"
    then obtain k where k: "1 \<le> k" "k \<le> length vs" "glob_language insensitive pat (take k vs)"
      by (auto simp: ignored_by_def)
    then have "glob_language insensitive (pat @ ''/**'') (take k vs)"
      unfolding cut by (intro exI [of _ k]) simp
    with k show "ignored_by insensitive (pat @ ''/**'') vs" by (auto simp: ignored_by_def)
  qed
qed

lemma normalize_pattern_ne: "pat \<noteq> [] \<Longrightarrow> normalize_pattern pat \<noteq> []"
proof (induction pat rule: normalize_pattern.induct)
  case (1 pat)
  show ?case
  proof (cases "ends_with_stars pat")
    case True
    then have "take (length pat - 3) pat \<noteq> []" by (auto simp: ends_with_stars_def)
    then show ?thesis using "1.IH" [OF True] True by (simp add: normalize_pattern.simps [of pat])
  next
    case False
    then show ?thesis using "1.prems" by (simp add: normalize_pattern.simps [of pat])
  qed
qed

lemma normalize_pattern_ignored_by:
  "CHR 0x5C \<notin> set pat \<Longrightarrow> ignored_by insensitive (normalize_pattern pat) vs = ignored_by insensitive pat vs"
proof (induction pat rule: normalize_pattern.induct)
  case (1 pat)
  show ?case
  proof (cases "ends_with_stars pat")
    case True
    let ?short = "take (length pat - 3) pat"
    have "drop (length pat - 3) pat = ''/**''"
      using True "1.prems" set_drop_subset [of "length pat - 3" pat] by (auto simp: ends_with_stars_def)
    then have pat: "pat = ?short @ ''/**''" by (metis append_take_drop_id)
    have "?short \<noteq> []" using True by (auto simp: ends_with_stars_def)
    then have "ignored_by insensitive pat vs = ignored_by insensitive ?short vs"
      using ignored_by_stars pat by metis
    moreover have "CHR 0x5C \<notin> set ?short" using "1.prems" by (auto dest: in_set_takeD)
    ultimately show ?thesis using "1.IH" [OF True] True by (simp add: normalize_pattern.simps [of pat])
  next
    case False
    then show ?thesis by (simp add: normalize_pattern.simps [of pat])
  qed
qed

lemma set_compile_globs:
  "set (compile_globs env globs) =
    {make_glob env (normalize_pattern (mRaw g)) | g. g \<in> set globs \<and> mRaw g \<noteq> []}"
proof -
  let ?G = "\<lambda>gs. \<forall>h \<in> set gs. h = make_glob env (mRaw h)"
  let ?step = "\<lambda>g gs. if mRaw g = [] then gs else emplace_glob (make_glob env (normalize_pattern (mRaw g))) gs"
  have emplace: "set (emplace_glob (make_glob env raw) gs) = insert (make_glob env raw) (set gs)" if "?G gs" for raw gs
  proof (cases "\<exists>h \<in> set gs. glob_equal (make_glob env raw) h")
    case True
    then have "make_glob env raw \<in> set gs" using that by (auto simp: glob_equal_def)
    with True show ?thesis by (auto simp: emplace_glob_def)
  next
    case False
    then show ?thesis by (auto simp: emplace_glob_def)
  qed
  have "?G gs \<Longrightarrow> set (fold ?step globs gs) =
      set gs \<union> {make_glob env (normalize_pattern (mRaw g)) | g. g \<in> set globs \<and> mRaw g \<noteq> []}" for gs
  proof (induction globs arbitrary: gs)
    case (Cons g globs)
    have "?G (?step g gs)" using Cons.prems emplace by auto
    from Cons.IH [OF this] show ?case using emplace [OF Cons.prems] by auto
  qed simp
  then show ?thesis by (simp add: compile_globs_def)
qed

subsection \<open>What a watcher ignores on Linux\<close>

lemma isPathOrDescendant_subtree:
  "isPathOrDescendant plat path base \<longleftrightarrow> in_subtree (dir_sep plat) base path"
proof
  assume "isPathOrDescendant plat path base"
  then show "in_subtree (dir_sep plat) base path"
    by (auto simp: isPathOrDescendant_def in_subtree_iff)
      (metis append_take_drop_id Cons_nth_drop_Suc)
next
  assume "in_subtree (dir_sep plat) base path"
  then show "isPathOrDescendant plat path base"
    by (auto simp: isPathOrDescendant_def in_subtree_iff)
qed

lemma make_watcher_fields [simp]:
  "mDir (make_watcher env n dir ps gs) = dir"
  "mIgnorePaths (make_watcher env n dir ps gs) = ps"
  "mCompiledGlobs (make_watcher env n dir ps gs) = compile_globs env gs"
  "mId (make_watcher env n dir ps gs) = n"
  "mHasIgnoreAliases (make_watcher env n dir ps gs) = False"
  "mAllGlobsUseBitmask (make_watcher env n dir ps gs) \<longleftrightarrow> (\<forall>g \<in> set (compile_globs env gs). mUseBitmask g)"
  by (simp_all add: make_watcher_def Let_def)

lemma globs_ignore_outside:
  "(\<nexists>rel. rel \<noteq> [] \<and> path = mDir w @ dir_sep (te_platform env) # rel) \<Longrightarrow>
    globs_ignore env query w path cache = (Inr False, cache)"
proof -
  assume "\<nexists>rel. rel \<noteq> [] \<and> path = mDir w @ dir_sep (te_platform env) # rel"
  moreover have "path = mDir w @ dir_sep (te_platform env) # drop (length (mDir w) + 1) path"
    if "\<not> length path \<le> length (mDir w)" "take (length (mDir w)) path = mDir w"
      "path ! length (mDir w) = dir_sep (te_platform env)"
    using that drop_at [of "length (mDir w)" path] by (metis Suc_eq_plus1 append_take_drop_id not_le)
  ultimately have "length path \<le> length (mDir w) \<or> take (length (mDir w)) path \<noteq> mDir w \<or>
      path ! length (mDir w) \<noteq> dir_sep (te_platform env) \<or> drop (length (mDir w) + 1) path = []"
    by blast
  then show ?thesis by (elim disjE) (simp_all add: globs_ignore_def Let_def)
qed

lemma linux_globs_ignore:
  fixes env :: text_env and n :: u64 and dir :: string and ps :: "string list" and gs :: "glob list"
  defines "w \<equiv> make_watcher env n dir ps gs"
  assumes env: "te_platform env = Linux" and rel: "clean_path CHR ''/'' rel"
    and cache: "cache_ok env query w cache"
    and backslash: "\<And>g. g \<in> set gs \<Longrightarrow> CHR 0x5C \<notin> set (mRaw g)"
    and result: "fst (globs_ignore env query w (dir @ CHR ''/'' # rel) cache) = Inr b"
  shows "b \<longleftrightarrow> (\<exists>g \<in> set gs. mRaw g \<noteq> [] \<and>
    ignored_by (\<lambda>d. query d = Inr Insensitive) (mRaw g) (table_parts env dir (components rel)))"
proof -
  let ?vs = "table_parts env dir (components rel)" and ?ins = "\<lambda>d. query d = Inr Insensitive"
  let ?rel = "\<lambda>g. \<exists>k. 1 \<le> k \<and> k \<le> length ?vs \<and> parts_wild env query (mParts g) (take k ?vs)"
  have ne: "rel \<noteq> []" "relative_path rel" using rel by (auto simp: clean_path_def relative_path_def)
  have meaning: "?rel (make_glob env (normalize_pattern (mRaw g))) \<longleftrightarrow> ignored_by ?ins (mRaw g) ?vs"
    if "g \<in> set gs" "mRaw g \<noteq> []" for g
    using that make_glob_wild [OF normalize_pattern_ne, of "mRaw g" env query]
      normalize_pattern_ignored_by [OF backslash, of g ?ins ?vs]
    by (simp add: pattern_wild_language [OF env] ignored_by_def)
  have "b \<longleftrightarrow> (\<exists>g \<in> set (compile_globs env gs). ?rel g)"
  proof (cases "compile_globs env gs \<noteq> [] \<and> \<not> (mAllGlobsUseBitmask w \<and> n \<noteq> 0)")
    case True
    then have "any_glob_ignores env query rel dir (compile_globs env gs) = Inr b"
      using result ne env
      by (simp add: globs_ignore_def Let_def w_def del: make_watcher_fields(6) split: if_splits)
    moreover have "b' = ?rel g"
      if g: "g \<in> set (compile_globs env gs)" and run: "isPathOrAncestorIgnored env query g rel dir = Inr b'" for g b'
    proof -
      obtain h :: glob where "g = make_glob env (normalize_pattern (mRaw h))" "mRaw h \<noteq> []"
        using g by (auto simp: set_compile_globs)
      then show ?thesis
        using ancestors_pattern [of env query "normalize_pattern (mRaw h)" rel dir b'] run ne env
        by (simp add: to_slashes_def normalize_pattern_ne make_glob_wild)
    qed
    ultimately show ?thesis by (rule globs_ignore_separate)
  next
    case False
    show ?thesis
    proof (cases "compile_globs env gs = []")
      case True
      then show ?thesis using result by (simp add: globs_ignore_def w_def)
    next
      case some: False
      have "\<forall>g \<in> set (mCompiledGlobs w). automaton g"
        using False some by (auto simp: w_def set_compile_globs intro: make_glob_automaton)
      from globs_ignore_cached [OF this _ _ _ _ cache result, of rel] False some rel
          located_walk_table [OF rel, of env dir, unfolded env] show ?thesis by (simp add: w_def env)
    qed
  qed
  then show ?thesis using meaning by (auto simp: set_compile_globs)
qed

text \<open>
  C2. What a watcher ignores on Linux, through normalization, compilation, the automata and
  the cache: a path is ignored exactly when it is one of the ignored paths or below one, or
  when it lies below the watched directory and one of the patterns the caller gave matches
  the path relative to it or one of its ancestors.
\<close>

theorem watcher_ignores_exactly:
  assumes "te_platform env = Linux" and "clean_path CHR ''/'' rel"
    and "cache_ok env query (make_watcher env n dir ignorePaths gs) cache"
    and "\<And>g. g \<in> set gs \<Longrightarrow> CHR 0x5C \<notin> set (mRaw g)"
    and "fst (watcher_isIgnored env fs query (make_watcher env n dir ignorePaths gs)
      (dir @ CHR ''/'' # rel) cache) = Inr answer"
  shows "answer \<longleftrightarrow>
    (\<exists>base \<in> set ignorePaths. in_subtree CHR ''/'' base (dir @ CHR ''/'' # rel)) \<or>
    (\<exists>g \<in> set gs. mRaw g \<noteq> [] \<and>
      ignored_by (\<lambda>d. query d = Inr Insensitive) (mRaw g) (table_parts env dir (components rel)))"
proof -
  let ?w = "make_watcher env n dir ignorePaths gs" and ?path = "dir @ CHR ''/'' # rel"
  have sep: "isPathOrDescendant Linux p base \<longleftrightarrow> in_subtree CHR ''/'' base p" for p base
    by (simp add: isPathOrDescendant_subtree)
  show ?thesis
  proof (cases "\<exists>base \<in> set ignorePaths. in_subtree CHR ''/'' base ?path")
    case True
    then have "ignorePaths \<noteq> []" by auto
    then show ?thesis using assms(5) True
      by (simp add: watcher_isIgnored_def Let_def assms(1) sep)
  next
    case False
    then have "fst (globs_ignore env query ?w ?path cache) = Inr answer"
      using assms(5) by (auto simp: watcher_isIgnored_def Let_def assms(1) sep split: if_splits prod.splits)
    from linux_globs_ignore [OF assms(1,2,3,4) this] False show ?thesis by simp
  qed
qed

lemma watcher_ignores_exactly_witness:
  "let w = make_watcher linux_text 1 ''/r'' [''/r/.git''] [make_glob linux_text ''**/lib/**'']
   in fst (watcher_isIgnored linux_text \<lparr>eq_is_symlink = (\<lambda>p. None), eq_equivalent = (\<lambda>p q. None),
          eq_canonical = (\<lambda>p. None)\<rparr> (\<lambda>d. Inr Sensitive) w ''/r/a/lib/x'' new_cache) = Inr True \<and>
      ignored_by (\<lambda>d. False) ''**/lib/**'' [(''a'', ''/r''), (''lib'', ''/r/a''), (''x'', ''/r/a/lib'')]"
proof -
  let ?fs = "\<lparr>eq_is_symlink = (\<lambda>p. None), eq_equivalent = (\<lambda>p q. None), eq_canonical = (\<lambda>p. None)\<rparr>"
  let ?q = "\<lambda>d :: string. Inr Sensitive :: string + sensitivity"
  let ?gs = "[make_glob linux_text ''**/lib/**'']"
  let ?w = "make_watcher linux_text 1 ''/r'' [''/r/.git''] ?gs"
  have run: "fst (watcher_isIgnored linux_text ?fs ?q ?w (''/r'' @ CHR ''/'' # ''a/lib/x'') new_cache) = Inr True"
    by code_simp
  have parts: "table_parts linux_text ''/r'' (components ''a/lib/x'') =
      [(''a'', ''/r''), (''lib'', ''/r/a''), (''x'', ''/r/a/lib'')]" by code_simp
  have "\<forall>i < 7. ''a/lib/x'' ! i = CHR ''/'' \<longrightarrow> ''a/lib/x'' ! Suc i \<noteq> CHR ''/''" by code_simp
  then have clean: "clean_path CHR ''/'' ''a/lib/x''" by (auto simp: clean_path_def)
  have cache: "cache_ok linux_text ?q ?w new_cache" by (simp add: cache_ok_def new_cache_def)
  have away: "\<not> (\<exists>base \<in> set [''/r/.git'']. in_subtree CHR ''/'' base (''/r'' @ CHR ''/'' # ''a/lib/x''))"
    by (simp add: in_subtree_def under_def)
  have "CHR 0x5C \<notin> set (mRaw g)" if "g \<in> set ?gs" for g using that by simp
  from watcher_ignores_exactly [OF _ clean cache this run] away run parts show ?thesis
    by (simp add: Let_def linux_text_def)
qed

subsection \<open>Sequences of questions on one thread\<close>

text \<open>The paths the backends ask about: below the watched directory without empty components.\<close>

definition path_ok :: "platform \<Rightarrow> 'a watcher_scheme \<Rightarrow> string \<Rightarrow> bool" where
  "path_ok plat w path \<longleftrightarrow>
     (\<forall>rel. path = mDir w @ dir_sep plat # rel \<longrightarrow> rel = [] \<or> clean_path (dir_sep plat) rel)"

lemma resolve_watcherId: "ic_watcherId (snd (resolveDirGlobState env query w relDir cache)) = mId w"
  by (simp add: resolveDirGlobState_def Let_def claim_cache_def split: option.splits sum.splits prod.splits)

text \<open>
  When an answer is right: it is the one of an empty cache, or, when without the cache the file system fails, it is
  an error too or the answer for \<open>t\<close>.
\<close>

definition answered :: "text_env \<Rightarrow> case_query \<Rightarrow> case_query \<times> watcher \<times> string \<Rightarrow> string + bool \<Rightarrow> bool" where
  "answered env t ask answer \<longleftrightarrow>
     (case ask of (q, w, path) \<Rightarrow>
        (let fresh = fst (globs_ignore env q w path new_cache) in
         answer = fresh \<or> isl fresh \<and> (isl answer \<or> answer = fst (globs_ignore env t w path new_cache))))"

lemma globs_ignore_served:
  fixes w v :: watcher
  assumes "path_ok (te_platform env) w path" "cache_ok env t w cache" "consistent t q" "mId w \<noteq> 0"
  shows "answered env t (q, w, path) (fst (globs_ignore env q w path cache)) \<and>
    cache_ok env t w (snd (globs_ignore env q w path cache)) \<and>
    (cache_ok env t v cache \<longrightarrow> mId v \<noteq> mId w \<longrightarrow> cache_ok env t v (snd (globs_ignore env q w path cache)))"
proof (cases "\<exists>rel. rel \<noteq> [] \<and> path = mDir w @ dir_sep (te_platform env) # rel")
  case False
  then show ?thesis using assms by (simp add: globs_ignore_outside answered_def)
next
  case True
  let ?c = "dir_sep (te_platform env)"
  obtain rel where rel: "rel \<noteq> []" "path = mDir w @ ?c # rel" "clean_path ?c rel"
    using assms(1) True by (auto simp: path_ok_def)
  define relDir where "relDir = (case rfind ?c rel (length rel) of None \<Rightarrow> [] | Some i \<Rightarrow> take i rel)"
  define leaf where "leaf = (case rfind ?c rel (length rel) of None \<Rightarrow> rel | Some i \<Rightarrow> drop (i + 1) rel)"
  have dir: "relDir = [] \<or> clean_path ?c relDir" using walk_steps_leaf(2) [OF rel(3)] by (simp add: relDir_def)
  have fresh: "cache_ok env p w new_cache" for p using assms(4) by (simp add: cache_ok_def new_cache_def)
  define R where "R p c = fst (resolveDirGlobState env p w relDir c)" for p c
  define L where "L p r = bindE r (\<lambda>parentState. isComponentIgnored env p w parentState leaf relDir)" for p r
  note served = resolve_served [OF assms(2) dir assms(3), folded R_def]
  show ?thesis
  proof (cases "mCompiledGlobs w \<noteq> [] \<and> mAllGlobsUseBitmask w")
    case False
    then have "globs_ignore env q w path cache = (fst (globs_ignore env q w path new_cache), cache)"
      by (auto simp: globs_ignore_def Let_def rel)
    then show ?thesis using assms(2) by (auto simp: answered_def Let_def)
  next
    case bits: True
    have run: "globs_ignore env p w path c = (L p (R p c), snd (resolveDirGlobState env p w relDir c))" for p c
      using bits assms(4) rel
      by (auto simp: globs_ignore_def Let_def relDir_def [symmetric] leaf_def [symmetric] R_def L_def split: prod.split)
    have "L q (R q cache) = L q (R q new_cache)" if clear: "\<not> isl (L q (R q new_cache))"
    proof -
      obtain st where st: "R q new_cache = Inr st" using clear by (cases "R q new_cache") (auto simp: L_def)
      then have "uncached env q w relDir = Inr st"
        using resolve_served(3) [OF fresh dir consistent_refl] by (simp add: R_def)
      then show ?thesis using served(2) st by simp
    qed
    moreover have "L q (R q cache) = L t (R t new_cache)" if known: "\<not> isl (L q (R q cache))"
    proof -
      obtain st where st: "R q cache = Inr st" using known by (cases "R q cache") (auto simp: L_def)
      then have "uncached env t w relDir = Inr st" using served(3) by simp
      then have t: "R t new_cache = Inr st" using resolve_served(2) [OF fresh dir consistent_refl] by (simp add: R_def)
      obtain b where b: "isComponentIgnored env q w st leaf relDir = Inr b"
        using known st by (cases "isComponentIgnored env q w st leaf relDir") (auto simp: L_def)
      then show ?thesis using isComponentIgnored_consistent [OF assms(3) b] by (simp add: L_def st t)
    qed
    ultimately have "answered env t (q, w, path) (fst (globs_ignore env q w path cache))"
      unfolding answered_def run prod.case fst_conv Let_def by blast
    then show ?thesis
      using served(1) resolve_watcherId [of env q w relDir cache]
      by (auto simp: run cache_ok_def [of _ _ v])
  qed
qed

text \<open>
  The answers to a sequence of questions about any watchers, with one cache, each with what the file system says at
  that time.
\<close>

fun serve :: "text_env \<Rightarrow> (case_query \<times> watcher \<times> string) list \<Rightarrow> ignore_cache \<Rightarrow> (string + bool) list" where
  "serve env [] cache = []"
| "serve env ((q, w, path) # asks) cache =
     (let (r, cache') = globs_ignore env q w path cache in r # serve env asks cache')"

lemma serve_answered:
  "(\<And>q w p q' w' p'. (q, w, p) \<in> set asks \<Longrightarrow> (q', w', p') \<in> set asks \<Longrightarrow> mId w = mId w' \<Longrightarrow> w = w') \<Longrightarrow>
    (\<And>q w p. (q, w, p) \<in> set asks \<Longrightarrow>
      mId w \<noteq> 0 \<and> path_ok (te_platform env) w p \<and> consistent t q \<and> cache_ok env t w cache) \<Longrightarrow>
    list_all2 (answered env t) asks (serve env asks cache)"
proof (induction asks arbitrary: cache)
  case Nil
  then show ?case by simp
next
  case (Cons ask asks)
  obtain q w p where ask: "ask = (q, w, p)" by (cases ask)
  have wp: "mId w \<noteq> 0" "path_ok (te_platform env) w p" "consistent t q" "cache_ok env t w cache"
    using Cons.prems(2) [of q w p] by (auto simp: ask)
  note step = globs_ignore_served [OF wp(2,4,3,1)]
  let ?cache = "snd (globs_ignore env q w p cache)"
  have "mId v \<noteq> 0 \<and> path_ok (te_platform env) v p' \<and> consistent t q' \<and> cache_ok env t v ?cache"
    if "(q', v, p') \<in> set asks" for q' v p'
  proof -
    have v: "mId v \<noteq> 0" "path_ok (te_platform env) v p'" "consistent t q'" "cache_ok env t v cache"
      using Cons.prems(2) [of q' v p'] that by auto
    moreover have "mId v = mId w \<Longrightarrow> v = w"
      using Cons.prems(1) [of q' v p' q w p] that by (simp add: ask)
    ultimately show ?thesis using step [of v] by blast
  qed
  moreover have "\<And>q w p q' w' p'. (q, w, p) \<in> set asks \<Longrightarrow> (q', w', p') \<in> set asks \<Longrightarrow> mId w = mId w' \<Longrightarrow> w = w'"
    using Cons.prems(1) by (meson list.set_intros(2))
  ultimately have "list_all2 (answered env t) asks (serve env asks ?cache)"
    using Cons.IH by blast
  then show ?case using step by (simp add: ask split_def Let_def)
qed

text \<open>
  C20. The cache of a thread is transparent, as long as no directory changes its case sensitivity: whatever
  questions about whatever watchers are asked in whatever order, while errors of the file system come and go, each gets the
  answer it would get from an empty cache; and when that would be an error of the file system, the cache either fails as
  well or knows the answer that a file system without errors gives. Watcher ids are not reused.
\<close>

theorem cache_is_transparent:
  assumes "\<And>q w p q' w' p'. (q, w, p) \<in> set asks \<Longrightarrow> (q', w', p') \<in> set asks \<Longrightarrow> mId w = mId w' \<Longrightarrow> w = w'"
    and "\<And>q w p. (q, w, p) \<in> set asks \<Longrightarrow> mId w \<noteq> 0 \<and> path_ok (te_platform env) w p \<and> consistent t q"
  shows "list_all2 (answered env t) asks (serve env asks new_cache)"
  by (rule serve_answered) (use assms in \<open>auto simp: cache_ok_def new_cache_def\<close>)

lemma cache_is_transparent_witness:
  "let w = make_watcher linux_text 1 ''/r'' [] [make_glob linux_text ''LIB/*.c''];
       asks = [(\<lambda>d. Inr Insensitive, w, ''/r/lib/a.c''), (\<lambda>d. Inl ''error'', w, ''/r/lib/b.c''), (\<lambda>d. Inl ''error'', w, ''/r/Lib'')]
   in list_all2 (answered linux_text (\<lambda>d. Inr Insensitive)) asks (serve linux_text asks new_cache) \<and>
      serve linux_text asks new_cache = [Inr True, Inr True, Inl ''error'']"
proof -
  define w where "w = make_watcher linux_text 1 ''/r'' [] [make_glob linux_text ''LIB/*.c'']"
  define asks where "asks = [(\<lambda>d :: string. Inr Insensitive :: string + sensitivity, w, ''/r/lib/a.c''),
    (\<lambda>d. Inl ''error'', w, ''/r/lib/b.c''), (\<lambda>d. Inl ''error'', w, ''/r/Lib'')]"
  have dir: "mDir w = ''/r''" "mId w = 1" by (simp_all add: w_def)
  have plat: "te_platform linux_text = Linux" by (simp add: linux_text_def)
  have "path_ok Linux w ''/r/lib/a.c''" "path_ok Linux w ''/r/lib/b.c''" "path_ok Linux w ''/r/Lib''"
    by (auto simp: path_ok_def dir clean_path_def less_Suc_eq nth_Cons' split: if_splits)
  then have "list_all2 (answered linux_text (\<lambda>d. Inr Insensitive)) asks (serve linux_text asks new_cache)"
    by (intro cache_is_transparent) (auto simp: plat dir asks_def consistent_def)
  moreover have "serve linux_text asks new_cache = [Inr True, Inr True, Inl ''error'']"
    unfolding asks_def w_def by code_simp
  ultimately show ?thesis unfolding Let_def asks_def w_def by simp
qed

text \<open>
  When a directory does change, the cache keeps the old answer: nothing invalidates the states of a watcher. Here
  the watched directory is case sensitive at first and becomes case insensitive.
\<close>

lemma cache_keeps_case_sensitivity:
  "let w = make_watcher linux_text 1 ''/r'' [] [make_glob linux_text ''LIB/*.c''] in
     serve linux_text [(\<lambda>d. Inr Sensitive, w, ''/r/lib/a.c''), (\<lambda>d. Inr Insensitive, w, ''/r/lib/a.c'')] new_cache = [Inr False, Inr False] \<and>
     fst (globs_ignore linux_text (\<lambda>d. Inr Insensitive) w ''/r/lib/a.c'' new_cache) = Inr True"
  by code_simp

subsection \<open>Two edges of the code\<close>

text \<open>
  The normalization also strips a backslash and two stars on platforms where a backslash is
  an ordinary character: on Linux the pattern \<open>f\**\<close> alone does not match the file \<open>f\<close>, but
  a watcher with that pattern ignores it.
\<close>

lemma backslash_pattern_overmatches:
  "isPathOrAncestorIgnored linux_text (\<lambda>d. Inr Sensitive)
      (make_glob linux_text [CHR ''f'', CHR 0x5C, CHR ''*'', CHR ''*'']) ''f'' ''/r'' = Inr False \<and>
    fst (globs_ignore linux_text (\<lambda>d. Inr Sensitive)
      (make_watcher linux_text 1 ''/r'' [] [make_glob linux_text [CHR ''f'', CHR 0x5C, CHR ''*'', CHR ''*'']])
      ''/r/f'' new_cache) = Inr True"
  by code_simp

text \<open>
  When the watched directory is the root of the file system, its name already ends with the
  separator, and no pattern ignores anything below it.
\<close>

lemma root_watcher_ignores_nothing:
  "mDir w = [dir_sep (te_platform env)] \<Longrightarrow> path = dir_sep (te_platform env) # rel \<Longrightarrow>
    rel = [] \<or> rel ! 0 \<noteq> dir_sep (te_platform env) \<Longrightarrow>
    globs_ignore env query w path cache = (Inr False, cache)"
  by (auto simp: globs_ignore_def Let_def)

end
