(* ===== verification/Debouncing.thy ===== *)
theory Debouncing
  imports Prelude
begin

section \<open>Debouncing (src/Signal.hh, src/Debounce.hh, src/Debounce.cc)\<close>

text \<open>
  One thread delivers the events of all watchers. It sleeps until a watcher triggers it, then
  calls every registered callback at once if the last delivery is more than 500 ms ago, and
  otherwise waits for 50 ms without a further trigger. The mutexes make \<open>add\<close>, \<open>remove\<close>,
  \<open>trigger\<close> and \<open>notify\<close> atomic; the thread is a state machine whose locations are the places
  where it can be interrupted. Times are nanoseconds of the steady clock; a callback is named
  by its key, the address of its watcher. The process-wide instance of \<open>getShared\<close> is the one
  state of this model.
\<close>

type_synonym wref = nat

subsection \<open>Signal\<close>

record signal =
  sg_flag :: bool
  sg_waiting :: bool

definition signal_new :: signal where
  "signal_new = \<lparr>sg_flag = False, sg_waiting = False\<rparr>"

definition signal_notify :: "signal \<Rightarrow> signal" where
  "signal_notify s = s\<lparr>sg_flag := True\<rparr>"

definition signal_reset :: "signal \<Rightarrow> signal" where
  "signal_reset s = s\<lparr>sg_flag := False, sg_waiting := False\<rparr>"

definition signal_isWaiting :: "signal \<Rightarrow> bool" where
  "signal_isWaiting s = sg_waiting s"

text \<open>One turn of the loop of \<open>wait\<close>: whether it returns, and the signal while it waits.\<close>

definition signal_wait :: "signal \<Rightarrow> bool \<times> signal" where
  "signal_wait s = (if sg_flag s then (True, s) else (False, s\<lparr>sg_waiting := True\<rparr>))"

text \<open>\<open>waitFor\<close>, looked at when it is \<open>now\<close> and the wait ends at \<open>deadline\<close>.\<close>

datatype cv_status = No_timeout | Timeout

definition signal_waitFor :: "nat \<Rightarrow> nat \<Rightarrow> signal \<Rightarrow> cv_status option" where
  "signal_waitFor deadline now s =
     (if sg_flag s then Some No_timeout else if deadline \<le> now then Some Timeout else None)"

subsection \<open>The debounce thread\<close>

definition milliseconds :: "nat \<Rightarrow> nat" where
  "milliseconds n = n * 1000000"

definition MIN_WAIT_TIME :: nat where "MIN_WAIT_TIME = 50"

definition MAX_WAIT_TIME :: nat where "MAX_WAIT_TIME = 500"

text \<open>The places between which the thread runs: the head of \<open>loop\<close>, \<open>mWaitSignal.wait\<close>, the
  start of \<open>notifyIfReady\<close>, \<open>waitFor\<close> with the end of its wait, and the end of the thread.\<close>

datatype location = At_loop | In_wait | Woken | In_waitFor nat | Finished

record debounce =
  db_running :: bool
  db_signal :: signal
  db_callbacks :: "wref list"
  db_lastTime :: nat
  db_at :: location

definition debounce_new :: debounce where
  "debounce_new = \<lparr>db_running = True, db_signal = signal_new, db_callbacks = [],
     db_lastTime = 0, db_at = At_loop\<rparr>"

definition debounce_add :: "wref \<Rightarrow> debounce \<Rightarrow> debounce" where
  "debounce_add key d = d\<lparr>db_callbacks := List.insert key (db_callbacks d)\<rparr>"

definition debounce_remove :: "wref \<Rightarrow> debounce \<Rightarrow> debounce" where
  "debounce_remove key d = d\<lparr>db_callbacks := filter (\<lambda>k. k \<noteq> key) (db_callbacks d)\<rparr>"

definition debounce_trigger :: "debounce \<Rightarrow> debounce" where
  "debounce_trigger d = d\<lparr>db_signal := signal_notify (db_signal d)\<rparr>"

text \<open>
  The destructor, up to the join. Setting the flag and the notification are one step here: a thread that sees the flag in
  between only ends before it is notified.
\<close>

definition debounce_stop :: "debounce \<Rightarrow> debounce" where
  "debounce_stop d = d\<lparr>db_running := False, db_signal := signal_notify (db_signal d)\<rparr>"

text \<open>The callbacks called, and the state after \<open>notify\<close>.\<close>

definition debounce_notify :: "nat \<Rightarrow> debounce \<Rightarrow> wref list \<times> debounce" where
  "debounce_notify now d =
     (db_callbacks d, d\<lparr>db_lastTime := now, db_signal := signal_reset (db_signal d)\<rparr>)"

text \<open>\<open>notifyIfReady\<close> and \<open>wait\<close>: the callbacks, if they were called.\<close>

definition notifyIfReady :: "nat \<Rightarrow> debounce \<Rightarrow> wref list option \<times> debounce" where
  "notifyIfReady now d =
     (if \<not> db_running d then (None, d\<lparr>db_at := At_loop\<rparr>)
      else if now - db_lastTime d > milliseconds MAX_WAIT_TIME then
        (let (called, d') = debounce_notify now (d\<lparr>db_lastTime := now\<rparr>) in (Some called, d'\<lparr>db_at := At_loop\<rparr>))
      else (None, d\<lparr>db_signal := signal_reset (db_signal d),
                    db_at := In_waitFor (now + milliseconds MIN_WAIT_TIME)\<rparr>))"

text \<open>A step of the thread at time \<open>now\<close>; nothing when it blocks.\<close>

definition debounce_thread :: "nat \<Rightarrow> debounce \<Rightarrow> (wref list option \<times> debounce) option" where
  "debounce_thread now d =
     (case db_at d of
        At_loop \<Rightarrow> Some (None, d\<lparr>db_at := (if db_running d then In_wait else Finished)\<rparr>)
      | In_wait \<Rightarrow>
          (if fst (signal_wait (db_signal d))
           then Some (None, d\<lparr>db_at := (if db_running d then Woken else Finished)\<rparr>)
           else None)
      | Woken \<Rightarrow> Some (notifyIfReady now d)
      | In_waitFor deadline \<Rightarrow>
          (case signal_waitFor deadline now (db_signal d) of
             None \<Rightarrow> None
           | Some status \<Rightarrow>
               if db_running d \<and> status = Timeout then
                 (let (called, d') = debounce_notify now d in Some (Some called, d'\<lparr>db_at := At_loop\<rparr>))
               else Some (None, d\<lparr>db_at := At_loop\<rparr>))
      | Finished \<Rightarrow> None)"

subsection \<open>The thread among the others\<close>

text \<open>
  The system: the thread, the other threads that trigger, register and stop, and the clock.
  \<open>dirty\<close> is the time of the first trigger since the callbacks were last called, if any. The
  clock only moves on while the thread has nothing to do: the times proved below are the
  waits of the code, without the time the processor takes.
\<close>

record debounce_system =
  sys_debounce :: debounce
  sys_now :: nat
  sys_dirty :: "nat option"

definition sys_start :: "nat \<Rightarrow> debounce_system" where
  "sys_start now = \<lparr>sys_debounce = debounce_new, sys_now = now, sys_dirty = None\<rparr>"

inductive db_step :: "debounce_system \<Rightarrow> debounce_system \<Rightarrow> bool" where
  thread:
    "debounce_thread (sys_now s) (sys_debounce s) = Some (called, d) \<Longrightarrow>
     db_step s (s\<lparr>sys_debounce := d, sys_dirty := (if called = None then sys_dirty s else None)\<rparr>)"
| trigger:
    "db_step s (s\<lparr>sys_debounce := debounce_trigger (sys_debounce s),
       sys_dirty := (case sys_dirty s of None \<Rightarrow> Some (sys_now s) | Some t \<Rightarrow> Some t)\<rparr>)"
| add: "db_step s (s\<lparr>sys_debounce := debounce_add key (sys_debounce s)\<rparr>)"
| remove: "db_step s (s\<lparr>sys_debounce := debounce_remove key (sys_debounce s)\<rparr>)"
| stop: "db_step s (s\<lparr>sys_debounce := debounce_stop (sys_debounce s)\<rparr>)"
| clock:
    "sys_now s \<le> t \<Longrightarrow> (\<And>u. sys_now s \<le> u \<Longrightarrow> u < t \<Longrightarrow> debounce_thread u (sys_debounce s) = None) \<Longrightarrow>
     db_step s (s\<lparr>sys_now := t\<rparr>)"

inductive db_reachable :: "debounce_system \<Rightarrow> bool" where
  init: "db_reachable (sys_start now)"
| step: "db_reachable s \<Longrightarrow> db_step s s' \<Longrightarrow> db_reachable s'"

definition debounce_inv :: "debounce_system \<Rightarrow> bool" where
  "debounce_inv s \<longleftrightarrow>
     (let d = sys_debounce s; awake = (sg_flag (db_signal d)) in
      (sys_dirty s \<noteq> None \<and> db_running d \<longrightarrow>
         awake \<or> db_at d = Woken \<or> (\<exists>t. db_at d = In_waitFor t)) \<and>
      (\<not> db_running d \<and> db_at d = In_wait \<longrightarrow> awake) \<and>
      db_lastTime d \<le> sys_now s \<and>
      (db_at d = Finished \<longrightarrow> \<not> db_running d) \<and>
      (\<forall>t. db_at d = In_waitFor t \<longrightarrow> t \<le> db_lastTime d + milliseconds 550) \<and>
      (\<forall>t. sys_dirty s = Some t \<longrightarrow> db_lastTime d \<le> t \<and>
         (db_running d \<longrightarrow> sys_now s \<le> t + milliseconds 550)))"

lemma debounce_thread_cases:
  assumes "debounce_thread now d = Some (called, d')"
  obtains (head) "db_at d = At_loop" "called = None" "d' = d\<lparr>db_at := (if db_running d then In_wait else Finished)\<rparr>"
  | (woken) "db_at d = In_wait" "sg_flag (db_signal d)" "called = None"
      "d' = d\<lparr>db_at := (if db_running d then Woken else Finished)\<rparr>"
  | (stopped) "db_at d = Woken" "\<not> db_running d" "called = None" "d' = d\<lparr>db_at := At_loop\<rparr>"
  | (deliver) "db_at d = Woken \<or> (\<exists>t. db_at d = In_waitFor t)" "called = Some (db_callbacks d)"
      "d' = d\<lparr>db_lastTime := now, db_signal := signal_reset (db_signal d), db_at := At_loop\<rparr>"
  | (batch) "db_at d = Woken" "db_running d" "now - db_lastTime d \<le> milliseconds 500" "called = None"
      "d' = d\<lparr>db_signal := signal_reset (db_signal d), db_at := In_waitFor (now + milliseconds 50)\<rparr>"
  | (again) t where "db_at d = In_waitFor t" "sg_flag (db_signal d) \<or> \<not> db_running d" "called = None"
      "d' = d\<lparr>db_at := At_loop\<rparr>"
  using assms
  by (auto simp: debounce_thread_def notifyIfReady_def debounce_notify_def signal_wait_def signal_waitFor_def
      MAX_WAIT_TIME_def MIN_WAIT_TIME_def not_less split: location.splits option.splits if_splits)

lemma debounce_inv_clock:
  assumes "debounce_inv s" "sys_now s \<le> t"
    and idle: "\<And>u. sys_now s \<le> u \<Longrightarrow> u < t \<Longrightarrow> debounce_thread u (sys_debounce s) = None"
  shows "debounce_inv (s\<lparr>sys_now := t\<rparr>)"
proof -
  have "t \<le> u + milliseconds 550" if dirty: "sys_dirty s = Some u" "db_running (sys_debounce s)" for u
  proof (cases "sys_now s < t")
    case True
    then have "debounce_thread (sys_now s) (sys_debounce s) = None" using idle by simp
    then obtain dl where dl: "db_at (sys_debounce s) = In_waitFor dl"
      using assms(1) dirty by (auto simp: debounce_inv_def Let_def debounce_thread_def signal_wait_def
          split: location.splits if_splits)
    have "t \<le> dl"
    proof (rule ccontr)
      assume "\<not> t \<le> dl"
      moreover have "debounce_thread (max dl (sys_now s)) (sys_debounce s) \<noteq> None"
        by (simp add: debounce_thread_def dl signal_waitFor_def debounce_notify_def)
      ultimately show False using idle [of "max dl (sys_now s)"] True by simp
    qed
    then show ?thesis using assms(1) dl dirty by (fastforce simp: debounce_inv_def Let_def)
  qed (use assms dirty in \<open>auto simp: debounce_inv_def Let_def\<close>)
  then show ?thesis using assms(1,2) by (auto simp: debounce_inv_def Let_def)
qed

lemma debounce_inv_step:
  assumes inv: "debounce_inv s" and step: "db_step s s'"
  shows "debounce_inv s'"
  using step
proof (cases rule: db_step.cases)
  case (thread called d)
  have ms: "milliseconds 550 = milliseconds 500 + milliseconds 50" by (simp add: milliseconds_def)
  from thread(2) show ?thesis
    by (cases rule: debounce_thread_cases)
      (use thread(1) inv ms in \<open>auto simp: debounce_inv_def Let_def signal_reset_def\<close>)
next
  case (clock t)
  then show ?thesis using debounce_inv_clock [OF inv] by simp
qed (use inv in \<open>auto simp: debounce_inv_def Let_def debounce_trigger_def debounce_add_def
    debounce_remove_def debounce_stop_def signal_notify_def split: option.splits\<close>)

lemma debounce_inv_reachable: "db_reachable s \<Longrightarrow> debounce_inv s"
proof (induction rule: db_reachable.induct)
  case (init now)
  then show ?case by (simp add: debounce_inv_def sys_start_def debounce_new_def)
next
  case (step s s')
  then show ?case using debounce_inv_step by blast
qed

definition sleeping_system :: debounce_system where
  "sleeping_system = (sys_start 7)\<lparr>sys_debounce := debounce_new\<lparr>db_at := In_wait\<rparr>\<rparr>"

lemma sleeping_system_reachable: "db_reachable sleeping_system"
proof -
  have "debounce_thread 7 debounce_new = Some (None, debounce_new\<lparr>db_at := In_wait\<rparr>)"
    by (simp add: debounce_thread_def debounce_new_def)
  then have "db_step (sys_start 7) sleeping_system"
    using db_step.thread [of "sys_start 7"] by (simp add: sys_start_def sleeping_system_def)
  then show ?thesis using db_reachable.intros by blast
qed

text \<open>
  C31. No trigger is lost and no stop is missed: in every reachable state, when the thread is
  asleep without its flag, there is no undelivered trigger, and the debouncer is running.
\<close>

theorem sleeping_thread_has_nothing_to_do:
  assumes "db_reachable s" and "db_at (sys_debounce s) = In_wait" and "\<not> sg_flag (db_signal (sys_debounce s))"
  shows "sys_dirty s = None \<and> db_running (sys_debounce s)"
  using debounce_inv_reachable [OF assms(1)] assms(2,3)
  by (cases "sys_dirty s") (auto simp: debounce_inv_def Let_def)

lemma sleeping_thread_has_nothing_to_do_witness:
  "sys_dirty sleeping_system = None \<and> db_running (sys_debounce sleeping_system)"
  by (rule sleeping_thread_has_nothing_to_do [OF sleeping_system_reachable])
    (simp_all add: sleeping_system_def debounce_new_def signal_new_def)

text \<open>
  C32. Deliveries are not put off for ever: while the debouncer runs, however the triggers come,
  no trigger is older than 550 milliseconds without the callbacks having been called, that
  is the maximum wait and one minimum wait.
\<close>

theorem trigger_delivered_in_time:
  assumes "db_reachable s" and "sys_dirty s = Some t" and "db_running (sys_debounce s)"
  shows "sys_now s \<le> t + milliseconds (MAX_WAIT_TIME + MIN_WAIT_TIME)"
  using debounce_inv_reachable [OF assms(1)] assms(2,3)
  by (simp add: debounce_inv_def Let_def MAX_WAIT_TIME_def MIN_WAIT_TIME_def)

lemma trigger_delivered_in_time_witness: "(7 :: nat) \<le> 7 + milliseconds (MAX_WAIT_TIME + MIN_WAIT_TIME)"
proof -
  let ?s = "sleeping_system\<lparr>sys_debounce := debounce_trigger (sys_debounce sleeping_system), sys_dirty := Some 7\<rparr>"
  have "db_step sleeping_system ?s"
    using db_step.trigger [of sleeping_system] by (simp add: sleeping_system_def sys_start_def)
  then have "db_reachable ?s" using sleeping_system_reachable db_reachable.step by blast
  from trigger_delivered_in_time [OF this, of 7] show ?thesis
    by (simp add: sleeping_system_def debounce_trigger_def debounce_new_def sys_start_def)
qed

end
