(* ===== verification/Watchers.thy ===== *)
theory Watchers
  imports Events Ignoring Debouncing
begin

section \<open>Watchers and their registry (src/Watcher.hh, src/Watcher.cc)\<close>

text \<open>
  A watcher object has the fields of the record \<open>watcher\<close>, which decide what it ignores, its
  pending events, and the JavaScript callbacks registered with it. A call of the runtime
  (queueing data for a thread-safe function, releasing one, dropping a reference to a
  function) is an entry of the log an operation returns; \<open>status\<close> is what the runtime
  answers when data is queued. Objects are named by their address \<open>wref\<close>, backends by \<open>bref\<close>,
  environments, threads and functions by numbers.
\<close>

type_synonym bref = nat
type_synonym tsfn = nat

datatype napi_status = Napi_ok | Napi_closing | Napi_failed

datatype release_mode = Tsfn_release | Tsfn_abort

record callback =
  cb_id :: u64
  cb_tsfn :: tsfn
  cb_ref :: nat
  cb_env :: nat
  cb_threadId :: nat
  cb_closing :: bool

record callback_data =
  cd_error :: string
  cd_events :: "event list"
  cd_watcher :: "wref option"
  cd_callbackId :: u64

datatype napi_call =
    Queued tsfn callback_data
  | Released tsfn release_mode
  | Unref nat

record watch_obj = watcher +
  mEvents :: event_list
  mCallbacks :: "callback list"
  mNextCallbackId :: u64
  mBackends :: "bref list"
  mSharedReservations :: u64
  mCancelled :: bool
  mNeedsResubscribe :: bool

definition new_watch_obj ::
  "text_env \<Rightarrow> u64 \<Rightarrow> string \<Rightarrow> string list \<Rightarrow> glob list \<Rightarrow> watch_obj" where
  "new_watch_obj env nextId dir ignorePaths ignoreGlobs =
     watcher.extend (make_watcher env nextId dir ignorePaths ignoreGlobs)
       \<lparr>mEvents = el_empty, mCallbacks = [], mNextCallbackId = 1, mBackends = [],
        mSharedReservations = 0, mCancelled = False, mNeedsResubscribe = False\<rparr>"

text \<open>\<open>operator==\<close>, with the equality of unordered sets.\<close>

definition same_elements :: "('a \<Rightarrow> 'a \<Rightarrow> bool) \<Rightarrow> 'a list \<Rightarrow> 'a list \<Rightarrow> bool" where
  "same_elements eq xs ys \<longleftrightarrow> length xs = length ys \<and> (\<forall>x \<in> set xs. \<exists>y \<in> set ys. eq x y)"

definition same_watcher :: "watch_obj \<Rightarrow> watch_obj \<Rightarrow> bool" where
  "same_watcher a b \<longleftrightarrow>
     mDir a = mDir b \<and> same_elements (=) (mIgnorePaths a) (mIgnorePaths b) \<and>
     same_elements glob_equal (mIgnoreGlobs a) (mIgnoreGlobs b)"

subsection \<open>Delivering events and errors\<close>

text \<open>Whether \<open>notify\<close> triggers the debouncer.\<close>

definition watcher_notify :: "watch_obj \<Rightarrow> bool" where
  "watcher_notify w \<longleftrightarrow> mCallbacks w \<noteq> [] \<and> (el_size (mEvents w) > 0 \<or> el_hasError (mEvents w))"

fun notify_error_callbacks ::
  "string \<Rightarrow> wref \<Rightarrow> (tsfn \<Rightarrow> napi_status) \<Rightarrow> callback list \<Rightarrow> callback list \<times> napi_call list" where
  "notify_error_callbacks err r status [] = ([], [])"
| "notify_error_callbacks err r status (cb # cbs) =
     (let (cbs', log) = notify_error_callbacks err r status cbs in
      if cb_closing cb then (cb # cbs', log)
      else
        (cb\<lparr>cb_closing := True\<rparr> # cbs',
         (if status (cb_tsfn cb) = Napi_ok
          then [Queued (cb_tsfn cb) \<lparr>cd_error = err, cd_events = [], cd_watcher = Some r, cd_callbackId = cb_id cb\<rparr>]
          else []) @ log))"

definition watcher_notifyError ::
  "string \<Rightarrow> wref \<Rightarrow> (tsfn \<Rightarrow> napi_status) \<Rightarrow> watch_obj \<Rightarrow> watch_obj \<times> napi_call list" where
  "watcher_notifyError err r status w =
     (let (cbs, log) = notify_error_callbacks err r status (mCallbacks w) in (w\<lparr>mCallbacks := cbs\<rparr>, log))"

fun deliver_callbacks ::
  "event_batch \<Rightarrow> (tsfn \<Rightarrow> napi_status) \<Rightarrow> callback list \<Rightarrow> callback list \<times> napi_call list" where
  "deliver_callbacks batch status [] = ([], [])"
| "deliver_callbacks batch status (cb # cbs) =
     (let (cbs', log) = deliver_callbacks batch status cbs in
      if cb_closing cb then (cb # cbs', log)
      else
        (case status (cb_tsfn cb) of
           Napi_ok \<Rightarrow>
             (cb # cbs',
              Queued (cb_tsfn cb) \<lparr>cd_error = batch_error batch, cd_events = batch_events batch,
                cd_watcher = None, cd_callbackId = 0\<rparr> # log)
         | Napi_closing \<Rightarrow> (cb\<lparr>cb_closing := True\<rparr> # cbs', log)
         | Napi_failed \<Rightarrow> (cb # cbs', log)))"

definition watcher_triggerCallbacks ::
  "(tsfn \<Rightarrow> napi_status) \<Rightarrow> watch_obj \<Rightarrow> watch_obj \<times> napi_call list" where
  "watcher_triggerCallbacks status w =
     (if mCallbacks w = [] then (w, [])
      else
        (let (batch, events) = el_drain (mEvents w); w' = w\<lparr>mEvents := events\<rparr> in
         if batch_events batch = [] \<and> batch_error batch = [] then (w', [])
         else
           (let (cbs, log) = deliver_callbacks batch status (mCallbacks w) in
            (w'\<lparr>mCallbacks := cbs\<rparr>, log))))"

text \<open>
  The function the runtime calls with queued data: what JavaScript sees, and the callback id to
  finish on which watcher. \<open>None\<close> is a call without an environment, which only frees the data.
\<close>

definition callbackEventsToJS :: "event list \<Rightarrow> js_event list" where
  "callbackEventsToJS events = map toJS events"

definition callJSFunction ::
  "bool \<Rightarrow> callback_data \<Rightarrow> ((string option \<times> js_event list) \<times> (wref \<times> u64) option) option" where
  "callJSFunction hasEnv data =
     (if \<not> hasEnv then None
      else
        Some ((if length (cd_error data) > 0 then Some (cd_error data) else None, callbackEventsToJS (cd_events data)),
          (case cd_watcher data of None \<Rightarrow> None | Some r \<Rightarrow> Some (r, cd_callbackId data))))"

subsection \<open>Registering callbacks\<close>

definition is_callback :: "nat \<Rightarrow> nat \<Rightarrow> callback \<Rightarrow> bool" where
  "is_callback thread fn cb \<longleftrightarrow> cb_threadId cb = thread \<and> cb_ref cb = fn"

definition findCallback :: "nat \<Rightarrow> nat \<Rightarrow> watch_obj \<Rightarrow> callback option" where
  "findCallback thread fn w = List.find (is_callback thread fn) (mCallbacks w)"

fun erase_first :: "('a \<Rightarrow> bool) \<Rightarrow> 'a list \<Rightarrow> 'a list" where
  "erase_first P [] = []"
| "erase_first P (x # xs) = (if P x then xs else x # erase_first P xs)"

text \<open>\<open>created\<close> is the thread-safe function the runtime made, if it did.\<close>

definition watcher_watch ::
  "nat \<Rightarrow> nat \<Rightarrow> nat \<Rightarrow> tsfn option \<Rightarrow> watch_obj \<Rightarrow> (string + bool) \<times> watch_obj" where
  "watcher_watch env thread fn created w0 =
     (let w = w0\<lparr>mCancelled := False\<rparr> in
      if findCallback thread fn w \<noteq> None then (Inr False, w)
      else
        (case created of
           None \<Rightarrow> (Inl ''Unable to create watcher callback'', w)
         | Some t \<Rightarrow>
             (Inr True,
              w\<lparr>mCallbacks := mCallbacks w @
                  [\<lparr>cb_id = mNextCallbackId w, cb_tsfn = t, cb_ref = fn, cb_env = env,
                    cb_threadId = thread, cb_closing = False\<rparr>],
                mNextCallbackId := mNextCallbackId w + 1\<rparr>)))"

definition drop_callback :: "release_mode \<Rightarrow> callback \<Rightarrow> napi_call list" where
  "drop_callback mode cb = [Released (cb_tsfn cb) mode, Unref (cb_ref cb)]"

text \<open>The locked part of \<open>unwatch\<close>, with \<open>becameEmpty\<close>.\<close>

definition watcher_unwatch :: "nat \<Rightarrow> nat \<Rightarrow> watch_obj \<Rightarrow> bool \<times> watch_obj \<times> napi_call list" where
  "watcher_unwatch thread fn w =
     (case findCallback thread fn w of
        None \<Rightarrow> (False, w, [])
      | Some cb \<Rightarrow>
          (let w' = w\<lparr>mCallbacks := erase_first (is_callback thread fn) (mCallbacks w)\<rparr>;
               becameEmpty = (mCallbacks w' = []) in
           (becameEmpty, if becameEmpty then w'\<lparr>mCancelled := True\<rparr> else w', drop_callback Tsfn_release cb)))"

text \<open>The locked part of \<open>finishErrorCallback\<close>.\<close>

definition watcher_finishErrorCallback :: "u64 \<Rightarrow> watch_obj \<Rightarrow> bool \<times> watch_obj \<times> napi_call list" where
  "watcher_finishErrorCallback callbackId w =
     (let log = (case List.find (\<lambda>cb. cb_id cb = callbackId) (mCallbacks w) of
            None \<Rightarrow> [] | Some cb \<Rightarrow> drop_callback Tsfn_release cb);
          w' = w\<lparr>mCallbacks := erase_first (\<lambda>cb. cb_id cb = callbackId) (mCallbacks w)\<rparr>;
          becameEmpty = (mCallbacks w' = [])
      in (becameEmpty, if becameEmpty then w'\<lparr>mCancelled := True\<rparr> else w', log))"

definition hasCallbacksForEnvironment :: "nat \<Rightarrow> watch_obj \<Rightarrow> bool" where
  "hasCallbacksForEnvironment env w \<longleftrightarrow> (\<exists>cb \<in> set (mCallbacks w). cb_env cb = env)"

definition hasCallbacks :: "watch_obj \<Rightarrow> bool" where
  "hasCallbacks w \<longleftrightarrow> mCallbacks w \<noteq> []"

definition clearCallbacks :: "watch_obj \<Rightarrow> watch_obj \<times> napi_call list" where
  "clearCallbacks w =
     (w\<lparr>mCallbacks := [], mCancelled := True\<rparr>, concat (map (drop_callback Tsfn_release) (mCallbacks w)))"

definition isCancelled :: "bool \<Rightarrow> watch_obj \<Rightarrow> bool" where
  "isCancelled processExiting w \<longleftrightarrow> processExiting \<or> mCancelled w"

text \<open>\<open>alive b\<close>: the weak reference to backend \<open>b\<close> can still be locked.\<close>

definition addBackend :: "(bref \<Rightarrow> bool) \<Rightarrow> bref \<Rightarrow> watch_obj \<Rightarrow> watch_obj" where
  "addBackend alive b w =
     (if \<exists>x \<in> set (mBackends w). alive x \<and> x = b then w else w\<lparr>mBackends := mBackends w @ [b]\<rparr>)"

definition removeBackend :: "(bref \<Rightarrow> bool) \<Rightarrow> bref \<Rightarrow> watch_obj \<Rightarrow> watch_obj" where
  "removeBackend alive b w = w\<lparr>mBackends := filter (\<lambda>x. alive x \<and> x \<noteq> b) (mBackends w)\<rparr>"

text \<open>The bodies of the loops of \<open>cancelEnvironment\<close> and \<open>cleanupEnvironment\<close>, for one watcher.\<close>

definition cancel_environment :: "nat \<Rightarrow> watch_obj \<Rightarrow> watch_obj" where
  "cancel_environment env w =
     (if (\<exists>cb \<in> set (mCallbacks w). cb_env cb = env) \<and> \<not> (\<exists>cb \<in> set (mCallbacks w). cb_env cb \<noteq> env)
      then w\<lparr>mCancelled := True\<rparr> else w)"

definition cleanup_environment ::
  "nat \<Rightarrow> (bref \<Rightarrow> bool) \<Rightarrow> watch_obj \<Rightarrow> (bref list) option \<times> watch_obj \<times> napi_call list" where
  "cleanup_environment env alive w =
     (let gone = filter (\<lambda>cb. cb_env cb = env) (mCallbacks w);
          w' = w\<lparr>mCallbacks := filter (\<lambda>cb. cb_env cb \<noteq> env) (mCallbacks w)\<rparr>;
          log = concat (map (drop_callback Tsfn_abort) gone) in
      if gone \<noteq> [] \<and> mCallbacks w' = []
      then (Some (filter alive (mBackends w)), w'\<lparr>mCancelled := True\<rparr>, log)
      else (None, w', log))"

subsection \<open>The registry\<close>

text \<open>
  \<open>wd_objs\<close> is the heap of watcher objects, \<open>wd_shared\<close> the registry, \<open>wd_debounce\<close> the
  debouncer they share.
\<close>

record world =
  wd_objs :: "wref \<Rightarrow> watch_obj option"
  wd_shared :: "wref list"
  wd_nextRef :: wref
  wd_nextId :: u64
  wd_debounce :: debounce
  wd_log :: "napi_call list"

definition world_new :: world where
  "world_new = \<lparr>wd_objs = (\<lambda>r. None), wd_shared = [], wd_nextRef = 0, wd_nextId = 1,
     wd_debounce = debounce_new, wd_log = []\<rparr>"

definition wd_obj :: "world \<Rightarrow> wref \<Rightarrow> watch_obj" where
  "wd_obj wd r = the (wd_objs wd r)"

definition wd_set :: "wref \<Rightarrow> watch_obj \<Rightarrow> world \<Rightarrow> world" where
  "wd_set r w wd = wd\<lparr>wd_objs := (wd_objs wd)(r := Some w)\<rparr>"

definition wd_say :: "napi_call list \<Rightarrow> world \<Rightarrow> world" where
  "wd_say log wd = wd\<lparr>wd_log := wd_log wd @ log\<rparr>"

text \<open>
  \<open>getShared\<close>: the new object takes an id also when an equal one is found; then it is destroyed
  at the end of the call, and its destructor removes a key that the debouncer does not have.
\<close>

definition getShared ::
  "text_env \<Rightarrow> string \<Rightarrow> string list \<Rightarrow> glob list \<Rightarrow> world \<Rightarrow> wref \<times> world" where
  "getShared env dir ignorePaths ignoreGlobs wd =
     (let w = new_watch_obj env (wd_nextId wd) dir ignorePaths ignoreGlobs;
          wd1 = wd\<lparr>wd_nextId := wd_nextId wd + 1\<rparr> in
      (case List.find (\<lambda>r. same_watcher (wd_obj wd1 r) w) (wd_shared wd1) of
         Some r \<Rightarrow>
           (r, wd_set r ((wd_obj wd1 r)\<lparr>mSharedReservations := mSharedReservations (wd_obj wd1 r) + 1\<rparr>) wd1)
       | None \<Rightarrow>
           (let r = wd_nextRef wd1 in
            (r, (wd_set r (w\<lparr>mSharedReservations := 1\<rparr>) wd1)
              \<lparr>wd_nextRef := r + 1, wd_shared := wd_shared wd1 @ [r],
               wd_debounce := debounce_add r (wd_debounce wd1)\<rparr>))))"

definition removeSharedLocked :: "wref \<Rightarrow> world \<Rightarrow> world" where
  "removeSharedLocked r wd = wd\<lparr>wd_shared := remove1 r (wd_shared wd)\<rparr>"

definition watcher_unref :: "wref \<Rightarrow> world \<Rightarrow> world" where
  "watcher_unref r wd =
     (if mCallbacks (wd_obj wd r) = [] \<and> mSharedReservations (wd_obj wd r) = 0
      then removeSharedLocked r (wd\<lparr>wd_debounce := debounce_remove r (wd_debounce wd)\<rparr>)
      else wd)"

text \<open>The atomic decrement of \<open>releaseShared\<close>, and whether \<open>unref\<close> follows.\<close>

definition release_reservation :: "wref \<Rightarrow> world \<Rightarrow> bool \<times> world" where
  "release_reservation r wd =
     (let n = mSharedReservations (wd_obj wd r) in
      (n = 1, wd_set r ((wd_obj wd r)\<lparr>mSharedReservations := n - 1\<rparr>) wd))"

definition releaseShared :: "wref \<Rightarrow> world \<Rightarrow> world" where
  "releaseShared r wd =
     (let (last_one, wd') = release_reservation r wd in if last_one then watcher_unref r wd' else wd')"

definition wd_update :: "wref \<Rightarrow> watch_obj \<times> napi_call list \<Rightarrow> world \<Rightarrow> world" where
  "wd_update r wl wd = wd_say (snd wl) (wd_set r (fst wl) wd)"

definition unwatch :: "wref \<Rightarrow> nat \<Rightarrow> nat \<Rightarrow> world \<Rightarrow> bool \<times> world" where
  "unwatch r thread fn wd =
     (let (becameEmpty, wl) = watcher_unwatch thread fn (wd_obj wd r); wd' = wd_update r wl wd in
      (becameEmpty, if becameEmpty then watcher_unref r wd' else wd'))"

definition finishErrorCallback :: "wref \<Rightarrow> u64 \<Rightarrow> world \<Rightarrow> world" where
  "finishErrorCallback r callbackId wd =
     (let (becameEmpty, wl) = watcher_finishErrorCallback callbackId (wd_obj wd r); wd' = wd_update r wl wd in
      if becameEmpty then watcher_unref r wd' else wd')"

definition watcher_destroy :: "wref \<Rightarrow> world \<Rightarrow> world" where
  "watcher_destroy r wd = watcher_unref r (wd_update r (clearCallbacks (wd_obj wd r)) wd)"

definition cancelEnvironment :: "nat \<Rightarrow> world \<Rightarrow> world" where
  "cancelEnvironment env wd =
     fold (\<lambda>r wd. wd_set r (cancel_environment env (wd_obj wd r)) wd) (wd_shared wd) wd"

text \<open>
  \<open>cleanupEnvironment\<close>: a pass over a copy of the registry that drops the callbacks, then the
  watchers that became empty are unreferenced; the result lists the calls
  \<open>backend->unwatch(watcher)\<close> it makes, in order.
\<close>

definition cleanup_pass ::
  "nat \<Rightarrow> (bref \<Rightarrow> bool) \<Rightarrow> wref \<Rightarrow> (wref \<times> bref list) list \<times> world \<Rightarrow> (wref \<times> bref list) list \<times> world" where
  "cleanup_pass env alive r st =
     (let (toUnwatch, wd) = st; (backends, wl) = cleanup_environment env alive (wd_obj wd r) in
      ((case backends of None \<Rightarrow> toUnwatch | Some bs \<Rightarrow> toUnwatch @ [(r, bs)]), wd_update r wl wd))"

definition cleanupEnvironment :: "nat \<Rightarrow> (bref \<Rightarrow> bool) \<Rightarrow> world \<Rightarrow> (wref \<times> bref) list \<times> world" where
  "cleanupEnvironment env alive wd =
     (let (toUnwatch, wd') = fold (cleanup_pass env alive) (wd_shared wd) ([], wd) in
      (concat (map (\<lambda>(r, bs). map (Pair r) bs) toUnwatch),
       fold (\<lambda>(r, bs) wd. watcher_unref r wd) toUnwatch wd'))"

subsection \<open>All interleavings\<close>

text \<open>
  The state of the process as its threads see it: \<open>held\<close> are the reservations that callers of
  \<open>getShared\<close> have not released, \<open>unrefs\<close> the calls of \<open>unref\<close> that are under way, between the
  locked part that emptied a watcher and the locks of \<open>unref\<close>, \<open>created\<close> the thread-safe
  functions the runtime has made for callbacks.
\<close>

record process =
  world :: world
  held :: "wref list"
  unrefs :: "wref list"
  created :: "tsfn list"

definition process_start :: process where
  "process_start = \<lparr>world = world_new, held = [], unrefs = [], created = []\<rparr>"

definition pend :: "bool \<Rightarrow> wref \<Rightarrow> wref list \<Rightarrow> wref list" where
  "pend b r rs = (if b then r # rs else rs)"

inductive watch_step :: "process \<Rightarrow> process \<Rightarrow> bool" where
  reserve:
    "getShared env dir ps gs (world p) = (r, wd) \<Longrightarrow> length (held p) < 2 ^ 64 - 1 \<Longrightarrow>
     watch_step p (p\<lparr>world := wd, held := r # held p\<rparr>)"
| release:
    "r \<in> set (held p) \<Longrightarrow> release_reservation r (world p) = (b, wd) \<Longrightarrow>
     watch_step p (p\<lparr>world := wd, held := remove1 r (held p), unrefs := pend b r (unrefs p)\<rparr>)"
| watch:
    "r \<in> set (held p) \<Longrightarrow> length (created p) < 2 ^ 64 - 2 \<Longrightarrow> t \<notin> set (created p) \<Longrightarrow>
     watcher_watch env thread fn (if made then Some t else None) (wd_obj (world p) r) = (res, w) \<Longrightarrow>
     watch_step p (p\<lparr>world := wd_set r w (world p),
       created := (if res = Inr True then t # created p else created p)\<rparr>)"
| unwatch:
    "wd_objs (world p) r \<noteq> None \<Longrightarrow> watcher_unwatch thread fn (wd_obj (world p) r) = (b, wl) \<Longrightarrow>
     watch_step p (p\<lparr>world := wd_update r wl (world p), unrefs := pend b r (unrefs p)\<rparr>)"
| finish_error:
    "wd_objs (world p) r \<noteq> None \<Longrightarrow> watcher_finishErrorCallback i (wd_obj (world p) r) = (b, wl) \<Longrightarrow>
     watch_step p (p\<lparr>world := wd_update r wl (world p), unrefs := pend b r (unrefs p)\<rparr>)"
| notify_error:
    "wd_objs (world p) r \<noteq> None \<Longrightarrow>
     watch_step p (p\<lparr>world := wd_update r (watcher_notifyError err r status (wd_obj (world p) r)) (world p)\<rparr>)"
| deliver:
    "wd_objs (world p) r \<noteq> None \<Longrightarrow>
     watch_step p (p\<lparr>world := wd_update r (watcher_triggerCallbacks status (wd_obj (world p) r)) (world p)\<rparr>)"
| cancel:
    "wd_objs (world p) r \<noteq> None \<Longrightarrow>
     watch_step p (p\<lparr>world := wd_set r (cancel_environment env (wd_obj (world p) r)) (world p)\<rparr>)"
| cleanup:
    "wd_objs (world p) r \<noteq> None \<Longrightarrow> cleanup_environment env alive (wd_obj (world p) r) = (bs, wl) \<Longrightarrow>
     watch_step p (p\<lparr>world := wd_update r wl (world p), unrefs := pend (bs \<noteq> None) r (unrefs p)\<rparr>)"
| clear:
    "wd_objs (world p) r \<noteq> None \<Longrightarrow>
     watch_step p (p\<lparr>world := wd_update r (clearCallbacks (wd_obj (world p) r)) (world p),
       unrefs := r # unrefs p\<rparr>)"
| record_events:
    "wd_objs (world p) r \<noteq> None \<Longrightarrow>
     watch_step p (p\<lparr>world := wd_set r ((wd_obj (world p) r)\<lparr>mEvents := l\<rparr>) (world p)\<rparr>)"
| unref:
    "r \<in> set (unrefs p) \<Longrightarrow>
     watch_step p (p\<lparr>world := watcher_unref r (world p), unrefs := remove1 r (unrefs p)\<rparr>)"

inductive watch_reachable :: "process \<Rightarrow> bool" where
  init: "watch_reachable process_start"
| step: "watch_reachable p \<Longrightarrow> watch_step p p' \<Longrightarrow> watch_reachable p'"

subsection \<open>The registry is consistent\<close>

text \<open>What an operation on one object does not touch.\<close>

definition same_key :: "watch_obj \<Rightarrow> watch_obj \<Rightarrow> bool" where
  "same_key w w' \<longleftrightarrow> mDir w' = mDir w \<and> mIgnorePaths w' = mIgnorePaths w \<and> mIgnoreGlobs w' = mIgnoreGlobs w"

definition same_identity :: "watch_obj \<Rightarrow> watch_obj \<Rightarrow> bool" where
  "same_identity w w' \<longleftrightarrow> same_key w w' \<and> mSharedReservations w' = mSharedReservations w"

definition in_use :: "watch_obj \<Rightarrow> bool" where
  "in_use w \<longleftrightarrow> mCallbacks w \<noteq> [] \<or> mSharedReservations w \<noteq> 0"

named_theorems watch_ops \<open>the effect of the operations on one watcher\<close>

lemma notifyError_watcher [watch_ops]:
  "fst (watcher_notifyError err r status w) =
    w\<lparr>mCallbacks := map (\<lambda>cb. cb\<lparr>cb_closing := True\<rparr>) (mCallbacks w)\<rparr>"
proof -
  have "fst (notify_error_callbacks err r status cbs) = map (\<lambda>cb. cb\<lparr>cb_closing := True\<rparr>) cbs" for cbs
    by (induction cbs) (auto simp: Let_def split_def)
  then show ?thesis by (simp add: watcher_notifyError_def split_def)
qed

lemma deliver_callbacks_map:
  "\<exists>f. fst (deliver_callbacks batch status cbs) = map (\<lambda>cb. cb\<lparr>cb_closing := f cb\<rparr>) cbs"
proof -
  let ?f = "\<lambda>cb. cb_closing cb \<or> status (cb_tsfn cb) = Napi_closing"
  have "fst (deliver_callbacks batch status cbs) = map (\<lambda>cb. cb\<lparr>cb_closing := ?f cb\<rparr>) cbs"
    by (induction cbs) (auto simp: Let_def split_def split: napi_status.split)
  then show ?thesis by (rule exI [of _ ?f])
qed

lemma triggerCallbacks_watcher [watch_ops]:
  "\<exists>f l. fst (watcher_triggerCallbacks status w) =
    w\<lparr>mEvents := l, mCallbacks := map (\<lambda>cb. cb\<lparr>cb_closing := f cb\<rparr>) (mCallbacks w)\<rparr>"
proof -
  have "map (\<lambda>cb. cb\<lparr>cb_closing := cb_closing cb\<rparr>) (mCallbacks w) = mCallbacks w" by (simp add: map_idI)
  then have same: "w\<lparr>mEvents := l\<rparr> =
      w\<lparr>mEvents := l, mCallbacks := map (\<lambda>cb. cb\<lparr>cb_closing := cb_closing cb\<rparr>) (mCallbacks w)\<rparr>" for l
    by simp
  obtain batch l where drain: "el_drain (mEvents w) = (batch, l)" by fastforce
  obtain f where f: "fst (deliver_callbacks batch status (mCallbacks w)) =
      map (\<lambda>cb. cb\<lparr>cb_closing := f cb\<rparr>) (mCallbacks w)"
    using deliver_callbacks_map by blast
  consider "mCallbacks w = []" | "mCallbacks w \<noteq> []" "batch_events batch = [] \<and> batch_error batch = []"
    | "mCallbacks w \<noteq> []" "\<not> (batch_events batch = [] \<and> batch_error batch = [])" by blast
  then show ?thesis
  proof cases
    case 1
    then show ?thesis
      by (intro exI [of _ cb_closing] exI [of _ "mEvents w"]) (simp add: watcher_triggerCallbacks_def)
  next
    case 2
    then show ?thesis
      using same by (intro exI [of _ cb_closing] exI [of _ l]) (simp add: watcher_triggerCallbacks_def drain)
  next
    case 3
    then show ?thesis
      using f
      by (intro exI [of _ f] exI [of _ l]) (auto simp add: watcher_triggerCallbacks_def drain split_def Let_def)
  qed
qed

definition registry_inv :: "process \<Rightarrow> bool" where
  "registry_inv p \<longleftrightarrow>
     (let wd = world p; obj = wd_obj wd in
      (\<forall>r. wd_objs wd r \<noteq> None \<longleftrightarrow> r < wd_nextRef wd) \<and>
      distinct (wd_shared wd) \<and> (\<forall>r \<in> set (wd_shared wd). r < wd_nextRef wd) \<and>
      sorted_wrt (\<lambda>r s. \<not> same_watcher (obj r) (obj s)) (wd_shared wd) \<and>
      set (db_callbacks (wd_debounce wd)) = set (wd_shared wd) \<and>
      (\<forall>r < wd_nextRef wd. unat (mSharedReservations (obj r)) = count_list (held p) r) \<and>
      (\<forall>r \<in> set (held p). r < wd_nextRef wd) \<and> length (held p) < 2 ^ 64 \<and>
      (\<forall>r < wd_nextRef wd. in_use (obj r) \<longrightarrow> r \<in> set (wd_shared wd)) \<and>
      (\<forall>r \<in> set (wd_shared wd). r \<notin> set (unrefs p) \<longrightarrow> in_use (obj r)) \<and>
      (\<forall>r \<in> set (unrefs p). r < wd_nextRef wd))"

lemma registry_invD:
  assumes "registry_inv p"
  shows "wd_objs (world p) r \<noteq> None \<longleftrightarrow> r < wd_nextRef (world p)"
    and "distinct (wd_shared (world p))"
    and "r \<in> set (wd_shared (world p)) \<Longrightarrow> r < wd_nextRef (world p)"
    and "sorted_wrt (\<lambda>r s. \<not> same_watcher (wd_obj (world p) r) (wd_obj (world p) s)) (wd_shared (world p))"
    and "set (db_callbacks (wd_debounce (world p))) = set (wd_shared (world p))"
    and "r < wd_nextRef (world p) \<Longrightarrow> unat (mSharedReservations (wd_obj (world p) r)) = count_list (held p) r"
    and "r \<in> set (held p) \<Longrightarrow> r < wd_nextRef (world p)" "length (held p) < 2 ^ 64"
    and "r < wd_nextRef (world p) \<Longrightarrow> in_use (wd_obj (world p) r) \<Longrightarrow> r \<in> set (wd_shared (world p))"
    and "r \<in> set (wd_shared (world p)) \<Longrightarrow> r \<notin> set (unrefs p) \<Longrightarrow> in_use (wd_obj (world p) r)"
    and "r \<in> set (unrefs p) \<Longrightarrow> r < wd_nextRef (world p)"
  using assms unfolding registry_inv_def Let_def
  by - (elim conjE, (assumption | (drule spec, assumption) | (drule (1) bspec, assumption)
      | (drule (1) bspec, drule (1) mp, assumption) | (drule spec, drule (1) mp, assumption)
      | (drule spec, drule (1) mp, drule (1) mp, assumption)))+

lemma registry_invI:
  assumes "\<And>r. wd_objs (world p) r \<noteq> None \<longleftrightarrow> r < wd_nextRef (world p)"
    and "distinct (wd_shared (world p))"
    and "\<And>r. r \<in> set (wd_shared (world p)) \<Longrightarrow> r < wd_nextRef (world p)"
    and "sorted_wrt (\<lambda>r s. \<not> same_watcher (wd_obj (world p) r) (wd_obj (world p) s)) (wd_shared (world p))"
    and "set (db_callbacks (wd_debounce (world p))) = set (wd_shared (world p))"
    and "\<And>r. r < wd_nextRef (world p) \<Longrightarrow>
      unat (mSharedReservations (wd_obj (world p) r)) = count_list (held p) r"
    and "\<And>r. r \<in> set (held p) \<Longrightarrow> r < wd_nextRef (world p)" "length (held p) < 2 ^ 64"
    and "\<And>r. r < wd_nextRef (world p) \<Longrightarrow> in_use (wd_obj (world p) r) \<Longrightarrow> r \<in> set (wd_shared (world p))"
    and "\<And>r. r \<in> set (wd_shared (world p)) \<Longrightarrow> r \<notin> set (unrefs p) \<Longrightarrow> in_use (wd_obj (world p) r)"
    and "\<And>r. r \<in> set (unrefs p) \<Longrightarrow> r < wd_nextRef (world p)"
  shows "registry_inv p"
  unfolding registry_inv_def Let_def
  by (intro conjI allI impI ballI) (fact assms | erule (1) assms | erule assms)+

lemma wd_say_Nil [simp]: "wd_say [] wd = wd"
  by (simp add: wd_say_def)

lemma wd_simps [simp]:
  "wd_obj (wd_set r w wd) s = (if s = r then w else wd_obj wd s)"
  "wd_objs (wd_set r w wd) = (wd_objs wd)(r := Some w)"
  "wd_shared (wd_set r w wd) = wd_shared wd" "wd_nextRef (wd_set r w wd) = wd_nextRef wd"
  "wd_debounce (wd_set r w wd) = wd_debounce wd" "wd_log (wd_set r w wd) = wd_log wd"
  "wd_obj (wd_say log wd) = wd_obj wd" "wd_objs (wd_say log wd) = wd_objs wd"
  "wd_shared (wd_say log wd) = wd_shared wd" "wd_nextRef (wd_say log wd) = wd_nextRef wd"
  "wd_debounce (wd_say log wd) = wd_debounce wd" "wd_log (wd_say log wd) = wd_log wd @ log"
  by (auto simp: wd_obj_def wd_set_def wd_say_def fun_eq_iff)

lemma same_watcher_key:
  "same_key a a' \<Longrightarrow> same_key b b' \<Longrightarrow> same_watcher a' b' = same_watcher a b"
  by (simp add: same_key_def same_watcher_def)

text \<open>A change of one object, of its reservations and of the calls of \<open>unref\<close> under way.\<close>

lemma registry_inv_change:
  assumes inv: "registry_inv p" and r: "r < wd_nextRef (world p)" and key: "same_key (wd_obj (world p) r) w"
    and world: "wd_objs wd = (wd_objs (world p))(r := Some w)" "wd_shared wd = wd_shared (world p)"
      "wd_nextRef wd = wd_nextRef (world p)" "wd_debounce wd = wd_debounce (world p)"
    and shares: "unat (mSharedReservations w) = count_list h r"
      "\<And>s. s \<noteq> r \<Longrightarrow> count_list h s = count_list (held p) s" "length h < 2 ^ 64"
    and use: "in_use w \<Longrightarrow> r \<in> set (wd_shared (world p))"
      "r \<in> set (wd_shared (world p)) \<Longrightarrow> in_use w \<or> r \<in> set u"
    and pending: "\<And>s. s \<noteq> r \<Longrightarrow> s \<in> set (unrefs p) \<Longrightarrow> s \<in> set u" "set u \<subseteq> insert r (set (unrefs p))"
  shows "registry_inv (p\<lparr>world := wd, held := h, unrefs := u, created := c\<rparr>)"
proof -
  note invs = registry_invD [OF inv]
  have obj: "wd_obj wd s = (if s = r then w else wd_obj (world p) s)" for s
    by (simp add: wd_obj_def world)
  have id: "same_key (wd_obj (world p) s) (wd_obj wd s)" for s
    using key by (simp add: obj same_key_def)
  have sorted: "sorted_wrt (\<lambda>a b. \<not> same_watcher (wd_obj wd a) (wd_obj wd b)) (wd_shared wd)"
    using invs(4) by (simp only: same_watcher_key [OF id id] world)
  have held: "s < wd_nextRef (world p)" if s: "s \<in> set h" for s
  proof (cases "s = r")
    case False
    then have "count_list (held p) s \<noteq> 0" using shares(2) s by (simp add: count_list_0_iff flip: shares(2))
    then show ?thesis using invs(7) by (simp add: count_list_0_iff)
  qed (simp add: r)
  show ?thesis
  proof (rule registry_invI, goal_cases)
    case (1 s) show ?case using invs(1) [of s] invs(1) [of r] r by (auto simp: world)
  next
    case 2 show ?case using invs(2) by (simp add: world)
  next
    case (3 s) then show ?case using invs(3) by (simp add: world)
  next
    case 4 show ?case using sorted by simp
  next
    case 5 show ?case using invs(5) by (simp add: world)
  next
    case (6 s) then show ?case using invs(6) [of s] shares by (auto simp: obj world)
  next
    case (7 s) then show ?case using held by (simp add: world)
  next
    case 8 show ?case using shares(3) by simp
  next
    case (9 s) then show ?case using invs(9) [of s] use(1) by (auto simp: obj world split: if_splits)
  next
    case (10 s) then show ?case using invs(10) [of s] use(2) pending(1) by (auto simp: obj world)
  next
    case (11 s) then show ?case using invs(11) [of s] pending(2) r by (auto simp: world)
  qed
qed

text \<open>An operation on one object, with the calls of \<open>unref\<close> it leaves under way.\<close>

lemma registry_inv_object:
  assumes inv: "registry_inv p" and r: "wd_objs (world p) r \<noteq> None"
    and same: "same_identity (wd_obj (world p) r) w"
    and use: "in_use w \<Longrightarrow> in_use (wd_obj (world p) r)"
    and drop: "in_use (wd_obj (world p) r) \<Longrightarrow> in_use w \<or> b"
  shows "registry_inv (p\<lparr>world := wd_say log (wd_set r w (world p)), unrefs := pend b r (unrefs p), created := c\<rparr>)"
proof -
  note invs = registry_invD [OF inv]
  have known: "r < wd_nextRef (world p)" using invs(1) r by simp
  have "registry_inv (p\<lparr>world := wd_say log (wd_set r w (world p)), held := held p,
      unrefs := pend b r (unrefs p), created := c\<rparr>)"
  proof (rule registry_inv_change [OF inv known, of w], goal_cases)
    case 1 show ?case using same by (simp add: same_identity_def)
  next
    case 6 show ?case using same invs(6) [OF known] by (simp add: same_identity_def)
  next
    case 8 show ?case by (rule invs(8))
  next
    case 9 then show ?case using use invs(9) [OF known] by simp
  next
    case 10 then show ?case using drop invs(10) [of r] by (auto simp: pend_def)
  qed (auto simp: pend_def)
  then show ?thesis by simp
qed

lemma erase_first_subset: "set (erase_first P xs) \<subseteq> set xs"
  by (induction xs) auto

lemma erase_first_Nil_find: "List.find P xs = None \<Longrightarrow> erase_first P xs = xs"
  by (induction xs) (auto split: if_splits)

lemma watch_identity:
  "watcher_watch env thread fn made w = (res, w') \<Longrightarrow> same_identity w w'"
  by (auto simp: watcher_watch_def same_identity_def same_key_def Let_def split: if_splits option.splits)

lemma unwatch_identity:
  "watcher_unwatch thread fn w = (b, w', log) \<Longrightarrow>
    same_identity w w' \<and> (in_use w' \<longrightarrow> in_use w) \<and> (in_use w \<longrightarrow> in_use w' \<or> b)"
  by (auto simp: watcher_unwatch_def same_identity_def same_key_def in_use_def Let_def split: option.splits if_splits)

lemma finishErrorCallback_identity:
  "watcher_finishErrorCallback i w = (b, w', log) \<Longrightarrow>
    same_identity w w' \<and> (in_use w' \<longrightarrow> in_use w) \<and> (in_use w \<longrightarrow> in_use w' \<or> b)"
  by (auto simp: watcher_finishErrorCallback_def same_identity_def same_key_def in_use_def Let_def split: if_splits)

lemma cleanup_identity:
  "cleanup_environment env alive w = (bs, w', log) \<Longrightarrow>
    same_identity w w' \<and> (in_use w' \<longrightarrow> in_use w) \<and> (in_use w \<longrightarrow> in_use w' \<or> bs \<noteq> None)"
  by (auto simp: cleanup_environment_def same_identity_def same_key_def in_use_def Let_def filter_empty_conv split: if_splits)

lemma notifyError_identity:
  "same_identity w (fst (watcher_notifyError err r status w))"
  "in_use (fst (watcher_notifyError err r status w)) = in_use w"
  by (auto simp: watch_ops same_identity_def same_key_def in_use_def)

lemma triggerCallbacks_identity:
  "same_identity w (fst (watcher_triggerCallbacks status w))"
  "in_use (fst (watcher_triggerCallbacks status w)) = in_use w"
  using triggerCallbacks_watcher [of status w] by (auto simp: same_identity_def same_key_def in_use_def)

lemma fst_find_Some: "List.find P xs = Some x \<Longrightarrow> x \<in> set xs \<and> P x"
  by (induction xs) (auto split: if_splits)

lemma find_None_all: "List.find P xs = None \<Longrightarrow> x \<in> set xs \<Longrightarrow> \<not> P x"
  by (induction xs) (auto split: if_splits)

lemma new_watch_obj_key:
  "same_watcher a (new_watch_obj env n dir ps gs) = same_watcher a (new_watch_obj env m dir ps gs)"
  "mSharedReservations (new_watch_obj env n dir ps gs) = 0" "mCallbacks (new_watch_obj env n dir ps gs) = []"
  by (simp_all add: same_watcher_def new_watch_obj_def watcher.extend_def make_watcher_def Let_def)

lemma registry_inv_getShared:
  assumes inv: "registry_inv p" and get: "getShared env dir ps gs (world p) = (r, wd)"
    and room: "length (held p) < 2 ^ 64 - 1"
  shows "registry_inv (p\<lparr>world := wd, held := r # held p\<rparr>)"
proof -
  let ?w = "new_watch_obj env (wd_nextId (world p)) dir ps gs"
  let ?wd1 = "(world p)\<lparr>wd_nextId := wd_nextId (world p) + 1\<rparr>"
  have same_obj: "wd_obj ?wd1 = wd_obj (world p)" by (simp add: wd_obj_def fun_eq_iff)
  note invs = registry_invD [OF inv]
  show ?thesis
  proof (cases "List.find (\<lambda>s. same_watcher (wd_obj (world p) s) ?w) (wd_shared (world p))")
    case (Some s)
    then have s: "s \<in> set (wd_shared (world p))" using fst_find_Some [OF Some] by simp
    then have known: "s < wd_nextRef (world p)" by (rule invs(3))
    define n where "n = mSharedReservations (wd_obj (world p) s)"
    define w where "w = (wd_obj (world p) s)\<lparr>mSharedReservations := n + 1\<rparr>"
    have r: "r = s" "wd = wd_set s w ?wd1"
      using get Some by (auto simp: getShared_def Let_def same_obj w_def n_def)
    have unat: "unat n = count_list (held p) s" unfolding n_def by (rule invs(6) [OF known])
    then have "unat n < 2 ^ 64 - 1" using room count_le_length [of "held p" s] by simp
    then have plus: "unat (n + 1) = Suc (unat n)" using unat_add_lem [of n 1] by simp
    then have "n + 1 \<noteq> 0" by (metis nat.distinct(1) unat_0)
    then have used: "in_use w" by (simp add: in_use_def w_def)
    have "registry_inv (p\<lparr>world := wd, held := s # held p, unrefs := unrefs p, created := created p\<rparr>)"
    proof (rule registry_inv_change [OF inv known, of w], goal_cases)
      case 1 show ?case by (simp add: same_key_def w_def)
    next
      case 6 show ?case using unat plus by (simp add: w_def)
    next
      case 8 show ?case using room by simp
    qed (auto simp: r s used wd_obj_def wd_set_def)
    then show ?thesis by (simp add: r(1))
  next
    case None
    let ?n = "wd_nextRef (world p)"
    define w where "w = ?w\<lparr>mSharedReservations := 1\<rparr>"
    have r: "r = ?n" "wd = (wd_set ?n w ?wd1)\<lparr>wd_nextRef := ?n + 1,
        wd_shared := wd_shared (world p) @ [?n], wd_debounce := debounce_add ?n (wd_debounce (world p))\<rparr>"
      using get None by (auto simp: getShared_def Let_def same_obj w_def)
    have fresh: "?n \<notin> set (wd_shared (world p))" "?n \<notin> set (held p)"
      using invs(3) [of ?n] invs(7) [of ?n] by auto
    have diff: "\<not> same_watcher (wd_obj (world p) s) w" if "s \<in> set (wd_shared (world p))" for s
      using find_None_all [OF None that] by (simp add: w_def same_watcher_def)
    have used: "in_use w" by (simp add: in_use_def w_def)
    have obj: "wd_obj wd = (\<lambda>s. if s = ?n then w else wd_obj (world p) s)"
      by (simp add: r wd_obj_def wd_set_def fun_eq_iff)
    have one: "mSharedReservations w = 1" by (simp add: w_def)
    have shared: "wd_shared wd = wd_shared (world p) @ [?n]" by (simp add: r(2))
    have "sorted_wrt (\<lambda>a b. \<not> same_watcher (wd_obj wd a) (wd_obj wd b)) (wd_shared (world p))"
      by (rule sorted_wrt_mono_rel [OF _ invs(4)]) (use fresh(1) in \<open>auto simp: obj\<close>)
    then have sorted: "sorted_wrt (\<lambda>a b. \<not> same_watcher (wd_obj wd a) (wd_obj wd b)) (wd_shared wd)"
      using fresh diff by (auto simp: sorted_wrt_append shared obj)
    have count: "count_list (held p) ?n = 0" using fresh(2) by simp
    have fields: "wd_shared wd = wd_shared (world p) @ [?n]" "wd_nextRef wd = Suc ?n"
        "set (db_callbacks (wd_debounce wd)) = insert ?n (set (db_callbacks (wd_debounce (world p))))"
        "wd_objs wd = (wd_objs (world p))(?n := Some w)"
      by (simp_all add: r debounce_add_def wd_set_def)
    show ?thesis
    proof (rule registry_invI, goal_cases)
      case (1 s) show ?case using invs(1) [of s] by (auto simp: fields less_Suc_eq)
    next
      case 2 show ?case using invs(2) fresh by (simp add: fields)
    next
      case (3 s) then show ?case using invs(3) [of s] by (auto simp: fields)
    next
      case 4 show ?case using sorted by simp
    next
      case 5 show ?case using invs(5) by (simp add: fields)
    next
      case (6 s) then show ?case using invs(6) [of s] count one by (auto simp: obj fields r(1) less_Suc_eq)
    next
      case (7 s) then show ?case using invs(7) [of s] by (auto simp: fields r(1))
    next
      case 8 show ?case using room by simp
    next
      case (9 s) then show ?case using invs(9) [of s] by (auto simp: obj fields less_Suc_eq)
    next
      case (10 s) then show ?case using invs(10) [of s] used by (auto simp: obj fields)
    next
      case (11 s) then show ?case using invs(11) [of s] by (simp add: fields)
    qed
  qed
qed

lemma registry_inv_release:
  assumes inv: "registry_inv p" and r: "r \<in> set (held p)"
    and rel: "release_reservation r (world p) = (b, wd)"
  shows "registry_inv (p\<lparr>world := wd, held := remove1 r (held p), unrefs := pend b r (unrefs p)\<rparr>)"
proof -
  note invs = registry_invD [OF inv]
  define n where "n = mSharedReservations (wd_obj (world p) r)"
  define w where "w = (wd_obj (world p) r)\<lparr>mSharedReservations := n - 1\<rparr>"
  have b: "b \<longleftrightarrow> n = 1" and wd: "wd = wd_set r w (world p)"
    using rel by (auto simp: release_reservation_def Let_def n_def w_def)
  have known: "r < wd_nextRef (world p)" by (rule invs(7) [OF r])
  have n: "unat n = count_list (held p) r" unfolding n_def by (rule invs(6) [OF known])
  moreover have "count_list (held p) r \<noteq> 0" using r by (simp add: count_list_0_iff)
  ultimately have "n \<noteq> 0" by (metis unat_0)
  then have minus: "unat (n - 1) = unat n - 1" by (simp add: unat_minus_one)
  have count: "count_list (remove1 r (held p)) s = count_list (held p) s - (if s = r then 1 else 0)" for s
    by (induction "held p") (auto simp: count_list_0_iff)
  have used: "in_use (wd_obj (world p) r)" using \<open>n \<noteq> 0\<close> by (simp add: in_use_def n_def)
  have still: "in_use w \<or> b"
  proof (cases b)
    case False
    then have "n - 1 \<noteq> 0" using b by simp
    then show ?thesis by (simp add: in_use_def w_def)
  qed simp
  have "registry_inv (p\<lparr>world := wd, held := remove1 r (held p), unrefs := pend b r (unrefs p),
      created := created p\<rparr>)"
  proof (rule registry_inv_change [OF inv known, of w], goal_cases)
    case 1 show ?case by (simp add: same_key_def w_def)
  next
    case 6 show ?case using n minus by (simp add: w_def count)
  next
    case 8 show ?case using invs(8) r by (simp add: length_remove1)
  next
    case 9 show ?case using used invs(9) [OF known] by simp
  next
    case 10 then show ?case using still by (auto simp: pend_def)
  qed (auto simp: wd count pend_def)
  then show ?thesis by simp
qed

lemma registry_inv_unref:
  assumes inv: "registry_inv p" and r: "r \<in> set (unrefs p)"
  shows "registry_inv (p\<lparr>world := watcher_unref r (world p), unrefs := remove1 r (unrefs p)\<rparr>)"
proof -
  note invs = registry_invD [OF inv]
  have rest: "s \<in> set (remove1 r (unrefs p))" if "s \<in> set (unrefs p)" "s \<noteq> r" for s
    using that by (simp add: in_set_remove1)
  show ?thesis
  proof (cases "in_use (wd_obj (world p) r)")
    case True
    then have "watcher_unref r (world p) = world p" by (auto simp: watcher_unref_def in_use_def)
    have known: "r < wd_nextRef (world p)" by (rule invs(11) [OF r])
    have "registry_inv (p\<lparr>world := world p, held := held p, unrefs := remove1 r (unrefs p), created := created p\<rparr>)"
    proof (rule registry_inv_change [OF inv known, of "wd_obj (world p) r"], goal_cases)
      case 1 show ?case by (simp add: same_key_def)
    next
      case 2 show ?case using invs(1) [of r] known by (auto simp: wd_obj_def)
    next
      case 6 show ?case by (rule invs(6) [OF known])
    next
      case 8 show ?case by (rule invs(8))
    next
      case 9 show ?case by (rule invs(9) [OF known True])
    next
      case 12 show ?case using set_remove1_subset [of r "unrefs p"] by blast
    qed (simp_all add: True rest)
    then show ?thesis by (simp add: \<open>watcher_unref r (world p) = world p\<close>)
  next
    case False
    then have unref: "watcher_unref r (world p) = (world p)\<lparr>wd_shared := remove1 r (wd_shared (world p)),
        wd_debounce := debounce_remove r (wd_debounce (world p))\<rparr>"
      by (auto simp: watcher_unref_def in_use_def removeSharedLocked_def)
    have obj: "wd_obj (watcher_unref r (world p)) = wd_obj (world p)"
      by (simp add: unref wd_obj_def fun_eq_iff)
    have shared: "set (remove1 r (wd_shared (world p))) = set (wd_shared (world p)) - {r}"
      using invs(2) by simp
    have sorted: "sorted_wrt (\<lambda>a b. \<not> same_watcher (wd_obj (world p) a) (wd_obj (world p) b))
        (remove1 r (wd_shared (world p)))"
      using invs(2,4) by (simp add: distinct_remove1_removeAll removeAll_filter_not_eq sorted_wrt_filter)
    have fields: "wd_objs (watcher_unref r (world p)) = wd_objs (world p)"
        "wd_shared (watcher_unref r (world p)) = remove1 r (wd_shared (world p))"
        "wd_nextRef (watcher_unref r (world p)) = wd_nextRef (world p)"
        "wd_debounce (watcher_unref r (world p)) = debounce_remove r (wd_debounce (world p))"
      by (simp_all add: unref)
    show ?thesis
    proof (rule registry_invI, goal_cases)
      case (1 s) show ?case using invs(1) [of s] by (simp add: fields)
    next
      case 2 show ?case using invs(2) by (simp add: fields)
    next
      case (3 s) then show ?case using invs(3) [of s] shared by (simp add: fields)
    next
      case 4 show ?case using sorted by (simp add: obj fields)
    next
      case 5 show ?case using invs(5) shared by (simp add: fields debounce_remove_def set_diff_eq)
    next
      case (6 s) then show ?case using invs(6) [of s] by (simp add: obj fields)
    next
      case (7 s) then show ?case using invs(7) [of s] by (simp add: fields)
    next
      case 8 show ?case using invs(8) by simp
    next
      case (9 s) then show ?case using invs(9) [of s] shared False by (auto simp: obj fields)
    next
      case (10 s) then show ?case using invs(10) [of s] shared rest [of s] by (auto simp: obj fields)
    next
      case (11 s)
      then have "s \<in> set (unrefs p)" using set_remove1_subset [of r "unrefs p"] by auto
      then show ?case using invs(11) [of s] by (simp add: fields)
    qed
  qed
qed

lemma registry_inv_step:
  assumes inv: "registry_inv p" and step: "watch_step p p'"
  shows "registry_inv p'"
  using step
proof (cases rule: watch_step.cases)
  case (reserve env dir ps gs r wd)
  then show ?thesis using registry_inv_getShared [OF inv] by simp
next
  case (release r b wd)
  then show ?thesis using registry_inv_release [OF inv] by simp
next
  case (watch r t env thread fn made res w)
  have r: "wd_objs (world p) r \<noteq> None" "in_use (wd_obj (world p) r)"
  proof -
    have known: "r < wd_nextRef (world p)" by (rule registry_invD(7) [OF inv watch(2)])
    then show "wd_objs (world p) r \<noteq> None" using registry_invD(1) [OF inv] by simp
    have "count_list (held p) r \<noteq> 0" using watch(2) by (simp add: count_list_0_iff)
    then have "mSharedReservations (wd_obj (world p) r) \<noteq> 0"
      using registry_invD(6) [OF inv known] by (metis unat_0)
    then show "in_use (wd_obj (world p) r)" by (simp add: in_use_def)
  qed
  have "same_identity (wd_obj (world p) r) w" by (rule watch_identity [OF watch(5)])
  moreover from this r(2) have "in_use w" if "mCallbacks (wd_obj (world p) r) = []"
    using that by (auto simp: in_use_def same_identity_def same_key_def)
  moreover have "mCallbacks (wd_obj (world p) r) \<noteq> [] \<Longrightarrow> in_use w"
    using watch(5) by (auto simp: watcher_watch_def in_use_def Let_def split: if_splits option.splits)
  ultimately have "registry_inv (p\<lparr>world := wd_say [] (wd_set r w (world p)),
      unrefs := pend False r (unrefs p), created := created p'\<rparr>)"
    using registry_inv_object [OF inv r(1), of w False "created p'" "[]"] r(2) by blast
  then show ?thesis by (simp add: watch(1) pend_def)
next
  case (unwatch r thread fn b wl)
  obtain w log where wl: "wl = (w, log)" by fastforce
  show ?thesis
    using registry_inv_object [OF inv unwatch(2), of w b "created p" log] unwatch_identity [OF unwatch(3) [unfolded wl]]
    by (simp add: unwatch(1) wl wd_update_def)
next
  case (finish_error r i b wl)
  obtain w log where wl: "wl = (w, log)" by fastforce
  show ?thesis
    using registry_inv_object [OF inv finish_error(2), of w b "created p" log]
      finishErrorCallback_identity [OF finish_error(3) [unfolded wl]]
    by (simp add: finish_error(1) wl wd_update_def)
next
  case (notify_error r err status)
  show ?thesis
    using registry_inv_object [OF inv notify_error(2), of "fst (watcher_notifyError err r status (wd_obj (world p) r))" False "created p"]
      notifyError_identity [where w = "wd_obj (world p) r" and err = err and r = r and status = status]
    by (simp add: notify_error(1) wd_update_def pend_def)
next
  case (deliver r status)
  show ?thesis
    using registry_inv_object [OF inv deliver(2), of "fst (watcher_triggerCallbacks status (wd_obj (world p) r))" False "created p"]
      triggerCallbacks_identity [where w = "wd_obj (world p) r" and status = status]
    by (simp add: deliver(1) wd_update_def pend_def)
next
  case (cancel r env)
  have "same_identity (wd_obj (world p) r) (cancel_environment env (wd_obj (world p) r))"
      "in_use (cancel_environment env (wd_obj (world p) r)) = in_use (wd_obj (world p) r)"
    by (auto simp: cancel_environment_def same_identity_def same_key_def in_use_def)
  then show ?thesis
    using registry_inv_object [OF inv cancel(2), of "cancel_environment env (wd_obj (world p) r)" False "created p" "[]"]
    by (simp add: cancel(1) pend_def)
next
  case (cleanup r env alive bs wl)
  obtain w log where wl: "wl = (w, log)" by fastforce
  show ?thesis
    using registry_inv_object [OF inv cleanup(2), of w "bs \<noteq> None" "created p" log]
      cleanup_identity [OF cleanup(3) [unfolded wl]]
    by (simp add: cleanup(1) wl wd_update_def)
next
  case (clear r)
  have "same_identity (wd_obj (world p) r) (fst (clearCallbacks (wd_obj (world p) r)))"
      "in_use (fst (clearCallbacks (wd_obj (world p) r))) \<Longrightarrow> in_use (wd_obj (world p) r)"
    by (auto simp: clearCallbacks_def same_identity_def same_key_def in_use_def)
  then show ?thesis
    using registry_inv_object [OF inv clear(2), of "fst (clearCallbacks (wd_obj (world p) r))" True "created p"]
    by (simp add: clear(1) wd_update_def pend_def)
next
  case (record_events r l)
  have "same_identity (wd_obj (world p) r) ((wd_obj (world p) r)\<lparr>mEvents := l\<rparr>)"
      "in_use ((wd_obj (world p) r)\<lparr>mEvents := l\<rparr>) = in_use (wd_obj (world p) r)"
    by (auto simp: same_identity_def same_key_def in_use_def)
  then show ?thesis
    using registry_inv_object [OF inv record_events(2), of "(wd_obj (world p) r)\<lparr>mEvents := l\<rparr>" False "created p" "[]"]
    by (simp add: record_events(1) pend_def)
next
  case (unref r)
  then show ?thesis using registry_inv_unref [OF inv] by simp
qed

lemma registry_inv_reachable: "watch_reachable p \<Longrightarrow> registry_inv p"
proof (induction rule: watch_reachable.induct)
  case init
  then show ?case
    by (simp add: registry_inv_def process_start_def world_new_def debounce_new_def)
next
  case (step p p')
  then show ?case using registry_inv_step by blast
qed

subsection \<open>Functions of the runtime are released once and not used afterwards\<close>

text \<open>
  The functions of a watcher's callbacks, the functions a log releases, and the functions it
  names; \<open>log_ok\<close> says that nothing is queued for a function, and nothing releases it, after its
  release.
\<close>

definition tsfns :: "watch_obj \<Rightarrow> tsfn list" where
  "tsfns w = map cb_tsfn (mCallbacks w)"

fun released :: "napi_call list \<Rightarrow> tsfn list" where
  "released [] = []"
| "released (Released t m # log) = t # released log"
| "released (Queued t d # log) = released log"
| "released (Unref f # log) = released log"

fun queued :: "napi_call list \<Rightarrow> tsfn list" where
  "queued [] = []"
| "queued (Queued t d # log) = t # queued log"
| "queued (Released t m # log) = queued log"
| "queued (Unref f # log) = queued log"

fun log_ok :: "napi_call list \<Rightarrow> bool" where
  "log_ok [] = True"
| "log_ok (Released t m # log) = (t \<notin> set (released log) \<and> t \<notin> set (queued log) \<and> log_ok log)"
| "log_ok (Queued t d # log) = log_ok log"
| "log_ok (Unref f # log) = log_ok log"

lemma released_append [simp]: "released (xs @ ys) = released xs @ released ys"
  by (induction xs rule: released.induct) auto

lemma queued_append [simp]: "queued (xs @ ys) = queued xs @ queued ys"
  by (induction xs rule: queued.induct) auto

lemma log_ok_append:
  "log_ok (xs @ ys) \<longleftrightarrow>
    log_ok xs \<and> log_ok ys \<and> set (released xs) \<inter> (set (released ys) \<union> set (queued ys)) = {}"
  by (induction xs rule: log_ok.induct) auto

lemma log_ok_releases: "queued log = [] \<Longrightarrow> log_ok log = distinct (released log)"
  by (induction log rule: log_ok.induct) auto

lemma log_ok_queues: "released log = [] \<Longrightarrow> log_ok log"
  by (induction log rule: log_ok.induct) auto

lemma log_ok_split:
  "log_ok (xs @ Released t m # ys) \<Longrightarrow> t \<notin> set (released ys) \<and> t \<notin> set (queued ys)"
  by (simp add: log_ok_append)

lemma queued_iff: "t \<in> set (queued log) \<longleftrightarrow> (\<exists>d. Queued t d \<in> set log)"
  by (induction log rule: queued.induct) auto

lemma released_iff: "t \<in> set (released log) \<longleftrightarrow> (\<exists>m. Released t m \<in> set log)"
  by (induction log rule: released.induct) auto

text \<open>What an operation on one object does with its functions.\<close>

definition keeps_tsfns :: "watch_obj \<Rightarrow> watch_obj \<Rightarrow> napi_call list \<Rightarrow> bool" where
  "keeps_tsfns w w' log \<longleftrightarrow>
     (\<forall>t. count_list (tsfns w') t + count_list (released log) t = count_list (tsfns w) t) \<and>
     set (queued log) \<subseteq> set (tsfns w) \<and> (released log = [] \<or> queued log = [])"

lemma drop_callback_log [simp]:
  "released (drop_callback mode cb) = [cb_tsfn cb]" "queued (drop_callback mode cb) = []"
  by (simp_all add: drop_callback_def)

lemma drop_callbacks_log [simp]:
  "released (concat (map (drop_callback mode) cbs)) = map cb_tsfn cbs"
  "queued (concat (map (drop_callback mode) cbs)) = []"
  by (induction cbs) auto

lemma erase_first_count:
  "count_list (map f (erase_first P xs)) t + (case List.find P xs of None \<Rightarrow> 0 | Some x \<Rightarrow> count_list [f x] t) =
    count_list (map f xs) t"
  by (induction xs) (auto split: option.splits)

lemma unwatch_tsfns: "watcher_unwatch thread fn w = (b, w', log) \<Longrightarrow> keeps_tsfns w w' log"
  using erase_first_count [of cb_tsfn "is_callback thread fn" "mCallbacks w"]
  by (auto simp: watcher_unwatch_def findCallback_def keeps_tsfns_def tsfns_def Let_def split: option.splits if_splits)

lemma finishErrorCallback_tsfns: "watcher_finishErrorCallback i w = (b, w', log) \<Longrightarrow> keeps_tsfns w w' log"
  using erase_first_count [of cb_tsfn "\<lambda>cb. cb_id cb = i" "mCallbacks w"]
  by (auto simp: watcher_finishErrorCallback_def keeps_tsfns_def tsfns_def Let_def split: option.splits if_splits)

lemma count_list_filter_partition:
  "count_list (map f (filter (\<lambda>x. \<not> P x) xs)) t + count_list (map f (filter P xs)) t = count_list (map f xs) t"
  by (induction xs) auto

lemma cleanup_tsfns: "cleanup_environment env alive w = (bs, w', log) \<Longrightarrow> keeps_tsfns w w' log"
  using count_list_filter_partition [of cb_tsfn "\<lambda>cb. cb_env cb = env" "mCallbacks w"]
  by (auto simp: cleanup_environment_def keeps_tsfns_def tsfns_def Let_def split: if_splits)

lemma clearCallbacks_tsfns: "keeps_tsfns w (fst (clearCallbacks w)) (snd (clearCallbacks w))"
  by (auto simp: clearCallbacks_def keeps_tsfns_def tsfns_def)

lemma notifyError_log:
  "released (snd (notify_error_callbacks err r status cbs)) = []"
  "set (queued (snd (notify_error_callbacks err r status cbs))) \<subseteq> cb_tsfn ` set cbs"
  by (induction cbs) (auto simp: Let_def split_def)

lemma notifyError_tsfns:
  "keeps_tsfns w (fst (watcher_notifyError err r status w)) (snd (watcher_notifyError err r status w))"
  using notifyError_log [of err r status "mCallbacks w"]
  by (simp add: keeps_tsfns_def tsfns_def watch_ops comp_def) (simp add: watcher_notifyError_def split_def Let_def)

lemma deliver_log:
  "released (snd (deliver_callbacks batch status cbs)) = []"
  "set (queued (snd (deliver_callbacks batch status cbs))) \<subseteq> cb_tsfn ` set cbs"
  by (induction cbs) (auto simp: Let_def split_def split: napi_status.split)

lemma triggerCallbacks_tsfns:
  "keeps_tsfns w (fst (watcher_triggerCallbacks status w)) (snd (watcher_triggerCallbacks status w))"
proof -
  have "tsfns (fst (watcher_triggerCallbacks status w)) = tsfns w"
    using triggerCallbacks_watcher [of status w] by (auto simp: tsfns_def)
  moreover have "released (snd (watcher_triggerCallbacks status w)) = []"
      "set (queued (snd (watcher_triggerCallbacks status w))) \<subseteq> set (tsfns w)"
    using deliver_log by (auto simp: watcher_triggerCallbacks_def tsfns_def Let_def split_def)
  ultimately show ?thesis by (simp add: keeps_tsfns_def)
qed

lemma same_tsfns: "mCallbacks w' = mCallbacks w \<Longrightarrow> keeps_tsfns w w' []"
  by (simp add: keeps_tsfns_def tsfns_def)

definition functions_inv :: "process \<Rightarrow> bool" where
  "functions_inv p \<longleftrightarrow>
     distinct (created p) \<and> log_ok (wd_log (world p)) \<and>
     (\<forall>t. (\<Sum>r<wd_nextRef (world p). count_list (tsfns (wd_obj (world p) r)) t) +
          count_list (released (wd_log (world p))) t = count_list (created p) t)"

lemma functions_invD:
  assumes "functions_inv p"
  shows "distinct (created p)" and "log_ok (wd_log (world p))"
    and "(\<Sum>r<wd_nextRef (world p). count_list (tsfns (wd_obj (world p) r)) t) +
      count_list (released (wd_log (world p))) t = count_list (created p) t"
  using assms by (simp_all add: functions_inv_def)

lemma distinct_count_list: "distinct xs \<longleftrightarrow> (\<forall>x. count_list xs x \<le> 1)"
proof (induction xs)
  case (Cons a xs)
  have "count_list xs a = 0 \<longleftrightarrow> a \<notin> set xs" by (simp add: count_list_0_iff)
  then show ?case using Cons by (auto simp: le_Suc_eq)
qed simp

lemma functions_inv_used:
  assumes inv: "functions_inv p" and r: "r < wd_nextRef (world p)"
    and t: "t \<in> set (tsfns (wd_obj (world p) r))"
  shows "t \<in> set (created p)" "t \<notin> set (released (wd_log (world p)))"
    "count_list (tsfns (wd_obj (world p) r)) t = 1"
    "r' < wd_nextRef (world p) \<Longrightarrow> r' \<noteq> r \<Longrightarrow> t \<notin> set (tsfns (wd_obj (world p) r'))"
proof -
  let ?f = "\<lambda>r. count_list (tsfns (wd_obj (world p) r)) t"
  have one: "count_list (created p) t \<le> 1"
    using functions_invD(1) [OF inv] by (simp add: distinct_count_list)
  have pos: "0 < ?f r" using t by (metis count_list_0_iff gr0I)
  have sum: "(\<Sum>r<wd_nextRef (world p). ?f r) = ?f r + sum ?f ({..<wd_nextRef (world p)} - {r})"
    using r by (intro sum.remove) auto
  note total = functions_invD(3) [OF inv, of t, unfolded sum]
  show "t \<in> set (created p)" using total pos by (metis add_is_0 count_list_0_iff not_gr_zero)
  have "count_list (released (wd_log (world p))) t = 0" using total pos one by linarith
  then show "t \<notin> set (released (wd_log (world p)))" by (simp add: count_list_0_iff)
  show "?f r = 1" using total pos one by linarith
  assume r': "r' < wd_nextRef (world p)" "r' \<noteq> r"
  have "sum ?f ({..<wd_nextRef (world p)} - {r}) = 0" using total pos one by linarith
  then have "?f r' = 0" using r' by simp
  then show "t \<notin> set (tsfns (wd_obj (world p) r'))" by (simp add: count_list_0_iff)
qed

lemma sum_change_one:
  fixes f g :: "nat \<Rightarrow> nat"
  assumes "r < n" and "\<And>s. s \<noteq> r \<Longrightarrow> g s = f s"
  shows "(\<Sum>s<n. g s) + f r = (\<Sum>s<n. f s) + g r"
proof -
  have "sum g ({..<n} - {r}) = sum f ({..<n} - {r})" using assms(2) by (intro sum.cong) auto
  then show ?thesis using assms(1) sum.remove [of "{..<n}" r f] sum.remove [of "{..<n}" r g] by simp
qed

lemma functions_inv_object:
  assumes inv: "functions_inv p" and r: "r < wd_nextRef (world p)"
    and keeps: "keeps_tsfns (wd_obj (world p) r) w log"
    and world: "\<And>s. wd_obj wd s = (if s = r then w else wd_obj (world p) s)"
      "wd_nextRef wd = wd_nextRef (world p)" "wd_log wd = wd_log (world p) @ log"
  shows "functions_inv (p\<lparr>world := wd, held := h, unrefs := u\<rparr>)"
proof -
  let ?n = "wd_nextRef (world p)" and ?f = "\<lambda>t r. count_list (tsfns (wd_obj (world p) r)) t"
  let ?g = "\<lambda>t r. count_list (tsfns (wd_obj wd r)) t"
  have change: "(\<Sum>s<?n. ?g t s) + ?f t r = (\<Sum>s<?n. ?f t s) + ?g t r" for t
    by (rule sum_change_one [OF r]) (simp add: world)
  have balance: "?g t r + count_list (released log) t = ?f t r" for t
    using keeps by (simp add: keeps_tsfns_def world)
  have total: "(\<Sum>s<?n. ?g t s) + count_list (released (wd_log (world p) @ log)) t = count_list (created p) t" for t
    using functions_invD(3) [OF inv, of t] change [of t] balance [of t] by simp
  have few: "count_list (released log) t \<le> 1" for t
  proof (cases "t \<in> set (tsfns (wd_obj (world p) r))")
    case True
    then show ?thesis using functions_inv_used(3) [OF inv r True] balance [of t] by simp
  next
    case False
    then have "?f t r = 0" by simp
    then show ?thesis using balance [of t] by simp
  qed
  have subset: "set (released log) \<union> set (queued log) \<subseteq> set (tsfns (wd_obj (world p) r))"
  proof -
    have "t \<in> set (tsfns (wd_obj (world p) r))" if "t \<in> set (released log)" for t
      using balance [of t] that by (metis add_is_0 count_list_0_iff)
    then show ?thesis using keeps by (auto simp: keeps_tsfns_def)
  qed
  have "distinct (released log)"
    using few by (simp add: distinct_count_list)
  then have "log_ok log"
    using keeps log_ok_releases log_ok_queues by (auto simp: keeps_tsfns_def)
  moreover have "set (released (wd_log (world p))) \<inter> (set (released log) \<union> set (queued log)) = {}"
    using subset functions_inv_used(2) [OF inv r] by blast
  ultimately have "log_ok (wd_log (world p) @ log)"
    using functions_invD(2) [OF inv] by (simp add: log_ok_append)
  then show ?thesis
    using total functions_invD(1) [OF inv] by (simp add: functions_inv_def world)
qed

lemma getShared_effect:
  assumes "getShared env dir ps gs wd = (r, wd')" and "\<And>s. s \<in> set (wd_shared wd) \<Longrightarrow> s < wd_nextRef wd"
  shows "wd_log wd' = wd_log wd"
    and "r < wd_nextRef wd \<and> wd_nextRef wd' = wd_nextRef wd \<and>
           (\<forall>s. mCallbacks (wd_obj wd' s) = mCallbacks (wd_obj wd s) \<and>
                mNextCallbackId (wd_obj wd' s) = mNextCallbackId (wd_obj wd s)) \<or>
         r = wd_nextRef wd \<and> wd_nextRef wd' = Suc r \<and>
           mCallbacks (wd_obj wd' r) = [] \<and> mNextCallbackId (wd_obj wd' r) = 1 \<and>
           (\<forall>s. s \<noteq> r \<longrightarrow> wd_obj wd' s = wd_obj wd s)"
proof -
  let ?w = "new_watch_obj env (wd_nextId wd) dir ps gs"
  let ?wd1 = "wd\<lparr>wd_nextId := wd_nextId wd + 1\<rparr>"
  have same_obj: "wd_obj ?wd1 = wd_obj wd" by (simp add: wd_obj_def fun_eq_iff)
  have new: "mCallbacks ?w = []" "mNextCallbackId ?w = 1"
    by (simp_all add: new_watch_obj_def watcher.extend_def make_watcher_def Let_def)
  show "wd_log wd' = wd_log wd"
    using assms(1) by (auto simp: getShared_def Let_def wd_set_def split: option.splits)
  show "r < wd_nextRef wd \<and> wd_nextRef wd' = wd_nextRef wd \<and>
           (\<forall>s. mCallbacks (wd_obj wd' s) = mCallbacks (wd_obj wd s) \<and>
                mNextCallbackId (wd_obj wd' s) = mNextCallbackId (wd_obj wd s)) \<or>
         r = wd_nextRef wd \<and> wd_nextRef wd' = Suc r \<and>
           mCallbacks (wd_obj wd' r) = [] \<and> mNextCallbackId (wd_obj wd' r) = 1 \<and>
           (\<forall>s. s \<noteq> r \<longrightarrow> wd_obj wd' s = wd_obj wd s)"
  proof (cases "List.find (\<lambda>s. same_watcher (wd_obj wd s) ?w) (wd_shared wd)")
    case None
    then show ?thesis
      using assms(1) new by (auto simp: getShared_def Let_def same_obj wd_obj_def wd_set_def)
  next
    case (Some s)
    then have "s < wd_nextRef wd" using fst_find_Some [OF Some] assms(2) by simp
    then show ?thesis using assms(1) Some by (auto simp: getShared_def Let_def same_obj)
  qed
qed

lemma functions_inv_step:
  assumes inv: "functions_inv p" and registry: "registry_inv p" and step: "watch_step p p'"
  shows "functions_inv p'"
  using step
proof (cases rule: watch_step.cases)
  case (reserve env dir ps gs r wd)
  note effect = getShared_effect [OF reserve(2) registry_invD(3) [OF registry], simplified]
  have "(\<Sum>s<wd_nextRef wd. count_list (tsfns (wd_obj wd s)) t) =
      (\<Sum>s<wd_nextRef (world p). count_list (tsfns (wd_obj (world p) s)) t)" for t
    using effect(2)
  proof (elim disjE)
    assume new: "r = wd_nextRef (world p) \<and> wd_nextRef wd = Suc r \<and> mCallbacks (wd_obj wd r) = [] \<and>
      mNextCallbackId (wd_obj wd r) = 1 \<and> (\<forall>s. s \<noteq> r \<longrightarrow> wd_obj wd s = wd_obj (world p) s)"
    then have "(\<Sum>s<r. count_list (tsfns (wd_obj wd s)) t) = (\<Sum>s<r. count_list (tsfns (wd_obj (world p) s)) t)"
      by (intro sum.cong) auto
    then show ?thesis using new by (auto simp: tsfns_def)
  qed (simp add: tsfns_def)
  then show ?thesis using inv effect(1) by (simp add: functions_inv_def reserve(1))
next
  case (release r b wd)
  have r: "r < wd_nextRef (world p)" by (rule registry_invD(7) [OF registry release(2)])
  have wd: "wd = wd_set r (wd_obj wd r) (world p)" "mCallbacks (wd_obj wd r) = mCallbacks (wd_obj (world p) r)"
    using release(3) by (auto simp: release_reservation_def Let_def)
  show ?thesis
    unfolding release(1) by (rule functions_inv_object [OF inv r same_tsfns [OF wd(2)]]) (subst wd(1), simp)+
next
  case (watch r t env thread fn made res w)
  have r: "r < wd_nextRef (world p)" by (rule registry_invD(7) [OF registry watch(2)])
  show ?thesis
  proof (cases "res = Inr True")
    case False
    then have "mCallbacks w = mCallbacks (wd_obj (world p) r)"
      using watch(5) by (auto simp: watcher_watch_def Let_def split: if_splits option.splits)
    from functions_inv_object [OF inv r same_tsfns [OF this], of "wd_set r w (world p)" "unrefs p" "held p"]
    show ?thesis using False by (simp add: watch(1))
  next
    case True
    then have tsfns: "tsfns w = tsfns (wd_obj (world p) r) @ [t]"
      using watch(5) by (auto simp: watcher_watch_def tsfns_def Let_def split: if_splits option.splits)
    let ?f = "\<lambda>x s. count_list (tsfns (wd_obj (world p) s)) x"
    let ?g = "\<lambda>x s. count_list (tsfns (wd_obj (wd_set r w (world p)) s)) x"
    have "(\<Sum>s<wd_nextRef (world p). ?g x s) + ?f x r = (\<Sum>s<wd_nextRef (world p). ?f x s) + ?g x r" for x
      by (rule sum_change_one [OF r]) simp
    then have "(\<Sum>s<wd_nextRef (world p). ?g x s) + count_list (released (wd_log (world p))) x =
        count_list (t # created p) x" for x
      using functions_invD(3) [OF inv, of x] by (simp add: tsfns)
    then show ?thesis
      using functions_invD(1,2) [OF inv] watch(4) True by (simp add: functions_inv_def watch(1))
  qed
next
  case (unwatch r thread fn b wl)
  obtain w log where wl: "wl = (w, log)" by fastforce
  have r: "r < wd_nextRef (world p)" using unwatch(2) registry_invD(1) [OF registry] by simp
  show ?thesis
    using functions_inv_object [OF inv r unwatch_tsfns [OF unwatch(3) [unfolded wl]],
      of "wd_update r wl (world p)" _ "held p"]
    by (simp add: unwatch(1) wl wd_update_def)
next
  case (finish_error r i b wl)
  obtain w log where wl: "wl = (w, log)" by fastforce
  have r: "r < wd_nextRef (world p)" using finish_error(2) registry_invD(1) [OF registry] by simp
  show ?thesis
    using functions_inv_object [OF inv r finishErrorCallback_tsfns [OF finish_error(3) [unfolded wl]],
      of "wd_update r wl (world p)" _ "held p"]
    by (simp add: finish_error(1) wl wd_update_def)
next
  case (notify_error r err status)
  have r: "r < wd_nextRef (world p)" using notify_error(2) registry_invD(1) [OF registry] by simp
  show ?thesis
    using functions_inv_object [OF inv r notifyError_tsfns [where err = err and r = r and status = status], of "wd_update r (watcher_notifyError err r status (wd_obj (world p) r)) (world p)" "unrefs p" "held p"]
    by (simp add: notify_error(1) wd_update_def)
next
  case (deliver r status)
  have r: "r < wd_nextRef (world p)" using deliver(2) registry_invD(1) [OF registry] by simp
  show ?thesis
    using functions_inv_object [OF inv r triggerCallbacks_tsfns [where status = status], of "wd_update r (watcher_triggerCallbacks status (wd_obj (world p) r)) (world p)" "unrefs p" "held p"]
    by (simp add: deliver(1) wd_update_def)
next
  case (cancel r env)
  have r: "r < wd_nextRef (world p)" using cancel(2) registry_invD(1) [OF registry] by simp
  have same: "mCallbacks (cancel_environment env (wd_obj (world p) r)) = mCallbacks (wd_obj (world p) r)"
    by (simp add: cancel_environment_def)
  show ?thesis
    using functions_inv_object [OF inv r same_tsfns [OF same], of "wd_set r (cancel_environment env (wd_obj (world p) r)) (world p)" "unrefs p" "held p"]
    by (simp add: cancel(1))
next
  case (cleanup r env alive bs wl)
  obtain w log where wl: "wl = (w, log)" by fastforce
  have r: "r < wd_nextRef (world p)" using cleanup(2) registry_invD(1) [OF registry] by simp
  show ?thesis
    using functions_inv_object [OF inv r cleanup_tsfns [OF cleanup(3) [unfolded wl]],
      of "wd_update r wl (world p)" _ "held p"]
    by (simp add: cleanup(1) wl wd_update_def)
next
  case (clear r)
  have r: "r < wd_nextRef (world p)" using clear(2) registry_invD(1) [OF registry] by simp
  show ?thesis
    using functions_inv_object [OF inv r clearCallbacks_tsfns, of "wd_update r (clearCallbacks (wd_obj (world p) r)) (world p)" _ "held p"]
    by (simp add: clear(1) wd_update_def)
next
  case (record_events r l)
  have r: "r < wd_nextRef (world p)" using record_events(2) registry_invD(1) [OF registry] by simp
  have same: "mCallbacks ((wd_obj (world p) r)\<lparr>mEvents := l\<rparr>) = mCallbacks (wd_obj (world p) r)" by simp
  show ?thesis
    using functions_inv_object [OF inv r same_tsfns [OF same], of "wd_set r ((wd_obj (world p) r)\<lparr>mEvents := l\<rparr>) (world p)" "unrefs p" "held p"]
    by (simp add: record_events(1))
next
  case (unref r)
  have r: "r < wd_nextRef (world p)" by (rule registry_invD(11) [OF registry unref(2)])
  have "wd_obj (watcher_unref r (world p)) = wd_obj (world p)" "wd_log (watcher_unref r (world p)) = wd_log (world p)"
      "wd_nextRef (watcher_unref r (world p)) = wd_nextRef (world p)"
    by (simp_all add: watcher_unref_def removeSharedLocked_def wd_obj_def fun_eq_iff)
  then show ?thesis using inv by (simp add: functions_inv_def unref(1))
qed

lemma functions_inv_reachable: "watch_reachable p \<Longrightarrow> functions_inv p"
proof (induction rule: watch_reachable.induct)
  case init
  then show ?case by (simp add: functions_inv_def process_start_def world_new_def)
next
  case (step p p')
  then show ?case using functions_inv_step registry_inv_reachable by blast
qed

subsection \<open>Callbacks are told apart by their ids\<close>

text \<open>
  The callbacks of a watcher have different ids, all below the next one, and no function is
  registered twice by one thread.
\<close>

definition callbacks_ok :: "nat \<Rightarrow> watch_obj \<Rightarrow> bool" where
  "callbacks_ok n w \<longleftrightarrow>
     distinct (map cb_id (mCallbacks w)) \<and> (\<forall>cb \<in> set (mCallbacks w). cb_id cb < mNextCallbackId w) \<and>
     distinct (map (\<lambda>cb. (cb_threadId cb, cb_ref cb)) (mCallbacks w)) \<and>
     unat (mNextCallbackId w) \<le> Suc n"

lemma erase_first_map_distinct: "distinct (map f xs) \<Longrightarrow> distinct (map f (erase_first P xs))"
  by (induction xs) (use erase_first_subset in fastforce)+

lemma callbacks_ok_subset:
  assumes "callbacks_ok n w" and "mNextCallbackId w' = mNextCallbackId w" and "n \<le> n'"
    and "mCallbacks w' = erase_first P (mCallbacks w) \<or> mCallbacks w' = filter P' (mCallbacks w) \<or> mCallbacks w' = [] \<or>
      (\<exists>f. mCallbacks w' = map (\<lambda>cb. cb\<lparr>cb_closing := f cb\<rparr>) (mCallbacks w))"
  shows "callbacks_ok n' w'"
  using assms erase_first_subset [of P "mCallbacks w"]
  by (auto simp: callbacks_ok_def erase_first_map_distinct distinct_map_filter comp_def)

lemma callbacks_ok_same:
  "callbacks_ok n w \<Longrightarrow> mCallbacks w' = mCallbacks w \<Longrightarrow> mNextCallbackId w' = mNextCallbackId w \<Longrightarrow> n \<le> n' \<Longrightarrow>
    callbacks_ok n' w'"
  by (simp add: callbacks_ok_def)

lemma callbacks_ok_watch:
  assumes ok: "callbacks_ok n w" and n: "n < 2 ^ 64 - 2"
    and watch: "watcher_watch env thread fn made w = (res, w')"
  shows "callbacks_ok (if res = Inr True then Suc n else n) w'"
proof (cases "findCallback thread fn w = None \<and> made \<noteq> None")
  case False
  then have "mCallbacks w' = mCallbacks w" "mNextCallbackId w' = mNextCallbackId w"
    using watch by (auto simp: watcher_watch_def findCallback_def Let_def split: if_splits option.splits)
  with ok show ?thesis by (rule callbacks_ok_same) simp
next
  case True
  then obtain t where t: "made = Some t" by blast
  have w': "res = Inr True" "mCallbacks w' = mCallbacks w @ [\<lparr>cb_id = mNextCallbackId w, cb_tsfn = t,
      cb_ref = fn, cb_env = env, cb_threadId = thread, cb_closing = False\<rparr>]"
      "mNextCallbackId w' = mNextCallbackId w + 1"
    using watch True t by (auto simp: watcher_watch_def findCallback_def Let_def)
  have "List.find (is_callback thread fn) (mCallbacks w) = None" using True by (simp add: findCallback_def)
  then have new: "(thread, fn) \<notin> (\<lambda>cb. (cb_threadId cb, cb_ref cb)) ` set (mCallbacks w)"
    using find_None_all by (fastforce simp: is_callback_def)
  have next_id: "unat (mNextCallbackId w) \<le> Suc n" using ok by (simp add: callbacks_ok_def)
  then have "unat (mNextCallbackId w + 1) = Suc (unat (mNextCallbackId w))"
    using n unat_add_lem [of "mNextCallbackId w" 1] by simp
  then have "mNextCallbackId w < mNextCallbackId w + 1" "unat (mNextCallbackId w + 1) \<le> Suc (Suc n)"
    using next_id by (simp_all add: word_less_nat_alt)
  then show ?thesis
    using ok new by (auto simp: callbacks_ok_def w' intro: less_trans)
qed

definition ids_inv :: "process \<Rightarrow> bool" where
  "ids_inv p \<longleftrightarrow> (\<forall>r < wd_nextRef (world p). callbacks_ok (length (created p)) (wd_obj (world p) r))"

lemma ids_inv_object:
  assumes inv: "ids_inv p" and ok: "callbacks_ok n w" and n: "length (created p) \<le> n"
    and world: "\<And>s. wd_obj wd s = (if s = r then w else wd_obj (world p) s)" "wd_nextRef wd = wd_nextRef (world p)"
    and p': "world p' = wd" "length (created p') = n"
  shows "ids_inv p'"
  unfolding ids_inv_def
proof (intro allI impI)
  fix s
  assume s: "s < wd_nextRef (world p')"
  show "callbacks_ok (length (created p')) (wd_obj (world p') s)"
  proof (cases "s = r")
    case False
    have "callbacks_ok (length (created p)) (wd_obj (world p) s)"
      using inv s world(2) p'(1) by (simp add: ids_inv_def)
    then show ?thesis using callbacks_ok_same n False by (simp add: p' world)
  qed (simp add: p' world ok)
qed

lemma ids_inv_step:
  assumes inv: "ids_inv p" and registry: "registry_inv p" and step: "watch_step p p'"
  shows "ids_inv p'"
proof -
  have at: "callbacks_ok (length (created p)) (wd_obj (world p) r)" if "wd_objs (world p) r \<noteq> None" for r
    using that inv registry_invD(1) [OF registry] by (simp add: ids_inv_def)
  note object = ids_inv_object [OF inv _ order.refl _ _ refl]
  show ?thesis
    using step
  proof (cases rule: watch_step.cases)
    case (reserve env dir ps gs r wd)
    note effect = getShared_effect [OF reserve(2) registry_invD(3) [OF registry], simplified]
    have "callbacks_ok (length (created p)) (wd_obj wd s)" if s: "s < wd_nextRef wd" for s
    proof (cases "s < wd_nextRef (world p)")
      case True
      then have "callbacks_ok (length (created p)) (wd_obj (world p) s)" using inv by (simp add: ids_inv_def)
      moreover have "mCallbacks (wd_obj wd s) = mCallbacks (wd_obj (world p) s)"
          "mNextCallbackId (wd_obj wd s) = mNextCallbackId (wd_obj (world p) s)"
        using effect(2) True by auto
      ultimately show ?thesis by (rule callbacks_ok_same) simp
    next
      case False
      then have "mCallbacks (wd_obj wd s) = []" "mNextCallbackId (wd_obj wd s) = 1"
        using effect(2) s by (auto simp: less_Suc_eq)
      then show ?thesis by (simp add: callbacks_ok_def)
    qed
    then show ?thesis by (simp add: ids_inv_def reserve(1))
  next
    case (release r b wd)
    have known: "wd_objs (world p) r \<noteq> None"
      using registry_invD(1,7) [OF registry] release(2) by simp
    have wd: "wd = wd_set r (wd_obj wd r) (world p)" "mCallbacks (wd_obj wd r) = mCallbacks (wd_obj (world p) r)"
        "mNextCallbackId (wd_obj wd r) = mNextCallbackId (wd_obj (world p) r)"
      using release(3) by (auto simp: release_reservation_def Let_def)
    show ?thesis
      by (rule ids_inv_object [OF inv callbacks_ok_same [OF at [OF known] wd(2,3) order.refl] order.refl, of wd r])
        (subst wd(1), simp, subst wd(1), simp, simp_all add: release(1))
  next
    case (watch r t env thread fn made res w)
    have "wd_objs (world p) r \<noteq> None" using registry_invD(1,7) [OF registry] watch(2) by simp
    from callbacks_ok_watch [OF at [OF this] watch(3,5)] show ?thesis
      by (rule ids_inv_object [OF inv, of _ _ "wd_set r w (world p)" r]) (simp_all add: watch(1))
  next
    case (unwatch r thread fn b wl)
    have "mCallbacks (fst wl) = erase_first (is_callback thread fn) (mCallbacks (wd_obj (world p) r)) \<and>
        mNextCallbackId (fst wl) = mNextCallbackId (wd_obj (world p) r)"
      using unwatch(3) by (auto simp: watcher_unwatch_def findCallback_def erase_first_Nil_find Let_def
        split: option.splits if_splits)
    then have "callbacks_ok (length (created p)) (fst wl)"
      using callbacks_ok_subset [OF at [OF unwatch(2)]] by blast
    then show ?thesis by (rule object) (simp_all add: unwatch(1) wd_update_def)
  next
    case (finish_error r i b wl)
    have "mCallbacks (fst wl) = erase_first (\<lambda>cb. cb_id cb = i) (mCallbacks (wd_obj (world p) r)) \<and>
        mNextCallbackId (fst wl) = mNextCallbackId (wd_obj (world p) r)"
      using finish_error(3) by (auto simp: watcher_finishErrorCallback_def Let_def split: if_splits)
    then have "callbacks_ok (length (created p)) (fst wl)"
      using callbacks_ok_subset [OF at [OF finish_error(2)]] by blast
    then show ?thesis by (rule object) (simp_all add: finish_error(1) wd_update_def)
  next
    case (notify_error r err status)
    let ?w = "fst (watcher_notifyError err r status (wd_obj (world p) r))"
    have "callbacks_ok (length (created p)) ?w"
      by (rule callbacks_ok_subset [OF at [OF notify_error(2)]]) (auto simp: watch_ops)
    then show ?thesis by (rule object) (simp_all add: notify_error(1) wd_update_def)
  next
    case (deliver r status)
    let ?w = "fst (watcher_triggerCallbacks status (wd_obj (world p) r))"
    have "callbacks_ok (length (created p)) ?w"
      by (rule callbacks_ok_subset [OF at [OF deliver(2)]])
        (use triggerCallbacks_watcher [of status "wd_obj (world p) r"] in auto)
    then show ?thesis by (rule object) (simp_all add: deliver(1) wd_update_def)
  next
    case (cancel r env)
    have "callbacks_ok (length (created p)) (cancel_environment env (wd_obj (world p) r))"
      by (rule callbacks_ok_same [OF at [OF cancel(2)]]) (simp_all add: cancel_environment_def)
    then show ?thesis by (rule object) (simp_all add: cancel(1))
  next
    case (cleanup r env alive bs wl)
    have "mCallbacks (fst wl) = filter (\<lambda>cb. cb_env cb \<noteq> env) (mCallbacks (wd_obj (world p) r)) \<and>
        mNextCallbackId (fst wl) = mNextCallbackId (wd_obj (world p) r)"
      using cleanup(3) by (auto simp: cleanup_environment_def Let_def split: if_splits)
    then have "callbacks_ok (length (created p)) (fst wl)"
      using callbacks_ok_subset [OF at [OF cleanup(2)]] by blast
    then show ?thesis by (rule object) (simp_all add: cleanup(1) wd_update_def)
  next
    case (clear r)
    have "callbacks_ok (length (created p)) (fst (clearCallbacks (wd_obj (world p) r)))"
      by (rule callbacks_ok_subset [OF at [OF clear(2)]]) (auto simp: clearCallbacks_def)
    then show ?thesis by (rule object) (simp_all add: clear(1) wd_update_def)
  next
    case (record_events r l)
    have "callbacks_ok (length (created p)) ((wd_obj (world p) r)\<lparr>mEvents := l\<rparr>)"
      by (rule callbacks_ok_same [OF at [OF record_events(2)]]) simp_all
    then show ?thesis by (rule object) (simp_all add: record_events(1))
  next
    case (unref r)
    have "wd_obj (watcher_unref r (world p)) = wd_obj (world p)"
        "wd_nextRef (watcher_unref r (world p)) = wd_nextRef (world p)"
      by (simp_all add: watcher_unref_def removeSharedLocked_def wd_obj_def fun_eq_iff)
    then show ?thesis using inv by (simp add: ids_inv_def unref(1))
  qed
qed

lemma ids_inv_reachable: "watch_reachable p \<Longrightarrow> ids_inv p"
proof (induction rule: watch_reachable.induct)
  case init
  then show ?case by (simp add: ids_inv_def process_start_def world_new_def)
next
  case (step p p')
  then show ?case using ids_inv_step registry_inv_reachable by blast
qed

subsection \<open>Complete calls are sequences of steps\<close>

lemma rtranclp_step2: "watch_step p q \<Longrightarrow> watch_step q r \<Longrightarrow> watch_step^** p r"
  by (meson r_into_rtranclp rtranclp.rtrancl_into_rtrancl)

lemma wd_objs_unchanged:
  "wd_objs (watcher_unref r wd) = wd_objs wd" "wd_objs (wd_update r wl wd) s \<noteq> None \<longleftrightarrow> s = r \<or> wd_objs wd s \<noteq> None"
  by (auto simp: watcher_unref_def removeSharedLocked_def wd_update_def)

lemma pending_unref:
  assumes "watch_step p (p\<lparr>world := wd, unrefs := pend b r (unrefs p)\<rparr>)"
  shows "watch_step^** p (p\<lparr>world := (if b then watcher_unref r wd else wd)\<rparr>)"
proof (cases b)
  case True
  let ?q = "p\<lparr>world := wd, unrefs := pend b r (unrefs p)\<rparr>"
  have "r \<in> set (unrefs ?q)" using True by (simp add: pend_def)
  from watch_step.unref [OF this]
  have "watch_step ?q (p\<lparr>world := watcher_unref r wd\<rparr>)" using True by (simp add: pend_def)
  with assms show ?thesis using True by (simp add: rtranclp_step2)
next
  case False
  then show ?thesis using assms by (auto simp: pend_def)
qed

lemma unwatch_steps:
  assumes r: "wd_objs (world p) r \<noteq> None"
  shows "watch_step^** p (p\<lparr>world := snd (unwatch r thread fn (world p))\<rparr>)"
proof -
  obtain b wl where op: "watcher_unwatch thread fn (wd_obj (world p) r) = (b, wl)" by (rule prod.exhaust)
  show ?thesis
    using pending_unref [OF watch_step.unwatch [OF r op]] by (auto simp: unwatch_def op Let_def)
qed

lemma finishErrorCallback_steps:
  assumes r: "wd_objs (world p) r \<noteq> None"
  shows "watch_step^** p (p\<lparr>world := finishErrorCallback r i (world p)\<rparr>)"
proof -
  obtain b wl where op: "watcher_finishErrorCallback i (wd_obj (world p) r) = (b, wl)" by (rule prod.exhaust)
  show ?thesis
    using pending_unref [OF watch_step.finish_error [OF r op]] by (auto simp: finishErrorCallback_def op Let_def)
qed

lemma destroy_steps:
  assumes r: "wd_objs (world p) r \<noteq> None"
  shows "watch_step^** p (p\<lparr>world := watcher_destroy r (world p)\<rparr>)"
  using pending_unref [where p = p and b = True and r = r and wd = "wd_update r (clearCallbacks (wd_obj (world p) r)) (world p)"]
    watch_step.clear [OF r]
  by (simp add: watcher_destroy_def pend_def)

lemma releaseShared_steps:
  assumes r: "r \<in> set (held p)"
  shows "watch_step^** p (p\<lparr>world := releaseShared r (world p), held := remove1 r (held p)\<rparr>)"
proof -
  obtain b wd where op: "release_reservation r (world p) = (b, wd)" by fastforce
  let ?q = "p\<lparr>world := wd, held := remove1 r (held p), unrefs := pend b r (unrefs p)\<rparr>"
  have first: "watch_step p ?q" by (rule watch_step.release [OF r op])
  show ?thesis
  proof (cases b)
    case True
    then have "r \<in> set (unrefs ?q)" by (simp add: pend_def)
    moreover have "p\<lparr>world := releaseShared r (world p), held := remove1 r (held p)\<rparr> =
        ?q\<lparr>world := watcher_unref r (world ?q), unrefs := remove1 r (unrefs ?q)\<rparr>"
      using True by (simp add: releaseShared_def op pend_def)
    ultimately show ?thesis using rtranclp_step2 [OF first watch_step.unref] by metis
  next
    case False
    then show ?thesis using first by (auto simp: releaseShared_def op pend_def)
  qed
qed

lemma cancelEnvironment_steps:
  assumes objs: "\<And>r. r \<in> set (wd_shared (world p)) \<Longrightarrow> wd_objs (world p) r \<noteq> None"
  shows "watch_step^** p (p\<lparr>world := cancelEnvironment env (world p)\<rparr>)"
proof -
  have "watch_step^** q (q\<lparr>world := fold (\<lambda>r wd. wd_set r (cancel_environment env (wd_obj wd r)) wd) rs (world q)\<rparr>)"
    if "\<forall>r \<in> set rs. wd_objs (world q) r \<noteq> None" for rs q
    using that
  proof (induction rs arbitrary: q)
    case (Cons r rs)
    let ?q = "q\<lparr>world := wd_set r (cancel_environment env (wd_obj (world q) r)) (world q)\<rparr>"
    have "watch_step q ?q" using Cons.prems by (intro watch_step.cancel) simp
    moreover have "\<forall>s \<in> set rs. wd_objs (world ?q) s \<noteq> None" using Cons.prems by simp
    note Cons.IH [OF this]
    ultimately show ?case by (simp add: converse_rtranclp_into_rtranclp)
  qed simp
  from this [of "wd_shared (world p)" p] show ?thesis using objs by (simp add: cancelEnvironment_def)
qed

lemma cleanup_pass_steps:
  assumes "\<forall>r \<in> set rs. wd_objs (world q) r \<noteq> None" and "distinct (rev (map fst todo) @ rs)"
    and "fold (cleanup_pass env alive) rs (todo, world q) = (todo', wd')"
  shows "watch_step^** (q\<lparr>unrefs := rev (map fst todo) @ u\<rparr>)
      (q\<lparr>world := wd', unrefs := rev (map fst todo') @ u\<rparr>) \<and> distinct (map fst todo') \<and>
      set (map fst todo') \<subseteq> set (map fst todo) \<union> set rs"
  using assms
proof (induction rs arbitrary: q todo)
  case (Cons r rs)
  obtain bs wl where op: "cleanup_environment env alive (wd_obj (world q) r) = (bs, wl)" by (rule prod.exhaust)
  define todo1 where "todo1 = (case bs of None \<Rightarrow> todo | Some x \<Rightarrow> todo @ [(r, x)])"
  let ?q = "q\<lparr>world := wd_update r wl (world q)\<rparr>"
  have pending: "pend (bs \<noteq> None) r (rev (map fst todo) @ u) = rev (map fst todo1) @ u"
    by (auto simp: pend_def todo1_def)
  have "wd_objs (world (q\<lparr>unrefs := rev (map fst todo) @ u\<rparr>)) r \<noteq> None" using Cons.prems(1) by simp
  from watch_step.cleanup [OF this, of env alive bs wl]
  have step: "watch_step (q\<lparr>unrefs := rev (map fst todo) @ u\<rparr>) (?q\<lparr>unrefs := rev (map fst todo1) @ u\<rparr>)"
    using pending by (simp add: op)
  have next_pass: "fold (cleanup_pass env alive) rs (todo1, world ?q) = (todo', wd')"
    using Cons.prems(3) by (simp add: cleanup_pass_def [of env alive r] op todo1_def)
  have objs: "\<forall>s \<in> set rs. wd_objs (world ?q) s \<noteq> None"
    using Cons.prems(1) wd_objs_unchanged(2) [of r wl "world q"] by auto
  have todo1: "distinct (rev (map fst todo1) @ rs)" "set (map fst todo1) \<subseteq> insert r (set (map fst todo))"
    using Cons.prems(2) by (auto simp: todo1_def split: option.splits)
  note rest = Cons.IH [OF objs todo1(1) next_pass]
  have "A \<subseteq> B \<union> R \<Longrightarrow> B \<subseteq> insert r C \<Longrightarrow> A \<subseteq> C \<union> insert r R" for A B C R :: "wref set"
    by blast
  from this [OF _ todo1(2)] have "set (map fst todo') \<subseteq> set (map fst todo) \<union> set (r # rs)"
    using rest by simp
  then show ?case
    using rest converse_rtranclp_into_rtranclp [of watch_step, OF step] by simp
qed auto

lemma unrefs_steps:
  "distinct rs \<Longrightarrow>
    watch_step^** (q\<lparr>unrefs := rev rs @ u\<rparr>) (q\<lparr>world := fold watcher_unref rs (world q), unrefs := u\<rparr>)"
proof (induction rs arbitrary: q)
  case (Cons r rs)
  let ?q = "q\<lparr>world := watcher_unref r (world q)\<rparr>"
  have "watch_step (q\<lparr>unrefs := rev (r # rs) @ u\<rparr>)
      (q\<lparr>unrefs := rev (r # rs) @ u, world := watcher_unref r (world (q\<lparr>unrefs := rev (r # rs) @ u\<rparr>)),
         unrefs := remove1 r (unrefs (q\<lparr>unrefs := rev (r # rs) @ u\<rparr>))\<rparr>)"
    by (rule watch_step.unref) simp
  moreover have "remove1 r (rev (r # rs) @ u) = rev rs @ u" using Cons.prems by (simp add: remove1_append)
  ultimately have "watch_step (q\<lparr>unrefs := rev (r # rs) @ u\<rparr>) (?q\<lparr>unrefs := rev rs @ u\<rparr>)" by simp
  moreover have "distinct rs" using Cons.prems by simp
  note Cons.IH [OF this, of ?q]
  ultimately show ?case by (simp add: converse_rtranclp_into_rtranclp)
qed simp

lemma cleanupEnvironment_steps:
  assumes objs: "\<And>r. r \<in> set (wd_shared (world p)) \<Longrightarrow> wd_objs (world p) r \<noteq> None"
    and distinct: "distinct (wd_shared (world p))"
  shows "watch_step^** p (p\<lparr>world := snd (cleanupEnvironment env alive (world p))\<rparr>)"
proof -
  obtain todo wd where pass: "fold (cleanup_pass env alive) (wd_shared (world p)) ([], world p) = (todo, wd)"
    by fastforce
  have pass_steps: "watch_step^** p (p\<lparr>world := wd, unrefs := rev (map fst todo) @ unrefs p\<rparr>)" "distinct (map fst todo)"
    using cleanup_pass_steps [OF _ _ pass, of "unrefs p"] objs distinct by auto
  have "fold (\<lambda>(r, bs). watcher_unref r) todo wd = fold watcher_unref (map fst todo) wd" for wd
    by (induction todo arbitrary: wd) auto
  moreover have "watch_step^** (p\<lparr>world := wd, unrefs := rev (map fst todo) @ unrefs p\<rparr>)
      (p\<lparr>world := fold watcher_unref (map fst todo) wd\<rparr>)"
    using unrefs_steps [OF pass_steps(2), where q = "p\<lparr>world := wd\<rparr>" and u = "unrefs p"] by simp
  ultimately show ?thesis
    using pass_steps(1) by (simp add: cleanupEnvironment_def pass)
qed

subsection \<open>A process with one watcher\<close>

text \<open>A reachable state the witnesses use: one caller holds a watcher with one callback.\<close>

definition first_object :: watch_obj where
  "first_object = (new_watch_obj linux_text 1 ''/a'' [] [])\<lparr>mSharedReservations := 1\<rparr>"

definition first_callback :: callback where
  "first_callback =
     \<lparr>cb_id = 1, cb_tsfn = 7, cb_ref = 3, cb_env = 5, cb_threadId = 2, cb_closing = False\<rparr>"

definition one_reservation :: process where
  "one_reservation = process_start\<lparr>world := \<lparr>wd_objs = [0 \<mapsto> first_object], wd_shared = [0], wd_nextRef = 1,
     wd_nextId = 2, wd_debounce = debounce_add 0 debounce_new, wd_log = []\<rparr>, held := [0]\<rparr>"

definition one_watcher :: process where
  "one_watcher = one_reservation\<lparr>world := wd_set 0 (first_object\<lparr>mCallbacks := [first_callback],
     mNextCallbackId := 2\<rparr>) (world one_reservation), created := [7]\<rparr>"

lemma first_object_fields [simp]:
  "mCallbacks first_object = []" "mNextCallbackId first_object = 1" "mCancelled first_object = False"
  "mSharedReservations first_object = 1" "mEvents first_object = el_empty" "mBackends first_object = []"
  by (simp_all add: first_object_def new_watch_obj_def watcher.extend_def)

lemma one_reservation_reachable: "watch_reachable one_reservation"
proof -
  have "getShared linux_text ''/a'' [] [] (world process_start) = (0, world one_reservation)"
    by (simp add: getShared_def process_start_def world_new_def one_reservation_def Let_def wd_set_def
        first_object_def)
  from watch_step.reserve [OF this]
  have "watch_step process_start one_reservation"
    by (simp add: process_start_def one_reservation_def)
  then show ?thesis using watch_reachable.intros by blast
qed

lemma one_watcher_reachable: "watch_reachable one_watcher"
proof -
  have obj: "wd_obj (world one_reservation) 0 = first_object" by (simp add: wd_obj_def one_reservation_def)
  have "watcher_watch 5 2 3 (Some 7) first_object =
      (Inr True, first_object\<lparr>mCallbacks := [first_callback], mNextCallbackId := 2\<rparr>)"
    by (simp add: watcher_watch_def findCallback_def first_callback_def first_object_def new_watch_obj_def
        watcher.extend_def)
  then have "watch_step one_reservation one_watcher"
    using watch_step.watch [of 0 one_reservation 7 5 2 3 True] obj
    by (simp add: one_reservation_def one_watcher_def process_start_def)
  then show ?thesis using one_reservation_reachable watch_reachable.step by blast
qed

lemma one_watcher_object:
  "wd_objs (world one_watcher) 0 = Some (first_object\<lparr>mCallbacks := [first_callback], mNextCallbackId := 2\<rparr>)"
  "wd_shared (world one_watcher) = [0]" "unrefs one_watcher = []" "held one_watcher = [0]"
  "created one_watcher = [7]"
  by (simp_all add: one_watcher_def one_reservation_def process_start_def)

subsection \<open>Properties\<close>

text \<open>
  C33. The registry is consistent in every interleaving: it lists a watcher once, no two watchers
  in it have the same directory and ignore rules, and the debouncer calls exactly its watchers.
\<close>

theorem registry_is_consistent:
  assumes "watch_reachable p"
  shows "distinct (wd_shared (world p)) \<and>
    sorted_wrt (\<lambda>r s. \<not> same_watcher (wd_obj (world p) r) (wd_obj (world p) s)) (wd_shared (world p)) \<and>
    set (db_callbacks (wd_debounce (world p))) = set (wd_shared (world p))"
  using registry_invD(2,4,5) [OF registry_inv_reachable [OF assms]] by blast

lemma registry_is_consistent_witness:
  "distinct (wd_shared (world one_watcher)) \<and>
    sorted_wrt (\<lambda>r s. \<not> same_watcher (wd_obj (world one_watcher) r) (wd_obj (world one_watcher) s))
      (wd_shared (world one_watcher)) \<and>
    set (db_callbacks (wd_debounce (world one_watcher))) = set (wd_shared (world one_watcher))"
  by (rule registry_is_consistent [OF one_watcher_reachable])

text \<open>
  C6. A watcher with a callback or with an unreleased reservation is in the registry, and once
  no \<open>unref\<close> is under way, a watcher with neither has left it: none is dropped too early and
  none is leaked, whatever the threads do.
\<close>

theorem registered_while_used:
  assumes "watch_reachable p" and "wd_objs (world p) r = Some w"
  shows "(mCallbacks w \<noteq> [] \<or> r \<in> set (held p) \<longrightarrow> r \<in> set (wd_shared (world p))) \<and>
    (unrefs p = [] \<longrightarrow> r \<in> set (wd_shared (world p)) \<longrightarrow> mCallbacks w \<noteq> [] \<or> r \<in> set (held p))"
proof -
  note inv = registry_inv_reachable [OF assms(1)]
  have known: "r < wd_nextRef (world p)" using registry_invD(1) [OF inv, of r] assms(2) by simp
  have w: "wd_obj (world p) r = w" using assms(2) by (simp add: wd_obj_def)
  have "mSharedReservations w \<noteq> 0 \<longleftrightarrow> r \<in> set (held p)"
    using registry_invD(6) [OF inv known] by (metis count_list_0_iff unat_0 unat_eq_zero w)
  then have "in_use w \<longleftrightarrow> mCallbacks w \<noteq> [] \<or> r \<in> set (held p)" by (simp add: in_use_def)
  then show ?thesis
    using registry_invD(9) [OF inv known] registry_invD(10) [OF inv, of r] by (simp add: w)
qed

lemma registered_while_used_witness: "(0 :: wref) \<in> set (wd_shared (world one_watcher))"
  using registered_while_used [OF one_watcher_reachable one_watcher_object(1)] by simp

text \<open>
  C21. A thread-safe function is released at most once and not used after its release: nothing
  after the release queues data for it or releases it again, and no watcher has it any more.
\<close>

theorem released_functions_are_gone:
  assumes "watch_reachable p" and "wd_log (world p) = xs @ Released t m # ys"
  shows "(\<forall>m'. Released t m' \<notin> set ys) \<and> (\<forall>d. Queued t d \<notin> set ys) \<and>
    (\<forall>r w. wd_objs (world p) r = Some w \<longrightarrow> t \<notin> cb_tsfn ` set (mCallbacks w))"
proof (intro conjI allI impI)
  note inv = functions_inv_reachable [OF assms(1)] and registry = registry_inv_reachable [OF assms(1)]
  have "t \<notin> set (released ys) \<and> t \<notin> set (queued ys)"
    using functions_invD(2) [OF inv] log_ok_split by (simp add: assms(2))
  then show "Released t m' \<notin> set ys" "Queued t d \<notin> set ys" for m' d
    by (auto simp: released_iff queued_iff)
  fix r w
  assume w: "wd_objs (world p) r = Some w"
  then have "r < wd_nextRef (world p)" using registry_invD(1) [OF registry, of r] by simp
  from functions_inv_used(2) [OF inv this, of t] show "t \<notin> cb_tsfn ` set (mCallbacks w)"
    using w assms(2) by (auto simp: tsfns_def wd_obj_def)
qed

definition after_unwatch :: process where
  "after_unwatch = one_watcher\<lparr>world := wd_update 0 (first_object\<lparr>mNextCallbackId := 2, mCancelled := True\<rparr>,
     drop_callback Tsfn_release first_callback) (world one_watcher), unrefs := [0]\<rparr>"

lemma after_unwatch_reachable: "watch_reachable after_unwatch"
proof -
  have obj: "wd_obj (world one_watcher) 0 = first_object\<lparr>mCallbacks := [first_callback], mNextCallbackId := 2\<rparr>"
    by (simp add: wd_obj_def one_watcher_object)
  have "first_object\<lparr>mCallbacks := [], mNextCallbackId := 2, mCancelled := True\<rparr> =
      first_object\<lparr>mNextCallbackId := 2, mCancelled := True\<rparr>"
    by (simp add: first_object_def new_watch_obj_def watcher.extend_def)
  then have "watcher_unwatch 2 3 (wd_obj (world one_watcher) 0) =
      (True, first_object\<lparr>mNextCallbackId := 2, mCancelled := True\<rparr>, drop_callback Tsfn_release first_callback)"
    by (simp add: obj watcher_unwatch_def findCallback_def is_callback_def first_callback_def)
  then have "watch_step one_watcher after_unwatch"
    using watch_step.unwatch [of one_watcher 0 2 3 True] one_watcher_object
    by (simp add: after_unwatch_def pend_def)
  then show ?thesis using one_watcher_reachable watch_reachable.step by blast
qed

lemma after_unwatch_log:
  "wd_log (world after_unwatch) = [] @ Released 7 Tsfn_release # [Unref 3]"
  by (simp add: after_unwatch_def wd_update_def drop_callback_def first_callback_def one_watcher_def
      one_reservation_def)

lemma released_functions_are_gone_witness:
  "Released 7 Tsfn_release \<notin> set [Unref 3] \<and>
    7 \<notin> cb_tsfn ` set (mCallbacks (wd_obj (world after_unwatch) 0))"
proof -
  have "wd_objs (world after_unwatch) 0 = Some (wd_obj (world after_unwatch) 0)"
    by (simp add: after_unwatch_def wd_update_def wd_obj_def)
  then show ?thesis using released_functions_are_gone [OF after_unwatch_reachable after_unwatch_log] by simp
qed

text \<open>
  No thread-safe function is leaked: one that was created and not released belongs to a
  callback of exactly one watcher, and to one callback there.
\<close>

theorem unreleased_function_has_one_callback:
  assumes "watch_reachable p" and "t \<in> set (created p)" and "\<And>m. Released t m \<notin> set (wd_log (world p))"
  shows "(\<exists>!r. wd_objs (world p) r \<noteq> None \<and> t \<in> cb_tsfn ` set (mCallbacks (wd_obj (world p) r))) \<and>
    (\<forall>r w. wd_objs (world p) r = Some w \<longrightarrow> count_list (map cb_tsfn (mCallbacks w)) t \<le> 1)"
proof (intro conjI allI impI)
  note inv = functions_inv_reachable [OF assms(1)] and registry = registry_inv_reachable [OF assms(1)]
  have has: "t \<in> set (tsfns (wd_obj (world p) r)) \<longleftrightarrow> t \<in> cb_tsfn ` set (mCallbacks (wd_obj (world p) r))" for r
    by (auto simp: tsfns_def)
  have "t \<notin> set (released (wd_log (world p)))" using assms(3) by (simp add: released_iff)
  then have "count_list (released (wd_log (world p))) t = 0" by simp
  moreover have "count_list (created p) t \<noteq> 0" using assms(2) by (simp add: count_list_0_iff)
  ultimately have "(\<Sum>r<wd_nextRef (world p). count_list (tsfns (wd_obj (world p) r)) t) \<noteq> 0"
    using functions_invD(3) [OF inv, of t] by linarith
  then obtain r where r: "r < wd_nextRef (world p)" "t \<in> set (tsfns (wd_obj (world p) r))"
    by (auto simp: count_list_0_iff)
  show "\<exists>!r. wd_objs (world p) r \<noteq> None \<and> t \<in> cb_tsfn ` set (mCallbacks (wd_obj (world p) r))"
  proof (rule ex1I [of _ r])
    show "wd_objs (world p) r \<noteq> None \<and> t \<in> cb_tsfn ` set (mCallbacks (wd_obj (world p) r))"
      using r registry_invD(1) [OF registry] has by simp
    fix s
    assume "wd_objs (world p) s \<noteq> None \<and> t \<in> cb_tsfn ` set (mCallbacks (wd_obj (world p) s))"
    then show "s = r"
      using functions_inv_used(4) [OF inv r, of s] registry_invD(1) [OF registry, of s] has [of s] by blast
  qed
  fix r w
  assume w: "wd_objs (world p) r = Some w"
  show "count_list (map cb_tsfn (mCallbacks w)) t \<le> 1"
  proof (cases "t \<in> set (tsfns w)")
    case True
    then show ?thesis
      using functions_inv_used(3) [OF inv, of r t] w registry_invD(1) [OF registry, of r]
      by (simp add: wd_obj_def tsfns_def)
  next
    case False
    then have "count_list (map cb_tsfn (mCallbacks w)) t = 0" by (auto simp: tsfns_def count_list_0_iff)
    then show ?thesis by linarith
  qed
qed

lemma unreleased_function_has_one_callback_witness:
  "\<exists>!r. wd_objs (world one_watcher) r \<noteq> None \<and> 7 \<in> cb_tsfn ` set (mCallbacks (wd_obj (world one_watcher) r))"
proof -
  have "wd_log (world one_watcher) = []" by (simp add: one_watcher_def one_reservation_def)
  then show ?thesis
    using unreleased_function_has_one_callback [OF one_watcher_reachable, of 7] one_watcher_object(5) by simp
qed

text \<open>
  Callback ids and functions identify callbacks: the callbacks of a watcher have different
  ids although the counter is a 64-bit word, no thread has the same function twice, and so
  finishing the error delivery of an id removes exactly the callback with this id.
\<close>

theorem finishing_removes_one_callback:
  assumes "watch_reachable p" and "wd_objs (world p) r = Some w"
    and "watcher_finishErrorCallback i w = (b, w', log)"
  shows "distinct (map cb_id (mCallbacks w)) \<and> distinct (map (\<lambda>cb. (cb_threadId cb, cb_ref cb)) (mCallbacks w)) \<and>
    mCallbacks w' = filter (\<lambda>cb. cb_id cb \<noteq> i) (mCallbacks w) \<and> (b \<longleftrightarrow> mCallbacks w' = []) \<and>
    log = concat (map (drop_callback Tsfn_release) (filter (\<lambda>cb. cb_id cb = i) (mCallbacks w)))"
proof -
  have "r < wd_nextRef (world p)"
    using registry_invD(1) [OF registry_inv_reachable [OF assms(1)], of r] assms(2) by simp
  then have ok: "callbacks_ok (length (created p)) w"
    using ids_inv_reachable [OF assms(1)] assms(2) by (auto simp: ids_inv_def wd_obj_def)
  have "erase_first (\<lambda>cb. cb_id cb = i) cbs = filter (\<lambda>cb. cb_id cb \<noteq> i) cbs \<and>
      (case List.find (\<lambda>cb. cb_id cb = i) cbs of None \<Rightarrow> [] | Some cb \<Rightarrow> drop_callback Tsfn_release cb) =
        concat (map (drop_callback Tsfn_release) (filter (\<lambda>cb. cb_id cb = i) cbs))"
    if "distinct (map cb_id cbs)" for cbs
    using that
  proof (induction cbs)
    case (Cons cb cbs)
    show ?case
    proof (cases "cb_id cb = i")
      case True
      have "cb_id x \<noteq> i" if "x \<in> set cbs" for x
        using Cons.prems True imageI [OF that, of cb_id] by auto
      then have "filter (\<lambda>cb. cb_id cb \<noteq> i) cbs = cbs" "filter (\<lambda>cb. cb_id cb = i) cbs = []"
        by (simp_all add: filter_id_conv filter_empty_conv)
      then show ?thesis using True by simp
    qed (use Cons in simp)
  qed simp
  then show ?thesis
    using ok assms(3) by (auto simp: callbacks_ok_def watcher_finishErrorCallback_def Let_def split: if_splits)
qed

lemma finishing_removes_one_callback_witness:
  "mCallbacks (fst (snd (watcher_finishErrorCallback 1 (first_object\<lparr>mCallbacks := [first_callback],
    mNextCallbackId := 2\<rparr>)))) = []"
proof -
  let ?w = "first_object\<lparr>mCallbacks := [first_callback], mNextCallbackId := 2\<rparr>"
  obtain b w' log where "watcher_finishErrorCallback 1 ?w = (b, w', log)" by (metis surj_pair)
  then show ?thesis
    using finishing_removes_one_callback [OF one_watcher_reachable one_watcher_object(1)]
    by (simp add: first_callback_def)
qed

text \<open>
  An error reaches every open callback once: \<open>notifyError\<close> closes all callbacks and queues
  the error, in order, for those that were open and accept it; a second error and a later
  batch of events then queue nothing.
\<close>

theorem error_reaches_each_callback_once:
  "mCallbacks (fst (watcher_notifyError err r status w)) = map (\<lambda>cb. cb\<lparr>cb_closing := True\<rparr>) (mCallbacks w) \<and>
   snd (watcher_notifyError err r status w) =
     map (\<lambda>cb. Queued (cb_tsfn cb)
         \<lparr>cd_error = err, cd_events = [], cd_watcher = Some r, cd_callbackId = cb_id cb\<rparr>)
       (filter (\<lambda>cb. \<not> cb_closing cb \<and> status (cb_tsfn cb) = Napi_ok) (mCallbacks w)) \<and>
   snd (watcher_notifyError err' r' status' (fst (watcher_notifyError err r status w))) = [] \<and>
   snd (watcher_triggerCallbacks status' (fst (watcher_notifyError err r status w))) = []"
proof -
  have log: "snd (notify_error_callbacks err r status cbs) =
      map (\<lambda>cb. Queued (cb_tsfn cb)
          \<lparr>cd_error = err, cd_events = [], cd_watcher = Some r, cd_callbackId = cb_id cb\<rparr>)
        (filter (\<lambda>cb. \<not> cb_closing cb \<and> status (cb_tsfn cb) = Napi_ok) cbs)" for err r status cbs
    by (induction cbs) (auto simp: Let_def split_def)
  have errors: "snd (watcher_notifyError err r status w) =
      snd (notify_error_callbacks err r status (mCallbacks w))" for err r status w
    by (simp add: watcher_notifyError_def split_def Let_def)
  have "snd (deliver_callbacks batch status' (map (\<lambda>cb. cb\<lparr>cb_closing := True\<rparr>) cbs)) = []" for batch cbs
    by (induction cbs) (auto simp: Let_def split_def)
  then have "snd (watcher_triggerCallbacks status' (fst (watcher_notifyError err r status w))) = []"
    by (simp add: watcher_triggerCallbacks_def watch_ops split_def Let_def)
  then show ?thesis by (simp add: errors log watch_ops filter_empty_conv)
qed

text \<open>
  A batch of events goes to every open callback: when there are callbacks and something to
  report, \<open>triggerCallbacks\<close> takes the events out of the list and queues the same events and
  error, in order, for each open callback that accepts them; only callbacks whose function is
  closing are closed. With no callback nothing is taken out.
\<close>

theorem batch_goes_to_every_open_callback:
  "watcher_triggerCallbacks status w =
    (let (batch, rest) = el_drain (mEvents w) in
     if mCallbacks w = [] then (w, [])
     else if batch_events batch = [] \<and> batch_error batch = [] then (w\<lparr>mEvents := rest\<rparr>, [])
     else
       (w\<lparr>mEvents := rest, mCallbacks :=
           map (\<lambda>cb. cb\<lparr>cb_closing := cb_closing cb \<or> status (cb_tsfn cb) = Napi_closing\<rparr>) (mCallbacks w)\<rparr>,
        map (\<lambda>cb. Queued (cb_tsfn cb) \<lparr>cd_error = batch_error batch, cd_events = batch_events batch,
            cd_watcher = None, cd_callbackId = 0\<rparr>)
          (filter (\<lambda>cb. \<not> cb_closing cb \<and> status (cb_tsfn cb) = Napi_ok) (mCallbacks w))))"
proof -
  have "deliver_callbacks batch status cbs =
      (map (\<lambda>cb. cb\<lparr>cb_closing := cb_closing cb \<or> status (cb_tsfn cb) = Napi_closing\<rparr>) cbs,
       map (\<lambda>cb. Queued (cb_tsfn cb) \<lparr>cd_error = batch_error batch, cd_events = batch_events batch,
            cd_watcher = None, cd_callbackId = 0\<rparr>)
         (filter (\<lambda>cb. \<not> cb_closing cb \<and> status (cb_tsfn cb) = Napi_ok) cbs))" for batch cbs
    by (induction cbs) (auto split: napi_status.split)
  then show ?thesis by (simp add: watcher_triggerCallbacks_def split_def Let_def)
qed

text \<open>
  Watching and then unwatching a function restores the callbacks: the function made for it
  is released once, its reference dropped once, and \<open>unwatch\<close> reports an empty watcher exactly
  if there was no other callback.
\<close>

theorem watch_unwatch_roundtrip:
  assumes "findCallback thread fn w = None"
    and "watcher_watch env thread fn (Some t) w = (res, w1)" and "watcher_unwatch thread fn w1 = (b, w2, log)"
  shows "res = Inr True \<and> mCallbacks w2 = mCallbacks w \<and> (b \<longleftrightarrow> mCallbacks w = []) \<and>
    mCancelled w2 = b \<and> log = [Released t Tsfn_release, Unref fn]"
proof -
  let ?cb = "\<lparr>cb_id = mNextCallbackId w, cb_tsfn = t, cb_ref = fn, cb_env = env, cb_threadId = thread, cb_closing = False\<rparr>"
  have none: "List.find (is_callback thread fn) (mCallbacks w) = None" using assms(1) by (simp add: findCallback_def)
  have new: "is_callback thread fn ?cb" by (simp add: is_callback_def)
  have "List.find P xs = None \<Longrightarrow> P x \<Longrightarrow> List.find P (xs @ [x]) = Some x \<and> erase_first P (xs @ [x]) = xs"
    for P :: "callback \<Rightarrow> bool" and xs x
    by (induction xs) (auto split: if_splits)
  note last = this [OF none new]
  have w1: "res = Inr True" "w1 = w\<lparr>mCancelled := False, mCallbacks := mCallbacks w @ [?cb],
      mNextCallbackId := mNextCallbackId w + 1\<rparr>"
    using assms(1,2) by (auto simp: watcher_watch_def findCallback_def)
  have "findCallback thread fn w1 = Some ?cb" using last by (simp add: findCallback_def w1)
  then show ?thesis
    using assms(3) last w1 by (auto simp: watcher_unwatch_def drop_callback_def Let_def split: if_splits)
qed

lemma watch_unwatch_roundtrip_witness:
  "snd (snd (watcher_unwatch 2 3 (snd (watcher_watch 5 2 3 (Some 7) first_object)))) = [Released 7 Tsfn_release, Unref 3]"
proof -
  obtain res w1 where w: "watcher_watch 5 2 3 (Some 7) first_object = (res, w1)" by fastforce
  obtain b w2 log where u: "watcher_unwatch 2 3 w1 = (b, w2, log)" by (metis surj_pair)
  show ?thesis using watch_unwatch_roundtrip [OF _ w u] by (simp add: w u findCallback_def)
qed

subsection \<open>Cleaning up an environment\<close>

lemma cleanup_pass_result:
  assumes "distinct rs" and "fold (cleanup_pass env alive) rs (todo, wd) = (todo', wd')"
  shows "wd_obj wd' s = (if s \<in> set rs then fst (snd (cleanup_environment env alive (wd_obj wd s))) else wd_obj wd s)"
    and "wd_shared wd' = wd_shared wd"
    and "todo' = todo @ concat (map (\<lambda>r. case fst (cleanup_environment env alive (wd_obj wd r)) of
      None \<Rightarrow> [] | Some bs \<Rightarrow> [(r, bs)]) rs)"
  using assms
proof (induction rs arbitrary: todo wd)
  case (Cons r rs)
  {
    case 1
    then show ?case using Cons.IH(1) by (auto simp: cleanup_pass_def split_def Let_def wd_update_def)
  next
    case 2
    have "distinct rs" using 2 by simp
    note rest = Cons.IH(2) [OF this]
    have "fold (cleanup_pass env alive) rs (fst (cleanup_pass env alive r (todo, wd)), snd (cleanup_pass env alive r (todo, wd))) =
        (todo', wd')" using 2 by simp
    from rest [OF this] show ?case by (simp add: cleanup_pass_def split_def Let_def wd_update_def)
  next
    case 3
    define wd1 where "wd1 = snd (cleanup_pass env alive r (todo, wd))"
    define todo1 where "todo1 = fst (cleanup_pass env alive r (todo, wd))"
    have r: "distinct rs" "r \<notin> set rs" "fold (cleanup_pass env alive) rs (todo1, wd1) = (todo', wd')"
      using 3 by (simp_all add: wd1_def todo1_def)
    have "wd_obj wd1 s = wd_obj wd s" if "s \<in> set rs" for s
      using r(2) that by (auto simp: wd1_def cleanup_pass_def split_def Let_def wd_update_def)
    then have same: "map (\<lambda>s. case fst (cleanup_environment env alive (wd_obj wd1 s)) of None \<Rightarrow> [] | Some bs \<Rightarrow> [(s, bs)]) rs =
        map (\<lambda>s. case fst (cleanup_environment env alive (wd_obj wd s)) of None \<Rightarrow> [] | Some bs \<Rightarrow> [(s, bs)]) rs"
      by (intro map_cong) simp_all
    have "todo1 = todo @ (case fst (cleanup_environment env alive (wd_obj wd r)) of None \<Rightarrow> [] | Some bs \<Rightarrow> [(r, bs)])"
      by (simp add: todo1_def cleanup_pass_def split_def Let_def split: option.splits)
    then show ?case using Cons.IH(3) [OF r(1,3)] same by simp
  }
qed auto

lemma fold_unref_result:
  assumes "distinct (wd_shared wd)"
  shows "wd_obj (fold watcher_unref rs wd) = wd_obj wd \<and>
    wd_shared (fold watcher_unref rs wd) = filter (\<lambda>r. r \<in> set rs \<longrightarrow> in_use (wd_obj wd r)) (wd_shared wd)"
  using assms
proof (induction rs arbitrary: wd)
  case (Cons r rs)
  have obj: "wd_obj (watcher_unref r wd) = wd_obj wd"
    by (simp add: watcher_unref_def removeSharedLocked_def wd_obj_def fun_eq_iff)
  have shared: "wd_shared (watcher_unref r wd) = filter (\<lambda>s. s = r \<longrightarrow> in_use (wd_obj wd s)) (wd_shared wd)"
    using Cons.prems
    by (auto simp: watcher_unref_def removeSharedLocked_def in_use_def distinct_remove1_removeAll
        removeAll_filter_not_eq intro!: filter_cong)
  have "distinct (wd_shared (watcher_unref r wd))" using Cons.prems by (simp add: shared)
  from Cons.IH [OF this] show ?case
    by (auto simp: obj shared intro!: filter_cong)
qed simp

lemma cleanup_environment_result:
  "mCallbacks (fst (snd (cleanup_environment env alive w))) = filter (\<lambda>cb. cb_env cb \<noteq> env) (mCallbacks w)"
  "mSharedReservations (fst (snd (cleanup_environment env alive w))) = mSharedReservations w"
  "fst (cleanup_environment env alive w) =
    (if cb_env ` set (mCallbacks w) = {env} then Some (filter alive (mBackends w)) else None)"
proof -
  have "(filter (\<lambda>cb. cb_env cb = env) cbs \<noteq> [] \<and> filter (\<lambda>cb. cb_env cb \<noteq> env) cbs = []) =
      (cb_env ` set cbs = {env})" for cbs
    by (cases cbs) (auto simp: filter_empty_conv)
  from this [of "mCallbacks w"] show "fst (cleanup_environment env alive w) =
      (if cb_env ` set (mCallbacks w) = {env} then Some (filter alive (mBackends w)) else None)"
    by (auto simp: cleanup_environment_def Let_def)
qed (simp_all add: cleanup_environment_def Let_def)

text \<open>
  \<open>cleanupEnvironment\<close> removes exactly the callbacks of its environment, from every watcher;
  the watchers that had no others, and on which nobody holds a reservation, leave the registry,
  and exactly their living backends are told to unwatch.
\<close>

theorem cleanup_removes_environment:
  assumes "watch_reachable p" and "cleanupEnvironment env alive (world p) = (calls, wd)"
  shows "(\<forall>r. wd_objs (world p) r \<noteq> None \<longrightarrow>
      mCallbacks (wd_obj wd r) = filter (\<lambda>cb. cb_env cb \<noteq> env) (mCallbacks (wd_obj (world p) r))) \<and>
    wd_shared wd = filter (\<lambda>r. cb_env ` set (mCallbacks (wd_obj (world p) r)) = {env} \<longrightarrow> r \<in> set (held p))
      (wd_shared (world p)) \<and>
    calls = concat (map (\<lambda>r. map (Pair r) (filter alive (mBackends (wd_obj (world p) r))))
      (filter (\<lambda>r. cb_env ` set (mCallbacks (wd_obj (world p) r)) = {env}) (wd_shared (world p))))"
proof -
  note inv = registry_invD [OF registry_inv_reachable [OF assms(1)]]
  obtain todo wd1 where pass: "fold (cleanup_pass env alive) (wd_shared (world p)) ([], world p) = (todo, wd1)"
    by fastforce
  note result = cleanup_pass_result [OF inv(2) pass]
  let ?env = "\<lambda>r. cb_env ` set (mCallbacks (wd_obj (world p) r)) = {env}"
  have todo: "todo = map (\<lambda>r. (r, filter alive (mBackends (wd_obj (world p) r)))) (filter ?env (wd_shared (world p)))"
  proof -
    have "concat (map (\<lambda>r. case if ?env r then Some (f r) else None of None \<Rightarrow> [] | Some bs \<Rightarrow> [(r, bs)]) rs) =
        map (\<lambda>r. (r, f r)) (filter ?env rs)" for f :: "wref \<Rightarrow> bref list" and rs
      by (induction rs) auto
    then show ?thesis using result(3) by (simp add: cleanup_environment_result)
  qed
  have "fold (\<lambda>(r, bs). watcher_unref r) td wd = fold watcher_unref (map fst td) wd" for td :: "(wref \<times> bref list) list" and wd
    by (induction td arbitrary: wd) auto
  then have wd: "wd = fold watcher_unref (map fst todo) wd1" and calls: "calls = concat (map (\<lambda>(r, bs). map (Pair r) bs) todo)"
    using assms(2) by (auto simp: cleanupEnvironment_def pass)
  have unref: "wd_obj wd = wd_obj wd1" "wd_shared wd = filter (\<lambda>r. r \<in> set (map fst todo) \<longrightarrow> in_use (wd_obj wd1 r)) (wd_shared wd1)"
    using fold_unref_result [of wd1 "map fst todo"] inv(2) result(2) by (simp_all add: wd)
  have callbacks: "mCallbacks (wd_obj wd r) = filter (\<lambda>cb. cb_env cb \<noteq> env) (mCallbacks (wd_obj (world p) r))"
    if "wd_objs (world p) r \<noteq> None" for r
  proof (cases "r \<in> set (wd_shared (world p))")
    case False
    then have "mCallbacks (wd_obj (world p) r) = []" using inv(1,9) [of r] that by (auto simp: in_use_def)
    then show ?thesis using False by (simp add: unref result(1))
  qed (simp add: unref result(1) cleanup_environment_result)
  have "wd_shared wd = filter (\<lambda>r. ?env r \<longrightarrow> r \<in> set (held p)) (wd_shared (world p))"
    unfolding unref(2) result(2)
  proof (rule filter_cong [OF refl])
    fix r
    assume r: "r \<in> set (wd_shared (world p))"
    have "unat (mSharedReservations (wd_obj (world p) r)) = count_list (held p) r" by (rule inv(6) [OF inv(3) [OF r]])
    then have "mSharedReservations (wd_obj (world p) r) \<noteq> 0 \<longleftrightarrow> r \<in> set (held p)"
      by (metis count_list_0_iff unat_0 unat_eq_zero)
    moreover have "?env r \<Longrightarrow> filter (\<lambda>cb. cb_env cb \<noteq> env) (mCallbacks (wd_obj (world p) r)) = []"
      by (auto simp: filter_empty_conv)
    ultimately have "?env r \<Longrightarrow> in_use (wd_obj wd1 r) \<longleftrightarrow> r \<in> set (held p)"
      using r by (simp add: in_use_def result(1) cleanup_environment_result)
    then show "(r \<in> set (map fst todo) \<longrightarrow> in_use (wd_obj wd1 r)) = (?env r \<longrightarrow> r \<in> set (held p))"
      using r by (auto simp: todo)
  qed
  moreover have "calls = concat (map (\<lambda>r. map (Pair r) (filter alive (mBackends (wd_obj (world p) r))))
      (filter ?env (wd_shared (world p))))"
    by (simp add: calls todo comp_def)
  ultimately show ?thesis using callbacks by blast
qed

lemma cleanup_removes_environment_witness:
  "mCallbacks (wd_obj (snd (cleanupEnvironment 5 (\<lambda>b. True) (world one_watcher))) 0) = []"
proof -
  obtain calls wd where c: "cleanupEnvironment 5 (\<lambda>b. True) (world one_watcher) = (calls, wd)" by fastforce
  show ?thesis
    using cleanup_removes_environment [OF one_watcher_reachable c] one_watcher_object(1)
    by (simp add: c wd_obj_def first_callback_def)
qed

text \<open>
  Every complete call of the registry's interface (\<open>unwatch\<close>, \<open>finishErrorCallback\<close>,
  \<open>destroy\<close>, \<open>releaseShared\<close>, \<open>cancelEnvironment\<close>, \<open>cleanupEnvironment\<close>) is a sequence of the
  atomic steps that other threads can interleave with, so every invariant of the steps holds
  of the calls too.
\<close>

theorem calls_are_steps:
  assumes "watch_reachable p" and "wd_objs (world p) r \<noteq> None"
  shows "watch_step^** p (p\<lparr>world := snd (unwatch r thread fn (world p))\<rparr>) \<and>
    watch_step^** p (p\<lparr>world := finishErrorCallback r i (world p)\<rparr>) \<and>
    watch_step^** p (p\<lparr>world := watcher_destroy r (world p)\<rparr>) \<and>
    (r \<in> set (held p) \<longrightarrow>
      watch_step^** p (p\<lparr>world := releaseShared r (world p), held := remove1 r (held p)\<rparr>)) \<and>
    watch_step^** p (p\<lparr>world := cancelEnvironment env (world p)\<rparr>) \<and>
    watch_step^** p (p\<lparr>world := snd (cleanupEnvironment env alive (world p))\<rparr>)"
proof -
  note inv = registry_inv_reachable [OF assms(1)]
  have objs: "wd_objs (world p) s \<noteq> None" if "s \<in> set (wd_shared (world p))" for s
    using registry_invD(1,3) [OF inv] that by simp
  show ?thesis
    using unwatch_steps [OF assms(2)] finishErrorCallback_steps [OF assms(2)] destroy_steps [OF assms(2)]
      releaseShared_steps cancelEnvironment_steps [OF objs] cleanupEnvironment_steps [OF objs registry_invD(2) [OF inv]]
    by blast
qed

lemma calls_are_steps_witness:
  "watch_step^** one_watcher (one_watcher\<lparr>world := finishErrorCallback 0 1 (world one_watcher)\<rparr>)"
  using calls_are_steps [OF one_watcher_reachable, of 0] one_watcher_object(1) by simp

end
