(* ===== verification/Backends.thy ===== *)
theory Backends
  imports Watchers
begin

section \<open>Backends and their registry (src/Backend.hh, src/Backend.cc)\<close>

text \<open>
  A backend keeps the watchers subscribed with it, those whose subscription has become invalid,
  and those whose subscription is under way. What a derived class does to subscribe and
  unsubscribe is a parameter: a function of the watcher's shared fields (\<open>watched\<close>) and of the
  state \<open>bk_impl\<close> of the derived class, which returns the error it throws, if any. Names with
  \<open>bk_\<close> are members of one backend, names with \<open>bs_\<close> belong to the process.
\<close>

record watched =
  wt_state :: "nat option"
  wt_needsResubscribe :: bool

type_synonym 's subscriber = "wref \<Rightarrow> watched \<times> 's \<Rightarrow> string option \<times> watched \<times> 's"

record 's backend =
  bk_subscriptions :: "wref list"
  bk_invalid :: "wref list"
  bk_pending :: "wref list"
  bk_reservations :: u64
  bk_impl :: 's

definition backend_new :: "'s \<Rightarrow> 's backend" where
  "backend_new s = \<lparr>bk_subscriptions = [], bk_invalid = [], bk_pending = [], bk_reservations = 0, bk_impl = s\<rparr>"

subsection \<open>Subscribing a watcher\<close>

text \<open>
  \<open>watch\<close> holds the lock twice: first to start the subscription, then to finish it, with
  \<open>finishSubscribe\<close> in between. How the first part ends: nothing more to do, an exception
  (after which a backend that got no subscription calls \<open>unref\<close>), or a subscription to finish
  with the state it had then.
\<close>

datatype watch_result =
    Watch_done
  | Watch_failed string
  | Watch_failed_unref string
  | Watch_subscribed bool "nat option"

definition watch_begin ::
  "'s subscriber \<Rightarrow> wref \<Rightarrow> bool \<Rightarrow> watched \<times> 's backend \<Rightarrow> watch_result \<times> watched \<times> 's backend" where
  "watch_begin subscribe r cancelled wb =
     (let (wt, b) = wb in
      if cancelled then (Watch_done, wt, b)
      else
        (let isNew = (r \<notin> set (bk_subscriptions b));
             needsResubscribe = wt_needsResubscribe wt;
             wt1 = wt\<lparr>wt_needsResubscribe := False\<rparr>;
             b1 = (if isNew then b else b\<lparr>bk_invalid := removeAll r (bk_invalid b)\<rparr>);
             wasInvalid = (\<not> isNew \<and> (r \<in> set (bk_invalid b) \<or> needsResubscribe)) in
         if isNew \<or> wasInvalid then
           (let b2 = b1\<lparr>bk_pending := List.insert r (bk_pending b1)\<rparr> in
            (case subscribe r (wt1, bk_impl b2) of
               (None, wt2, s) \<Rightarrow> (Watch_subscribed wasInvalid (wt_state wt2), wt2, b2\<lparr>bk_impl := s\<rparr>)
             | (Some err, wt2, s) \<Rightarrow>
                 (let b3 = b2\<lparr>bk_impl := s, bk_pending := removeAll r (bk_pending b2)\<rparr> in
                  if wasInvalid
                  then (Watch_failed err, wt2, b3\<lparr>bk_invalid := List.insert r (bk_invalid b3)\<rparr>)
                  else (Watch_failed_unref err, wt2, b3))))
         else (Watch_done, wt1, b1)))"

definition watch_end ::
  "wref \<Rightarrow> bool \<Rightarrow> nat option \<Rightarrow> string option \<Rightarrow> watched \<times> 's backend \<Rightarrow> watch_result \<times> watched \<times> 's backend" where
  "watch_end r wasInvalid state finishError wb =
     (let (wt, b) = wb; b1 = b\<lparr>bk_pending := removeAll r (bk_pending b)\<rparr> in
      (case finishError of
         None \<Rightarrow> (Watch_done, wt, b1\<lparr>bk_subscriptions := List.insert r (bk_subscriptions b1)\<rparr>)
       | Some err \<Rightarrow>
           (let wt1 = (if wt_state wt = state then wt\<lparr>wt_state := None\<rparr> else wt) in
            if wasInvalid
            then (Watch_failed err, wt1, b1\<lparr>bk_invalid := List.insert r (bk_invalid b1)\<rparr>)
            else (Watch_failed_unref err, wt1, b1))))"

text \<open>\<open>unwatch\<close>, likewise in two parts around \<open>finishUnsubscribe\<close>.\<close>

datatype unwatch_result = Unwatch_done | Unwatch_failed string | Unwatch_unsubscribed "nat option"

definition unwatch_begin ::
  "'s subscriber \<Rightarrow> wref \<Rightarrow> bool \<Rightarrow> bool \<Rightarrow> watched \<times> 's backend \<Rightarrow> unwatch_result \<times> watched \<times> 's backend" where
  "unwatch_begin unsubscribe r force has_callbacks wb =
     (let (wt, b) = wb in
      if \<not> force \<and> has_callbacks then (Unwatch_done, wt, b)
      else
        (let deleted = (r \<in> set (bk_subscriptions b)); wasInvalid = (r \<in> set (bk_invalid b));
             b1 = b\<lparr>bk_subscriptions := removeAll r (bk_subscriptions b), bk_invalid := removeAll r (bk_invalid b)\<rparr> in
         if deleted then
           (case unsubscribe r (wt, bk_impl b1) of
              (None, wt1, s) \<Rightarrow> (Unwatch_unsubscribed (wt_state wt), wt1, b1\<lparr>bk_impl := s\<rparr>)
            | (Some err, wt1, s) \<Rightarrow>
                (let b2 = b1\<lparr>bk_impl := s, bk_subscriptions := List.insert r (bk_subscriptions b1)\<rparr> in
                 (Unwatch_failed err, wt1,
                  if wasInvalid then b2\<lparr>bk_invalid := List.insert r (bk_invalid b2)\<rparr> else b2)))
         else (Unwatch_done, wt, b1)))"

text \<open>The end of \<open>unwatch\<close> on the watcher; \<open>unref\<close> of the backend follows.\<close>

definition unwatch_end :: "(bref \<Rightarrow> bool) \<Rightarrow> bref \<Rightarrow> watch_obj \<Rightarrow> watch_obj" where
  "unwatch_end alive b w = removeBackend alive b w"

definition invalidate :: "wref \<Rightarrow> 's backend \<Rightarrow> 's backend" where
  "invalidate r b =
     (if r \<in> set (bk_subscriptions b) then b\<lparr>bk_invalid := List.insert r (bk_invalid b)\<rparr> else b)"

text \<open>The locked part of \<open>handleError\<close>: the watchers that are told, in order.\<close>

definition handleError :: "('s \<Rightarrow> 's) \<Rightarrow> 's backend \<Rightarrow> wref list \<times> 's backend" where
  "handleError cleanupAfterError b =
     (bk_subscriptions b @ bk_pending b, b\<lparr>bk_impl := cleanupAfterError (bk_impl b)\<rparr>)"

subsection \<open>Starting up\<close>

text \<open>The thread of a backend reports once whether it started; \<open>run\<close> waits for the report.\<close>

record startup =
  st_complete :: bool
  st_error :: string

definition startup_new :: startup where
  "startup_new = \<lparr>st_complete = False, st_error = []\<rparr>"

definition notifyStarted :: "startup \<Rightarrow> startup" where
  "notifyStarted s = (if \<not> st_complete s then s\<lparr>st_complete := True\<rparr> else s)"

definition notifyStartupFailed :: "string \<Rightarrow> startup \<Rightarrow> startup" where
  "notifyStartupFailed err s = (if \<not> st_complete s then s\<lparr>st_error := err, st_complete := True\<rparr> else s)"

text \<open>What \<open>run\<close> throws, if anything, once it need not wait any longer.\<close>

definition run_result :: "startup \<Rightarrow> string option option" where
  "run_result s = (if \<not> st_complete s then None else Some (if st_error s \<noteq> [] then Some (st_error s) else None))"

subsection \<open>The registry\<close>

datatype backend_kind = FSEventsBackend | WindowsBackend | InotifyBackend

text \<open>The macros the build defines.\<close>

record build =
  FS_EVENTS :: bool
  WINDOWS :: bool
  INOTIFY :: bool

definition getBackend :: "build \<Rightarrow> string \<Rightarrow> backend_kind option" where
  "getBackend build backend =
     (if FS_EVENTS build \<and> (backend = ''fs-events'' \<or> backend = ''default'') then Some FSEventsBackend
      else if WINDOWS build \<and> (backend = ''windows'' \<or> backend = ''default'') then Some WindowsBackend
      else if INOTIFY build \<and> (backend = ''inotify'' \<or> backend = ''default'') then Some InotifyBackend
      else None)"

record 's backends =
  bs_objs :: "bref \<Rightarrow> 's backend option"
  bs_shared :: "(string \<times> bref) list"
  bs_nextRef :: bref
  bs_stops :: "bref list"

definition backends_new :: "'s backends" where
  "backends_new = \<lparr>bs_objs = (\<lambda>b. None), bs_shared = [], bs_nextRef = 0, bs_stops = []\<rparr>"

definition bs_obj :: "'s backends \<Rightarrow> bref \<Rightarrow> 's backend" where
  "bs_obj bs b = the (bs_objs bs b)"

definition bs_set :: "bref \<Rightarrow> 's backend \<Rightarrow> 's backends \<Rightarrow> 's backends" where
  "bs_set b x bs = bs\<lparr>bs_objs := (bs_objs bs)(b := Some x)\<rparr>"

definition make_backend :: "'s \<Rightarrow> 's backends \<Rightarrow> bref \<times> 's backends" where
  "make_backend s bs =
     (bs_nextRef bs, (bs_set (bs_nextRef bs) (backend_new s) bs)\<lparr>bs_nextRef := bs_nextRef bs + 1\<rparr>)"

definition reserve_backend :: "bref \<Rightarrow> 's backends \<Rightarrow> 's backends" where
  "reserve_backend b bs = bs_set b ((bs_obj bs b)\<lparr>bk_reservations := bk_reservations (bs_obj bs b) + 1\<rparr>) bs"

definition stop_backend :: "bref \<Rightarrow> 's backends \<Rightarrow> 's backends" where
  "stop_backend b bs = bs\<lparr>bs_stops := b # bs_stops bs\<rparr>"

text \<open>\<open>emplace\<close> keeps an entry that is already there; the entry is reserved under the same lock.\<close>

definition emplace_backend :: "string \<Rightarrow> bref \<Rightarrow> 's backends \<Rightarrow> bref \<times> 's backends" where
  "emplace_backend name b bs =
     (case map_of (bs_shared bs) name of
        Some selected \<Rightarrow> (selected, reserve_backend selected bs)
      | None \<Rightarrow> (b, reserve_backend b (bs\<lparr>bs_shared := bs_shared bs @ [(name, b)]\<rparr>)))"

text \<open>\<open>startup b\<close> is what \<open>run\<close> throws for a new object \<open>b\<close>, the empty string if nothing.\<close>

partial_function (option) backend_getShared ::
  "build \<Rightarrow> (backend_kind \<Rightarrow> 's) \<Rightarrow> (bref \<Rightarrow> string) \<Rightarrow> string \<Rightarrow> 's backends \<Rightarrow> ((string + bref) \<times> 's backends) option" where
  "backend_getShared build init startup name bs =
     (case map_of (bs_shared bs) name of
        Some b \<Rightarrow> Some (Inr b, reserve_backend b bs)
      | None \<Rightarrow>
          (case getBackend build name of
             None \<Rightarrow> backend_getShared build init startup ''default'' bs
           | Some kind \<Rightarrow>
               (let (b, bs1) = make_backend (init kind) bs in
                if startup b \<noteq> [] then Some (Inl (startup b), bs1)
                else
                  (let (selected, bs2) = emplace_backend name b bs1 in
                   Some (Inr selected, if selected \<noteq> b then stop_backend b bs2 else bs2)))))"

definition backend_removeSharedLocked :: "bref \<Rightarrow> 's backends \<Rightarrow> 's backends" where
  "backend_removeSharedLocked b bs = bs\<lparr>bs_shared := erase_first (\<lambda>e. snd e = b) (bs_shared bs)\<rparr>"

definition backend_unref :: "bref \<Rightarrow> 's backends \<Rightarrow> 's backends" where
  "backend_unref b bs =
     (if bk_subscriptions (bs_obj bs b) = [] \<and> bk_pending (bs_obj bs b) = [] \<and> bk_reservations (bs_obj bs b) = 0
      then backend_removeSharedLocked b (stop_backend b bs) else bs)"

definition release_backend :: "bref \<Rightarrow> 's backends \<Rightarrow> bool \<times> 's backends" where
  "release_backend b bs =
     (let n = bk_reservations (bs_obj bs b) in
      (n = 1, bs_set b ((bs_obj bs b)\<lparr>bk_reservations := n - 1\<rparr>) bs))"

definition backend_releaseShared :: "bref \<Rightarrow> 's backends \<Rightarrow> 's backends" where
  "backend_releaseShared b bs =
     (let (last_one, bs') = release_backend b bs in if last_one then backend_unref b bs' else bs')"

subsection \<open>All interleavings\<close>

text \<open>
  The calls under way between two locked parts: the unlocked middle of \<open>watch\<close> and \<open>unwatch\<close>, a
  pending \<open>unref\<close>, and an object that \<open>getShared\<close> made outside the lock, before it is registered
  (\<open>Created\<close>) or, when another thread registered the name first, stopped (\<open>Losing\<close>). When
  \<open>run\<close> throws, \<open>getShared\<close> throws too: the object is neither registered nor stopped, and \<open>Failed\<close> stays
  as the mark of a thread that did not start.
\<close>

datatype call =
    Subscribing bref wref bool "nat option"
  | Unsubscribing bref wref
  | Unreferencing bref
  | Created string bref
  | Losing bref
  | Failed bref

fun call_of :: "bref \<Rightarrow> call \<Rightarrow> bool" where
  "call_of b (Subscribing c r w st) = (c = b)"
| "call_of b (Unsubscribing c r) = (c = b)"
| "call_of b (Unreferencing c) = (c = b)"
| "call_of b (Created name c) = (c = b)"
| "call_of b (Losing c) = (c = b)"
| "call_of b (Failed c) = (c = b)"

record 's backend_process =
  bp_backends :: "'s backends"
  bp_watched :: "wref \<Rightarrow> watched"
  bp_calls :: "call list"
  bp_held :: "bref list"

definition watch_calls :: "bref \<Rightarrow> wref \<Rightarrow> watch_result \<Rightarrow> call list" where
  "watch_calls b r res =
     (case res of Watch_subscribed wasInvalid st \<Rightarrow> [Subscribing b r wasInvalid st]
      | Watch_failed_unref err \<Rightarrow> [Unreferencing b] | _ \<Rightarrow> [])"

definition unwatch_calls :: "bref \<Rightarrow> wref \<Rightarrow> unwatch_result \<Rightarrow> call list" where
  "unwatch_calls b r res = (case res of Unwatch_unsubscribed st \<Rightarrow> [Unsubscribing b r] | _ \<Rightarrow> [])"

text \<open>The backend \<open>b\<close> and the fields of watcher \<open>r\<close>, and putting them back.\<close>

definition bp_get :: "'s backend_process \<Rightarrow> bref \<Rightarrow> wref \<Rightarrow> watched \<times> 's backend" where
  "bp_get p b r = (bp_watched p r, bs_obj (bp_backends p) b)"

definition bp_put :: "bref \<Rightarrow> wref \<Rightarrow> watched \<times> 's backend \<Rightarrow> 's backend_process \<Rightarrow> 's backend_process" where
  "bp_put b r wb p =
     p\<lparr>bp_backends := bs_set b (snd wb) (bp_backends p), bp_watched := (bp_watched p)(r := fst wb)\<rparr>"

inductive backend_step ::
  "'s subscriber \<Rightarrow> 's subscriber \<Rightarrow> 's backend_process \<Rightarrow> 's backend_process \<Rightarrow> bool"
  for subscribe unsubscribe where
  found:
    "map_of (bs_shared (bp_backends p)) name = Some b \<Longrightarrow> length (bp_held p) < 2 ^ 64 - 1 \<Longrightarrow>
     backend_step subscribe unsubscribe p
       (p\<lparr>bp_backends := reserve_backend b (bp_backends p), bp_held := b # bp_held p\<rparr>)"
| create:
    "make_backend s (bp_backends p) = (b, bs) \<Longrightarrow>
     backend_step subscribe unsubscribe p (p\<lparr>bp_backends := bs, bp_calls := Created name b # bp_calls p\<rparr>)"
| register:
    "Created name b \<in> set (bp_calls p) \<Longrightarrow> length (bp_held p) < 2 ^ 64 - 1 \<Longrightarrow>
     emplace_backend name b (bp_backends p) = (selected, bs) \<Longrightarrow>
     backend_step subscribe unsubscribe p
       (p\<lparr>bp_backends := bs, bp_held := selected # bp_held p,
          bp_calls := (if selected \<noteq> b then [Losing b] else []) @ remove1 (Created name b) (bp_calls p)\<rparr>)"
| run_throws:
    "Created name b \<in> set (bp_calls p) \<Longrightarrow>
     backend_step subscribe unsubscribe p (p\<lparr>bp_calls := Failed b # remove1 (Created name b) (bp_calls p)\<rparr>)"
| stop_loser:
    "Losing b \<in> set (bp_calls p) \<Longrightarrow>
     backend_step subscribe unsubscribe p
       (p\<lparr>bp_backends := stop_backend b (bp_backends p), bp_calls := remove1 (Losing b) (bp_calls p)\<rparr>)"
| release:
    "b \<in> set (bp_held p) \<Longrightarrow> release_backend b (bp_backends p) = (last_one, bs) \<Longrightarrow>
     backend_step subscribe unsubscribe p
       (p\<lparr>bp_backends := bs, bp_held := remove1 b (bp_held p),
          bp_calls := (if last_one then [Unreferencing b] else []) @ bp_calls p\<rparr>)"
| watch:
    "b \<in> set (bp_held p) \<Longrightarrow> r \<notin> set (bk_pending (bs_obj (bp_backends p) b)) \<Longrightarrow>
     watch_begin subscribe r cancelled (bp_get p b r) = (res, wb) \<Longrightarrow>
     backend_step subscribe unsubscribe p ((bp_put b r wb p)\<lparr>bp_calls := watch_calls b r res @ bp_calls p\<rparr>)"
| subscribed:
    "Subscribing b r wasInvalid st \<in> set (bp_calls p) \<Longrightarrow>
     watch_end r wasInvalid st finishError (bp_get p b r) = (res, wb) \<Longrightarrow>
     backend_step subscribe unsubscribe p
       ((bp_put b r wb p)\<lparr>bp_calls := watch_calls b r res @ remove1 (Subscribing b r wasInvalid st) (bp_calls p)\<rparr>)"
| unwatch:
    "bs_objs (bp_backends p) b \<noteq> None \<Longrightarrow> \<not> (\<exists>name. Created name b \<in> set (bp_calls p)) \<Longrightarrow>
     Losing b \<notin> set (bp_calls p) \<Longrightarrow> Failed b \<notin> set (bp_calls p) \<Longrightarrow> r \<notin> set (bk_pending (bs_obj (bp_backends p) b)) \<Longrightarrow>
     unwatch_begin unsubscribe r force has_callbacks (bp_get p b r) = (res, wb) \<Longrightarrow>
     backend_step subscribe unsubscribe p ((bp_put b r wb p)\<lparr>bp_calls := unwatch_calls b r res @ bp_calls p\<rparr>)"
| unsubscribed:
    "Unsubscribing b r \<in> set (bp_calls p) \<Longrightarrow>
     backend_step subscribe unsubscribe p
       (p\<lparr>bp_calls := Unreferencing b # remove1 (Unsubscribing b r) (bp_calls p)\<rparr>)"
| unref:
    "Unreferencing b \<in> set (bp_calls p) \<Longrightarrow>
     backend_step subscribe unsubscribe p
       (p\<lparr>bp_backends := backend_unref b (bp_backends p), bp_calls := remove1 (Unreferencing b) (bp_calls p)\<rparr>)"
| invalidated:
    "bs_objs (bp_backends p) b \<noteq> None \<Longrightarrow>
     backend_step subscribe unsubscribe p
       (bp_put b r (bp_watched p r, invalidate r (bs_obj (bp_backends p) b)) p)"
| runs:
    "bs_objs (bp_backends p) b \<noteq> None \<Longrightarrow>
     backend_step subscribe unsubscribe p
       (bp_put b r (wt, (bs_obj (bp_backends p) b)\<lparr>bk_impl := s\<rparr>) p)"
| failed:
    "bs_objs (bp_backends p) b \<noteq> None \<Longrightarrow> handleError cleanupAfterError (bs_obj (bp_backends p) b) = (told, x) \<Longrightarrow>
     backend_step subscribe unsubscribe p (bp_put b r (bp_watched p r, x) p)"
| removed:
    "bs_objs (bp_backends p) b \<noteq> None \<Longrightarrow>
     backend_step subscribe unsubscribe p (p\<lparr>bp_backends := backend_removeSharedLocked b (bp_backends p)\<rparr>)"

definition backend_start :: "'s backend_process" where
  "backend_start = \<lparr>bp_backends = backends_new, bp_watched = (\<lambda>r. \<lparr>wt_state = None, wt_needsResubscribe = False\<rparr>),
     bp_calls = [], bp_held = []\<rparr>"

inductive backend_reachable :: "'s subscriber \<Rightarrow> 's subscriber \<Rightarrow> 's backend_process \<Rightarrow> bool"
  for subscribe unsubscribe where
  init: "backend_reachable subscribe unsubscribe backend_start"
| step: "backend_reachable subscribe unsubscribe p \<Longrightarrow> backend_step subscribe unsubscribe p p' \<Longrightarrow>
    backend_reachable subscribe unsubscribe p'"

subsection \<open>What holds of one backend\<close>

definition unused :: "'s backend \<Rightarrow> bool" where
  "unused b \<longleftrightarrow> bk_subscriptions b = [] \<and> bk_pending b = [] \<and> bk_reservations b = 0"

fun subscribers :: "call list \<Rightarrow> wref list" where
  "subscribers [] = []"
| "subscribers (Subscribing b r w st # cs) = r # subscribers cs"
| "subscribers (c # cs) = subscribers cs"

fun fresh_call :: "call \<Rightarrow> bool" where
  "fresh_call (Created name b) = True"
| "fresh_call (Losing b) = True"
| "fresh_call (Failed b) = True"
| "fresh_call c = False"

text \<open>
  A backend with the calls \<open>cs\<close> on it, \<open>n\<close> reservations held, and its place in the log of stops
  and in the registry.
\<close>

definition backend_ok :: "'s backend \<Rightarrow> call list \<Rightarrow> nat \<Rightarrow> bool \<Rightarrow> bool \<Rightarrow> bool" where
  "backend_ok x cs n stopped registered \<longleftrightarrow>
     distinct (bk_subscriptions x) \<and> set (bk_invalid x) \<subseteq> set (bk_subscriptions x) \<and>
     distinct (subscribers cs) \<and> set (subscribers cs) = set (bk_pending x) \<and>
     (\<forall>b r w st. Subscribing b r w st \<in> set cs \<longrightarrow> (w \<longleftrightarrow> r \<in> set (bk_subscriptions x))) \<and>
     unat (bk_reservations x) = n \<and>
     (stopped \<longrightarrow> unused x \<and> \<not> registered \<and> \<not> (\<exists>c \<in> set cs. fresh_call c)) \<and>
     ((\<exists>c \<in> set cs. fresh_call c) \<longrightarrow> unused x \<and> \<not> registered \<and> length cs = 1) \<and>
     (\<not> stopped \<longrightarrow> unused x \<longrightarrow>
       (\<exists>b r. Unreferencing b \<in> set cs \<or> Unsubscribing b r \<in> set cs) \<or> (\<exists>c \<in> set cs. fresh_call c))"

lemma subscribers_append [simp]: "subscribers (xs @ ys) = subscribers xs @ subscribers ys"
  by (induction xs rule: subscribers.induct) auto

lemma subscribers_iff: "r \<in> set (subscribers cs) \<longleftrightarrow> (\<exists>b w st. Subscribing b r w st \<in> set cs)"
  by (induction cs rule: subscribers.induct) auto

lemma subscribers_remove1:
  assumes "distinct (subscribers cs)" and "Subscribing b r w st \<in> set cs"
  shows "distinct (subscribers (remove1 (Subscribing b r w st) cs)) \<and>
    set (subscribers (remove1 (Subscribing b r w st) cs)) = set (subscribers cs) - {r}"
  using assms
proof (induction cs)
  case (Cons c cs)
  show ?case
  proof (cases "c = Subscribing b r w st")
    case False
    then have mem: "Subscribing b r w st \<in> set cs" using Cons.prems by simp
    then have "r \<in> set (subscribers cs)" by (auto simp: subscribers_iff)
    then show ?thesis using Cons mem False by (cases c) auto
  qed (use Cons.prems in auto)
qed simp

lemma subscribers_remove1_other:
  "(\<And>b r w st. c \<noteq> Subscribing b r w st) \<Longrightarrow> subscribers (remove1 c cs) = subscribers cs"
  by (induction cs rule: subscribers.induct) auto

lemma backend_okD:
  assumes "backend_ok x cs n stopped registered"
  shows "distinct (bk_subscriptions x)" "set (bk_invalid x) \<subseteq> set (bk_subscriptions x)"
    "distinct (subscribers cs)" "set (subscribers cs) = set (bk_pending x)"
    "Subscribing b r w st \<in> set cs \<Longrightarrow> w \<longleftrightarrow> r \<in> set (bk_subscriptions x)"
    "unat (bk_reservations x) = n"
    "stopped \<Longrightarrow> unused x \<and> \<not> registered \<and> \<not> (\<exists>c \<in> set cs. fresh_call c)"
    "\<exists>c \<in> set cs. fresh_call c \<Longrightarrow> unused x \<and> \<not> registered \<and> length cs = 1"
    "\<not> stopped \<Longrightarrow> unused x \<Longrightarrow>
      (\<exists>b r. Unreferencing b \<in> set cs \<or> Unsubscribing b r \<in> set cs) \<or> (\<exists>c \<in> set cs. fresh_call c)"
  using assms unfolding backend_ok_def by blast+

text \<open>A backend somebody holds is neither stopped nor fresh.\<close>

lemma backend_ok_held:
  assumes "backend_ok x cs n stopped registered" and "0 < n"
  shows "\<not> stopped" "\<not> (\<exists>c \<in> set cs. fresh_call c)" "bk_reservations x \<noteq> 0"
proof -
  show "bk_reservations x \<noteq> 0" using backend_okD(6) [OF assms(1)] assms(2) by auto
  then have "\<not> unused x" by (simp add: unused_def)
  then show "\<not> stopped" "\<not> (\<exists>c \<in> set cs. fresh_call c)" using backend_okD(7,8) [OF assms(1)] by blast+
qed

text \<open>What is to be shown of a backend that is neither stopped nor fresh.\<close>

lemma backend_ok_change:
  assumes "\<not> stopped" "distinct (bk_subscriptions y)" "set (bk_invalid y) \<subseteq> set (bk_subscriptions y)"
    and "distinct (subscribers ds)" "set (subscribers ds) = set (bk_pending y)"
    and "\<And>b r w st. Subscribing b r w st \<in> set ds \<Longrightarrow> w \<longleftrightarrow> r \<in> set (bk_subscriptions y)"
    and "unat (bk_reservations y) = m" and "\<not> (\<exists>c \<in> set ds. fresh_call c)"
    and "unused y \<Longrightarrow> \<exists>b r. Unreferencing b \<in> set ds \<or> Unsubscribing b r \<in> set ds"
  shows "backend_ok y ds m stopped registered'"
  using assms by (simp add: backend_ok_def)

lemma ok_reserve:
  assumes ok: "backend_ok x cs n stopped registered" and live: "\<not> stopped" "\<not> (\<exists>c \<in> set cs. fresh_call c)"
    and n: "Suc n < 2 ^ 64"
  shows "backend_ok (x\<lparr>bk_reservations := bk_reservations x + 1\<rparr>) cs (Suc n) stopped registered'"
proof (rule backend_ok_change [OF live(1)])
  show "unat (bk_reservations (x\<lparr>bk_reservations := bk_reservations x + 1\<rparr>)) = Suc n"
    using backend_okD(6) [OF ok] n unat_add_lem [of "bk_reservations x" 1] by simp
  then have "bk_reservations x + 1 \<noteq> 0" by auto
  then show "\<exists>b r. Unreferencing b \<in> set cs \<or> Unsubscribing b r \<in> set cs"
    if "unused (x\<lparr>bk_reservations := bk_reservations x + 1\<rparr>)"
    using that by (simp add: unused_def)
qed (use backend_okD [OF ok] live in simp_all)

lemma ok_release:
  assumes ok: "backend_ok x cs n stopped registered" and n: "0 < n"
  shows "backend_ok (x\<lparr>bk_reservations := bk_reservations x - 1\<rparr>)
    ((if bk_reservations x = 1 then [Unreferencing b] else []) @ cs) (n - 1) stopped registered"
proof (rule backend_ok_change [OF backend_ok_held(1) [OF ok n]])
  have "bk_reservations x \<noteq> 0" by (rule backend_ok_held(3) [OF ok n])
  then show "unat (bk_reservations (x\<lparr>bk_reservations := bk_reservations x - 1\<rparr>)) = n - 1"
    using backend_okD(6) [OF ok] by (simp add: unat_minus_one)
  show "\<exists>b' r. Unreferencing b' \<in> set ((if bk_reservations x = 1 then [Unreferencing b] else []) @ cs) \<or>
      Unsubscribing b' r \<in> set ((if bk_reservations x = 1 then [Unreferencing b] else []) @ cs)"
    if "unused (x\<lparr>bk_reservations := bk_reservations x - 1\<rparr>)"
    using that by (auto simp: unused_def)
qed (use backend_okD [OF ok] backend_ok_held [OF ok n] in \<open>auto split: if_splits\<close>)

lemma watch_begin_effect:
  assumes "watch_begin subscribe r cancelled (wt, x) = (res, wt', y)"
  shows "bk_subscriptions y = bk_subscriptions x" "bk_reservations y = bk_reservations x"
    "set (bk_invalid y) \<subseteq> insert r (set (bk_invalid x))"
    "r \<notin> set (bk_subscriptions x) \<Longrightarrow> bk_invalid y = bk_invalid x"
    "(\<exists>st. res = Watch_subscribed (r \<in> set (bk_subscriptions x)) st \<and> set (bk_pending y) = insert r (set (bk_pending x))) \<or>
     (\<forall>w st. res \<noteq> Watch_subscribed w st) \<and> (r \<notin> set (bk_pending x) \<longrightarrow> set (bk_pending y) = set (bk_pending x))"
  using assms by (auto simp: watch_begin_def Let_def split: if_splits prod.splits option.splits)

lemma ok_watch:
  assumes ok: "backend_ok x cs n stopped registered" and n: "0 < n" and r: "r \<notin> set (bk_pending x)"
    and watch: "watch_begin subscribe r cancelled (wt, x) = (res, wt', y)"
  shows "backend_ok y (watch_calls b r res @ cs) n stopped registered"
proof (rule backend_ok_change [OF backend_ok_held(1) [OF ok n]])
  note y = watch_begin_effect [OF watch]
  note invs = backend_okD [OF ok]
  show "unat (bk_reservations y) = n" using invs(6) y(2) by simp
  show "distinct (bk_subscriptions y)" using invs(1) y(1) by simp
  show "set (bk_invalid y) \<subseteq> set (bk_subscriptions y)"
    using invs(2) y(1,3,4) by (cases "r \<in> set (bk_subscriptions x)") auto
  have new: "r \<notin> set (subscribers cs)" using invs(4) r by simp
  consider st where "res = Watch_subscribed (r \<in> set (bk_subscriptions x)) st"
      "set (bk_pending y) = insert r (set (bk_pending x))"
    | "\<forall>w st. res \<noteq> Watch_subscribed w st" "set (bk_pending y) = set (bk_pending x)"
    using y(5) r by blast
  then have "distinct (subscribers (watch_calls b r res @ cs)) \<and>
      set (subscribers (watch_calls b r res @ cs)) = set (bk_pending y) \<and>
      (\<forall>b' r' w st. Subscribing b' r' w st \<in> set (watch_calls b r res @ cs) \<longrightarrow> (w \<longleftrightarrow> r' \<in> set (bk_subscriptions y)))"
  proof cases
    case (1 st)
    then show ?thesis using invs(3-5) new y(1) by (auto simp: watch_calls_def)
  next
    case 2
    then have "subscribers (watch_calls b r res) = []"
        "Subscribing b' r' w st \<notin> set (watch_calls b r res)" for b' r' w st
      by (simp_all add: watch_calls_def split: watch_result.splits)
    then show ?thesis using invs(3-5) 2 y(1) by auto
  qed
  then show "distinct (subscribers (watch_calls b r res @ cs))"
      "set (subscribers (watch_calls b r res @ cs)) = set (bk_pending y)"
      "\<And>b' r' w st. Subscribing b' r' w st \<in> set (watch_calls b r res @ cs) \<Longrightarrow> w \<longleftrightarrow> r' \<in> set (bk_subscriptions y)"
    by blast+
  show "\<not> (\<exists>c \<in> set (watch_calls b r res @ cs). fresh_call c)"
    using backend_ok_held(2) [OF ok n] by (auto simp: watch_calls_def split: watch_result.splits)
  show "\<exists>b' r'. Unreferencing b' \<in> set (watch_calls b r res @ cs) \<or> Unsubscribing b' r' \<in> set (watch_calls b r res @ cs)"
    if "unused y"
    using that backend_ok_held(3) [OF ok n] y(2) by (simp add: unused_def)
qed

lemma watch_end_effect:
  assumes "watch_end r wasInvalid st err (wt, x) = (res, wt', y)"
  shows "bk_reservations y = bk_reservations x" "bk_pending y = removeAll r (bk_pending x)"
    "err = None \<Longrightarrow> res = Watch_done \<and> bk_subscriptions y = List.insert r (bk_subscriptions x) \<and> bk_invalid y = bk_invalid x"
    "err \<noteq> None \<Longrightarrow> bk_subscriptions y = bk_subscriptions x"
    "err = Some e \<Longrightarrow> wasInvalid \<Longrightarrow> res = Watch_failed e \<and> bk_invalid y = List.insert r (bk_invalid x)"
    "err = Some e \<Longrightarrow> \<not> wasInvalid \<Longrightarrow> res = Watch_failed_unref e \<and> bk_invalid y = bk_invalid x"
  using assms by (auto simp: watch_end_def Let_def split: option.splits if_splits)

lemma watch_calls_simps [simp]:
  "watch_calls b r Watch_done = []" "watch_calls b r (Watch_failed e) = []"
  "watch_calls b r (Watch_failed_unref e) = [Unreferencing b]"
  by (simp_all add: watch_calls_def)

lemma ok_subscribed:
  assumes ok: "backend_ok x cs n stopped registered" and call: "Subscribing b r w st \<in> set cs"
    and finish: "watch_end r w st err (wt, x) = (res, wt', y)"
  shows "backend_ok y (watch_calls b r res @ remove1 (Subscribing b r w st) cs) n stopped registered"
proof -
  note invs = backend_okD [OF ok] and y = watch_end_effect [OF finish]
  let ?ds = "remove1 (Subscribing b r w st) cs"
  have "r \<in> set (subscribers cs)" using call subscribers_iff by blast
  then have pending: "r \<in> set (bk_pending x)" by (simp only: invs(4))
  then have "\<not> unused x" by (auto simp: unused_def)
  then have live: "\<not> stopped" "\<not> (\<exists>c \<in> set cs. fresh_call c)" using invs(7,8) by blast+
  have w: "w \<longleftrightarrow> r \<in> set (bk_subscriptions x)" by (rule invs(5) [OF call])
  have ds: "distinct (subscribers ?ds)" "set (subscribers ?ds) = set (bk_pending x) - {r}"
    using subscribers_remove1 [OF invs(3) call] invs(4) by auto
  have res: "subscribers (watch_calls b r res) = []" "\<not> (\<exists>c \<in> set (watch_calls b r res). fresh_call c)"
    using y(3,5,6) by (cases err; cases w; auto)+
  have other: "r' \<noteq> r" if "Subscribing b' r' w' st' \<in> set (watch_calls b r res @ ?ds)" for b' r' w' st'
  proof -
    have "r' \<in> set (subscribers (watch_calls b r res @ ?ds))" using that subscribers_iff by blast
    then show ?thesis using res ds by auto
  qed
  have old: "Subscribing b' r' w' st' \<in> set cs" if "Subscribing b' r' w' st' \<in> set (watch_calls b r res @ ?ds)" for b' r' w' st'
  proof -
    have "Subscribing b' r' w' st' \<notin> set (watch_calls b r res)" using res(1) subscribers_iff [of r' "watch_calls b r res"] by auto
    then show ?thesis using that set_remove1_subset [of _ cs] by auto
  qed
  have subs: "set (bk_subscriptions y) = (if err = None then insert r (set (bk_subscriptions x)) else set (bk_subscriptions x))"
    using y(3,4) by auto
  show ?thesis
  proof (rule backend_ok_change [OF live(1)])
    show "distinct (bk_subscriptions y)" using invs(1) y(3,4) by (cases err) auto
    show "set (bk_invalid y) \<subseteq> set (bk_subscriptions y)"
      using invs(2) y(3-6) w by (cases err; cases w) auto
    show "distinct (subscribers (watch_calls b r res @ ?ds))" using res ds by simp
    show "set (subscribers (watch_calls b r res @ ?ds)) = set (bk_pending y)" using res ds y(2) by simp
    show "w' \<longleftrightarrow> r' \<in> set (bk_subscriptions y)" if "Subscribing b' r' w' st' \<in> set (watch_calls b r res @ ?ds)" for b' r' w' st'
      using invs(5) [OF old [OF that]] other [OF that] by (simp add: subs)
    show "unat (bk_reservations y) = n" using invs(6) y(1) by simp
    show "\<not> (\<exists>c \<in> set (watch_calls b r res @ ?ds). fresh_call c)"
      using res live(2) set_remove1_subset [of _ cs] by auto
    show "\<exists>b' r'. Unreferencing b' \<in> set (watch_calls b r res @ ?ds) \<or> Unsubscribing b' r' \<in> set (watch_calls b r res @ ?ds)"
      if "unused y"
    proof (cases err)
      case None
      then have "r \<in> set (bk_subscriptions y)" by (simp add: subs)
      then show ?thesis using that by (simp add: unused_def)
    next
      case (Some e)
      then have "r \<notin> set (bk_subscriptions x)" using that y(4) by (simp add: unused_def)
      then show ?thesis using y(6) [OF Some] w by auto
    qed
  qed
qed

lemma unwatch_begin_effect:
  assumes "unwatch_begin unsubscribe r force busy (wt, x) = (res, wt', y)"
  shows "bk_reservations y = bk_reservations x" "bk_pending y = bk_pending x"
    "set (bk_invalid y) \<subseteq> set (bk_invalid x)" "distinct (bk_subscriptions x) \<Longrightarrow> distinct (bk_subscriptions y)"
    "(\<forall>st. res \<noteq> Unwatch_unsubscribed st) \<and> set (bk_subscriptions y) = set (bk_subscriptions x) \<or>
     (\<exists>st. res = Unwatch_unsubscribed st) \<and> r \<in> set (bk_subscriptions x) \<and>
       set (bk_subscriptions y) = set (bk_subscriptions x) - {r} \<and> r \<notin> set (bk_invalid y)"
  using assms by (auto simp: unwatch_begin_def Let_def distinct_removeAll split: if_splits prod.splits option.splits)

lemma ok_same_lists:
  assumes ok: "backend_ok x cs n stopped registered" and "distinct (bk_subscriptions y)"
    and lists: "set (bk_subscriptions y) = set (bk_subscriptions x)" "bk_pending y = bk_pending x"
      "bk_reservations y = bk_reservations x" and "set (bk_invalid y) \<subseteq> set (bk_subscriptions x)"
  shows "backend_ok y cs n stopped registered"
proof -
  have "bk_subscriptions y = [] \<longleftrightarrow> bk_subscriptions x = []" using lists(1) by (metis set_empty)
  then have unused: "unused y = unused x" using lists by (simp add: unused_def)
  show ?thesis
    using ok assms(2,6) unfolding backend_ok_def lists unused by (elim conjE) (intro conjI; assumption)
qed

lemma ok_unwatch:
  assumes ok: "backend_ok x cs n stopped registered" and live: "\<not> (\<exists>c \<in> set cs. fresh_call c)"
    and r: "r \<notin> set (bk_pending x)"
    and unwatch: "unwatch_begin unsubscribe r force busy (wt, x) = (res, wt', y)"
  shows "backend_ok y (unwatch_calls b r res @ cs) n stopped registered"
proof -
  note invs = backend_okD [OF ok] and y = unwatch_begin_effect [OF unwatch]
  have res: "subscribers (unwatch_calls b r res) = []" "\<not> (\<exists>c \<in> set (unwatch_calls b r res). fresh_call c)"
      "Subscribing b' r' w st \<notin> set (unwatch_calls b r res)" for b' r' w st
    by (auto simp: unwatch_calls_def split: unwatch_result.splits)
  consider "\<forall>st. res \<noteq> Unwatch_unsubscribed st" "set (bk_subscriptions y) = set (bk_subscriptions x)"
    | st where "res = Unwatch_unsubscribed st" "r \<in> set (bk_subscriptions x)"
        "set (bk_subscriptions y) = set (bk_subscriptions x) - {r}" "r \<notin> set (bk_invalid y)"
    using y(5) by blast
  then show ?thesis
  proof cases
    case 1
    then have calls: "unwatch_calls b r res = []" by (auto simp: unwatch_calls_def split: unwatch_result.splits)
    have "set (bk_invalid y) \<subseteq> set (bk_subscriptions x)" using invs(2) y(3) by blast
    from ok_same_lists [OF ok y(4) [OF invs(1)] 1(2) y(2,1) this] show ?thesis by (simp add: calls)
  next
    case 2
    have "\<not> unused x" using 2(2) by (auto simp: unused_def)
    then have "\<not> stopped" using invs(7) by blast
    then show ?thesis
    proof (rule backend_ok_change)
      show "distinct (bk_subscriptions y)" by (rule y(4) [OF invs(1)])
      show "set (bk_invalid y) \<subseteq> set (bk_subscriptions y)" using 2(3,4) y(3) invs(2) by blast
      show "distinct (subscribers (unwatch_calls b r res @ cs))" using res invs(3) by simp
      show "set (subscribers (unwatch_calls b r res @ cs)) = set (bk_pending y)" using res invs(4) y(2) by simp
      show "w \<longleftrightarrow> r' \<in> set (bk_subscriptions y)" if "Subscribing b' r' w st \<in> set (unwatch_calls b r res @ cs)" for b' r' w st
      proof -
        have call: "Subscribing b' r' w st \<in> set cs" using that res(3) by auto
        then have "r' \<in> set (bk_pending x)" using invs(4) subscribers_iff by blast
        then show ?thesis using invs(5) [OF call] r 2(3) by auto
      qed
      show "unat (bk_reservations y) = n" using invs(6) y(1) by simp
      show "\<not> (\<exists>c \<in> set (unwatch_calls b r res @ cs). fresh_call c)" using res live by auto
      show "\<exists>b' r'. Unreferencing b' \<in> set (unwatch_calls b r res @ cs) \<or> Unsubscribing b' r' \<in> set (unwatch_calls b r res @ cs)"
        using 2(1) by (auto simp: unwatch_calls_def)
    qed
  qed
qed

lemma ok_unsubscribed:
  assumes ok: "backend_ok x cs n stopped registered" and call: "Unsubscribing b r \<in> set cs"
  shows "backend_ok x (Unreferencing b # remove1 (Unsubscribing b r) cs) n stopped registered"
proof -
  note invs = backend_okD [OF ok]
  have fresh: "\<not> (\<exists>c \<in> set cs. fresh_call c)"
  proof
    assume "\<exists>c \<in> set cs. fresh_call c"
    then show False using invs(8) call by (cases cs) auto
  qed
  have "set (remove1 (Unsubscribing b r) cs) \<subseteq> set cs" by (rule set_remove1_subset)
  then have "\<not> (\<exists>c \<in> set (remove1 (Unsubscribing b r) cs). fresh_call c)" using fresh by blast
  then show ?thesis
    using invs by (auto simp: backend_ok_def subscribers_remove1_other)
qed

lemma ok_unref_used:
  assumes ok: "backend_ok x cs n stopped registered" and "Unreferencing b \<in> set cs" and used: "\<not> unused x"
  shows "backend_ok x (remove1 (Unreferencing b) cs) n stopped registered"
proof -
  note invs = backend_okD [OF ok]
  have "\<not> (\<exists>c \<in> set cs. fresh_call c)" using invs(8) used by blast
  then have "\<not> (\<exists>c \<in> set (remove1 (Unreferencing b) cs). fresh_call c)" using set_remove1_subset by fast
  then show ?thesis using invs used by (auto simp: backend_ok_def subscribers_remove1_other)
qed

lemma ok_unref_stop:
  assumes ok: "backend_ok x cs n stopped registered" and call: "Unreferencing b \<in> set cs" and unused: "unused x"
  shows "backend_ok x (remove1 (Unreferencing b) cs) n True False"
proof -
  note invs = backend_okD [OF ok]
  have "\<not> (\<exists>c \<in> set cs. fresh_call c)"
  proof
    assume "\<exists>c \<in> set cs. fresh_call c"
    then show False using invs(8) call by (cases cs) auto
  qed
  then have "\<not> (\<exists>c \<in> set (remove1 (Unreferencing b) cs). fresh_call c)" using set_remove1_subset by fast
  then show ?thesis using invs unused by (auto simp: backend_ok_def subscribers_remove1_other)
qed

lemma ok_registered: "backend_ok x cs n stopped registered \<Longrightarrow> (registered' \<Longrightarrow> registered) \<Longrightarrow> backend_ok x cs n stopped registered'"
  by (auto simp: backend_ok_def)

subsection \<open>What holds of all backends\<close>

definition calls_on :: "bref \<Rightarrow> 's backend_process \<Rightarrow> call list" where
  "calls_on b p = filter (call_of b) (bp_calls p)"

definition backend_inv :: "'s backend_process \<Rightarrow> bool" where
  "backend_inv p \<longleftrightarrow>
     (let bs = bp_backends p in
      (\<forall>b. bs_objs bs b \<noteq> None \<longleftrightarrow> b < bs_nextRef bs) \<and>
      distinct (map fst (bs_shared bs)) \<and> distinct (map snd (bs_shared bs)) \<and>
      (\<forall>b \<in> set (map snd (bs_shared bs)). b < bs_nextRef bs) \<and>
      (\<forall>c \<in> set (bp_calls p). \<exists>b < bs_nextRef bs. call_of b c) \<and>
      (\<forall>b \<in> set (bp_held p). b < bs_nextRef bs) \<and> (\<forall>b \<in> set (bs_stops bs). b < bs_nextRef bs) \<and>
      length (bp_held p) < 2 ^ 64 \<and>
      (\<forall>b < bs_nextRef bs. backend_ok (bs_obj bs b) (calls_on b p) (count_list (bp_held p) b)
         (b \<in> set (bs_stops bs)) (b \<in> set (map snd (bs_shared bs)))))"

lemma backend_invD:
  assumes "backend_inv p"
  shows "bs_objs (bp_backends p) b \<noteq> None \<longleftrightarrow> b < bs_nextRef (bp_backends p)"
    "distinct (map fst (bs_shared (bp_backends p)))" "distinct (map snd (bs_shared (bp_backends p)))"
    "b \<in> set (map snd (bs_shared (bp_backends p))) \<Longrightarrow> b < bs_nextRef (bp_backends p)"
    "c \<in> set (bp_calls p) \<Longrightarrow> \<exists>b < bs_nextRef (bp_backends p). call_of b c"
    "b \<in> set (bp_held p) \<Longrightarrow> b < bs_nextRef (bp_backends p)"
    "b \<in> set (bs_stops (bp_backends p)) \<Longrightarrow> b < bs_nextRef (bp_backends p)"
    "length (bp_held p) < 2 ^ 64"
    "b < bs_nextRef (bp_backends p) \<Longrightarrow>
      backend_ok (bs_obj (bp_backends p) b) (calls_on b p) (count_list (bp_held p) b)
        (b \<in> set (bs_stops (bp_backends p))) (b \<in> set (map snd (bs_shared (bp_backends p))))"
  using assms unfolding backend_inv_def Let_def
  by - (elim conjE, (assumption | (drule spec, assumption) | (drule (1) bspec, assumption)
      | (drule spec, drule (1) mp, assumption)))+

text \<open>A step that changes one backend \<open>b\<close> (possibly a new one).\<close>

lemma backend_inv_change:
  assumes inv: "backend_inv p"
    and refs: "b \<le> bs_nextRef (bp_backends p)" "bs_nextRef bs = max (Suc b) (bs_nextRef (bp_backends p))"
    and objs: "bs_objs bs = (bs_objs (bp_backends p))(b := Some x)"
    and shared: "distinct (map fst (bs_shared bs))" "distinct (map snd (bs_shared bs))"
      "\<And>c. c \<noteq> b \<Longrightarrow> c \<in> set (map snd (bs_shared bs)) \<longleftrightarrow> c \<in> set (map snd (bs_shared (bp_backends p)))"
    and calls: "set calls \<subseteq> set (bp_calls p) \<union> {c. call_of b c}"
      "\<And>c. c \<noteq> b \<Longrightarrow> filter (call_of c) calls = calls_on c p"
    and held: "set hs \<subseteq> insert b (set (bp_held p))" "length hs < 2 ^ 64"
      "\<And>c. c \<noteq> b \<Longrightarrow> count_list hs c = count_list (bp_held p) c"
    and stops: "\<And>c. c \<noteq> b \<Longrightarrow> c \<in> set (bs_stops bs) \<longleftrightarrow> c \<in> set (bs_stops (bp_backends p))"
    and ok: "backend_ok x (filter (call_of b) calls) (count_list hs b) (b \<in> set (bs_stops bs)) (b \<in> set (map snd (bs_shared bs)))"
  shows "backend_inv \<lparr>bp_backends = bs, bp_watched = wt, bp_calls = calls, bp_held = hs\<rparr>"
proof -
  note invs = backend_invD [OF inv]
  have obj: "bs_obj bs c = (if c = b then x else bs_obj (bp_backends p) c)" for c
    by (simp add: bs_obj_def objs)
  have other: "c < bs_nextRef bs \<Longrightarrow> c \<noteq> b \<Longrightarrow> c < bs_nextRef (bp_backends p)" for c
    using refs by (auto simp: max_def split: if_splits)
  have all: "c < bs_nextRef (bp_backends p) \<Longrightarrow> c < bs_nextRef bs" "b < bs_nextRef bs" for c
    using refs by auto
  have 1: "bs_objs bs c \<noteq> None \<longleftrightarrow> c < bs_nextRef bs" for c
    using invs(1) [of c] other [of c] all by (cases "c = b") (auto simp: objs)
  have 2: "c < bs_nextRef bs" if "c \<in> set (map snd (bs_shared bs))" for c
    using invs(4) [of c] shared(3) [of c] all that by (cases "c = b") auto
  have 3: "\<exists>d < bs_nextRef bs. call_of d c" if "c \<in> set calls" for c
    using that calls(1) invs(5) [of c] all by blast
  have 4: "c < bs_nextRef bs" if "c \<in> set hs" for c using that held(1) invs(6) [of c] all by auto
  have 5: "c < bs_nextRef bs" if "c \<in> set (bs_stops bs)" for c
    using that stops [of c] invs(7) [of c] all by (cases "c = b") auto
  have 6: "backend_ok (bs_obj bs c) (filter (call_of c) calls) (count_list hs c) (c \<in> set (bs_stops bs))
      (c \<in> set (map snd (bs_shared bs)))" if "c < bs_nextRef bs" for c
  proof (cases "c = b")
    case False
    then show ?thesis
      using invs(9) [OF other [OF that False]] by (simp only: obj False if_False calls(2) [OF False] held(3) [OF False] stops [OF False] shared(3) [OF False])
  qed (use ok in \<open>simp add: obj\<close>)
  show ?thesis
    unfolding backend_inv_def Let_def
    using 1 2 3 4 5 6 shared(1,2) held(2) by (simp add: calls_on_def)
qed

text \<open>The usual case: an existing backend, with calls added to and taken from it.\<close>

lemma backend_inv_one:
  assumes inv: "backend_inv p" and b: "b < bs_nextRef (bp_backends p)"
    and bs: "bs_objs bs = (bs_objs (bp_backends p))(b := Some x)" "bs_nextRef bs = bs_nextRef (bp_backends p)"
      "bs_shared bs = bs_shared (bp_backends p)" "bs_stops bs = bs_stops (bp_backends p)"
    and calls: "calls = new @ (case old of None \<Rightarrow> bp_calls p | Some c \<Rightarrow> remove1 c (bp_calls p))"
      "\<forall>c \<in> set new. \<forall>d. call_of d c = (d = b)" "\<And>c d. old = Some c \<Longrightarrow> call_of d c = (d = b)"
    and ok: "backend_ok x (new @ (case old of None \<Rightarrow> calls_on b p | Some c \<Rightarrow> remove1 c (calls_on b p)))
      (count_list (bp_held p) b) (b \<in> set (bs_stops (bp_backends p))) (b \<in> set (map snd (bs_shared (bp_backends p))))"
  shows "backend_inv (p\<lparr>bp_backends := bs, bp_watched := wt, bp_calls := calls\<rparr>)"
proof -
  have new: "filter (call_of d) new = (if d = b then new else [])" for d
    using calls(2) by (auto simp: filter_id_conv filter_empty_conv)
  have filter: "filter (call_of d) calls =
      (if d = b then new @ (case old of None \<Rightarrow> calls_on b p | Some c \<Rightarrow> remove1 c (calls_on b p)) else calls_on d p)" for d
  proof (cases old)
    case (Some c)
    have "c \<notin> set (filter (call_of d) (bp_calls p))" if "d \<noteq> b" using calls(3) [OF Some, of d] that by simp
    then show ?thesis by (simp add: calls(1) new Some calls_on_def filter_remove1 remove1_idem)
  qed (simp add: calls(1) new calls_on_def)
  have sub: "set calls \<subseteq> set (bp_calls p) \<union> {c. call_of b c}"
    using calls(1,2) set_remove1_subset [of _ "bp_calls p"] by (auto split: option.splits)
  note invs = backend_invD [OF inv]
  have "backend_inv \<lparr>bp_backends = bs, bp_watched = wt, bp_calls = calls, bp_held = bp_held p\<rparr>"
    by (rule backend_inv_change [OF inv, of b bs x]) (use b bs invs(2,3,8) sub filter ok in auto)
  moreover have "p\<lparr>bp_backends := bs, bp_watched := wt, bp_calls := calls\<rparr> =
      \<lparr>bp_backends = bs, bp_watched = wt, bp_calls = calls, bp_held = bp_held p\<rparr>"
    by (cases p) simp
  ultimately show ?thesis by (simp only:)
qed

lemma bs_set_simps [simp]:
  "bs_objs (bs_set b x bs) = (bs_objs bs)(b := Some x)" "bs_nextRef (bs_set b x bs) = bs_nextRef bs"
  "bs_shared (bs_set b x bs) = bs_shared bs" "bs_stops (bs_set b x bs) = bs_stops bs"
  "bs_obj (bs_set b x bs) c = (if c = b then x else bs_obj bs c)"
  by (simp_all add: bs_set_def bs_obj_def)

lemma calls_on_iff: "c \<in> set (calls_on b p) \<longleftrightarrow> c \<in> set (bp_calls p) \<and> call_of b c"
  by (auto simp: calls_on_def)

lemma call_of_unique: "call_of b c \<Longrightarrow> call_of d c \<Longrightarrow> d = b"
  by (cases c) auto

lemma backend_inv_held:
  assumes inv: "backend_inv p" and b: "b \<in> set (bp_held p)"
  shows "b < bs_nextRef (bp_backends p)" "0 < count_list (bp_held p) b"
    "backend_ok (bs_obj (bp_backends p) b) (calls_on b p) (count_list (bp_held p) b)
      (b \<in> set (bs_stops (bp_backends p))) (b \<in> set (map snd (bs_shared (bp_backends p))))"
proof -
  show known: "b < bs_nextRef (bp_backends p)" by (rule backend_invD(6) [OF inv b])
  have "count_list (bp_held p) b \<noteq> 0" using b count_list_0_iff by metis
  then show "0 < count_list (bp_held p) b" by simp
  show "backend_ok (bs_obj (bp_backends p) b) (calls_on b p) (count_list (bp_held p) b)
      (b \<in> set (bs_stops (bp_backends p))) (b \<in> set (map snd (bs_shared (bp_backends p))))"
    by (rule backend_invD(9) [OF inv known])
qed

lemma backend_inv_call:
  assumes inv: "backend_inv p" and c: "c \<in> set (bp_calls p)" "call_of b c"
  shows "b < bs_nextRef (bp_backends p)" "c \<in> set (calls_on b p)"
    "backend_ok (bs_obj (bp_backends p) b) (calls_on b p) (count_list (bp_held p) b)
      (b \<in> set (bs_stops (bp_backends p))) (b \<in> set (map snd (bs_shared (bp_backends p))))"
proof -
  show known: "b < bs_nextRef (bp_backends p)" using backend_invD(5) [OF inv c(1)] call_of_unique [OF c(2)] by auto
  show "c \<in> set (calls_on b p)" using c by (simp add: calls_on_iff)
  show "backend_ok (bs_obj (bp_backends p) b) (calls_on b p) (count_list (bp_held p) b)
      (b \<in> set (bs_stops (bp_backends p))) (b \<in> set (map snd (bs_shared (bp_backends p))))"
    by (rule backend_invD(9) [OF inv known])
qed

text \<open>The steps that keep the reservations, the registry and the stops.\<close>

lemma watch_calls_on: "\<forall>c \<in> set (watch_calls b r res). \<forall>d. call_of d c = (d = b)"
  by (auto simp: watch_calls_def split: watch_result.splits)

lemma unwatch_calls_on: "\<forall>c \<in> set (unwatch_calls b r res). \<forall>d. call_of d c = (d = b)"
  by (auto simp: unwatch_calls_def split: unwatch_result.splits)

lemma backend_inv_put:
  assumes inv: "backend_inv p" and b: "b < bs_nextRef (bp_backends p)"
    and calls: "calls = new @ (case old of None \<Rightarrow> bp_calls p | Some c \<Rightarrow> remove1 c (bp_calls p))"
      "\<forall>c \<in> set new. \<forall>d. call_of d c = (d = b)" "\<And>c d. old = Some c \<Longrightarrow> call_of d c = (d = b)"
    and ok: "backend_ok (snd wb) (new @ (case old of None \<Rightarrow> calls_on b p | Some c \<Rightarrow> remove1 c (calls_on b p)))
      (count_list (bp_held p) b) (b \<in> set (bs_stops (bp_backends p))) (b \<in> set (map snd (bs_shared (bp_backends p))))"
  shows "backend_inv ((bp_put b r wb p)\<lparr>bp_calls := calls\<rparr>)"
proof -
  have "backend_inv (p\<lparr>bp_backends := bs_set b (snd wb) (bp_backends p), bp_watched := (bp_watched p)(r := fst wb),
      bp_calls := calls\<rparr>)"
    by (rule backend_inv_one [OF inv b _ _ _ _ calls ok]) simp_all
  then show ?thesis by (simp add: bp_put_def)
qed

lemma backend_inv_put_only:
  assumes "backend_inv p" and "b < bs_nextRef (bp_backends p)"
    and "backend_ok (snd wb) (calls_on b p)
      (count_list (bp_held p) b) (b \<in> set (bs_stops (bp_backends p))) (b \<in> set (map snd (bs_shared (bp_backends p))))"
  shows "backend_inv (bp_put b r wb p)"
  using backend_inv_put [OF assms(1,2), of "bp_calls p" "[]" None wb r] assms(3) by (simp add: bp_put_def)

lemma backend_inv_calls_only:
  assumes inv: "backend_inv p" and b: "b < bs_nextRef (bp_backends p)"
    and calls: "calls = new @ remove1 c (bp_calls p)"
      "\<forall>c \<in> set new. \<forall>d. call_of d c = (d = b)" "\<And>d. call_of d c = (d = b)"
    and ok: "backend_ok (bs_obj (bp_backends p) b) (new @ remove1 c (calls_on b p))
      (count_list (bp_held p) b) (b \<in> set (bs_stops (bp_backends p))) (b \<in> set (map snd (bs_shared (bp_backends p))))"
  shows "backend_inv (p\<lparr>bp_calls := calls\<rparr>)"
proof -
  have "bs_objs (bp_backends p) = (bs_objs (bp_backends p))(b := Some (bs_obj (bp_backends p) b))"
    using backend_invD(1) [OF inv, of b] b by (auto simp: bs_obj_def)
  then have "backend_inv (p\<lparr>bp_backends := bp_backends p, bp_watched := bp_watched p, bp_calls := calls\<rparr>)"
    using calls ok by (intro backend_inv_one [OF inv b, where new = new and old = "Some c"]) auto
  then show ?thesis by simp
qed

lemma backend_ok_not_fresh:
  assumes ok: "backend_ok x cs n stopped registered" and c: "c \<in> set cs" "\<not> fresh_call c"
  shows "\<not> (\<exists>c \<in> set cs. fresh_call c)"
proof
  assume "\<exists>c \<in> set cs. fresh_call c"
  then have "length cs = 1" "\<exists>c \<in> set cs. fresh_call c" using backend_okD(8) [OF ok] by blast+
  then show False using c by (cases cs) auto
qed

lemma backend_inv_fields:
  assumes "backend_inv \<lparr>bp_backends = bp_backends p, bp_watched = bp_watched p, bp_calls = bp_calls p, bp_held = bp_held p\<rparr>"
  shows "backend_inv p"
  using assms by (cases p) simp

lemma reserve_backend_fields [simp]:
  "bs_objs (reserve_backend b bs) =
    (bs_objs bs)(b := Some ((bs_obj bs b)\<lparr>bk_reservations := bk_reservations (bs_obj bs b) + 1\<rparr>))"
  "bs_nextRef (reserve_backend b bs) = bs_nextRef bs" "bs_shared (reserve_backend b bs) = bs_shared bs"
  "bs_stops (reserve_backend b bs) = bs_stops bs"
  by (simp_all add: reserve_backend_def)

lemma backend_inv_reserve:
  assumes inv: "backend_inv p" and b: "b \<in> set (map snd (bs_shared (bp_backends p)))"
    and room: "length (bp_held p) < 2 ^ 64 - 1"
  shows "backend_inv (p\<lparr>bp_backends := reserve_backend b (bp_backends p), bp_held := b # bp_held p\<rparr>)"
proof (rule backend_inv_fields, rule backend_inv_change [OF inv])
  note invs = backend_invD [OF inv]
  have known: "b < bs_nextRef (bp_backends p)" by (rule invs(4) [OF b])
  note ok = invs(9) [OF known]
  have live: "b \<notin> set (bs_stops (bp_backends p))" "\<not> (\<exists>c \<in> set (calls_on b p). fresh_call c)"
    using backend_okD(7,8) [OF ok] b by blast+
  have n: "Suc (count_list (bp_held p) b) < 2 ^ 64" using room count_le_length [of "bp_held p" b] by simp
  show "backend_ok ((bs_obj (bp_backends p) b)\<lparr>bk_reservations := bk_reservations (bs_obj (bp_backends p) b) + 1\<rparr>)
      (filter (call_of b) (bp_calls (p\<lparr>bp_backends := reserve_backend b (bp_backends p), bp_held := b # bp_held p\<rparr>)))
      (count_list (bp_held (p\<lparr>bp_backends := reserve_backend b (bp_backends p), bp_held := b # bp_held p\<rparr>)) b)
      (b \<in> set (bs_stops (bp_backends (p\<lparr>bp_backends := reserve_backend b (bp_backends p), bp_held := b # bp_held p\<rparr>))))
      (b \<in> set (map snd (bs_shared (bp_backends (p\<lparr>bp_backends := reserve_backend b (bp_backends p), bp_held := b # bp_held p\<rparr>)))))"
    using ok_reserve [OF ok live n, of True] b by (simp add: calls_on_def)
  show "b \<le> bs_nextRef (bp_backends p)" using known by simp
  show "bs_nextRef (bp_backends (p\<lparr>bp_backends := reserve_backend b (bp_backends p), bp_held := b # bp_held p\<rparr>)) =
      max (Suc b) (bs_nextRef (bp_backends p))" using known by simp
qed (use backend_invD(2,3,8) [OF inv] room in \<open>auto simp: calls_on_def\<close>)

lemma backend_inv_create:
  assumes inv: "backend_inv p" and make: "make_backend s (bp_backends p) = (b, bs)"
  shows "backend_inv (p\<lparr>bp_backends := bs, bp_calls := Created name b # bp_calls p\<rparr>)"
proof -
  note invs = backend_invD [OF inv]
  have b: "b = bs_nextRef (bp_backends p)" and bs: "bs = (bs_set b (backend_new s) (bp_backends p))\<lparr>bs_nextRef := Suc b\<rparr>"
    using make by (auto simp: make_backend_def)
  have absent: "b \<notin> set (map snd (bs_shared (bp_backends p)))" "b \<notin> set (bs_stops (bp_backends p))" "b \<notin> set (bp_held p)"
    using invs(4) [of b] invs(7) [of b] invs(6) [of b] b by auto
  have "\<not> call_of b c" if "c \<in> set (bp_calls p)" for c
    using invs(5) [OF that] call_of_unique [of b c] b by blast
  then have "calls_on b p = []" by (simp add: calls_on_def filter_empty_conv)
  then have calls: "filter (call_of b) (Created name b # bp_calls p) = [Created name b]" by (simp add: calls_on_def)
  have ok: "backend_ok (backend_new s) [Created name b] 0 False False"
    by (simp add: backend_ok_def backend_new_def unused_def)
  show ?thesis
    by (rule backend_inv_fields, rule backend_inv_change [OF inv, of b _ "backend_new s"])
      (use invs(2,3,8) b bs absent calls ok in \<open>auto simp: calls_on_def\<close>)
qed

lemma backend_inv_stop:
  assumes inv: "backend_inv p" and b: "b < bs_nextRef (bp_backends p)"
    and bs: "bs_objs bs = bs_objs (bp_backends p)" "bs_nextRef bs = bs_nextRef (bp_backends p)"
      "bs_shared bs = erase_first (\<lambda>e. snd e = b) (bs_shared (bp_backends p))"
      "bs_stops bs = b # bs_stops (bp_backends p)"
    and c: "\<And>d. call_of d c = (d = b)"
    and ok: "backend_ok (bs_obj (bp_backends p) b) (remove1 c (calls_on b p)) (count_list (bp_held p) b) True False"
  shows "backend_inv (p\<lparr>bp_backends := bs, bp_calls := remove1 c (bp_calls p)\<rparr>)"
proof -
  note invs = backend_invD [OF inv]
  have erase: "distinct (map f xs) \<Longrightarrow> distinct (map f (erase_first P xs))" for f :: "string \<times> bref \<Rightarrow> 'x" and P xs
    by (rule erase_first_map_distinct)
  have snd: "set (map snd (erase_first (\<lambda>e. snd e = b) xs)) = set (map snd xs) - {b}"
    if "distinct (map snd xs)" for xs :: "(string \<times> bref) list"
    using that by (induction xs) (auto simp: rev_image_eqI)
  have "c \<notin> set (filter (call_of d) (bp_calls p))" if "d \<noteq> b" for d using c that by simp
  then have calls: "filter (call_of d) (remove1 c (bp_calls p)) = (if d = b then remove1 c (calls_on b p) else calls_on d p)" for d
    by (simp add: calls_on_def filter_remove1 remove1_idem)
  have sub: "set (remove1 c (bp_calls p)) \<subseteq> set (bp_calls p)" by (rule set_remove1_subset)
  have objs: "bs_objs bs = (bs_objs (bp_backends p))(b := Some (bs_obj (bp_backends p) b))"
    using invs(1) [of b] b by (auto simp: bs bs_obj_def)
  have shared: "set (map snd (bs_shared bs)) = set (map snd (bs_shared (bp_backends p))) - {b}"
    using snd [OF invs(3)] by (simp only: bs)
  show ?thesis
  proof (rule backend_inv_fields, rule backend_inv_change [OF inv, of b _ "bs_obj (bp_backends p) b"], goal_cases)
    case 4 then show ?case using erase [OF invs(2)] by (simp add: bs)
  next
    case 5 then show ?case using erase [OF invs(3)] by (simp add: bs)
  next
    case (6 d) then show ?case using shared by auto
  next
    case 13
    have "b \<notin> set (map snd (bs_shared bs))" using shared by simp
    then show ?case using ok by (simp add: calls bs)
  qed (use b bs objs sub calls invs(8) in auto)
qed

lemma backend_inv_release:
  assumes inv: "backend_inv p" and b: "b \<in> set (bp_held p)"
    and release: "release_backend b (bp_backends p) = (last_one, bs)"
  shows "backend_inv (p\<lparr>bp_backends := bs, bp_held := remove1 b (bp_held p),
    bp_calls := (if last_one then [Unreferencing b] else []) @ bp_calls p\<rparr>)"
proof -
  note held = backend_inv_held [OF inv b] and invs = backend_invD [OF inv]
  define x where "x = (bs_obj (bp_backends p) b)\<lparr>bk_reservations := bk_reservations (bs_obj (bp_backends p) b) - 1\<rparr>"
  have bs: "bs = bs_set b x (bp_backends p)"
    and last_one: "last_one \<longleftrightarrow> bk_reservations (bs_obj (bp_backends p) b) = 1"
    using release by (auto simp: release_backend_def Let_def x_def)
  have count: "count_list (remove1 b (bp_held p)) d = count_list (bp_held p) d - (if d = b then 1 else 0)" for d
    by (induction "bp_held p") (auto simp: count_list_0_iff)
  have sub: "set (remove1 b (bp_held p)) \<subseteq> set (bp_held p)" by (rule set_remove1_subset)
  have len: "length (remove1 b (bp_held p)) < 2 ^ 64" using invs(8) b by (simp add: length_remove1)
  have calls: "filter (call_of d) ((if last_one then [Unreferencing b] else []) @ bp_calls p) =
      (if d = b then (if last_one then [Unreferencing b] else []) @ calls_on b p else calls_on d p)" for d
    by (simp add: calls_on_def)
  have max: "bs_nextRef (bp_backends p) = max (Suc b) (bs_nextRef (bp_backends p))" using held(1) by simp
  show ?thesis
  proof (rule backend_inv_fields, rule backend_inv_change [OF inv, of b _ x], goal_cases)
    case 13
    show ?case
      using ok_release [OF held(3,2), of b] last_one by (cases last_one) (simp_all add: calls_on_def count bs x_def)
  qed (use held(1) bs invs(2,3) sub len count max in \<open>auto simp: calls_on_def\<close>)
qed

lemma backend_inv_created:
  assumes inv: "backend_inv p" and created: "Created name b \<in> set (bp_calls p)"
  shows "b < bs_nextRef (bp_backends p)" "unused (bs_obj (bp_backends p) b)" "b \<notin> set (map snd (bs_shared (bp_backends p)))"
    "b \<notin> set (bs_stops (bp_backends p))" "calls_on b p = [Created name b]"
    "backend_ok (bs_obj (bp_backends p) b) [Created name b] (count_list (bp_held p) b) False False"
proof -
  have "call_of b (Created name b)" by simp
  note call = backend_inv_call [OF inv created this]
  show "b < bs_nextRef (bp_backends p)" using call(1) by simp
  have fresh: "\<exists>c \<in> set (calls_on b p). fresh_call c" using call(2) by force
  show shared: "unused (bs_obj (bp_backends p) b)" "b \<notin> set (map snd (bs_shared (bp_backends p)))"
    using backend_okD(8) [OF call(3) fresh] by simp_all
  have "length (calls_on b p) = 1" using backend_okD(8) [OF call(3) fresh] by simp
  then show calls: "calls_on b p = [Created name b]" using call(2) by (cases "calls_on b p") auto
  show stops: "b \<notin> set (bs_stops (bp_backends p))" using backend_okD(7) [OF call(3)] calls by fastforce
  show "backend_ok (bs_obj (bp_backends p) b) [Created name b] (count_list (bp_held p) b) False False"
    using call(3) shared(2) calls stops by simp
qed

lemma backend_inv_step:
  assumes inv: "backend_inv p" and step: "backend_step subscribe unsubscribe p p'"
  shows "backend_inv p'"
  using step
proof (cases rule: backend_step.cases)
  case (found name b)
  then have "b \<in> set (map snd (bs_shared (bp_backends p)))" using map_of_SomeD by force
  then show ?thesis using backend_inv_reserve [OF inv _ found(3)] found(1) by simp
next
  case (create s b bs name)
  then show ?thesis using backend_inv_create [OF inv] by simp
next
  case (register name b selected bs)
  note fresh = backend_inv_created(2,3,5) [OF inv register(2)]
  note known = backend_inv_created(1) [OF inv register(2)]
  note ok = backend_inv_created(6) [OF inv register(2)]
  note invs = backend_invD [OF inv]
  note stops = backend_inv_created(4) [OF inv register(2)]
  show ?thesis
  proof (cases "map_of (bs_shared (bp_backends p)) name")
    case None
    \<comment> \<open>registered first: the entry \<open>b\<close> is added, reserved, and no longer under way\<close>
    let ?bs = "(bp_backends p)\<lparr>bs_shared := bs_shared (bp_backends p) @ [(name, b)]\<rparr>"
    have sel: "selected = b" "bs = reserve_backend b ?bs" using register(4) None by (auto simp: emplace_backend_def)
    have name: "name \<notin> set (map fst (bs_shared (bp_backends p)))" using None by (simp add: map_of_eq_None_iff)
    have "bs_obj ?bs b = bs_obj (bp_backends p) b" by (simp add: bs_obj_def)
    then have objs: "bs_objs bs = (bs_objs (bp_backends p))(b := Some ((bs_obj (bp_backends p) b)\<lparr>bk_reservations :=
        bk_reservations (bs_obj (bp_backends p) b) + 1\<rparr>))" by (simp add: sel)
    have shared: "bs_shared bs = bs_shared (bp_backends p) @ [(name, b)]" "bs_nextRef bs = bs_nextRef (bp_backends p)"
        "bs_stops bs = bs_stops (bp_backends p)" by (simp_all add: sel)
    have "Created name b \<notin> set (filter (call_of d) (bp_calls p))" if "d \<noteq> b" for d using that by simp
    then have calls: "filter (call_of d) (remove1 (Created name b) (bp_calls p)) = (if d = b then [] else calls_on d p)" for d
      using fresh(3) by (simp add: calls_on_def filter_remove1 remove1_idem)
    have n: "Suc (count_list (bp_held p) b) < 2 ^ 64" using register(3) count_le_length [of "bp_held p" b] by simp
    have zero: "bk_reservations (bs_obj (bp_backends p) b) = 0" using fresh(1) by (simp add: unused_def)
    have "backend_ok ((bs_obj (bp_backends p) b)\<lparr>bk_reservations := bk_reservations (bs_obj (bp_backends p) b) + 1\<rparr>) []
        (Suc (count_list (bp_held p) b)) False True"
      using ok zero by (auto simp: backend_ok_def unused_def)
    then have final: "backend_ok ((bs_obj (bp_backends p) b)\<lparr>bk_reservations := bk_reservations (bs_obj (bp_backends p) b) + 1\<rparr>)
        (filter (call_of b) (remove1 (Created name b) (bp_calls p))) (count_list (b # bp_held p) b)
        (b \<in> set (bs_stops bs)) (b \<in> set (map snd (bs_shared bs)))"
      using stops by (simp add: calls shared)
    have sub: "set (remove1 (Created name b) (bp_calls p)) \<subseteq> set (bp_calls p)" by (rule set_remove1_subset)
    have max: "bs_nextRef (bp_backends p) = max (Suc b) (bs_nextRef (bp_backends p))" using known by simp
    have "backend_inv \<lparr>bp_backends = bs, bp_watched = bp_watched p, bp_calls = remove1 (Created name b) (bp_calls p),
        bp_held = b # bp_held p\<rparr>"
    proof (rule backend_inv_change [OF inv _ _ objs _ _ _ _ _ _ _ _ _ final], goal_cases)
      case 1 show ?case using known by simp
    next
      case 2 show ?case using max shared(2) by simp
    next
      case 3 show ?case using invs(2) name by (simp add: shared)
    next
      case 4 show ?case using invs(3) fresh(2) by (simp add: shared)
    next
      case (5 c) then show ?case by (simp add: shared)
    next
      case 6 show ?case using sub by blast
    next
      case (7 c) then show ?case by (simp add: calls)
    next
      case 9 show ?case using register(3) by simp
    next
      case (11 c) show ?case by (simp add: shared)
    qed auto
    then show ?thesis by - (rule backend_inv_fields, simp add: register(1) sel(1))
  next
    case (Some s)
    then have s: "s \<in> set (map snd (bs_shared (bp_backends p)))" using map_of_SomeD by force
    then have ne: "s \<noteq> b" using fresh(2) by auto
    have sel: "selected = s" "bs = reserve_backend s (bp_backends p)"
      using register(4) Some by (auto simp: emplace_backend_def)
    have "backend_ok (bs_obj (bp_backends p) b) [Losing b] (count_list (bp_held p) b) False False"
      using ok by (auto simp: backend_ok_def)
    then have "backend_inv (p\<lparr>bp_calls := [Losing b] @ remove1 (Created name b) (bp_calls p)\<rparr>)"
      using stops fresh(2,3)
      by (intro backend_inv_calls_only [OF inv known, where new = "[Losing b]" and c = "Created name b"]) auto
    from backend_inv_reserve [OF this, of s] s register(3)
    show ?thesis by (cases p) (simp add: register(1) sel ne)
  qed
next
  case (run_throws name b)
  note fresh = backend_inv_created [OF inv run_throws(2)]
  have "backend_ok (bs_obj (bp_backends p) b) [Failed b] (count_list (bp_held p) b) False False"
    using fresh(6) by (auto simp: backend_ok_def)
  then show ?thesis
    unfolding run_throws(1) using fresh(3-5)
    by (intro backend_inv_calls_only [OF inv fresh(1), where new = "[Failed b]" and c = "Created name b"]) auto
next
  case (stop_loser b)
  have "call_of b (Losing b)" by simp
  note call = backend_inv_call [OF inv stop_loser(2) this]
  have "\<exists>c \<in> set (calls_on b p). fresh_call c" using call(2) by force
  note fresh = backend_okD(8) [OF call(3) this]
  then have calls: "calls_on b p = [Losing b]" using call(2) by (cases "calls_on b p") auto
  have "erase_first (\<lambda>e. snd e = b) (bs_shared (bp_backends p)) = bs_shared (bp_backends p)"
  proof (rule erase_first_Nil_find)
    show "List.find (\<lambda>e. snd e = b) (bs_shared (bp_backends p)) = None"
      using fresh by (force simp: find_None_iff)
  qed
  moreover have "backend_ok (bs_obj (bp_backends p) b) [] (count_list (bp_held p) b) True False"
    using call(3) fresh by (auto simp: calls backend_ok_def)
  ultimately show ?thesis
    using call(1) unfolding stop_loser(1)
    by (intro backend_inv_stop [OF inv, of b]) (auto simp: stop_backend_def calls)
next
  case (release b last_one bs)
  then show ?thesis using backend_inv_release [OF inv] by simp
next
  case (watch b r cancelled res wb)
  obtain wt y where wb: "wb = (wt, y)" by fastforce
  note held = backend_inv_held [OF inv watch(2)]
  show ?thesis
    unfolding watch(1)
    by (rule backend_inv_put [OF inv held(1), where new = "watch_calls b r res" and old = None])
      (use ok_watch [OF held(3,2) watch(3) watch(4) [unfolded bp_get_def wb]] watch_calls_on [of b r res] in \<open>auto simp: wb\<close>)
next
  case (subscribed b r wasInvalid st finishError res wb)
  obtain wt y where wb: "wb = (wt, y)" by fastforce
  have "call_of b (Subscribing b r wasInvalid st)" by simp
  note call = backend_inv_call [OF inv subscribed(2) this]
  show ?thesis
    unfolding subscribed(1)
    by (rule backend_inv_put [OF inv _ , where new = "watch_calls b r res" and old = "Some (Subscribing b r wasInvalid st)"])
      (use call(1) ok_subscribed [OF call(3,2) subscribed(3) [unfolded bp_get_def wb]] watch_calls_on [of b r res] in \<open>auto simp: wb\<close>)
next
  case (unwatch b r force has_callbacks res wb)
  obtain wt y where wb: "wb = (wt, y)" by fastforce
  have known: "b < bs_nextRef (bp_backends p)" using unwatch(2) backend_invD(1) [OF inv] by simp
  have "\<not> (\<exists>c \<in> set (calls_on b p). fresh_call c)"
  proof
    assume "\<exists>c \<in> set (calls_on b p). fresh_call c"
    then obtain c where "c \<in> set (bp_calls p)" "call_of b c" "fresh_call c" by (auto simp: calls_on_iff)
    then show False using unwatch(3,4,5) by - (cases c, auto)
  qed
  note ok = ok_unwatch [OF backend_invD(9) [OF inv known] this unwatch(6) unwatch(7) [unfolded bp_get_def wb], of b]
  show ?thesis
    unfolding unwatch(1)
    by (rule backend_inv_put [OF inv known, where new = "unwatch_calls b r res" and old = None])
      (use ok unwatch_calls_on [of b r res] in \<open>auto simp: wb\<close>)
next
  case (unsubscribed b r)
  have "call_of b (Unsubscribing b r)" by simp
  note call = backend_inv_call [OF inv unsubscribed(2) this]
  show ?thesis
    unfolding unsubscribed(1)
    by (rule backend_inv_calls_only [OF inv, of b _ "[Unreferencing b]"])
      (use call(1) ok_unsubscribed [OF call(3,2)] in auto)
next
  case (unref b)
  have "call_of b (Unreferencing b)" by simp
  note call = backend_inv_call [OF inv unref(2) this]
  have known: "b < bs_nextRef (bp_backends p)" using call(1) by simp
  show ?thesis
  proof (cases "unused (bs_obj (bp_backends p) b)")
    case False
    then have "backend_unref b (bp_backends p) = bp_backends p" by (auto simp: backend_unref_def unused_def)
    moreover have "backend_inv (p\<lparr>bp_calls := remove1 (Unreferencing b) (bp_calls p)\<rparr>)"
      by (rule backend_inv_calls_only [OF inv known, of _ "[]"])
        (use ok_unref_used [OF call(3,2) False] in auto)
    ultimately show ?thesis by (simp add: unref(1))
  next
    case True
    then have "backend_unref b (bp_backends p) = backend_removeSharedLocked b (stop_backend b (bp_backends p))"
      by (simp add: backend_unref_def unused_def)
    then show ?thesis
      using ok_unref_stop [OF call(3,2) True] known unfolding unref(1)
      by (intro backend_inv_stop [OF inv known]) (auto simp: backend_removeSharedLocked_def stop_backend_def)
  qed
next
  case (invalidated b r)
  have known: "b < bs_nextRef (bp_backends p)" using invalidated(2) backend_invD(1) [OF inv] by simp
  note ok = backend_invD(9) [OF inv known]
  have "backend_ok (invalidate r (bs_obj (bp_backends p) b)) (calls_on b p) (count_list (bp_held p) b)
      (b \<in> set (bs_stops (bp_backends p))) (b \<in> set (map snd (bs_shared (bp_backends p))))"
    by (rule ok_same_lists [OF ok]) (use backend_okD(1,2) [OF ok] in \<open>auto simp: invalidate_def\<close>)
  then show ?thesis unfolding invalidated(1) by (intro backend_inv_put_only [OF inv known]) simp
next
  case (runs b r wt s)
  have known: "b < bs_nextRef (bp_backends p)" using runs(2) backend_invD(1) [OF inv] by simp
  note ok = backend_invD(9) [OF inv known]
  have "backend_ok ((bs_obj (bp_backends p) b)\<lparr>bk_impl := s\<rparr>) (calls_on b p) (count_list (bp_held p) b)
      (b \<in> set (bs_stops (bp_backends p))) (b \<in> set (map snd (bs_shared (bp_backends p))))"
    by (rule ok_same_lists [OF ok]) (use backend_okD(1,2) [OF ok] in auto)
  then show ?thesis unfolding runs(1) by (intro backend_inv_put_only [OF inv known]) simp
next
  case (failed b cleanupAfterError told x r)
  have known: "b < bs_nextRef (bp_backends p)" using failed(2) backend_invD(1) [OF inv] by simp
  note ok = backend_invD(9) [OF inv known]
  have "backend_ok x (calls_on b p) (count_list (bp_held p) b)
      (b \<in> set (bs_stops (bp_backends p))) (b \<in> set (map snd (bs_shared (bp_backends p))))"
    by (rule ok_same_lists [OF ok]) (use backend_okD(1,2) [OF ok] failed(3) in \<open>auto simp: handleError_def\<close>)
  then show ?thesis unfolding failed(1) by (intro backend_inv_put_only [OF inv known]) simp
next
  case (removed b)
  have known: "b < bs_nextRef (bp_backends p)" using removed(2) backend_invD(1) [OF inv] by simp
  note invs = backend_invD [OF inv]
  let ?bs = "backend_removeSharedLocked b (bp_backends p)"
  have fields: "bs_objs ?bs = (bs_objs (bp_backends p))(b := Some (bs_obj (bp_backends p) b))"
      "bs_nextRef ?bs = bs_nextRef (bp_backends p)" "bs_stops ?bs = bs_stops (bp_backends p)"
      "bs_shared ?bs = erase_first (\<lambda>e. snd e = b) (bs_shared (bp_backends p))"
    using removed(2) by (auto simp: backend_removeSharedLocked_def bs_obj_def)
  have "set (map snd (erase_first (\<lambda>e. snd e = b) xs)) = set (map snd xs) - {b}"
    if "distinct (map snd xs)" for xs :: "(string \<times> bref) list"
    using that by (induction xs) (auto simp: rev_image_eqI)
  then have shared: "set (map snd (bs_shared ?bs)) = set (map snd (bs_shared (bp_backends p))) - {b}"
    using invs(3) by (simp only: fields)
  have gone: "b \<notin> set (map snd (bs_shared ?bs))" using shared by simp
  have ok: "backend_ok (bs_obj (bp_backends p) b) (calls_on b p) (count_list (bp_held p) b)
      (b \<in> set (bs_stops (bp_backends p))) False"
    by (rule ok_registered [OF invs(9) [OF known]]) simp
  show ?thesis
  proof (rule backend_inv_fields, rule backend_inv_change [OF inv, of b _ "bs_obj (bp_backends p) b"], goal_cases)
    case 6 then show ?case using shared by (auto simp: removed(1))
  next
    case 13 then show ?case using ok gone by (simp add: removed(1) fields(3) calls_on_def)
  qed (use known fields invs(2,3,8) erase_first_map_distinct in \<open>auto simp: removed(1) calls_on_def\<close>)
qed

lemma backend_inv_reachable: "backend_reachable subscribe unsubscribe p \<Longrightarrow> backend_inv p"
proof (induction rule: backend_reachable.induct)
  case init
  then show ?case by (simp add: backend_inv_def backend_start_def backends_new_def)
next
  case (step p p')
  then show ?case using backend_inv_step by blast
qed

subsection \<open>Properties\<close>

text \<open>A reachable state for the witnesses: a backend with one subscription and no reservation.\<close>

definition subscribe_unit :: "unit subscriber" where
  "subscribe_unit r wu = (None, wu)"

definition one_backend :: "unit backend_process" where
  "one_backend = backend_start\<lparr>bp_backends := \<lparr>bs_objs = [0 \<mapsto> (backend_new ())\<lparr>bk_reservations := 1\<rparr>],
     bs_shared = [(''default'', 0)], bs_nextRef = 1, bs_stops = []\<rparr>, bp_held := [0]\<rparr>"

definition stopped_backend :: "unit backend_process" where
  "stopped_backend = backend_start\<lparr>bp_backends := \<lparr>bs_objs = [0 \<mapsto> backend_new ()],
     bs_shared = [], bs_nextRef = 1, bs_stops = [0]\<rparr>\<rparr>"

definition pending_backend :: "unit backend_process" where
  "pending_backend = one_backend\<lparr>bp_backends := bs_set 0 ((backend_new ())\<lparr>bk_reservations := 1, bk_pending := [4]\<rparr>)
     (bp_backends one_backend), bp_calls := [Subscribing 0 4 False None]\<rparr>"

definition created_backend :: "unit backend_process" where
  "created_backend = backend_start\<lparr>bp_backends := \<lparr>bs_objs = [0 \<mapsto> backend_new ()], bs_shared = [], bs_nextRef = 1, bs_stops = []\<rparr>,
     bp_calls := [Created ''default'' 0]\<rparr>"

definition failed_backend :: "unit backend_process" where
  "failed_backend = created_backend\<lparr>bp_calls := [Failed 0]\<rparr>"

lemma created_backend_reachable: "backend_reachable subscribe_unit subscribe_unit created_backend"
proof -
  have make: "make_backend () (bp_backends backend_start) =
      (0, \<lparr>bs_objs = [0 \<mapsto> backend_new ()], bs_shared = [], bs_nextRef = 1, bs_stops = []\<rparr>)"
    by (simp add: make_backend_def backend_start_def backends_new_def bs_set_def)
  have "backend_step subscribe_unit subscribe_unit backend_start created_backend"
    using backend_step.create [OF make, of _ _ "''default''"] by (simp add: backend_start_def created_backend_def)
  then show ?thesis using backend_reachable.intros by blast
qed

lemma failed_backend_reachable: "backend_reachable subscribe_unit subscribe_unit failed_backend"
proof -
  have "backend_step subscribe_unit subscribe_unit created_backend failed_backend"
    using backend_step.run_throws [of "''default''" 0 created_backend] by (simp add: failed_backend_def created_backend_def)
  then show ?thesis using created_backend_reachable backend_reachable.step by blast
qed

lemma one_backend_reachable: "backend_reachable subscribe_unit subscribe_unit one_backend"
proof -
  have "emplace_backend ''default'' 0 (bp_backends created_backend) =
      (0, \<lparr>bs_objs = [0 \<mapsto> (backend_new ())\<lparr>bk_reservations := 1\<rparr>], bs_shared = [(''default'', 0)], bs_nextRef = 1, bs_stops = []\<rparr>)"
    by (simp add: emplace_backend_def reserve_backend_def bs_set_def bs_obj_def backend_new_def created_backend_def)
  then have "backend_step subscribe_unit subscribe_unit created_backend one_backend"
    using backend_step.register [of "''default''" 0 created_backend] by (simp add: one_backend_def backend_start_def created_backend_def)
  then show ?thesis using created_backend_reachable backend_reachable.step by blast
qed

lemma stopped_backend_reachable: "backend_reachable subscribe_unit subscribe_unit stopped_backend"
proof -
  have obj: "bs_obj (bp_backends one_backend) 0 = (backend_new ())\<lparr>bk_reservations := 1\<rparr>"
    by (simp add: one_backend_def bs_obj_def)
  have new: "(backend_new ())\<lparr>bk_reservations := 0\<rparr> = backend_new ()" by (simp add: backend_new_def)
  let ?bs = "\<lparr>bs_objs = [0 \<mapsto> backend_new ()], bs_shared = [(''default'', 0)], bs_nextRef = 1, bs_stops = []\<rparr>"
  have "release_backend 0 (bp_backends one_backend) = (True, ?bs)"
    by (simp add: release_backend_def obj new) (simp add: one_backend_def bs_set_def)
  then have "backend_step subscribe_unit subscribe_unit one_backend
      (backend_start\<lparr>bp_backends := ?bs, bp_calls := [Unreferencing 0]\<rparr>)"
    using backend_step.release [of 0 one_backend True] by (simp add: one_backend_def backend_start_def)
  moreover have "backend_step subscribe_unit subscribe_unit (backend_start\<lparr>bp_backends := ?bs, bp_calls := [Unreferencing 0]\<rparr>)
      stopped_backend"
    using backend_step.unref [of 0 "backend_start\<lparr>bp_backends := ?bs, bp_calls := [Unreferencing 0]\<rparr>"]
    by (simp add: stopped_backend_def backend_start_def backend_unref_def bs_obj_def backend_new_def
        backend_removeSharedLocked_def stop_backend_def)
  ultimately show ?thesis using one_backend_reachable backend_reachable.step by blast
qed

lemma pending_backend_reachable: "backend_reachable subscribe_unit subscribe_unit pending_backend"
proof -
  let ?wt = "\<lparr>wt_state = None, wt_needsResubscribe = False\<rparr>"
  have get: "bp_get one_backend 0 4 = (?wt, (backend_new ())\<lparr>bk_reservations := 1\<rparr>)"
    by (simp add: bp_get_def one_backend_def backend_start_def bs_obj_def)
  have "watch_begin subscribe_unit 4 False (bp_get one_backend 0 4) =
      (Watch_subscribed False None, ?wt, (backend_new ())\<lparr>bk_reservations := 1, bk_pending := [4]\<rparr>)"
    by (simp add: get watch_begin_def backend_new_def subscribe_unit_def)
  from backend_step.watch [OF _ _ this, of subscribe_unit]
  have "backend_step subscribe_unit subscribe_unit one_backend pending_backend"
    by (simp add: pending_backend_def bp_put_def watch_calls_def) (simp add: one_backend_def backend_start_def bs_obj_def
        backend_new_def fun_upd_idem)
  then show ?thesis using one_backend_reachable backend_reachable.step by blast
qed

text \<open>
  C8. A backend is never stopped under somebody who uses it: once stopped, in every interleaving,
  it has no subscription, none under way, no reservation, and the registry cannot hand it out.
\<close>

theorem stopped_backend_is_unused:
  assumes "backend_reachable subscribe unsubscribe p" and "b \<in> set (bs_stops (bp_backends p))"
  shows "bk_subscriptions (bs_obj (bp_backends p) b) = [] \<and> bk_pending (bs_obj (bp_backends p) b) = [] \<and>
    b \<notin> set (bp_held p) \<and> b \<notin> snd ` set (bs_shared (bp_backends p)) \<and>
    Subscribing b r wasInvalid st \<notin> set (bp_calls p)"
proof -
  note inv = backend_inv_reachable [OF assms(1)]
  note ok = backend_invD(9) [OF inv backend_invD(7) [OF inv assms(2)]]
  have unused: "unused (bs_obj (bp_backends p) b)" "b \<notin> snd ` set (bs_shared (bp_backends p))"
    using backend_okD(7) [OF ok] assms(2) by simp_all
  then have "count_list (bp_held p) b = 0" using backend_okD(6) [OF ok] by (simp add: unused_def)
  then have "b \<notin> set (bp_held p)" by (simp add: count_list_0_iff)
  moreover have "Subscribing b r wasInvalid st \<notin> set (bp_calls p)"
  proof
    assume "Subscribing b r wasInvalid st \<in> set (bp_calls p)"
    then have "Subscribing b r wasInvalid st \<in> set (calls_on b p)" by (simp add: calls_on_iff)
    then have "r \<in> set (subscribers (calls_on b p))" using subscribers_iff by blast
    then have "r \<in> set (bk_pending (bs_obj (bp_backends p) b))" by (simp only: backend_okD(4) [OF ok])
    then show False using unused by (simp add: unused_def)
  qed
  ultimately show ?thesis using unused by (simp add: unused_def)
qed

lemma stopped_backend_is_unused_witness:
  "bk_subscriptions (bs_obj (bp_backends stopped_backend) 0) = [] \<and> 0 \<notin> set (bp_held stopped_backend)"
  using stopped_backend_is_unused [OF stopped_backend_reachable, of 0] by (simp add: stopped_backend_def)

text \<open>
  C34. No backend is leaked: when no call on a backend is under way, it is stopped exactly if it has
  no subscriptions, nobody holds a reservation, and its thread did start; whatever failed in between. The one that
  did not start was never registered, and its thread has ended by itself.
\<close>

theorem idle_backend_is_stopped:
  assumes "backend_reachable subscribe unsubscribe p" and "bs_objs (bp_backends p) b = Some x"
    and "\<forall>c \<in> set (bp_calls p). call_of b c \<longrightarrow> c = Failed b"
  shows "b \<in> set (bs_stops (bp_backends p)) \<longleftrightarrow>
    bk_subscriptions x = [] \<and> b \<notin> set (bp_held p) \<and> Failed b \<notin> set (bp_calls p)"
proof -
  note inv = backend_inv_reachable [OF assms(1)]
  have x: "bs_obj (bp_backends p) b = x" using assms(2) by (simp add: bs_obj_def)
  have "b < bs_nextRef (bp_backends p)" using backend_invD(1) [OF inv, of b] assms(2) by simp
  note ok = backend_invD(9) [OF inv this, unfolded x]
  have calls: "c = Failed b" if "c \<in> set (calls_on b p)" for c using assms(3) that by (simp add: calls_on_iff)
  have failed: "Failed b \<in> set (bp_calls p) \<longleftrightarrow> (\<exists>c \<in> set (calls_on b p). fresh_call c)"
    using calls by (force simp: calls_on_iff)
  have "subscribers (calls_on b p) = []" using calls subscribers_iff [of _ "calls_on b p"] by (metis call.distinct last_in_set)
  then have "bk_pending x = []" using backend_okD(4) [OF ok] by simp
  moreover have "bk_reservations x = 0 \<longleftrightarrow> b \<notin> set (bp_held p)"
    using backend_okD(6) [OF ok] by (metis count_list_0_iff unat_0 unat_eq_zero)
  ultimately have unused: "unused x \<longleftrightarrow> bk_subscriptions x = [] \<and> b \<notin> set (bp_held p)" by (simp add: unused_def)
  have "\<not> (\<exists>d r. Unreferencing d \<in> set (calls_on b p) \<or> Unsubscribing d r \<in> set (calls_on b p))" using calls by blast
  then show ?thesis using backend_okD(7,9) [OF ok] unused failed by blast
qed

lemma idle_backend_is_stopped_witness:
  "0 \<in> set (bs_stops (bp_backends stopped_backend)) \<and> 0 \<notin> set (bs_stops (bp_backends failed_backend))"
proof -
  have "bs_objs (bp_backends stopped_backend) 0 = Some (backend_new ())" by (simp add: stopped_backend_def)
  from idle_backend_is_stopped [OF stopped_backend_reachable this]
  have "0 \<in> set (bs_stops (bp_backends stopped_backend))" by (simp add: stopped_backend_def backend_start_def backend_new_def)
  moreover have "bs_objs (bp_backends failed_backend) 0 = Some (backend_new ())" by (simp add: failed_backend_def created_backend_def)
  from idle_backend_is_stopped [OF failed_backend_reachable this]
  have "0 \<notin> set (bs_stops (bp_backends failed_backend))" by (simp add: failed_backend_def)
  ultimately show ?thesis ..
qed

text \<open>
  C35. Subscriptions are serialised: the watchers a backend marks as pending are those with a
  subscription under way, each only once; a call renews an old subscription exactly if the
  watcher is still subscribed; and only subscribed watchers are marked as invalid.
\<close>

theorem subscriptions_are_serialised:
  assumes "backend_reachable subscribe unsubscribe p" and "bs_objs (bp_backends p) b = Some x"
  shows "distinct (subscribers (filter (call_of b) (bp_calls p))) \<and>
    set (subscribers (filter (call_of b) (bp_calls p))) = set (bk_pending x) \<and>
    (\<forall>r w st. Subscribing b r w st \<in> set (bp_calls p) \<longrightarrow> (w \<longleftrightarrow> r \<in> set (bk_subscriptions x))) \<and>
    distinct (bk_subscriptions x) \<and> set (bk_invalid x) \<subseteq> set (bk_subscriptions x)"
proof -
  note inv = backend_inv_reachable [OF assms(1)]
  have x: "bs_obj (bp_backends p) b = x" using assms(2) by (simp add: bs_obj_def)
  have "b < bs_nextRef (bp_backends p)" using backend_invD(1) [OF inv, of b] assms(2) by simp
  note ok = backend_invD(9) [OF inv this, unfolded x]
  have "w \<longleftrightarrow> r \<in> set (bk_subscriptions x)" if "Subscribing b r w st \<in> set (bp_calls p)" for r w st
    by (rule backend_okD(5) [OF ok]) (use that in \<open>simp add: calls_on_iff\<close>)
  then show ?thesis using backend_okD(1-4) [OF ok] by (simp add: calls_on_def)
qed

lemma subscriptions_are_serialised_witness:
  "set (subscribers (filter (call_of 0) (bp_calls pending_backend))) = {4}"
proof -
  have "bs_objs (bp_backends pending_backend) 0 = Some ((backend_new ())\<lparr>bk_reservations := 1, bk_pending := [4]\<rparr>)"
    by (simp add: pending_backend_def)
  from subscriptions_are_serialised [OF pending_backend_reachable this] show ?thesis by simp
qed

text \<open>
  C36. An exception leaves the subscriptions as they were: when \<open>subscribe\<close>, \<open>finishSubscribe\<close> or
  \<open>unsubscribe\<close> throws, the watcher is subscribed afterwards exactly if it was before and is no
  longer pending; one whose old subscription could not be renewed stays marked as invalid, so the
  next \<open>watch\<close> tries again.
\<close>

theorem exceptions_keep_subscriptions:
  "(watch_begin subscribe r cancelled (wt, b) = (res, wt', b') \<longrightarrow> (res = Watch_failed err \<or> res = Watch_failed_unref err) \<longrightarrow>
      r \<notin> set (bk_pending b) \<longrightarrow>
      set (bk_subscriptions b') = set (bk_subscriptions b) \<and> set (bk_pending b') = set (bk_pending b) \<and>
      (r \<in> set (bk_subscriptions b) \<longrightarrow> r \<in> set (bk_invalid b') \<and> res = Watch_failed err)) \<and>
   (watch_end r wasInvalid st finishError (wt, b) = (res, wt', b') \<longrightarrow>
      finishError = Some err \<longrightarrow>
      set (bk_subscriptions b') = set (bk_subscriptions b) \<and> set (bk_pending b') = set (bk_pending b) - {r} \<and>
      (wasInvalid \<longrightarrow> r \<in> set (bk_invalid b') \<and> res = Watch_failed err)) \<and>
   (unwatch_begin unsubscribe r force busy (wt, b) = (ures, wt', b') \<longrightarrow> ures = Unwatch_failed err \<longrightarrow>
      set (bk_subscriptions b') = set (bk_subscriptions b) \<and> bk_pending b' = bk_pending b \<and>
      set (bk_invalid b') = set (bk_invalid b))"
proof (intro conjI)
  show "watch_begin subscribe r cancelled (wt, b) = (res, wt', b') \<longrightarrow> (res = Watch_failed err \<or> res = Watch_failed_unref err) \<longrightarrow>
      r \<notin> set (bk_pending b) \<longrightarrow>
      set (bk_subscriptions b') = set (bk_subscriptions b) \<and> set (bk_pending b') = set (bk_pending b) \<and>
      (r \<in> set (bk_subscriptions b) \<longrightarrow> r \<in> set (bk_invalid b') \<and> res = Watch_failed err)"
    by (auto simp: watch_begin_def Let_def split: if_splits prod.splits option.splits)
  show "watch_end r wasInvalid st finishError (wt, b) = (res, wt', b') \<longrightarrow> finishError = Some err \<longrightarrow>
      set (bk_subscriptions b') = set (bk_subscriptions b) \<and> set (bk_pending b') = set (bk_pending b) - {r} \<and>
      (wasInvalid \<longrightarrow> r \<in> set (bk_invalid b') \<and> res = Watch_failed err)"
    by (auto simp: watch_end_def Let_def split: if_splits)
  show "unwatch_begin unsubscribe r force busy (wt, b) = (ures, wt', b') \<longrightarrow> ures = Unwatch_failed err \<longrightarrow>
      set (bk_subscriptions b') = set (bk_subscriptions b) \<and> bk_pending b' = bk_pending b \<and>
      set (bk_invalid b') = set (bk_invalid b)"
    by (auto simp: unwatch_begin_def Let_def split: if_splits prod.splits option.splits)
qed

lemma exceptions_keep_subscriptions_witness:
  "set (bk_invalid (snd (snd (watch_end 4 True None (Some ''failed'') (\<lparr>wt_state = None, wt_needsResubscribe = False\<rparr>,
    (backend_new ())\<lparr>bk_subscriptions := [4], bk_pending := [4]\<rparr>))))) \<noteq> {}"
proof -
  let ?wt = "\<lparr>wt_state = None, wt_needsResubscribe = False\<rparr>"
  let ?b = "(backend_new ())\<lparr>bk_subscriptions := [4], bk_pending := [4]\<rparr>"
  obtain res wt' b' where e: "watch_end 4 True None (Some ''failed'') (?wt, ?b) = (res, wt', b')" by (metis surj_pair)
  have "4 \<in> set (bk_invalid b')"
    using exceptions_keep_subscriptions [of subscribe_unit 4 True ?wt ?b res wt' b' "''failed''" True None
        "Some ''failed''" subscribe_unit True True Unwatch_done] e by simp
  then show ?thesis by (auto simp: e)
qed

text \<open>
  A successful subscription: the watcher is subscribed and valid, and watching it again does not
  subscribe again.
\<close>

lemma watch_succeeds_once:
  assumes "watch_begin subscribe r False (wt, b) = (Watch_subscribed w st, wt1, b1)"
    and "watch_end r w st None (wt1, b1) = (res, wt2, b2)" and "r \<notin> set (bk_pending b)"
    and "r \<notin> set (bk_subscriptions b) \<longrightarrow> r \<notin> set (bk_invalid b)"
  shows "r \<in> set (bk_subscriptions b2) \<and> r \<notin> set (bk_invalid b2) \<and> set (bk_pending b2) = set (bk_pending b) \<and>
    (\<not> wt_needsResubscribe wt2 \<longrightarrow> watch_begin subscribe r False (wt2, b2) = (Watch_done, wt2, b2))"
proof -
  have b1: "bk_subscriptions b1 = bk_subscriptions b" "r \<notin> set (bk_invalid b1)" "set (bk_pending b1) = insert r (set (bk_pending b))"
    using assms(1,4) by (auto simp: watch_begin_def Let_def split: if_splits prod.splits option.splits)
  have b2: "b2 = b1\<lparr>bk_pending := removeAll r (bk_pending b1), bk_subscriptions := List.insert r (bk_subscriptions b1)\<rparr>"
    using assms(2) by (simp add: watch_end_def)
  have "r \<in> set (bk_subscriptions b2)" "r \<notin> set (bk_invalid b2)" using b1 b2 by auto
  moreover from this have "b2\<lparr>bk_invalid := removeAll r (bk_invalid b2)\<rparr> = b2" by simp
  ultimately show ?thesis
    using b1 b2 assms(3) by (auto simp: watch_begin_def Let_def simp del: removeAll_id)
qed

text \<open>
  C37. \<open>getShared\<close> returns or fails exactly when there is a backend to return: the build has one, or
  one is registered under the name or as the default; otherwise it calls itself for ever.
\<close>

theorem getShared_returns_iff:
  "(\<exists>result. backend_getShared build init startup name bs = Some result) \<longleftrightarrow>
    getBackend build ''default'' \<noteq> None \<or> map_of (bs_shared bs) name \<noteq> None \<or> map_of (bs_shared bs) ''default'' \<noteq> None"
proof -
  have none: "getBackend build n = None" if "getBackend build ''default'' = None" for n
    using that by (auto simp: getBackend_def split: if_splits)
  have default: "\<exists>result. backend_getShared build init startup n bs = Some result"
    if "map_of (bs_shared bs) n \<noteq> None \<or> getBackend build n \<noteq> None" for n
    using that by (subst backend_getShared.simps) (auto simp: Let_def split: option.splits prod.splits)
  have "map_of (bs_shared bs) name = None \<longrightarrow> map_of (bs_shared bs) ''default'' = None \<longrightarrow> getBackend build ''default'' = None \<longrightarrow>
      False" if "backend_getShared build init startup name bs = Some result" for result
    using that
  proof (induction rule: backend_getShared.raw_induct [rotated, consumes 1])
    case (1 f build init startup name bs result)
    show ?case
    proof (intro impI)
      assume no: "map_of (bs_shared bs) name = None" "map_of (bs_shared bs) ''default'' = None" "getBackend build ''default'' = None"
      have "getBackend build name = None" using no(3) by (auto simp: getBackend_def split: if_splits)
      then have "f build init startup ''default'' bs = Some result" using 1(2) no(1) by simp
      then show False using 1(1) no by blast
    qed
  qed
  moreover have "\<exists>result. backend_getShared build init startup name bs = Some result"
    if "getBackend build ''default'' \<noteq> None \<or> map_of (bs_shared bs) ''default'' \<noteq> None" "map_of (bs_shared bs) name = None"
      "getBackend build name = None"
    using default [of "''default''"] that by (subst backend_getShared.simps) auto
  ultimately show ?thesis using default [of name] by blast
qed

lemma getShared_returns_iff_witness:
  "\<exists>result. backend_getShared \<lparr>FS_EVENTS = False, WINDOWS = False, INOTIFY = True\<rparr> (\<lambda>k. ()) (\<lambda>b. []) ''none'' backends_new = Some result"
  using getShared_returns_iff [of "\<lparr>FS_EVENTS = False, WINDOWS = False, INOTIFY = True\<rparr>" "\<lambda>k. ()" "\<lambda>b. []" "''none''" backends_new]
  by (simp add: getBackend_def)

text \<open>The first report of the thread of a backend decides what \<open>run\<close> does.\<close>

lemma first_report_decides:
  "run_result (notifyStartupFailed err (notifyStarted startup_new)) = Some None"
  "err \<noteq> [] \<Longrightarrow> run_result (notifyStarted (notifyStartupFailed err startup_new)) = Some (Some err)"
  "run_result startup_new = None"
  by (simp_all add: run_result_def notifyStarted_def notifyStartupFailed_def startup_new_def)

end
