(* ===== verification/Files.thy ===== *)
theory Files
  imports Prelude
begin

section \<open>What the file system tells about an entry\<close>

text \<open>
  The fields of \<open>struct stat\<close> that src/macos/IdentityIndex.cc and src/linux/InotifyBackend.cc
  read, with the type bits of the mode as \<open>file_type\<close>, and the time stamp both compute from it
  with the macro \<open>CONVERT_TIME\<close>, in 64-bit arithmetic.
\<close>

datatype file_type = Regular | Folder | Special

record stat =
  stat_dev :: u32
  stat_ino :: u64
  stat_sec :: u64
  stat_nsec :: u64
  stat_nlink :: nat
  stat_type :: file_type

definition CONVERT_TIME :: "stat \<Rightarrow> u64" where
  "CONVERT_TIME st = stat_sec st * 1000000000 + stat_nsec st"

definition S_ISREG :: "stat \<Rightarrow> bool" where
  "S_ISREG st \<longleftrightarrow> stat_type st = Regular"

definition S_ISDIR :: "stat \<Rightarrow> bool" where
  "S_ISDIR st \<longleftrightarrow> stat_type st = Folder"

definition ENOENT :: nat where "ENOENT = 2"
definition ENOTDIR :: nat where "ENOTDIR = 20"

text \<open>The time stamp is exact up to the year 2554, when the seconds no longer fit.\<close>

lemma CONVERT_TIME_exact:
  assumes "unat (stat_sec st) * 1000000000 + unat (stat_nsec st) < 2 ^ 64"
  shows "unat (CONVERT_TIME st) = unat (stat_sec st) * 1000000000 + unat (stat_nsec st)"
proof -
  have "unat (stat_sec st * 1000000000) = unat (stat_sec st) * 1000000000"
    using assms unat_mult_lem [of "stat_sec st" 1000000000] by simp
  then show ?thesis
    using assms unat_add_lem [of "stat_sec st * 1000000000" "stat_nsec st"] by (simp add: CONVERT_TIME_def)
qed

end
