(* ===== verification/Identities.thy ===== *)
theory Identities
  imports Events Files
begin

section \<open>The index of file identities (src/macos/IdentityIndex.hh, src/macos/IdentityIndex.cc)\<close>

text \<open>
  On macOS the backend pairs renames by device and inode. The index keeps the entries by path
  and, for each identity, the set of its paths (hard links share one). Both unordered maps are
  association lists, a set of paths is a list without duplicates.
\<close>

subsection \<open>The index\<close>

record file_identity =
  fi_device :: u32
  fi_inode :: u64

record indexed_path =
  ip_identity :: file_identity
  ip_mtime :: u64
  ip_linkCount :: nat
  ip_isDirectory :: bool

record identity_index =
  mByPath :: "(string \<times> indexed_path) list"
  mByIdentity :: "(file_identity \<times> string list) list"

definition ix_empty :: identity_index where
  "ix_empty = \<lparr>mByPath = [], mByIdentity = []\<rparr>"

definition hasPathPrefix :: "string \<Rightarrow> string \<Rightarrow> bool" where
  "hasPathPrefix path pre \<longleftrightarrow>
     length path > length pre \<and> take (length pre) path = pre \<and> path ! length pre = CHR ''/''"

definition ix_find :: "identity_index \<Rightarrow> string \<Rightarrow> indexed_path option" where
  "ix_find idx path = map_of (mByPath idx) path"

definition ix_entries :: "identity_index \<Rightarrow> (string \<times> indexed_path) list" where
  "ix_entries idx = mByPath idx"

definition ix_pathCount :: "identity_index \<Rightarrow> file_identity \<Rightarrow> nat" where
  "ix_pathCount idx i = (case map_of (mByIdentity idx) i of None \<Rightarrow> 0 | Some paths \<Rightarrow> length paths)"

definition ix_removeExact :: "string \<Rightarrow> identity_index \<Rightarrow> identity_index" where
  "ix_removeExact path idx =
     (case map_of (mByPath idx) path of
        None \<Rightarrow> idx
      | Some found \<Rightarrow>
          (let i = ip_identity found in
           \<lparr>mByPath = AList.delete path (mByPath idx),
            mByIdentity =
              (case map_of (mByIdentity idx) i of
                 None \<Rightarrow> mByIdentity idx
               | Some paths \<Rightarrow>
                   (let paths' = removeAll path paths in
                    if paths' = [] then AList.delete i (mByIdentity idx)
                    else AList.update i paths' (mByIdentity idx)))\<rparr>))"

text \<open>\<open>mByIdentity[identity]\<close> makes an empty set when there is none.\<close>

definition ix_add :: "string \<Rightarrow> indexed_path \<Rightarrow> identity_index \<Rightarrow> identity_index" where
  "ix_add path e idx =
     (let idx1 = ix_removeExact path idx; i = ip_identity e in
      \<lparr>mByPath = (case map_of (mByPath idx1) path of None \<Rightarrow> AList.update path e (mByPath idx1) | Some _ \<Rightarrow> mByPath idx1),
       mByIdentity =
         AList.update i
           (List.insert path (case map_of (mByIdentity idx1) i of None \<Rightarrow> [] | Some paths \<Rightarrow> paths))
           (mByIdentity idx1)\<rparr>)"

definition ix_remove :: "string \<Rightarrow> identity_index \<Rightarrow> identity_index" where
  "ix_remove path idx =
     (case map_of (mByPath idx) path of
        Some exact \<Rightarrow>
          if \<not> ip_isDirectory exact then ix_removeExact path idx
          else fold ix_removeExact (map fst (filter (\<lambda>e. fst e = path \<or> hasPathPrefix (fst e) path) (mByPath idx))) idx
      | None \<Rightarrow>
          fold ix_removeExact (map fst (filter (\<lambda>e. fst e = path \<or> hasPathPrefix (fst e) path) (mByPath idx))) idx)"

definition moved_entries :: "string \<Rightarrow> string \<Rightarrow> identity_index \<Rightarrow> (string \<times> indexed_path) list" where
  "moved_entries oldPath newPath idx =
     map (\<lambda>(path, e). (newPath @ drop (length oldPath) path, e))
       (filter (\<lambda>e. fst e = oldPath \<or> hasPathPrefix (fst e) oldPath) (mByPath idx))"

definition ix_rename :: "string \<Rightarrow> string \<Rightarrow> identity_index \<Rightarrow> identity_index" where
  "ix_rename oldPath newPath idx =
     (let subtree = fold (\<lambda>e. ix_add (fst e) (snd e)) (moved_entries oldPath newPath idx) (ix_remove oldPath idx) in
      (case map_of (mByPath idx) oldPath of
         Some exact \<Rightarrow>
           if \<not> ip_isDirectory exact then ix_add newPath exact (ix_removeExact oldPath idx) else subtree
       | None \<Rightarrow> subtree))"

subsection \<open>The two maps agree\<close>

definition paths_of :: "identity_index \<Rightarrow> file_identity \<Rightarrow> string list" where
  "paths_of idx i = (case map_of (mByIdentity idx) i of None \<Rightarrow> [] | Some paths \<Rightarrow> paths)"

definition ix_ok :: "identity_index \<Rightarrow> bool" where
  "ix_ok idx \<longleftrightarrow>
     um_ok (mByPath idx) \<and> um_ok (mByIdentity idx) \<and>
     (\<forall>i. map_of (mByIdentity idx) i \<noteq> Some [] \<and> distinct (paths_of idx i) \<and>
       set (paths_of idx i) = {p. \<exists>e. ix_find idx p = Some e \<and> ip_identity e = i})"

lemma ix_okD:
  assumes "ix_ok idx"
  shows "um_ok (mByPath idx)" "um_ok (mByIdentity idx)" "map_of (mByIdentity idx) i \<noteq> Some []"
    "distinct (paths_of idx i)" "p \<in> set (paths_of idx i) \<longleftrightarrow> (\<exists>e. ix_find idx p = Some e \<and> ip_identity e = i)"
  using assms by (auto simp: ix_ok_def)

lemma ix_find_removeExact:
  assumes "ix_ok idx"
  shows "ix_find (ix_removeExact path idx) q = (if q = path then None else ix_find idx q)"
  using um.look_del [OF ix_okD(1) [OF assms]]
  by (auto simp: ix_removeExact_def ix_find_def Let_def split: option.splits)

lemma paths_of_removeExact:
  assumes ok: "ix_ok idx"
  shows "paths_of (ix_removeExact path idx) i = removeAll path (paths_of idx i)"
proof (cases "map_of (mByPath idx) path")
  case None
  then have "path \<notin> set (paths_of idx i)" using ix_okD(5) [OF ok, of path i] by (simp add: ix_find_def)
  then show ?thesis using None by (simp add: ix_removeExact_def)
next
  case (Some found)
  let ?j = "ip_identity found"
  have "path \<in> set (paths_of idx ?j)" using ix_okD(5) [OF ok, of path ?j] Some by (simp add: ix_find_def)
  then obtain paths where paths: "map_of (mByIdentity idx) ?j = Some paths"
    by (cases "map_of (mByIdentity idx) ?j") (simp_all add: paths_of_def)
  have "path \<notin> set (paths_of idx i)" if "i \<noteq> ?j"
    using ix_okD(5) [OF ok, of path i] Some that by (simp add: ix_find_def)
  then show ?thesis
    using Some paths um.look_del [OF ix_okD(2) [OF ok]] um.look_put [OF ix_okD(2) [OF ok]]
    by (auto simp: ix_removeExact_def Let_def paths_of_def)
qed

lemma ix_ok_removeExact:
  assumes ok: "ix_ok idx"
  shows "ix_ok (ix_removeExact path idx)"
proof -
  have "um_ok (mByPath (ix_removeExact path idx))" "um_ok (mByIdentity (ix_removeExact path idx))"
    using ix_okD(1,2) [OF ok]
    by (auto simp: ix_removeExact_def Let_def um.ok_del um.ok_put split: option.splits)
  moreover have "map_of (mByIdentity (ix_removeExact path idx)) i \<noteq> Some []" for i
    using ix_okD(3) [OF ok, of i] um.look_del [OF ix_okD(2) [OF ok]] um.look_put [OF ix_okD(2) [OF ok]]
    by (auto simp: ix_removeExact_def Let_def split: option.splits)
  moreover have "distinct (paths_of (ix_removeExact path idx) i)" for i
    using ix_okD(4) [OF ok, of i] by (simp add: paths_of_removeExact [OF ok] distinct_removeAll)
  moreover have "set (paths_of (ix_removeExact path idx) i) =
      {p. \<exists>e. ix_find (ix_removeExact path idx) p = Some e \<and> ip_identity e = i}" for i
    using ix_okD(5) [OF ok, of _ i] by (auto simp: paths_of_removeExact [OF ok] ix_find_removeExact [OF ok])
  ultimately show ?thesis by (simp add: ix_ok_def)
qed

lemma ix_add_simp:
  assumes "ix_ok idx"
  shows "mByPath (ix_add path e idx) = AList.update path e (mByPath (ix_removeExact path idx))"
    and "mByIdentity (ix_add path e idx) =
      AList.update (ip_identity e) (List.insert path (paths_of (ix_removeExact path idx) (ip_identity e)))
        (mByIdentity (ix_removeExact path idx))"
  using ix_find_removeExact [OF assms, of path path]
  by (simp_all add: ix_add_def Let_def ix_find_def paths_of_def)

lemma ix_find_add:
  assumes "ix_ok idx"
  shows "ix_find (ix_add path e idx) q = (if q = path then Some e else ix_find idx q)"
  using um.look_put [OF ix_okD(1) [OF ix_ok_removeExact [OF assms]]] ix_find_removeExact [OF assms]
  by (simp add: ix_find_def ix_add_simp [OF assms])

lemma paths_of_add:
  assumes "ix_ok idx"
  shows "paths_of (ix_add path e idx) i =
    (if i = ip_identity e then List.insert path (removeAll path (paths_of idx i)) else removeAll path (paths_of idx i))"
  using um.look_put [OF ix_okD(2) [OF ix_ok_removeExact [OF assms]]] paths_of_removeExact [OF assms]
  by (simp add: paths_of_def ix_add_simp(2) [OF assms] split: option.splits)

lemma ix_ok_add:
  assumes ok: "ix_ok idx"
  shows "ix_ok (ix_add path e idx)"
proof -
  note ok1 = ix_ok_removeExact [OF ok, of path]
  have "um_ok (mByPath (ix_add path e idx))" "um_ok (mByIdentity (ix_add path e idx))"
    using ix_okD(1,2) [OF ok1] by (simp_all add: ix_add_simp [OF ok] um.ok_put)
  moreover have "map_of (mByIdentity (ix_add path e idx)) i \<noteq> Some []" for i
    using ix_okD(3) [OF ok1, of i] um.look_put [OF ix_okD(2) [OF ok1]]
    by (auto simp: ix_add_simp(2) [OF ok] List.insert_def)
  moreover have "distinct (paths_of (ix_add path e idx) i)" for i
    using ix_okD(4) [OF ok, of i] by (auto simp: paths_of_add [OF ok] distinct_removeAll)
  moreover have "set (paths_of (ix_add path e idx) i) =
      {p. \<exists>e'. ix_find (ix_add path e idx) p = Some e' \<and> ip_identity e' = i}" for i
    using ix_okD(5) [OF ok, of _ i] by (auto simp: paths_of_add [OF ok] ix_find_add [OF ok])
  ultimately show ?thesis by (simp add: ix_ok_def)
qed

text \<open>The index is a map from paths to entries, with the laws of one.\<close>

interpretation ix: keyed_store ix_find ix_add ix_removeExact ix_ok
  by unfold_locales (simp_all add: ix_find_add ix_find_removeExact ix_ok_add ix_ok_removeExact)

lemma ix_find_empty [simp]: "ix_find ix_empty p = None"
  by (simp add: ix_find_def ix_empty_def)

lemma ix_ok_empty [simp]: "ix_ok ix_empty"
  by (simp add: ix_ok_def ix_empty_def paths_of_def ix_find_def)

subsection \<open>Removing and renaming subtrees\<close>

lemma hasPathPrefix_under: "hasPathPrefix p base = under CHR ''/'' base p"
  using compare_under [of base p "CHR ''/''"] by (auto simp: hasPathPrefix_def)

lemma in_prefix: "fst e = base \<or> hasPathPrefix (fst e) base \<longleftrightarrow> in_subtree CHR ''/'' base (fst e)"
  by (simp add: hasPathPrefix_under in_subtree_def)

lemma subtree_paths:
  assumes "ix_ok idx"
  shows "p \<in> set (map fst (filter (\<lambda>e. fst e = base \<or> hasPathPrefix (fst e) base) (mByPath idx))) \<longleftrightarrow>
    in_subtree CHR ''/'' base p \<and> ix_find idx p \<noteq> None"
  using um_ok_map_of [OF ix_okD(1) [OF assms]] by (force simp: in_prefix ix_find_def)

text \<open>Files have nothing below them; then \<open>remove\<close> and \<open>rename\<close> treat all entries alike.\<close>

definition files_are_leaves :: "identity_index \<Rightarrow> bool" where
  "files_are_leaves idx \<longleftrightarrow>
     (\<forall>p e q. ix_find idx p = Some e \<longrightarrow> \<not> ip_isDirectory e \<longrightarrow> under CHR ''/'' p q \<longrightarrow> ix_find idx q = None)"

lemma ix_ok_remove: "ix_ok idx \<Longrightarrow> ix_ok (ix_remove path idx)"
  by (simp add: ix_remove_def ix_ok_removeExact ix.ok_fold_del split: option.split)

lemma ix_find_remove:
  assumes ok: "ix_ok idx" and leaves: "files_are_leaves idx"
  shows "ix_find (ix_remove path idx) q = (if in_subtree CHR ''/'' path q then None else ix_find idx q)"
proof -
  let ?sub = "fold ix_removeExact (map fst (filter (\<lambda>e. fst e = path \<or> hasPathPrefix (fst e) path) (mByPath idx))) idx"
  have sub: "ix_find ?sub q = (if in_subtree CHR ''/'' path q then None else ix_find idx q)"
    using ix.look_fold_del [OF ok] subtree_paths [OF ok, of q path] by auto
  have leaf: "ix_find (ix_removeExact path idx) q = (if in_subtree CHR ''/'' path q then None else ix_find idx q)"
    if "map_of (mByPath idx) path = Some e" "\<not> ip_isDirectory e" for e
    using leaves that by (auto simp: files_are_leaves_def ix_find_def in_subtree_def ix_find_removeExact [OF ok, unfolded ix_find_def])
  show ?thesis
    using sub leaf by (auto simp: ix_remove_def split: option.split)
qed

lemma ix_ok_rename: "ix_ok idx \<Longrightarrow> ix_ok (ix_rename oldPath newPath idx)"
  using ix.ok_fold_put [of "ix_remove oldPath idx" fst snd "moved_entries oldPath newPath idx"]
  by (simp add: ix_rename_def Let_def ix_ok_remove ix_ok_add ix_ok_removeExact split: option.split)

lemma moved_entries_iff:
  assumes "ix_ok idx"
  shows "(q, e) \<in> set (moved_entries oldPath newPath idx) \<longleftrightarrow>
    in_subtree CHR ''/'' newPath q \<and> ix_find idx (relocate newPath oldPath q) = Some e"
proof -
  let ?sub = "in_subtree CHR ''/''"
  have "(q, e) \<in> set (moved_entries oldPath newPath idx) \<longleftrightarrow>
      (\<exists>p. ?sub oldPath p \<and> ix_find idx p = Some e \<and> q = relocate oldPath newPath p)"
    using um_ok_map_of [OF ix_okD(1) [OF assms]]
    by (force simp: moved_entries_def in_prefix ix_find_def relocate_def)
  also have "\<dots> \<longleftrightarrow> ?sub newPath q \<and> ix_find idx (relocate newPath oldPath q) = Some e"
    by (metis relocate_back relocate_in_subtree)
  finally show ?thesis .
qed

lemma moved_entries_inj:
  assumes "ix_ok idx"
  shows "inj_on fst (set (moved_entries oldPath newPath idx))"
  using moved_entries_iff [OF assms] by (auto simp: inj_on_def)

lemma ix_find_rename:
  assumes ok: "ix_ok idx" and leaves: "files_are_leaves idx"
  shows "ix_find (ix_rename oldPath newPath idx) q =
    (case (if in_subtree CHR ''/'' newPath q then ix_find idx (relocate newPath oldPath q) else None) of
       Some e \<Rightarrow> Some e
     | None \<Rightarrow> if in_subtree CHR ''/'' oldPath q then None else ix_find idx q)"
proof -
  let ?sub = "in_subtree CHR ''/''"
  let ?moved = "fold (\<lambda>e. ix_add (fst e) (snd e)) (moved_entries oldPath newPath idx) (ix_remove oldPath idx)"
  let ?goal = "case (if ?sub newPath q then ix_find idx (relocate newPath oldPath q) else None) of
       Some e \<Rightarrow> Some e | None \<Rightarrow> if ?sub oldPath q then None else ix_find idx q"
  note ok1 = ix_ok_remove [OF ok, of oldPath]
  have moved: "ix_find ?moved q = ?goal"
  proof (cases "if ?sub newPath q then ix_find idx (relocate newPath oldPath q) else None")
    case None
    then have "q \<notin> fst ` set (moved_entries oldPath newPath idx)"
      using moved_entries_iff [OF ok, of q] by (force split: if_splits)
    then show ?thesis
      using None by (simp add: ix.look_fold_put_other [OF ok1] ix_find_remove [OF ok leaves])
  next
    case (Some e)
    then have "(q, e) \<in> set (moved_entries oldPath newPath idx)"
      using moved_entries_iff [OF ok, of q] by (simp split: if_splits)
    then show ?thesis
      using ix.look_fold_put [OF ok1 _ moved_entries_inj [OF ok], of "(q, e)" oldPath newPath snd] Some by simp
  qed
  have "ix_find (ix_add newPath e (ix_removeExact oldPath idx)) q = ?goal"
    if leaf: "map_of (mByPath idx) oldPath = Some e" "\<not> ip_isDirectory e" for e
  proof -
    have none: "ix_find idx p = None" if "?sub oldPath p" "p \<noteq> oldPath" for p
      using leaves leaf that by (auto simp: files_are_leaves_def ix_find_def in_subtree_def)
    have old: "ix_find idx oldPath = Some e" using leaf by (simp add: ix_find_def)
    show ?thesis
    proof (cases "q = newPath")
      case True
      then show ?thesis using old by (simp add: ix_find_add [OF ix_ok_removeExact [OF ok]])
    next
      case False
      have "ix_find idx (relocate newPath oldPath q) = None" if "?sub newPath q"
        using none [of "relocate newPath oldPath q"] relocate_in_subtree [OF that, of oldPath] relocate_back [OF that, of oldPath] False
        by (metis relocate_self)
      then show ?thesis
        using none [of q] False
        by (auto simp: ix_find_add [OF ix_ok_removeExact [OF ok]] ix_find_removeExact [OF ok])
    qed
  qed
  then show ?thesis using moved by (auto simp: ix_rename_def Let_def split: option.split)
qed

subsection \<open>Reading entries\<close>

definition fromStat :: "stat \<Rightarrow> indexed_path" where
  "fromStat st =
     \<lparr>ip_identity = \<lparr>fi_device = stat_dev st, fi_inode = stat_ino st\<rparr>, ip_mtime = CONVERT_TIME st,
      ip_linkCount = stat_nlink st, ip_isDirectory = S_ISDIR st\<rparr>"

text \<open>
  \<open>getattrlist\<close> fills a buffer with its length, the place of the name (an offset from the field
  that holds it, and a length), and the name; \<open>ab_bytes\<close> are all \<open>sizeof(buffer)\<close> bytes.
\<close>

record attr_buffer =
  ab_length :: nat
  ab_dataoffset :: int
  ab_attrlength :: nat
  ab_bytes :: string

definition attr_name :: "attr_buffer \<Rightarrow> string option" where
  "attr_name buffer =
     (let returnedLength = min (ab_length buffer) (length (ab_bytes buffer)); nameFieldOffset = 4 in
      if ab_dataoffset buffer < 0 \<or> nameFieldOffset + nat (ab_dataoffset buffer) \<ge> returnedLength \<or>
         ab_attrlength buffer = 0 \<or>
         returnedLength - nameFieldOffset - nat (ab_dataoffset buffer) < ab_attrlength buffer
      then None
      else
        (let start = nameFieldOffset + nat (ab_dataoffset buffer) in
         if ab_bytes buffer ! (start + ab_attrlength buffer - 1) \<noteq> CHR 0x00 then None
         else Some (c_str (drop start (ab_bytes buffer)))))"

definition component_end :: "string \<Rightarrow> nat \<Rightarrow> nat" where
  "component_end path start = start + length (takeWhile (\<lambda>c. c \<noteq> CHR ''/'') (drop start path))"

function exact_case_from :: "(string \<Rightarrow> attr_buffer option) \<Rightarrow> string \<Rightarrow> nat \<Rightarrow> bool" where
  "exact_case_from getattrlist path start =
     (if start \<ge> length path then True
      else
        (let stop = component_end path start in
         if stop = start then exact_case_from getattrlist path (start + 1)
         else
           (case getattrlist (take stop path) of
              None \<Rightarrow> False
            | Some buffer \<Rightarrow>
                (case attr_name buffer of
                   None \<Rightarrow> False
                 | Some actualName \<Rightarrow>
                     if take (stop - start) (drop start path) \<noteq> actualName then False
                     else exact_case_from getattrlist path (stop + 1)))))"
  by pat_completeness auto
termination
  by (relation "measure (\<lambda>(g, path, start). length path - start)") (auto simp: component_end_def)

declare exact_case_from.simps [simp del]

definition pathHasExactCase :: "(string \<Rightarrow> attr_buffer option) \<Rightarrow> string \<Rightarrow> bool" where
  "pathHasExactCase getattrlist path \<longleftrightarrow>
     \<not> (path = [] \<or> path ! 0 \<noteq> CHR ''/'') \<and> exact_case_from getattrlist path 1"

definition readIndexedPath ::
  "(string \<Rightarrow> stat option) \<Rightarrow> (string \<Rightarrow> attr_buffer option) \<Rightarrow> string \<Rightarrow> indexed_path option" where
  "readIndexedPath lstat getattrlist path =
     (case lstat path of
        None \<Rightarrow> None
      | Some st \<Rightarrow>
          if (\<not> S_ISREG st \<and> \<not> S_ISDIR st) \<or> \<not> pathHasExactCase getattrlist path then None
          else Some (fromStat st))"

text \<open>Every component of an accepted path is the name the file system has for it.\<close>

lemma component_end_append:
  assumes "CHR ''/'' \<notin> set c" and "rest = [] \<or> hd rest = CHR ''/''"
  shows "component_end (a @ c @ rest) (length a) = length (a @ c)"
proof -
  have "takeWhile (\<lambda>x. x \<noteq> CHR ''/'') (c @ rest) = c"
    using assms by (cases rest) (auto simp: takeWhile_append)
  then show ?thesis by (simp add: component_end_def)
qed

lemma first_stop:
  "x \<in> set xs \<Longrightarrow> \<not> P x \<Longrightarrow> length (takeWhile P xs) < length xs \<and> \<not> P (xs ! length (takeWhile P xs))"
  by (induction xs) auto

lemma exact_case_from_sound:
  assumes "exact_case_from getattrlist path start"
    and "path = a @ c @ rest" "CHR ''/'' \<notin> set c" "c \<noteq> []" "rest = [] \<or> hd rest = CHR ''/''"
    and "start \<le> length a" "start = 0 \<or> path ! (start - 1) = CHR ''/''" "a = [] \<or> last a = CHR ''/''"
  shows "\<exists>buffer. getattrlist (a @ c) = Some buffer \<and> attr_name buffer = Some c"
  using assms
proof (induction getattrlist path start rule: exact_case_from.induct)
  case (1 getattrlist path start)
  have more: "\<not> start \<ge> length path" using 1 by (cases c) auto
  let ?stop = "component_end path start"
  show ?case
  proof (cases "start = length a")
    case True
    then have stop: "?stop = length (a @ c)" using component_end_append [of c rest a] 1 by simp
    then have "?stop \<noteq> start" "take ?stop path = a @ c" "take (?stop - start) (drop start path) = c"
      using True 1 by simp_all
    then show ?thesis
      using 1(3) more by (subst (asm) exact_case_from.simps) (auto split: option.splits if_splits)
  next
    case False
    then have before: "start < length a" using 1 by simp
    define w where "w = takeWhile (\<lambda>x. x \<noteq> CHR ''/'') (drop start a)"
    have slash: "CHR ''/'' \<in> set (drop start a)"
      using before 1(10) by (metis drop_eq_Nil last_drop last_in_set length_0_conv not_le not_less_zero)
    then have "takeWhile (\<lambda>x. x \<noteq> CHR ''/'') (drop start path) = w"
      using 1(4) before by (simp add: w_def takeWhile_append1)
    then have stop: "?stop = start + length w" by (simp add: component_end_def)
    have "length w < length (drop start a)" "drop start a ! length w = CHR ''/''"
      using first_stop [OF slash, of "\<lambda>x. x \<noteq> CHR ''/''"] by (simp_all add: w_def)
    then have inside: "?stop < length a" "path ! ?stop = CHR ''/''"
      using stop 1(4) before by (auto simp: nth_append)
    show ?thesis
    proof (cases "?stop = start")
      case True
      then have rec: "exact_case_from getattrlist path (start + 1)"
        using 1(3) more by (subst (asm) exact_case_from.simps) simp
      show ?thesis
        by (rule 1(1) [OF more refl True rec]) (use 1 inside True before in auto)
    next
      case stop_later: False
      note unfold = exact_case_from.simps [of getattrlist path start]
      from stop_later obtain buffer actual where buffer: "getattrlist (take ?stop path) = Some buffer" "attr_name buffer = Some actual"
          "\<not> take (?stop - start) (drop start path) \<noteq> actual" "exact_case_from getattrlist path (?stop + 1)"
        using 1(3) more by (auto simp: unfold Let_def split: option.splits if_splits)
      show ?thesis
        by (rule 1(2) [OF more refl stop_later buffer]) (use 1 inside in auto)
    qed
  qed
qed

subsection \<open>Scanning a directory\<close>

text \<open>
  The traversal of the C library is a state \<open>'f\<close> with \<open>fts_read\<close> and \<open>fts_set\<close> (which only ever
  skips the directory just read). \<open>cancelled k\<close> is the answer of the \<open>k\<close>-th call of
  \<open>shouldCancel\<close>. The result has the error that is thrown, if any, and the index and the calls of
  \<open>onEntry\<close> up to then, in order.
\<close>

datatype fts_info = FTS_D | FTS_DP | FTS_ENTRY

record fts_node =
  fts_info :: fts_info
  fts_path :: string
  fts_errno :: nat
  fts_stat :: "stat option"

type_synonym scanned = "identity_index \<times> (string \<times> indexed_path) list"

record 'f scanner =
  fts_read :: "'f \<Rightarrow> (fts_node \<times> 'f) option"
  fts_skip :: "'f \<Rightarrow> 'f"
  is_ignored :: "string \<Rightarrow> bool"
  should_cancel :: "nat \<Rightarrow> bool"
  strerror :: "nat \<Rightarrow> string"
  scan_root :: string

text \<open>The body of the loop: the result with which it ends, or the state in which it goes on.\<close>

definition scan_node ::
  "'f scanner \<Rightarrow> nat \<Rightarrow> fts_node \<Rightarrow> 'f \<Rightarrow> scanned \<Rightarrow> (string option \<times> scanned) + 'f \<times> scanned" where
  "scan_node env k node f result =
     (let path = fts_path node in
      if should_cancel env k then Inl (None, result)
      else if fts_info node = FTS_DP then Inr (f, result)
      else if fts_errno node \<noteq> 0 then
        (if path \<noteq> scan_root env \<and> (fts_errno node = ENOENT \<or> fts_errno node = ENOTDIR) then Inr (f, result)
         else Inl (Some (strerror env (fts_errno node)), result))
      else if path \<noteq> scan_root env \<and> is_ignored env path then
        Inr (if fts_info node = FTS_D then fts_skip env f else f, result)
      else
        (case fts_stat node of
           None \<Rightarrow> Inr (f, result)
         | Some st \<Rightarrow>
             if \<not> S_ISREG st \<and> \<not> S_ISDIR st then Inr (f, result)
             else (let entry = fromStat st in Inr (f, ix_add path entry (fst result), snd result @ [(path, entry)]))))"

partial_function (option) scan_loop :: "'f scanner \<Rightarrow> nat \<Rightarrow> 'f \<Rightarrow> scanned \<Rightarrow> (string option \<times> scanned) option" where
  "scan_loop env k f result =
     (case fts_read env f of
        None \<Rightarrow> Some (None, result)
      | Some (node, f') \<Rightarrow>
          (case scan_node env k node f' result of
             Inl final \<Rightarrow> Some final
           | Inr (f'', result') \<Rightarrow> scan_loop env (k + 1) f'' result'))"

declare scan_loop.simps [code]

definition scanIdentityIndex :: "'f scanner \<Rightarrow> nat + 'f \<Rightarrow> (string option \<times> scanned) option" where
  "scanIdentityIndex env fts_open =
     (if should_cancel env 0 then Some (None, ix_empty, [])
      else
        (case fts_open of
           Inl errno \<Rightarrow> Some (Some (strerror env errno), ix_empty, [])
         | Inr f \<Rightarrow> scan_loop env 1 f (ix_empty, [])))"

definition scanned_ok :: "(string \<Rightarrow> bool) \<Rightarrow> string \<Rightarrow> scanned \<Rightarrow> bool" where
  "scanned_ok isIgnored root r \<longleftrightarrow>
     ix_ok (fst r) \<and> (\<forall>p. ix_find (fst r) p = map_of (rev (snd r)) p) \<and>
     (\<forall>(p, e) \<in> set (snd r). p = root \<or> \<not> isIgnored p)"

lemma scan_node_ok:
  assumes "scanned_ok (is_ignored env) (scan_root env) r"
  shows "scan_node env k node f r = Inl (err, r') \<Longrightarrow> scanned_ok (is_ignored env) (scan_root env) r'"
    and "scan_node env k node f r = Inr (f', r') \<Longrightarrow>
      scanned_ok (is_ignored env) (scan_root env) r' \<and> (f' = f \<or> f' = fts_skip env f)"
  using assms
  by (auto simp: scan_node_def Let_def scanned_ok_def ix_ok_add ix_find_add split: if_splits option.splits)

lemma scan_loop_ok:
  fixes \<mu> :: "'f \<Rightarrow> nat"
  assumes decreasing: "\<And>f node f'. fts_read env f = Some (node, f') \<Longrightarrow> \<mu> f' < \<mu> f" "\<And>f. \<mu> (fts_skip env f) \<le> \<mu> f"
    and "scanned_ok (is_ignored env) (scan_root env) r"
  shows "\<exists>err r'. scan_loop env k f r = Some (err, r') \<and> scanned_ok (is_ignored env) (scan_root env) r'"
  using assms(3)
proof (induction "\<mu> f" arbitrary: f k r rule: less_induct)
  case less
  show ?case
  proof (cases "fts_read env f")
    case None
    then show ?thesis using less(2) by (subst scan_loop.simps) auto
  next
    case (Some nf)
    obtain node f' where read: "fts_read env f = Some (node, f')" using Some by (cases nf) simp
    show ?thesis
    proof (cases "scan_node env k node f' r")
      case (Inl final)
      then show ?thesis
        using scan_node_ok(1) [OF less(2), of k node f'] by (cases final; subst scan_loop.simps) (auto simp: read)
    next
      case (Inr fr)
      obtain f'' r'' where next_state: "scan_node env k node f' r = Inr (f'', r'')" using Inr by (cases fr) simp
      note ok = scan_node_ok(2) [OF less(2) next_state]
      then have "\<mu> f'' < \<mu> f" using decreasing(1) [OF read] decreasing(2) [of f'] by auto
      from less(1) [OF this, of r'' "k + 1"] ok show ?thesis
        by (subst scan_loop.simps) (simp add: read next_state)
    qed
  qed
qed

text \<open>
  A traversal as the list of nodes the C library would return, of which skipping a directory drops
  those below it; with it the scan is a total function.
\<close>

definition node_scanner ::
  "(string \<Rightarrow> bool) \<Rightarrow> (nat \<Rightarrow> bool) \<Rightarrow> (nat \<Rightarrow> string) \<Rightarrow> string \<Rightarrow> (string \<times> fts_node list) scanner" where
  "node_scanner ignored cancelled errors root =
     \<lparr>fts_read = (\<lambda>(path, nodes). case nodes of [] \<Rightarrow> None | node # rest \<Rightarrow> Some (node, (fts_path node, rest))),
      fts_skip = (\<lambda>(path, nodes). (path, dropWhile (\<lambda>node. hasPathPrefix (fts_path node) path) nodes)),
      is_ignored = ignored, should_cancel = cancelled, strerror = errors, scan_root = root\<rparr>"

definition scan_files ::
  "(string \<Rightarrow> bool) \<Rightarrow> (nat \<Rightarrow> bool) \<Rightarrow> (nat \<Rightarrow> string) \<Rightarrow> string \<Rightarrow> nat + fts_node list \<Rightarrow> string option \<times> scanned" where
  "scan_files ignored cancelled errors root opened =
     the (scanIdentityIndex (node_scanner ignored cancelled errors root) (map_sum id (Pair []) opened))"

lemma scanIdentityIndex_total:
  fixes \<mu> :: "'f \<Rightarrow> nat"
  assumes "\<And>f node f'. fts_read env f = Some (node, f') \<Longrightarrow> \<mu> f' < \<mu> f" and "\<And>f. \<mu> (fts_skip env f) \<le> \<mu> f"
  shows "\<exists>err idx seen. scanIdentityIndex env fts_open = Some (err, idx, seen) \<and>
    ix_ok idx \<and> (\<forall>p. ix_find idx p = map_of (rev seen) p) \<and>
    (\<forall>(p, e) \<in> set seen. p = scan_root env \<or> \<not> is_ignored env p)"
proof -
  have start: "scanned_ok (is_ignored env) (scan_root env) (ix_empty, [])" by (simp add: scanned_ok_def)
  show ?thesis
  proof (cases "should_cancel env 0")
    case True
    then show ?thesis using start by (simp add: scanIdentityIndex_def scanned_ok_def)
  next
    case False
    show ?thesis
    proof (cases fts_open)
      case (Inl errno)
      then show ?thesis using start False by (simp add: scanIdentityIndex_def scanned_ok_def)
    next
      case (Inr f)
      then have "scanIdentityIndex env fts_open = scan_loop env 1 f (ix_empty, [])" using False by (simp add: scanIdentityIndex_def)
      then show ?thesis using scan_loop_ok [where env = env and \<mu> = \<mu> and k = 1 and f = f, OF assms start] by (fastforce simp: scanned_ok_def)
    qed
  qed
qed

lemma scan_files_ok:
  assumes "scan_files ignored cancelled errors root opened = (err, idx, seen)"
  shows "ix_ok idx" and "ix_find idx p = map_of (rev seen) p" and "(p, e) \<in> set seen \<Longrightarrow> p = root \<or> \<not> ignored p"
proof -
  let ?env = "node_scanner ignored cancelled errors root"
  have "\<exists>err idx seen. scanIdentityIndex ?env (map_sum id (Pair []) opened) = Some (err, idx, seen) \<and>
      ix_ok idx \<and> (\<forall>p. ix_find idx p = map_of (rev seen) p) \<and> (\<forall>(p, e) \<in> set seen. p = scan_root ?env \<or> \<not> is_ignored ?env p)"
  proof (rule scanIdentityIndex_total [where \<mu> = "\<lambda>f. length (snd f)"])
    show "length (snd f') < length (snd f)" if "fts_read ?env f = Some (node, f')" for f node f'
      using that by (cases f; cases "snd f") (auto simp: node_scanner_def)
    show "length (snd (fts_skip ?env f)) \<le> length (snd f)" for f
      by (simp add: node_scanner_def length_dropWhile_le split: prod.split)
  qed
  then show "ix_ok idx" and "ix_find idx p = map_of (rev seen) p" and "(p, e) \<in> set seen \<Longrightarrow> p = root \<or> \<not> ignored p"
    using assms by (auto simp: scan_files_def node_scanner_def)
qed

text \<open>
  What a whole scan finds. \<open>preorder\<close> is the order of the C library: directories come before what is below them, and
  that comes right after them.
\<close>

definition below_node :: "fts_node \<Rightarrow> fts_node \<Rightarrow> bool" where
  "below_node d n \<longleftrightarrow> hasPathPrefix (fts_path n) (fts_path d)"

fun preorder :: "fts_node list \<Rightarrow> bool" where
  "preorder [] = True"
| "preorder (n # ns) \<longleftrightarrow>
     (\<forall>m \<in> set ns. fts_info m = FTS_D \<longrightarrow> \<not> below_node m n) \<and>
     (fts_info n = FTS_D \<longrightarrow> (\<forall>m \<in> set (dropWhile (below_node n) ns). \<not> below_node n m)) \<and> preorder ns"

definition hides :: "(string \<Rightarrow> bool) \<Rightarrow> string \<Rightarrow> fts_node \<Rightarrow> bool" where
  "hides ignored root d \<longleftrightarrow> fts_info d = FTS_D \<and> fts_errno d = 0 \<and> fts_path d \<noteq> root \<and> ignored (fts_path d)"

definition entry_of :: "(string \<Rightarrow> bool) \<Rightarrow> string \<Rightarrow> fts_node \<Rightarrow> indexed_path option" where
  "entry_of ignored root n =
     (if fts_info n \<noteq> FTS_DP \<and> fts_errno n = 0 \<and> (fts_path n = root \<or> \<not> ignored (fts_path n)) then
        (case fts_stat n of None \<Rightarrow> None | Some st \<Rightarrow> if S_ISREG st \<or> S_ISDIR st then Some (fromStat st) else None)
      else None)"

definition harmless :: "string \<Rightarrow> fts_node \<Rightarrow> bool" where
  "harmless root n \<longleftrightarrow> fts_info n = FTS_DP \<or> fts_errno n = 0 \<or> fts_path n \<noteq> root \<and> (fts_errno n = ENOENT \<or> fts_errno n = ENOTDIR)"

function visible :: "(string \<Rightarrow> bool) \<Rightarrow> string \<Rightarrow> fts_node list \<Rightarrow> (string \<times> indexed_path) list" where
  "visible ignored root [] = []"
| "visible ignored root (n # ns) =
     (if hides ignored root n then visible ignored root (dropWhile (below_node n) ns)
      else (case entry_of ignored root n of None \<Rightarrow> [] | Some e \<Rightarrow> [(fts_path n, e)]) @ visible ignored root ns)"
  by pat_completeness auto
termination
  by (relation "measure (\<lambda>(ignored, root, ns). length ns)") (auto simp: le_imp_less_Suc length_dropWhile_le)

lemma node_scanner_fields [simp]:
  "fts_read (node_scanner ignored cancelled errors root) (q, []) = None"
  "fts_read (node_scanner ignored cancelled errors root) (q, n # ns) = Some (n, (fts_path n, ns))"
  "fts_skip (node_scanner ignored cancelled errors root) (fts_path n, ns) = (fts_path n, dropWhile (below_node n) ns)"
  "is_ignored (node_scanner ignored cancelled errors root) = ignored"
  "should_cancel (node_scanner ignored cancelled errors root) = cancelled"
  "scan_root (node_scanner ignored cancelled errors root) = root"
  by (simp_all add: node_scanner_def below_node_def [abs_def])

lemma scan_node_hidden:
  "\<not> cancelled k \<Longrightarrow> hides ignored root n \<Longrightarrow>
    scan_node (node_scanner ignored cancelled errors root) k n (fts_path n, ns) r = Inr ((fts_path n, dropWhile (below_node n) ns), r)"
  by (simp add: scan_node_def hides_def Let_def)

lemma scan_node_shown:
  assumes "\<not> cancelled k" and "harmless root n" and "\<not> hides ignored root n"
  shows "scan_node (node_scanner ignored cancelled errors root) k n (fts_path n, ns) (idx, seen) =
    Inr ((fts_path n, ns), (case entry_of ignored root n of None \<Rightarrow> idx | Some e \<Rightarrow> ix_add (fts_path n) e idx),
      seen @ (case entry_of ignored root n of None \<Rightarrow> [] | Some e \<Rightarrow> [(fts_path n, e)]))"
proof -
  consider "fts_info n = FTS_DP" | "fts_info n \<noteq> FTS_DP" "fts_errno n \<noteq> 0"
    | "fts_info n \<noteq> FTS_DP" "fts_errno n = 0" "fts_path n \<noteq> root" "ignored (fts_path n)"
    | "fts_info n \<noteq> FTS_DP" "fts_errno n = 0" "fts_path n = root \<or> \<not> ignored (fts_path n)" by blast
  then show ?thesis
  proof cases
    case 4
    then show ?thesis using assms by (cases "fts_stat n") (auto simp: scan_node_def entry_of_def Let_def)
  qed (use assms in \<open>auto simp: scan_node_def entry_of_def harmless_def hides_def Let_def\<close>)
qed

lemma scan_loop_visible:
  "\<forall>k. \<not> cancelled k \<Longrightarrow> \<forall>n \<in> set ns. harmless root n \<Longrightarrow>
    \<exists>idx. scan_loop (node_scanner ignored cancelled errors root) k (q, ns) (idx0, seen) =
      Some (None, idx, seen @ visible ignored root ns)"
proof (induction ignored root ns arbitrary: k q idx0 seen rule: visible.induct)
  case (1 ignored root)
  then show ?case by (subst scan_loop.simps) (simp add: node_scanner_def)
next
  case (2 ignored root n ns)
  let ?env = "node_scanner ignored cancelled errors root"
  show ?case
  proof (cases "hides ignored root n")
    case True
    then have "scan_loop ?env k (q, n # ns) (idx0, seen) =
        scan_loop ?env (k + 1) (fts_path n, dropWhile (below_node n) ns) (idx0, seen)"
      using 2(3) by (subst scan_loop.simps) (simp add: scan_node_hidden)
    moreover have "\<forall>m \<in> set (dropWhile (below_node n) ns). harmless root m"
      using 2(4) set_dropWhileD by fastforce
    ultimately show ?thesis using 2(1) [OF True 2(3)] True by simp
  next
    case False
    then have "scan_loop ?env k (q, n # ns) (idx0, seen) = scan_loop ?env (k + 1) (fts_path n, ns)
        (case entry_of ignored root n of None \<Rightarrow> idx0 | Some e \<Rightarrow> ix_add (fts_path n) e idx0,
         seen @ (case entry_of ignored root n of None \<Rightarrow> [] | Some e \<Rightarrow> [(fts_path n, e)]))"
      using 2(3,4) by (subst scan_loop.simps) (simp add: scan_node_shown)
    moreover have "\<forall>m \<in> set ns. harmless root m" using 2(4) by simp
    note rest = 2(2) [OF False 2(3) this]
    ultimately show ?thesis
      using rest [of "k + 1" "fts_path n" "case entry_of ignored root n of None \<Rightarrow> idx0 | Some e \<Rightarrow> ix_add (fts_path n) e idx0"
        "seen @ (case entry_of ignored root n of None \<Rightarrow> [] | Some e \<Rightarrow> [(fts_path n, e)])"] False
      by simp
  qed
qed

lemma preorder_drop: "preorder ns \<Longrightarrow> preorder (dropWhile P ns)"
  by (induction ns) auto

lemma below_node_trans: "below_node d m \<Longrightarrow> below_node m n \<Longrightarrow> below_node d n"
  by (auto simp: below_node_def hasPathPrefix_under under_iff)

lemma visible_iff:
  "preorder ns \<Longrightarrow> (p, e) \<in> set (visible ignored root ns) \<longleftrightarrow>
    (\<exists>n \<in> set ns. fts_path n = p \<and> entry_of ignored root n = Some e \<and> \<not> (\<exists>d \<in> set ns. hides ignored root d \<and> below_node d n))"
proof (induction ignored root ns rule: visible.induct)
  case (1 ignored root)
  then show ?case by simp
next
  case (2 ignored root n ns)
  let ?top = "\<lambda>ms m. \<not> (\<exists>d \<in> set ms. hides ignored root d \<and> below_node d m)"
  show ?case
  proof (cases "hides ignored root n")
    case True
    let ?rest = "dropWhile (below_node n) ns"
    have rest: "\<not> below_node n m" if "m \<in> set ?rest" for m using 2(3) True that by (auto simp: hides_def)
    have split: "set ns = set (takeWhile (below_node n) ns) \<union> set ?rest"
      by (metis set_append takeWhile_dropWhile_id)
    have taken: "below_node n m" if "m \<in> set (takeWhile (below_node n) ns)" for m using that set_takeWhileD by fastforce
    have none: "entry_of ignored root n = None" using True by (auto simp: hides_def entry_of_def)
    have kept: "m \<in> set ?rest \<and> ?top ?rest m \<longleftrightarrow> m \<in> set ns \<and> ?top (n # ns) m" for m
    proof (intro iffI conjI)
      assume m: "m \<in> set ?rest \<and> ?top ?rest m"
      then show "m \<in> set ns" by (simp add: split)
      show "?top (n # ns) m"
      proof
        assume "\<exists>d \<in> set (n # ns). hides ignored root d \<and> below_node d m"
        then obtain d where d: "d = n \<or> d \<in> set (takeWhile (below_node n) ns) \<or> d \<in> set ?rest" "hides ignored root d" "below_node d m"
          by (auto simp: split)
        then have "below_node n m" using m taken below_node_trans by blast
        then show False using rest m by blast
      qed
    next
      assume m: "m \<in> set ns \<and> ?top (n # ns) m"
      then have "\<not> below_node n m" using True by auto
      then show "m \<in> set ?rest" using m taken by (auto simp: split)
      show "?top ?rest m" using m by (auto simp: split)
    qed
    have "(p, e) \<in> set (visible ignored root (n # ns)) \<longleftrightarrow>
        (\<exists>m. (m \<in> set ?rest \<and> ?top ?rest m) \<and> fts_path m = p \<and> entry_of ignored root m = Some e)"
      using 2(1) [OF True preorder_drop] 2(3) True by auto
    also have "\<dots> \<longleftrightarrow> (\<exists>m. (m \<in> set (n # ns) \<and> ?top (n # ns) m) \<and> fts_path m = p \<and> entry_of ignored root m = Some e)"
      unfolding kept using none by auto
    finally show ?thesis by blast
  next
    case False
    have "?top ns n" using 2(3) by (auto simp: hides_def)
    moreover have "?top (n # ns) m \<longleftrightarrow> ?top ns m" for m using False by auto
    ultimately show ?thesis using 2(2) [OF False] 2(3) False by (auto split: option.split)
  qed
qed

lemma entry_of_shown: "entry_of ignored root n = Some e \<Longrightarrow> fts_info n \<noteq> FTS_DP"
  by (simp add: entry_of_def split: if_splits)

lemma visible_paths: "q \<in> set (map fst (visible ignored root ns)) \<Longrightarrow> q \<in> set (map fts_path (filter (\<lambda>n. fts_info n \<noteq> FTS_DP) ns))"
proof (induction ignored root ns rule: visible.induct)
  case (2 ignored root n ns)
  show ?case
  proof (cases "hides ignored root n")
    case True
    then have "q \<in> set (map fts_path (filter (\<lambda>n. fts_info n \<noteq> FTS_DP) (dropWhile (below_node n) ns)))" using 2(1,3) by simp
    then show ?thesis using set_dropWhileD by fastforce
  next
    case False
    then show ?thesis using 2(2,3) entry_of_shown [of ignored root n] by (cases "entry_of ignored root n") auto
  qed
qed simp

lemma visible_distinct:
  "distinct (map fts_path (filter (\<lambda>n. fts_info n \<noteq> FTS_DP) ns)) \<Longrightarrow> distinct (map fst (visible ignored root ns))"
proof (induction ignored root ns rule: visible.induct)
  case (2 ignored root n ns)
  have drop: "distinct (map fts_path (filter P (dropWhile Q ms)))" if "distinct (map fts_path (filter P ms))" for P Q ms
    using that by (induction ms) (auto split: if_splits)
  have ns: "distinct (map fts_path (filter (\<lambda>n. fts_info n \<noteq> FTS_DP) ns))" using 2(3) by (simp split: if_splits)
  show ?case
  proof (cases "hides ignored root n")
    case True
    then show ?thesis using 2(1) [OF True drop [OF ns]] by simp
  next
    case False
    have "fts_path n \<notin> set (map fst (visible ignored root ns))" if "entry_of ignored root n = Some e" for e
      using entry_of_shown [OF that] 2(3) visible_paths [of "fts_path n" ignored root ns] by auto
    then show ?thesis using 2(2) [OF False ns] False by (cases "entry_of ignored root n") auto
  qed
qed simp

subsection \<open>Properties\<close>

text \<open>
  C38. The two maps of the index stay consistent: after any operation the paths recorded for an
  identity are exactly those with an entry of this identity, so \<open>pathCount\<close> is the number of
  indexed hard links.
\<close>

theorem index_stays_consistent:
  assumes "ix_ok idx"
  shows "ix_ok (ix_add path e idx) \<and> ix_ok (ix_removeExact path idx) \<and> ix_ok (ix_remove path idx) \<and>
    ix_ok (ix_rename oldPath newPath idx) \<and>
    ix_pathCount idx i = card {p. \<exists>e. ix_find idx p = Some e \<and> ip_identity e = i}"
proof -
  have "ix_pathCount idx i = length (paths_of idx i)"
    by (simp add: ix_pathCount_def paths_of_def split: option.split)
  also have "\<dots> = card (set (paths_of idx i))" using ix_okD(4) [OF assms] by (simp add: distinct_card)
  also have "set (paths_of idx i) = {p. \<exists>e. ix_find idx p = Some e \<and> ip_identity e = i}"
    using ix_okD(5) [OF assms] by auto
  finally show ?thesis
    using ix_ok_add [OF assms] ix_ok_removeExact [OF assms] ix_ok_remove [OF assms] ix_ok_rename [OF assms] by simp
qed

text \<open>A directory with two links to one file, for the witnesses.\<close>

definition sample_identity :: "u64 \<Rightarrow> bool \<Rightarrow> indexed_path" where
  "sample_identity n d = \<lparr>ip_identity = \<lparr>fi_device = 1, fi_inode = n\<rparr>, ip_mtime = 0, ip_linkCount = 1, ip_isDirectory = d\<rparr>"

definition sample_index :: identity_index where
  "sample_index = ix_add ''/w/d/g'' (sample_identity 8 False) (ix_add ''/w/d/f'' (sample_identity 8 False)
     (ix_add ''/w/d'' (sample_identity 7 True) ix_empty))"

lemma sample_index_ok: "ix_ok sample_index"
  by (simp add: sample_index_def ix_ok_add)

lemma sample_index_find:
  "ix_find sample_index p =
    (if p = ''/w/d/g'' \<or> p = ''/w/d/f'' then Some (sample_identity 8 False)
     else if p = ''/w/d'' then Some (sample_identity 7 True) else None)"
  by (simp add: sample_index_def ix_find_add ix_ok_add)

lemma sample_index_leaves: "files_are_leaves sample_index"
  by (auto simp: files_are_leaves_def sample_index_find sample_identity_def under_iff split: if_splits)

lemma index_stays_consistent_witness: "ix_pathCount sample_index \<lparr>fi_device = 1, fi_inode = 8\<rparr> = 2"
proof -
  have "{p. \<exists>e. ix_find sample_index p = Some e \<and> ip_identity e = \<lparr>fi_device = 1, fi_inode = 8\<rparr>} = {''/w/d/g'', ''/w/d/f''}"
    by (auto simp: sample_index_find sample_identity_def split: if_splits)
  then show ?thesis using index_stays_consistent [OF sample_index_ok] by simp
qed

text \<open>
  C39. Renaming in the index is renaming of the subtree: an entry below the new path is the one
  that was at the corresponding place below the old path, the old subtree is gone, and all other
  entries are as before; \<open>remove\<close> removes exactly a subtree. This needs that nothing is indexed
  below a file.
\<close>

theorem index_rename_moves_subtree:
  assumes "ix_ok idx" and "files_are_leaves idx"
  shows "ix_find (ix_rename oldPath newPath idx) q =
      (case (if in_subtree CHR ''/'' newPath q then ix_find idx (relocate newPath oldPath q) else None) of
         Some e \<Rightarrow> Some e
       | None \<Rightarrow> if in_subtree CHR ''/'' oldPath q then None else ix_find idx q) \<and>
    ix_find (ix_remove oldPath idx) q = (if in_subtree CHR ''/'' oldPath q then None else ix_find idx q)"
  using ix_find_rename [OF assms] ix_find_remove [OF assms] by blast

lemma index_rename_moves_subtree_witness:
  "ix_find (ix_rename ''/w/d'' ''/w/e'' sample_index) ''/w/e/f'' = Some (sample_identity 8 False)"
  using index_rename_moves_subtree [OF sample_index_ok sample_index_leaves, of "''/w/d''" "''/w/e''" "''/w/e/f''"]
  by (simp add: in_subtree_def under_def relocate_def sample_index_find)

text \<open>
  C40. A scan finds exactly what is visible: when it is not cancelled, the root can be read and no other error than
  the disappearance of an entry occurs, the scan ends without error, and the entries of its index are the files and directories that the traversal
  has returned, each under its path with its data, that are not ignored themselves (unless they are the root) and
  lie below no ignored directory. The traversal is a finite list of nodes in the order of the C library, with a path
  for each.
\<close>

theorem scan_finds_what_is_visible:
  assumes "preorder nodes" and "distinct (map fts_path (filter (\<lambda>n. fts_info n \<noteq> FTS_DP) nodes))"
    and "\<forall>k. \<not> cancelled k" and "\<forall>n \<in> set nodes. harmless root n"
  shows "\<exists>idx seen. scan_files ignored cancelled errors root (Inr nodes) = (None, idx, seen) \<and> ix_ok idx \<and>
    (\<forall>p e. ix_find idx p = Some e \<longleftrightarrow>
       (\<exists>n \<in> set nodes. fts_path n = p \<and> entry_of ignored root n = Some e \<and>
          \<not> (\<exists>d \<in> set nodes. hides ignored root d \<and> below_node d n)))"
proof -
  obtain idx where loop: "scan_loop (node_scanner ignored cancelled errors root) 1 ([], nodes) (ix_empty, []) =
      Some (None, idx, visible ignored root nodes)"
    using scan_loop_visible [OF assms(3,4), where k = 1 and q = "[]" and seen = "[]" and ignored = ignored and errors = errors] by auto
  have scan: "scan_files ignored cancelled errors root (Inr nodes) = (None, idx, visible ignored root nodes)"
    using assms(3) loop by (simp add: scan_files_def scanIdentityIndex_def)
  have "distinct (map fst (rev (visible ignored root nodes)))" 
    using visible_distinct [OF assms(2), of ignored root] by (simp add: rev_map [symmetric])
  then have "ix_find idx p = Some e \<longleftrightarrow> (p, e) \<in> set (visible ignored root nodes)" for p e
    using scan_files_ok(2) [OF scan, of p] by simp
  then show ?thesis using scan scan_files_ok(1) [OF scan] visible_iff [OF assms(1)] by blast
qed

text \<open>\<open>/w\<close> with a file \<open>a\<close>, a directory \<open>x\<close> that is ignored, and a file in it.\<close>

definition sample_node :: "fts_info \<Rightarrow> string \<Rightarrow> file_type \<Rightarrow> fts_node" where
  "sample_node info path type = \<lparr>fts_info = info, fts_path = path, fts_errno = 0,
     fts_stat = Some \<lparr>stat_dev = 1, stat_ino = 2, stat_sec = 3, stat_nsec = 4, stat_nlink = 1, stat_type = type\<rparr>\<rparr>"

definition sample_nodes :: "fts_node list" where
  "sample_nodes = [sample_node FTS_D ''/w'' Folder, sample_node FTS_ENTRY ''/w/a'' Regular, sample_node FTS_D ''/w/x'' Folder,
     sample_node FTS_ENTRY ''/w/x/b'' Regular, sample_node FTS_DP ''/w/x'' Folder, sample_node FTS_DP ''/w'' Folder]"

lemma scan_finds_what_is_visible_witness:
  "\<exists>idx seen. scan_files (\<lambda>p. p = ''/w/x'') (\<lambda>k. False) (\<lambda>n. []) ''/w'' (Inr sample_nodes) = (None, idx, seen) \<and>
     ix_find idx ''/w/a'' \<noteq> None \<and> ix_find idx ''/w/x/b'' = None"
proof -
  have order: "preorder sample_nodes" and paths: "distinct (map fts_path (filter (\<lambda>n. fts_info n \<noteq> FTS_DP) sample_nodes))"
    and fine: "\<forall>n \<in> set sample_nodes. harmless ''/w'' n"
    by code_simp+
  obtain idx seen where scan: "scan_files (\<lambda>p. p = ''/w/x'') (\<lambda>k. False) (\<lambda>n. []) ''/w'' (Inr sample_nodes) = (None, idx, seen)"
    and found: "\<And>p e. ix_find idx p = Some e \<longleftrightarrow> (\<exists>n \<in> set sample_nodes. fts_path n = p \<and>
      entry_of (\<lambda>p. p = ''/w/x'') ''/w'' n = Some e \<and> \<not> (\<exists>d \<in> set sample_nodes. hides (\<lambda>p. p = ''/w/x'') ''/w'' d \<and> below_node d n))"
    using scan_finds_what_is_visible [OF order paths _ fine, of "\<lambda>k. False" "\<lambda>p. p = ''/w/x''" "\<lambda>n. []"] by blast
  have "\<exists>n \<in> set sample_nodes. fts_path n = ''/w/a'' \<and> entry_of (\<lambda>p. p = ''/w/x'') ''/w'' n \<noteq> None \<and>
      \<not> (\<exists>d \<in> set sample_nodes. hides (\<lambda>p. p = ''/w/x'') ''/w'' d \<and> below_node d n)"
    by code_simp
  then have "ix_find idx ''/w/a'' \<noteq> None" using found by blast
  moreover have "\<forall>n \<in> set sample_nodes. fts_path n = ''/w/x/b'' \<longrightarrow>
      (\<exists>d \<in> set sample_nodes. hides (\<lambda>p. p = ''/w/x'') ''/w'' d \<and> below_node d n)"
    by code_simp
  then have "ix_find idx ''/w/x/b'' \<noteq> Some e" for e using found by blast
  ultimately show ?thesis using scan by blast
qed

end
