(* ===== verification/Inotify.thy ===== *)
theory Inotify
  imports DirTrees Files Backends
begin

section \<open>The inotify backend (src/linux/InotifyBackend.hh, src/linux/InotifyBackend.cc)\<close>

unbundle bit_operations_syntax

text \<open>
  The backend keeps one subscription object per watched directory, several of which may share a
  kernel descriptor, and the moves whose second half has not come yet. Subscription objects and
  trees are shared and changed in place, so they live in a heap: \<open>sref\<close> and \<open>tref\<close> are their
  addresses. The kernel and the file system are parameters (\<open>inotify_env\<close>): a state \<open>'k\<close> that
  every system call may change, so that what two calls see need not agree; a failing call gives
  its \<open>errno\<close>. So are the fields of a watcher that never change, and \<open>isIgnored\<close>, which is the
  subject of another theory.
\<close>

subsection \<open>Data\<close>

type_synonym sref = nat
type_synonym tref = nat

record subscription =
  sub_tree :: tref
  sub_path :: string
  sub_watcher :: wref

record pending_move =
  pm_watcher :: wref
  pm_tree :: tref
  pm_path :: string
  pm_isDirectory :: bool
  pm_entries :: "dir_entry list"
  pm_subscriptions :: "sref list"
  pm_createdAt :: nat
  pm_suppressedEvents :: bool

type_synonym move_key = "wref \<times> u32"

record inotify_event =
  ev_wd :: int
  ev_mask :: u32
  ev_cookie :: u32
  ev_name :: string

text \<open>
  \<open>is_invalidated\<close> are the calls of \<open>Backend::invalidate\<close>, \<open>is_removed\<close> those of
  \<open>inotify_rm_watch\<close>, both the latest first.
\<close>

record 'k inotify =
  is_subs :: "(int \<times> sref) list"
  is_moves :: "(move_key \<times> pending_move) list"
  is_sub :: "sref \<Rightarrow> subscription"
  is_nextSub :: sref
  is_tree :: "tref \<Rightarrow> dir_tree"
  is_nextTree :: tref
  is_events :: "wref \<Rightarrow> event_list"
  is_invalidated :: "wref list"
  is_removed :: "int list"
  is_kernel :: 'k

record 'k inotify_env =
  ie_dir :: "wref \<Rightarrow> string"
  ie_hasIgnores :: "wref \<Rightarrow> bool"
  ie_ignored :: "wref \<Rightarrow> string \<Rightarrow> bool"
  ie_cancelled :: "wref \<Rightarrow> 'k \<Rightarrow> bool \<times> 'k"
  ie_addWatch :: "string \<Rightarrow> u32 \<Rightarrow> 'k \<Rightarrow> (nat + int) \<times> 'k"
  ie_rmWatch :: "int \<Rightarrow> 'k \<Rightarrow> nat option \<times> 'k"
  ie_lstat :: "string \<Rightarrow> 'k \<Rightarrow> stat option \<times> 'k"
  ie_opendir :: "string \<Rightarrow> 'k \<Rightarrow> (nat + (nat + stat) \<times> string list) \<times> 'k"
  ie_strerror :: "nat \<Rightarrow> string"
  ie_now :: "'k \<Rightarrow> nat \<times> 'k"
  ie_read :: "'k \<Rightarrow> (nat + inotify_event list) \<times> 'k"
  ie_poll :: "'k \<Rightarrow> (nat + bool \<times> bool) \<times> 'k"
  ie_pipe2 :: "'k \<Rightarrow> (nat + int \<times> int) \<times> 'k"
  ie_init1 :: "'k \<Rightarrow> (nat + int) \<times> 'k"

subsection \<open>Constants\<close>

definition IN_MODIFY :: u32 where "IN_MODIFY = 0x2"
definition IN_ATTRIB :: u32 where "IN_ATTRIB = 0x4"
definition IN_MOVED_FROM :: u32 where "IN_MOVED_FROM = 0x40"
definition IN_MOVED_TO :: u32 where "IN_MOVED_TO = 0x80"
definition IN_CREATE :: u32 where "IN_CREATE = 0x100"
definition IN_DELETE :: u32 where "IN_DELETE = 0x200"
definition IN_DELETE_SELF :: u32 where "IN_DELETE_SELF = 0x400"
definition IN_MOVE_SELF :: u32 where "IN_MOVE_SELF = 0x800"
definition IN_Q_OVERFLOW :: u32 where "IN_Q_OVERFLOW = 0x4000"
definition IN_IGNORED :: u32 where "IN_IGNORED = 0x8000"
definition IN_ONLYDIR :: u32 where "IN_ONLYDIR = 0x1000000"
definition IN_DONT_FOLLOW :: u32 where "IN_DONT_FOLLOW = 0x2000000"
definition IN_EXCL_UNLINK :: u32 where "IN_EXCL_UNLINK = 0x4000000"
definition IN_MASK_ADD :: u32 where "IN_MASK_ADD = 0x20000000"
definition IN_ISDIR :: u32 where "IN_ISDIR = 0x40000000"

definition INOTIFY_MASK :: u32 where
  "INOTIFY_MASK = IN_ATTRIB OR IN_CREATE OR IN_DELETE OR IN_DELETE_SELF OR IN_MODIFY OR IN_MOVE_SELF OR
     IN_MOVED_FROM OR IN_MOVED_TO OR IN_DONT_FOLLOW OR IN_ONLYDIR OR IN_EXCL_UNLINK"

definition MOVE_PAIR_GRACE_MS :: nat where "MOVE_PAIR_GRACE_MS = 100"

definition EAGAIN :: nat where "EAGAIN = 11"
definition EINVAL :: nat where "EINVAL = 22"
definition ENAMETOOLONG :: nat where "ENAMETOOLONG = 36"

text \<open>The kernel refuses a path that does not fit in \<open>PATH_MAX\<close> bytes with its NUL.\<close>

definition PATH_MAX :: nat where "PATH_MAX = 4096"

definition opendir :: "'k inotify_env \<Rightarrow> string \<Rightarrow> 'k \<Rightarrow> (nat + (nat + stat) \<times> string list) \<times> 'k" where
  "opendir env path k = (if length path \<ge> PATH_MAX then (Inl ENAMETOOLONG, k) else ie_opendir env path k)"

definition below_or_at :: "string \<Rightarrow> string \<Rightarrow> bool" where
  "below_or_at candidate path \<longleftrightarrow>
     candidate = path \<or>
     (length candidate > length path \<and> take (length path) candidate = path \<and> candidate ! length path = CHR ''/'')"

lemma below_or_at_iff: "below_or_at candidate path \<longleftrightarrow> in_subtree CHR ''/'' path candidate"
  using compare_under [of path candidate "CHR ''/''"] by (auto simp: below_or_at_def in_subtree_def)

subsection \<open>State changes\<close>

definition with_kernel :: "('k \<Rightarrow> 'a \<times> 'k) \<Rightarrow> 'k inotify \<Rightarrow> 'a \<times> 'k inotify" where
  "with_kernel f st = (let (x, k) = f (is_kernel st) in (x, st\<lparr>is_kernel := k\<rparr>))"

definition set_tree :: "tref \<Rightarrow> dir_tree \<Rightarrow> 'k inotify \<Rightarrow> 'k inotify" where
  "set_tree t x st = st\<lparr>is_tree := (is_tree st)(t := x)\<rparr>"

definition on_events :: "wref \<Rightarrow> (event_list \<Rightarrow> event_list) \<Rightarrow> 'k inotify \<Rightarrow> 'k inotify" where
  "on_events r f st = st\<lparr>is_events := (is_events st)(r := f (is_events st r))\<rparr>"

definition report_removed :: "wref \<Rightarrow> dir_entry list \<Rightarrow> 'k inotify \<Rightarrow> 'k inotify" where
  "report_removed r entries st =
     fold (\<lambda>e. on_events r (\<lambda>l. el_remove l (de_path e) (entryKind (de_isDir e)))) entries st"

definition extract_tree :: "tref \<Rightarrow> string \<Rightarrow> 'k inotify \<Rightarrow> dir_entry list \<times> 'k inotify" where
  "extract_tree t path st =
     (let (entries, x) = dt_extract Linux (is_tree st t) path in (entries, set_tree t x st))"

definition drop_moves :: "wref \<Rightarrow> 'k inotify \<Rightarrow> 'k inotify" where
  "drop_moves r st = st\<lparr>is_moves := filter (\<lambda>m. pm_watcher (snd m) \<noteq> r) (is_moves st)\<rparr>"

definition in_invalidate :: "wref \<Rightarrow> 'k inotify \<Rightarrow> 'k inotify" where
  "in_invalidate r st = st\<lparr>is_invalidated := r # is_invalidated st\<rparr>"

text \<open>
  The end of \<open>watchDir\<close> and of both \<open>removeSubscriptions\<close>: a descriptor is given back to the kernel
  once no subscription has it; the result of the call is not looked at.
\<close>

fun rm_unused :: "'k inotify_env \<Rightarrow> int list \<Rightarrow> 'k inotify \<Rightarrow> 'k inotify" where
  "rm_unused env [] st = st"
| "rm_unused env (d # ds) st =
     (if d \<in> fst ` set (is_subs st) then rm_unused env ds st
      else rm_unused env ds ((snd (with_kernel (ie_rmWatch env d) st))\<lparr>is_removed := d # is_removed st\<rparr>))"

definition remove_where :: "'k inotify_env \<Rightarrow> (int \<times> sref \<Rightarrow> bool) \<Rightarrow> 'k inotify \<Rightarrow> 'k inotify" where
  "remove_where env P st =
     (let removedDescriptors = remdups (map fst (filter P (is_subs st))) in
      rm_unused env removedDescriptors (st\<lparr>is_subs := filter (\<lambda>e. \<not> P e) (is_subs st)\<rparr>))"

definition removeSubscriptions :: "'k inotify_env \<Rightarrow> wref \<Rightarrow> string \<Rightarrow> 'k inotify \<Rightarrow> 'k inotify" where
  "removeSubscriptions env r path st =
     remove_where env
       (\<lambda>e. sub_watcher (is_sub st (snd e)) = r \<and> (path = ie_dir env r \<or> below_or_at (sub_path (is_sub st (snd e))) path))
       st"

definition removeMoveSubscriptions :: "'k inotify_env \<Rightarrow> pending_move \<Rightarrow> 'k inotify \<Rightarrow> 'k inotify" where
  "removeMoveSubscriptions env move st = remove_where env (\<lambda>e. snd e \<in> set (pm_subscriptions move)) st"

text \<open>
  \<open>substr\<close> throws \<open>out_of_range\<close> when it starts beyond the end of the string, here when the path of a subscription has become
  shorter than the old path of the move. The exception ends the thread of the backend. The model goes on with
  an empty rest instead, so it follows the code as long as the paths are long enough (\<open>paths_fit\<close>). They always are
  for a single move, whose subscriptions lie below its path; the lemma after the definition shows how two moves that overlap
  shorten one.
\<close>

definition paths_fit :: "pending_move \<Rightarrow> 'k inotify \<Rightarrow> bool" where
  "paths_fit move st \<longleftrightarrow> (\<forall>s \<in> set (pm_subscriptions move). length (pm_path move) \<le> length (sub_path (is_sub st s)))"

definition moveSubscriptions :: "pending_move \<Rightarrow> string \<Rightarrow> 'k inotify \<Rightarrow> 'k inotify" where
  "moveSubscriptions move newPath st =
     st\<lparr>is_sub := fold (\<lambda>s f. f(s := (f s)\<lparr>sub_path := newPath @ drop (length (pm_path move)) (sub_path (f s))\<rparr>))
       (pm_subscriptions move) (is_sub st)\<rparr>"

text \<open>
  A directory is moved below a directory that is moved to a shorter name before the second half of the first move
  arrives: the subscription \<open>5\<close> is carried by both moves.
\<close>

lemma overlapping_moves_shorten_paths:
  assumes "sub_path (is_sub st 5) = ''/w/long/sub/dir''"
    and "pm_path inner = ''/w/long/sub/dir''" "pm_subscriptions inner = [5]"
    and "pm_path outer = ''/w/long''" "pm_subscriptions outer = [5]"
  shows "paths_fit inner st \<and> paths_fit outer st \<and> \<not> paths_fit inner (moveSubscriptions outer ''/w/l'' st)"
  using assms by (simp add: paths_fit_def moveSubscriptions_def)

subsection \<open>Watching directories\<close>

text \<open>The \<open>errno\<close> of a failure, or nothing.\<close>

definition watchDir :: "'k inotify_env \<Rightarrow> wref \<Rightarrow> string \<Rightarrow> tref \<Rightarrow> 'k inotify \<Rightarrow> nat option \<times> 'k inotify" where
  "watchDir env r path t st =
     (let mask = (if path \<noteq> ie_dir env r \<and> below_or_at (ie_dir env r) path
                  then IN_MOVE_SELF OR IN_DELETE_SELF OR IN_ONLYDIR else INOTIFY_MASK);
          (result, st1) = with_kernel (ie_addWatch env path (mask OR IN_MASK_ADD)) st in
      (case result of
         Inl errno \<Rightarrow> (Some errno, st1)
       | Inr wd \<Rightarrow>
           (let mine = (\<lambda>e. sub_watcher (is_sub st1 (snd e)) = r \<and> sub_path (is_sub st1 (snd e)) = path);
                alreadyTracked = (\<exists>e \<in> set (is_subs st1). mine e \<and> fst e = wd);
                st2 = remove_where env (\<lambda>e. mine e \<and> fst e \<noteq> wd) st1 in
            if alreadyTracked then (None, st2)
            else
              (None, st2\<lparr>is_sub := (is_sub st2)(is_nextSub st2 := \<lparr>sub_tree = t, sub_path = path, sub_watcher = r\<rparr>),
                         is_nextSub := is_nextSub st2 + 1,
                         is_subs := is_subs st2 @ [(wd, is_nextSub st2)]\<rparr>))))"

text \<open>
  One entry of an open directory: it gets an entry in the tree, and an event, unless it has one;
  a directory is the result.
\<close>

definition scan_item ::
  "'k inotify_env \<Rightarrow> wref \<Rightarrow> string \<Rightarrow> tref \<Rightarrow> bool \<Rightarrow> string \<Rightarrow> 'k inotify \<Rightarrow> string option \<times> 'k inotify" where
  "scan_item env r path t reportEvents name st =
     (let candidate = path @ ''/'' @ name in
      if name = ''.'' \<or> name = ''..'' \<or> ie_ignored env r candidate then (None, st)
      else
        (case with_kernel (ie_lstat env candidate) st of
           (None, st1) \<Rightarrow> (None, st1)
         | (Some s, st1) \<Rightarrow>
             if \<not> S_ISREG s \<and> \<not> S_ISDIR s then (None, st1)
             else
               (let isDirectory = S_ISDIR s;
                    st2 = (if dt_find (is_tree st1 t) candidate \<noteq> None then st1
                           else
                             (let st' = set_tree t (dt_add (is_tree st1 t) candidate (CONVERT_TIME s) isDirectory) st1 in
                              if reportEvents then on_events r (\<lambda>l. el_create l candidate (entryKind isDirectory)) st'
                              else st')) in
                (if isDirectory then Some candidate else None, st2))))"

definition scan_cancelled :: "'k inotify_env \<Rightarrow> wref \<Rightarrow> bool \<Rightarrow> 'k inotify \<Rightarrow> bool \<times> 'k inotify" where
  "scan_cancelled env r reportEvents st = (if reportEvents then (False, st) else with_kernel (ie_cancelled env r) st)"

text \<open>The loop over the entries: whether it was cancelled, and the subdirectories.\<close>

fun scan_items ::
  "'k inotify_env \<Rightarrow> wref \<Rightarrow> string \<Rightarrow> tref \<Rightarrow> bool \<Rightarrow> string list \<Rightarrow> 'k inotify \<Rightarrow> (bool \<times> string list) \<times> 'k inotify" where
  "scan_items env r path t reportEvents [] st = ((False, []), st)"
| "scan_items env r path t reportEvents (name # names) st =
     (case scan_cancelled env r reportEvents st of
        (True, st1) \<Rightarrow> ((True, []), st1)
      | (False, st1) \<Rightarrow>
          (case scan_item env r path t reportEvents name st1 of
             (found, st2) \<Rightarrow>
               (case scan_items env r path t reportEvents names st2 of
                  ((cancelled, subdirectories), st3) \<Rightarrow>
                    ((cancelled, (case found of None \<Rightarrow> subdirectories | Some c \<Rightarrow> c # subdirectories)), st3))))"

lemma scan_item_longer:
  assumes "scan_item env r path t reportEvents name st = (Some c, st')"
  shows "length path < length c"
proof -
  have "c = path @ ''/'' @ name"
    using assms by (auto simp: scan_item_def Let_def split: if_splits prod.splits option.splits)
  then show ?thesis by simp
qed

lemma scan_items_longer:
  assumes "scan_items env r path t reportEvents names st = ((cancelled, subs), st')" and "c \<in> set subs"
  shows "length path < length c"
  using assms
proof (induction names arbitrary: st cancelled subs st')
  case Nil
  then show ?case by simp
next
  case (Cons name names)
  from Cons.prems show ?case
    by (auto split: prod.splits bool.splits option.splits dest: scan_item_longer intro: Cons.IH)
qed

definition depth_left :: "string list \<Rightarrow> nat" where
  "depth_left paths = Max (insert 0 ((\<lambda>p. PATH_MAX - length p) ` set paths))"

lemma depth_left_simps [simp]: "depth_left [p] = PATH_MAX - length p"
  "PATH_MAX - length p \<le> depth_left (p # ps)" "depth_left ps \<le> depth_left (p # ps)"
  by (auto simp: depth_left_def intro: Max_mono)

lemma depth_left_less:
  assumes "length path < PATH_MAX" and "\<And>c. c \<in> set subs \<Longrightarrow> length path < length c"
  shows "depth_left subs < PATH_MAX - length path"
  using assms by (auto simp: depth_left_def) (meson assms(2) diff_less_mono2)

lemma opened_fits: "with_kernel (opendir env path) st = (Inr x, st') \<Longrightarrow> length path < PATH_MAX"
  by (auto simp: with_kernel_def opendir_def split: if_splits prod.splits)

lemma scanned_deeper:
  assumes "(Inr x, st1) = with_kernel (opendir env path) st"
    and "((cancelled, subs), st3) = scan_items env r path t reportEvents names st2"
  shows "depth_left subs < PATH_MAX - length path"
  using depth_left_less [OF opened_fits [OF assms(1) [symmetric]]] scan_items_longer [OF assms(2) [symmetric]]
  by blast

text \<open>
  \<open>addCreatedTree\<close> and the loop over its subdirectories. A result \<open>None\<close> is the code's \<open>true\<close>,
  \<open>Some errno\<close> its \<open>false\<close>. Each level has a longer path, and no directory opens whose path does not
  fit in \<open>PATH_MAX\<close>.
\<close>

function addCreatedTree ::
    "'k inotify_env \<Rightarrow> wref \<Rightarrow> tref \<Rightarrow> bool \<Rightarrow> string \<Rightarrow> 'k inotify \<Rightarrow> nat option \<times> 'k inotify"
  and addSubdirectories ::
    "'k inotify_env \<Rightarrow> wref \<Rightarrow> tref \<Rightarrow> bool \<Rightarrow> string list \<Rightarrow> 'k inotify \<Rightarrow> nat option \<times> 'k inotify" where
  "addCreatedTree env r t reportEvents path st =
     (case with_kernel (opendir env path) st of
        (Inl errno, st1) \<Rightarrow> (Some errno, st1)
      | (Inr (attributes, names), st1) \<Rightarrow>
          (case (if dt_find (is_tree st1 t) path \<noteq> None then Inr st1
                 else (case attributes of
                         Inl errno \<Rightarrow> Inl errno
                       | Inr s \<Rightarrow> Inr (set_tree t (dt_add (is_tree st1 t) path (CONVERT_TIME s) True) st1))) of
             Inl errno \<Rightarrow> (Some errno, st1)
           | Inr st2 \<Rightarrow>
               (case scan_items env r path t reportEvents names st2 of
                  ((cancelled, subdirectories), st3) \<Rightarrow>
                    if cancelled then (None, st3) else addSubdirectories env r t reportEvents subdirectories st3)))"
| "addSubdirectories env r t reportEvents [] st = (None, st)"
| "addSubdirectories env r t reportEvents (candidate # subdirectories) st =
     (case scan_cancelled env r reportEvents st of
        (True, st1) \<Rightarrow> (None, st1)
      | (False, st1) \<Rightarrow>
          (case (case watchDir env r candidate t st1 of
                   (Some errno, st2) \<Rightarrow> (Some errno, st2)
                 | (None, st2) \<Rightarrow> addCreatedTree env r t reportEvents candidate st2) of
             (None, st3) \<Rightarrow> addSubdirectories env r t reportEvents subdirectories st3
           | (Some errno, st3) \<Rightarrow>
               if errno = Files.ENOENT \<or> errno = Files.ENOTDIR then
                 (let st4 = removeSubscriptions env r candidate st3 in
                  addSubdirectories env r t reportEvents subdirectories
                    (set_tree t (dt_remove Linux (is_tree st4 t) candidate) st4))
               else (Some errno, st3)))"
  by pat_completeness auto

termination
  by (relation "inv_image (less_than <*lex*> less_than)
    (\<lambda>x. case x of Inl (env, r, t, rep, path, st) \<Rightarrow> (depth_left [path], 0)
      | Inr (env, r, t, rep, subs, st) \<Rightarrow> (depth_left subs, Suc (length subs)))")
    (auto simp: less_Suc_eq_le le_imp_less_or_eq split: if_splits option.splits sum.splits intro: scanned_deeper)

declare addCreatedTree.simps [simp del]

definition reconcile_entry ::
  "'k inotify_env \<Rightarrow> wref \<Rightarrow> string \<Rightarrow> string \<times> dir_entry \<Rightarrow> (string \<times> dir_entry) list \<times> 'k inotify
    \<Rightarrow> (string \<times> dir_entry) list \<times> 'k inotify" where
  "reconcile_entry env r path = (\<lambda>(p, current) (before, st).
     if \<not> below_or_at p path then (before, st)
     else
       (case map_of before p of
          None \<Rightarrow> (before, on_events r (\<lambda>l. el_create l p (entryKind (de_isDir current))) st)
        | Some old \<Rightarrow>
            (AList.delete p before,
             if de_isDir old \<noteq> de_isDir current then
               on_events r (\<lambda>l. el_update l p (entryKind (de_isDir current)))
                 (if de_isDir old then removeSubscriptions env r p st else st)
             else if \<not> de_isDir current \<and> de_mtime old \<noteq> de_mtime current then
               on_events r (\<lambda>l. el_update l p File) st
             else st)))"

definition reconcile_missing :: "'k inotify_env \<Rightarrow> wref \<Rightarrow> string \<times> dir_entry \<Rightarrow> 'k inotify \<Rightarrow> 'k inotify" where
  "reconcile_missing env r = (\<lambda>(p, old) st.
     (let st1 = (if ie_ignored env r p then st else on_events r (\<lambda>l. el_remove l p (entryKind (de_isDir old))) st) in
      if de_isDir old then removeSubscriptions env r p st1 else st1))"

definition reconcileMovedTree ::
  "'k inotify_env \<Rightarrow> wref \<Rightarrow> string \<Rightarrow> tref \<Rightarrow> 'k inotify \<Rightarrow> nat option \<times> 'k inotify" where
  "reconcileMovedTree env r path t st =
     (let (previous, st1) = extract_tree t path st in
      (case addCreatedTree env r t False path st1 of
         (Some errno, st2) \<Rightarrow> (Some errno, st2)
       | (None, st2) \<Rightarrow>
           (let (before, st3) = fold (reconcile_entry env r path) (dt_entries (is_tree st2 t)) (fold emplace_entry previous [], st2) in
            (None, fold (reconcile_missing env r) before st3))))"

subsection \<open>Events of the kernel\<close>

definition on :: "inotify_event \<Rightarrow> u32 \<Rightarrow> bool" where
  "on ev bits \<longleftrightarrow> ev_mask ev AND bits \<noteq> 0"

text \<open>An event of the root itself, or of one of its ancestors.\<close>

definition root_gone :: "'k inotify_env \<Rightarrow> wref \<Rightarrow> tref \<Rightarrow> string \<Rightarrow> 'k inotify \<Rightarrow> 'k inotify" where
  "root_gone env r t path st =
     (let (entries, st1) = extract_tree t path st;
          mine = map snd (filter (\<lambda>m. pm_watcher (snd m) = r) (is_moves st1));
          st2 = drop_moves r (fold (\<lambda>move. report_removed r (pm_entries move)) mine (report_removed r entries st1)) in
      removeSubscriptions env r path (in_invalidate r st2))"

definition carries :: "wref \<Rightarrow> sref \<Rightarrow> move_key \<times> pending_move \<Rightarrow> bool" where
  "carries r s = (\<lambda>(key, move). pm_watcher move = r \<and> pm_isDirectory move \<and> s \<in> set (pm_subscriptions move))"

fun suppress :: "wref \<Rightarrow> sref \<Rightarrow> (move_key \<times> pending_move) list \<Rightarrow> (move_key \<times> pending_move) list" where
  "suppress r s [] = []"
| "suppress r s (m # ms) =
     (if carries r s m then (fst m, (snd m)\<lparr>pm_suppressedEvents := True\<rparr>) # ms else m # suppress r s ms)"

definition rename_id :: "u32 \<Rightarrow> string" where
  "rename_id cookie = ''inotify:'' @ decimal (unat cookie)"

text \<open>The events of one entry of a directory whose move ends at \<open>path\<close>.\<close>

definition report_moved ::
  "'k inotify_env \<Rightarrow> wref \<Rightarrow> tref \<Rightarrow> u32 \<Rightarrow> string \<Rightarrow> string \<Rightarrow> bool \<Rightarrow> dir_entry \<Rightarrow> 'k inotify \<Rightarrow> 'k inotify" where
  "report_moved env r t cookie oldPath path targetExisted entry st =
     (let newEntryPath = path @ drop (length oldPath) (de_path entry); kind = entryKind (de_isDir entry) in
      if targetExisted \<or> ie_ignored env r newEntryPath then
        (let st1 = on_events r (\<lambda>l. el_remove l (de_path entry) kind) st in
         if ie_ignored env r newEntryPath then st1
         else if dt_find (is_tree st1 t) newEntryPath \<noteq> None then on_events r (\<lambda>l. el_update l newEntryPath kind) st1
         else on_events r (\<lambda>l. el_create l newEntryPath kind) st1)
      else
        on_events r (\<lambda>l. el_rename l (de_path entry) newEntryPath
          (rename_id cookie @ '':'' @ drop (length oldPath) (de_path entry)) kind) st)"

definition complete_move ::
  "'k inotify_env \<Rightarrow> wref \<Rightarrow> tref \<Rightarrow> u32 \<Rightarrow> string \<Rightarrow> pending_move \<Rightarrow> 'k inotify \<Rightarrow> 'k inotify" where
  "complete_move env r t cookie path move st =
     (let oldPath = pm_path move;
          targetExisted = (dt_find (is_tree st t) path \<noteq> None);
          st1 = fold (report_moved env r t cookie oldPath path targetExisted) (pm_entries move) st;
          st2 = (if pm_entries move \<noteq> [] \<and> dt_find (is_tree st1 t) path \<noteq> None
                 then set_tree t (dt_remove Linux (is_tree st1 t) path) st1 else st1);
          st3 = set_tree t (dt_restore (is_tree st2 t) (pm_entries move) oldPath path) st2;
          st4 = moveSubscriptions move path st3 in
      st4\<lparr>is_moves := AList.delete (r, cookie) (is_moves st4)\<rparr>)"

text \<open>
  The entry at \<open>path\<close>, once \<open>lstat\<close> has found a file or a directory there: its event, its place in
  the tree, and for a directory its subtree. \<open>moved\<close> is the old path and whether nothing was known
  below it, for the second half of a move within the root.
\<close>

definition report_arrival ::
  "wref \<Rightarrow> tref \<Rightarrow> u32 \<Rightarrow> string \<Rightarrow> entry_kind \<Rightarrow> (string \<times> bool) option \<Rightarrow> 'k inotify \<Rightarrow> 'k inotify" where
  "report_arrival r t cookie path kind moved st =
     (case moved of
        None \<Rightarrow>
          if dt_find (is_tree st t) path \<noteq> None then on_events r (\<lambda>l. el_update l path kind) st
          else on_events r (\<lambda>l. el_create l path kind) st
      | Some (oldPath, missingSource) \<Rightarrow>
          if missingSource then
            (let st1 = (if dt_find (is_tree st t) path \<noteq> None
                        then on_events r (\<lambda>l. el_update (el_remove l oldPath kind) path kind) st
                        else on_events r (\<lambda>l. el_rename l oldPath path (rename_id cookie) kind) st) in
             set_tree t (dt_remove Linux (is_tree st1 t) path) st1)
          else st)"

definition index_arrival ::
  "tref \<Rightarrow> string \<Rightarrow> stat \<Rightarrow> (string \<times> bool) option \<Rightarrow> 'k inotify \<Rightarrow> (string \<times> bool) option \<times> 'k inotify" where
  "index_arrival t path s moved st =
     (case moved of
        None \<Rightarrow> (None, set_tree t (dt_add (is_tree st t) path (CONVERT_TIME s) (S_ISDIR s)) st)
      | Some (oldPath, missingSource) \<Rightarrow>
          (case dt_update (is_tree st t) path (CONVERT_TIME s) of
             (True, x) \<Rightarrow> (Some (oldPath, missingSource), set_tree t x st)
           | (False, x) \<Rightarrow>
               (Some (oldPath, True), set_tree t (dt_add (is_tree st t) path (CONVERT_TIME s) (S_ISDIR s)) st)))"

text \<open>The watches of a directory that has arrived: the \<open>errno\<close> of the call that failed, if any.\<close>

definition watch_arrival ::
  "'k inotify_env \<Rightarrow> wref \<Rightarrow> tref \<Rightarrow> string \<Rightarrow> (string \<times> bool) option \<Rightarrow> bool \<Rightarrow> 'k inotify \<Rightarrow> nat option \<times> 'k inotify" where
  "watch_arrival env r t path moved suppressedEvents st =
     (let isMoveWithinRoot = (moved \<noteq> None);
          missingSource = (case moved of None \<Rightarrow> False | Some (_, missing) \<Rightarrow> missing);
          rescanMovedTree = (isMoveWithinRoot \<and> (missingSource \<or> ie_hasIgnores env r)) in
      (case (if isMoveWithinRoot \<and> \<not> missingSource then (None, st) else watchDir env r path t st) of
         (Some errno, st1) \<Rightarrow> (Some errno, st1)
       | (None, st1) \<Rightarrow>
           if suppressedEvents \<or> rescanMovedTree then reconcileMovedTree env r path t st1
           else if \<not> isMoveWithinRoot then addCreatedTree env r t True path st1
           else (None, st1)))"

definition watch_failed :: "'k inotify_env \<Rightarrow> wref \<Rightarrow> tref \<Rightarrow> string \<Rightarrow> bool \<Rightarrow> nat \<Rightarrow> 'k inotify \<Rightarrow> 'k inotify" where
  "watch_failed env r t path isMoveWithinRoot errno st =
     (let st1 = (if isMoveWithinRoot then st else set_tree t (dt_remove Linux (is_tree st t) path) st);
          st2 = on_events r (\<lambda>l. el_error l (''inotify_add_watch below '' @ [CHR 0x27] @ path @ [CHR 0x27] @ '' failed: '' @ ie_strerror env errno))
                  (in_invalidate r st1) in
      drop_moves r (removeSubscriptions env r (ie_dir env r) st2))"

text \<open>An entry that is neither a file nor a directory has taken the place of what was there.\<close>

definition replace_by_special :: "'k inotify_env \<Rightarrow> wref \<Rightarrow> tref \<Rightarrow> string \<Rightarrow> 'k inotify \<Rightarrow> bool \<times> 'k inotify" where
  "replace_by_special env r t path st =
     (let (removed, st1) = extract_tree t path st in
      (removed \<noteq> [],
       fold (\<lambda>e st'. (let st'' = on_events r (\<lambda>l. el_remove l (de_path e) (entryKind (de_isDir e))) st' in
               if de_isDir e then removeSubscriptions env r (de_path e) st'' else st'')) removed st1))"

definition pending_of :: "inotify_event \<Rightarrow> wref \<Rightarrow> 'k inotify \<Rightarrow> pending_move option" where
  "pending_of ev r st =
     (if on ev IN_MOVED_TO \<and> ev_cookie ev \<noteq> 0 then map_of (is_moves st) (r, ev_cookie ev) else None)"

definition handle_arrival ::
  "'k inotify_env \<Rightarrow> inotify_event \<Rightarrow> wref \<Rightarrow> tref \<Rightarrow> string \<Rightarrow> 'k inotify \<Rightarrow> bool \<times> 'k inotify" where
  "handle_arrival env ev r t path st =
     (let pending = pending_of ev r st;
          st1 = (case pending of None \<Rightarrow> st | Some move \<Rightarrow> complete_move env r t (ev_cookie ev) path move st);
          moved = map_option (\<lambda>move. (pm_path move, pm_entries move = [])) pending;
          suppressedEvents = (case pending of None \<Rightarrow> False | Some move \<Rightarrow> pm_suppressedEvents move) in
      (case with_kernel (ie_lstat env path) st1 of
         (None, st2) \<Rightarrow> (False, st2)
       | (Some s, st2) \<Rightarrow>
           if \<not> S_ISREG s \<and> \<not> S_ISDIR s then replace_by_special env r t path st2
           else
             (let st3 = report_arrival r t (ev_cookie ev) path (entryKind (S_ISDIR s)) moved st2;
                  (moved', st4) = index_arrival t path s moved st3 in
              (True,
               if S_ISDIR s then
                 (case watch_arrival env r t path moved' suppressedEvents st4 of
                    (None, st5) \<Rightarrow> st5
                  | (Some errno, st5) \<Rightarrow> watch_failed env r t path (pending \<noteq> None) errno st5)
               else st4))))"

definition handle_change ::
  "'k inotify_env \<Rightarrow> wref \<Rightarrow> tref \<Rightarrow> string \<Rightarrow> 'k inotify \<Rightarrow> bool \<times> 'k inotify" where
  "handle_change env r t path st =
     (case with_kernel (ie_lstat env path) st of
        (None, st1) \<Rightarrow> (False, st1)
      | (Some s, st1) \<Rightarrow>
          if \<not> S_ISREG s \<and> \<not> S_ISDIR s then (False, st1)
          else if dt_find (is_tree st1 t) path = None then (False, st1)
          else
            (let st2 = on_events r (\<lambda>l. el_update l path (entryKind (S_ISDIR s))) st1 in
             (True, set_tree t (snd (dt_update (is_tree st2 t) path (CONVERT_TIME s))) st2)))"

definition handle_departure ::
  "'k inotify_env \<Rightarrow> inotify_event \<Rightarrow> wref \<Rightarrow> tref \<Rightarrow> string \<Rightarrow> 'k inotify \<Rightarrow> bool \<times> 'k inotify" where
  "handle_departure env ev r t path st =
     (let isDir = on ev IN_ISDIR in
      if on ev (IN_DELETE_SELF OR IN_MOVE_SELF) then (False, st)
      else if on ev IN_MOVED_FROM \<and> ev_cookie ev \<noteq> 0 then
        (let movedSubscriptions =
               (if isDir
                then map snd (filter (\<lambda>(d, s). sub_watcher (is_sub st s) = r \<and> below_or_at (sub_path (is_sub st s)) path) (is_subs st))
                else []);
             (entries, st1) = extract_tree t path st;
             (now, st2) = with_kernel (ie_now env) st1 in
         (True, st2\<lparr>is_moves := AList.update (r, ev_cookie ev)
            \<lparr>pm_watcher = r, pm_tree = t, pm_path = path, pm_isDirectory = isDir, pm_entries = entries,
             pm_subscriptions = movedSubscriptions, pm_createdAt = now, pm_suppressedEvents = False\<rparr> (is_moves st2)\<rparr>))
      else
        (let (entries, st1) = extract_tree t path st;
             st2 = report_removed r entries st1 in
         (True, if isDir then removeSubscriptions env r path st2 else st2)))"

definition handleSubscription ::
  "'k inotify_env \<Rightarrow> inotify_event \<Rightarrow> sref \<Rightarrow> 'k inotify \<Rightarrow> bool \<times> 'k inotify" where
  "handleSubscription env ev s st =
     (let sub = is_sub st s; r = sub_watcher sub; t = sub_tree sub; dir = ie_dir env r;
          ancestor = (sub_path sub \<noteq> dir \<and> below_or_at dir (sub_path sub));
          selfEvent = on ev (IN_MOVE_SELF OR IN_DELETE_SELF OR IN_IGNORED);
          base = (if ancestor then dir else sub_path sub);
          path = (if ev_name ev \<noteq> [] then base @ ''/'' @ c_str (ev_name ev) else base) in
      if ancestor \<and> \<not> selfEvent then (False, st)
      else if base = dir \<and> selfEvent then (True, root_gone env r t base st)
      else if \<exists>m \<in> set (is_moves st). carries r s m then (False, st\<lparr>is_moves := suppress r s (is_moves st)\<rparr>)
      else if ie_ignored env r path then (False, st)
      else if on ev (IN_CREATE OR IN_MOVED_TO) then handle_arrival env ev r t path st
      else if on ev (IN_MODIFY OR IN_ATTRIB) then handle_change env r t path st
      else if on ev (IN_DELETE OR IN_DELETE_SELF OR IN_MOVED_FROM OR IN_MOVE_SELF) then handle_departure env ev r t path st
      else (True, st))"

text \<open>
  \<open>handleEvent\<close>, with the watchers to notify in the order they are added; the subscriptions of a
  descriptor are collected before the first is handled.
\<close>

definition handleEvent ::
  "'k inotify_env \<Rightarrow> inotify_event \<Rightarrow> wref list \<times> 'k inotify \<Rightarrow> wref list \<times> 'k inotify" where
  "handleEvent env ev = (\<lambda>(watchers, st).
     fold (\<lambda>s (watchers', st').
         (let (touched, st'') = handleSubscription env ev s st' in
          (if touched then List.insert (sub_watcher (is_sub st'' s)) watchers' else watchers', st'')))
       (remdups (map snd (filter (\<lambda>e. fst e = ev_wd ev) (is_subs st)))) (watchers, st))"

definition overflow_message :: string where
  "overflow_message =
     ''inotify queue overflow. The subscription can no longer guarantee complete filesystem events.''"

definition overflow_watcher :: "'k inotify_env \<Rightarrow> wref \<Rightarrow> 'k inotify \<Rightarrow> 'k inotify" where
  "overflow_watcher env r st =
     drop_moves r (removeSubscriptions env r (ie_dir env r)
       (on_events r (\<lambda>l. el_error l overflow_message) (in_invalidate r st)))"

definition handleOverflow :: "'k inotify_env \<Rightarrow> wref list \<times> 'k inotify \<Rightarrow> wref list \<times> 'k inotify" where
  "handleOverflow env = (\<lambda>(watchers, st).
     (let overflowed = remdups (map (\<lambda>e. sub_watcher (is_sub st (snd e))) (is_subs st)) in
      (fold List.insert overflowed watchers, fold (overflow_watcher env) overflowed st)))"

definition handle_read ::
  "'k inotify_env \<Rightarrow> inotify_event \<Rightarrow> wref list \<times> 'k inotify \<Rightarrow> wref list \<times> 'k inotify" where
  "handle_read env ev =
     (if ev_mask ev AND IN_Q_OVERFLOW = IN_Q_OVERFLOW then handleOverflow env else handleEvent env ev)"

text \<open>
  The reading loop of \<open>handleEvents\<close>: the error it throws, if any, and the watchers it notifies.
  \<open>EWOULDBLOCK\<close> is \<open>EAGAIN\<close>. \<open>None\<close> is a loop that never ends.
\<close>

partial_function (option) handleEvents ::
  "'k inotify_env \<Rightarrow> wref list \<times> 'k inotify \<Rightarrow> ((string + wref list) \<times> 'k inotify) option" where
  "handleEvents env ws =
     (case with_kernel (ie_read env) (snd ws) of
        (Inl errno, st) \<Rightarrow>
          if errno = EAGAIN then Some (Inr (fst ws), st)
          else Some (Inl (''Error reading from inotify: '' @ ie_strerror env errno), st)
      | (Inr [], st) \<Rightarrow> Some (Inr (fst ws), st)
      | (Inr (ev # evs), st) \<Rightarrow> handleEvents env (fold (handle_read env) (ev # evs) (fst ws, st)))"

definition expired :: "nat \<Rightarrow> pending_move \<Rightarrow> bool" where
  "expired now move \<longleftrightarrow> (now - pm_createdAt move) div 1000000 \<ge> MOVE_PAIR_GRACE_MS"

definition flush_move :: "'k inotify_env \<Rightarrow> move_key \<times> pending_move \<Rightarrow> 'k inotify \<Rightarrow> 'k inotify" where
  "flush_move env = (\<lambda>(key, move) st.
     (let gone = filter (\<lambda>e. case dt_find (is_tree st (pm_tree move)) (de_path e) of
                    None \<Rightarrow> True | Some replacement \<Rightarrow> de_isDir replacement \<noteq> de_isDir e) (pm_entries move);
          st1 = report_removed (pm_watcher move) gone st;
          st2 = (if pm_isDirectory move then removeMoveSubscriptions env move st1 else st1) in
      st2\<lparr>is_moves := AList.delete key (is_moves st2)\<rparr>))"

definition flushExpiredMoves :: "'k inotify_env \<Rightarrow> 'k inotify \<Rightarrow> wref list \<times> 'k inotify" where
  "flushExpiredMoves env st =
     (let (now, st1) = with_kernel (ie_now env) st;
          old = filter (\<lambda>m. expired now (snd m)) (is_moves st1) in
      (remdups (map (\<lambda>m. pm_watcher (snd m)) old), fold (flush_move env) old st1))"

subsection \<open>Subscribing and unsubscribing\<close>

text \<open>\<open>BruteForceBackend\<close>: a new tree, which \<open>readTree\<close> (a parameter) fills when asked to.\<close>

definition brute_getTree :: "('s \<Rightarrow> dir_tree \<Rightarrow> dir_tree \<times> 's) \<Rightarrow> string \<Rightarrow> bool \<Rightarrow> 's \<Rightarrow> dir_tree \<times> 's" where
  "brute_getTree readTree dir shouldRead s =
     (let tree = dt_new dir in
      if shouldRead then (let (x, s') = readTree s tree in (x\<lparr>isComplete := True\<rparr>, s')) else (tree, s))"

text \<open>The ancestors of a path, outermost first: its prefixes that end before a slash after the first character.\<close>

definition path_ancestors :: "string \<Rightarrow> string list" where
  "path_ancestors dir = map (\<lambda>i. take i dir) (filter (\<lambda>i. dir ! i = CHR ''/'') [1..<length dir])"

fun watch_ancestors :: "'k inotify_env \<Rightarrow> wref \<Rightarrow> tref \<Rightarrow> string list \<Rightarrow> 'k inotify \<Rightarrow> string option \<times> 'k inotify" where
  "watch_ancestors env r t [] st = (None, st)"
| "watch_ancestors env r t (ancestor # ancestors) st =
     (case watchDir env r ancestor t st of
        (Some errno, st1) \<Rightarrow>
          (Some (''Unable to watch ancestor '' @ [CHR 0x27] @ ancestor @ [CHR 0x27] @ '': '' @ ie_strerror env errno), st1)
      | (None, st1) \<Rightarrow> watch_ancestors env r t ancestors st1)"

definition watch_root :: "'k inotify_env \<Rightarrow> wref \<Rightarrow> tref \<Rightarrow> 'k inotify \<Rightarrow> string option \<times> 'k inotify" where
  "watch_root env r t st =
     (case (case watchDir env r (ie_dir env r) t st of
              (Some errno, st1) \<Rightarrow> (Some errno, st1)
            | (None, st1) \<Rightarrow> addCreatedTree env r t False (ie_dir env r) st1) of
        (None, st2) \<Rightarrow> (None, st2)
      | (Some errno, st2) \<Rightarrow>
          (Some (''Unable to watch '' @ [CHR 0x27] @ ie_dir env r @ [CHR 0x27] @ '': '' @ ie_strerror env errno), st2))"

definition inotify_subscribe :: "'k inotify_env \<Rightarrow> 'k inotify subscriber" where
  "inotify_subscribe env r = (\<lambda>(wt, st).
     (let t = is_nextTree st;
          st0 = set_tree t (fst (brute_getTree (\<lambda>u x. (x, u)) (ie_dir env r) False ())) (st\<lparr>is_nextTree := t + 1\<rparr>) in
      (case (case watch_ancestors env r t (path_ancestors (ie_dir env r)) st0 of
               (Some err, st1) \<Rightarrow> (Some err, st1)
             | (None, st1) \<Rightarrow> watch_root env r t st1) of
         (Some err, st2) \<Rightarrow> (Some err, wt, removeSubscriptions env r (ie_dir env r) st2)
       | (None, st2) \<Rightarrow>
           (case with_kernel (ie_cancelled env r) st2 of
              (True, st3) \<Rightarrow> (None, wt\<lparr>wt_needsResubscribe := True\<rparr>, removeSubscriptions env r (ie_dir env r) st3)
            | (False, st3) \<Rightarrow> (None, wt, set_tree t ((is_tree st3 t)\<lparr>isComplete := True\<rparr>) st3)))))"

fun unsubscribe_loop :: "'k inotify_env \<Rightarrow> wref \<Rightarrow> (int \<times> sref) list \<Rightarrow> 'k inotify \<Rightarrow> string option \<times> 'k inotify" where
  "unsubscribe_loop env r [] st = (None, st)"
| "unsubscribe_loop env r (e # es) st =
     (if sub_watcher (is_sub st (snd e)) = r then
        (let only = (length (filter (\<lambda>e'. fst e' = fst e) (is_subs st)) = 1);
             (err, st1) = (if only then with_kernel (ie_rmWatch env (fst e)) st else (None, st)) in
         if err \<noteq> None \<and> err \<noteq> Some EINVAL
         then (Some (''Unable to remove watcher: '' @ ie_strerror env (the err)), st1)
         else
           unsubscribe_loop env r es
             (st1\<lparr>is_subs := remove1 e (is_subs st1),
                  is_removed := (if only then fst e # is_removed st1 else is_removed st1)\<rparr>))
      else unsubscribe_loop env r es st)"

definition inotify_unsubscribe :: "'k inotify_env \<Rightarrow> 'k inotify subscriber" where
  "inotify_unsubscribe env r = (\<lambda>(wt, st).
     (let st1 = drop_moves r st; (err, st2) = unsubscribe_loop env r (is_subs st1) st1 in (err, wt, st2)))"

subsection \<open>The thread\<close>

text \<open>
  The descriptors of the backend, the signal its destructor waits for, the calls of \<open>close\<close> and of
  \<open>notify\<close>, and the rest of the state.
\<close>

record 'k inotify_thread =
  it_pipe :: "int \<times> int"
  it_inotify :: int
  it_loopStarted :: bool
  it_startup :: startup
  it_ended :: bool
  it_closed :: "int list"
  it_notified :: "wref list"
  it_state :: "'k inotify"

definition close_descriptor :: "int \<Rightarrow> int list \<Rightarrow> int list" where
  "close_descriptor fd closed = (if fd \<noteq> -1 then fd # closed else closed)"

definition closeDescriptors :: "'k inotify_thread \<Rightarrow> 'k inotify_thread" where
  "closeDescriptors th =
     th\<lparr>it_closed := close_descriptor (it_inotify th)
          (close_descriptor (snd (it_pipe th)) (close_descriptor (fst (it_pipe th)) (it_closed th))),
        it_pipe := (-1, -1), it_inotify := -1\<rparr>"

text \<open>
  The loop of \<open>start\<close>: the watchers that have been notified, and the error that ends it, if it does
  not end because the pipe was written.
\<close>

partial_function (option) poll_loop ::
  "'k inotify_env \<Rightarrow> wref list \<times> 'k inotify \<Rightarrow> (string option \<times> wref list \<times> 'k inotify) option" where
  "poll_loop env ns =
     (case with_kernel (ie_poll env) (snd ns) of
        (Inl errno, st1) \<Rightarrow> Some (Some (''Unable to poll: '' @ ie_strerror env errno), fst ns, st1)
      | (Inr (stopping, readable), st1) \<Rightarrow>
          if stopping then Some (None, fst ns, st1)
          else
            Option.bind (if readable then handleEvents env ([], st1) else Some (Inr [], st1))
              (\<lambda>(result, st2).
                 (case result of
                    Inl err \<Rightarrow> Some (Some err, fst ns, st2)
                  | Inr watchers \<Rightarrow>
                      (let (flushed, st3) = flushExpiredMoves env st2 in
                       poll_loop env (fst ns @ watchers @ flushed, st3)))))"

definition inotify_start ::
  "'k inotify_env \<Rightarrow> 'k inotify_thread \<Rightarrow> (string option \<times> 'k inotify_thread) option" where
  "inotify_start env th =
     (case with_kernel (ie_pipe2 env) (it_state th) of
        (Inl errno, st) \<Rightarrow> Some (Some (''Unable to open pipe: '' @ ie_strerror env errno), th\<lparr>it_state := st\<rparr>)
      | (Inr ends, st) \<Rightarrow>
          (case with_kernel (ie_init1 env) st of
             (Inl errno, st1) \<Rightarrow>
               Some (Some (''Unable to initialize inotify: '' @ ie_strerror env errno),
                     closeDescriptors (th\<lparr>it_pipe := ends, it_inotify := -1, it_state := st1\<rparr>))
           | (Inr fd, st1) \<Rightarrow>
               map_option
                 (\<lambda>(err, notified, st2).
                    (err, (closeDescriptors
                       (th\<lparr>it_pipe := ends, it_inotify := fd, it_loopStarted := True,
                           it_startup := notifyStarted (it_startup th),
                           it_notified := it_notified th @ notified, it_state := st2\<rparr>))\<lparr>it_ended := True\<rparr>))
                 (poll_loop env ([], st1))))"

text \<open>What \<open>start\<close> leaves in the destructor's way: it waits only for a loop that has started.\<close>

definition destructor_waits :: "'k inotify_thread \<Rightarrow> bool" where
  "destructor_waits th \<longleftrightarrow> it_loopStarted th \<and> \<not> it_ended th"

end
