(* ===== verification/InotifySafety.thy ===== *)
theory InotifySafety
  imports Inotify
begin

section \<open>What every operation of the inotify backend keeps\<close>

text \<open>
  The kernel is known by \<open>W\<close>, the descriptors it has a watch for. \<open>watch_laws\<close> is what the manual
  pages of inotify promise of them: \<open>inotify_add_watch\<close> adds at most the descriptor it returns,
  \<open>inotify_rm_watch\<close> leaves no watch with the descriptor it is given, and no other call adds a watch
  (the kernel may drop one at any time, when the directory goes away). \<open>acts W R st st'\<close> says what an
  operation on behalf of the watchers \<open>R\<close> may do; it composes, so each operation is shown once to
  keep it.
\<close>

definition watch_laws :: "'k inotify_env \<Rightarrow> ('k \<Rightarrow> int set) \<Rightarrow> bool" where
  "watch_laws env W \<longleftrightarrow>
     (\<forall>p m k d k'. ie_addWatch env p m k = (Inr d, k') \<longrightarrow> W k' \<subseteq> insert d (W k)) \<and>
     (\<forall>p m k errno k'. ie_addWatch env p m k = (Inl errno, k') \<longrightarrow> W k' \<subseteq> W k) \<and>
     (\<forall>d k. W (snd (ie_rmWatch env d k)) \<subseteq> W k - {d}) \<and>
     (\<forall>r k. W (snd (ie_cancelled env r k)) \<subseteq> W k) \<and> (\<forall>p k. W (snd (ie_lstat env p k)) \<subseteq> W k) \<and>
     (\<forall>p k. W (snd (ie_opendir env p k)) \<subseteq> W k) \<and> (\<forall>k. W (snd (ie_now env k)) \<subseteq> W k) \<and>
     (\<forall>k. W (snd (ie_read env k)) \<subseteq> W k) \<and> (\<forall>k. W (snd (ie_poll env k)) \<subseteq> W k)"

definition subs_ok :: "'k inotify \<Rightarrow> bool" where
  "subs_ok st \<longleftrightarrow> distinct (map snd (is_subs st)) \<and> (\<forall>e \<in> set (is_subs st). snd e < is_nextSub st)"

definition moves_ok :: "'k inotify \<Rightarrow> bool" where
  "moves_ok st \<longleftrightarrow> um_ok (is_moves st) \<and> (\<forall>m \<in> set (is_moves st). pm_watcher (snd m) = fst (fst m))"

definition data_ok :: "'k inotify \<Rightarrow> bool" where
  "data_ok st \<longleftrightarrow> (\<forall>t. dt_ok (is_tree st t)) \<and> (\<forall>r. el_ok (is_events st r))"

definition owned :: "('k \<Rightarrow> int set) \<Rightarrow> 'k inotify \<Rightarrow> bool" where
  "owned W st \<longleftrightarrow> W (is_kernel st) \<subseteq> fst ` set (is_subs st)"

definition inotify_ok :: "('k \<Rightarrow> int set) \<Rightarrow> 'k inotify \<Rightarrow> bool" where
  "inotify_ok W st \<longleftrightarrow> subs_ok st \<and> moves_ok st \<and> data_ok st \<and> owned W st"

text \<open>Nothing is left of the watcher.\<close>

definition forgotten :: "wref \<Rightarrow> 'k inotify \<Rightarrow> bool" where
  "forgotten r st \<longleftrightarrow>
     (\<forall>e \<in> set (is_subs st). sub_watcher (is_sub st (snd e)) \<noteq> r) \<and> (\<forall>m \<in> set (is_moves st). pm_watcher (snd m) \<noteq> r)"

definition frame :: "wref set \<Rightarrow> 'k inotify \<Rightarrow> 'k inotify \<Rightarrow> bool" where
  "frame R st st' \<longleftrightarrow>
     is_nextSub st \<le> is_nextSub st' \<and>
     (\<forall>s. s < is_nextSub st \<longrightarrow> sub_watcher (is_sub st' s) = sub_watcher (is_sub st s)) \<and>
     (\<forall>r. r \<notin> R \<longrightarrow> is_events st' r = is_events st r \<and> (forgotten r st \<longrightarrow> forgotten r st'))"

definition acts :: "('k \<Rightarrow> int set) \<Rightarrow> wref set \<Rightarrow> 'k inotify \<Rightarrow> 'k inotify \<Rightarrow> bool" where
  "acts W R st st' \<longleftrightarrow> (inotify_ok W st \<longrightarrow> inotify_ok W st' \<and> frame R st st')"

subsection \<open>Composition\<close>

lemma frame_refl: "frame R st st"
  by (simp add: frame_def)

lemma frame_trans: "frame R st st1 \<Longrightarrow> frame R st1 st2 \<Longrightarrow> frame R st st2"
  unfolding frame_def by (metis (no_types, lifting) order_trans less_le_trans)

lemma frame_mono: "frame R st st' \<Longrightarrow> R \<subseteq> R' \<Longrightarrow> frame R' st st'"
  by (auto simp: frame_def)

lemma acts_refl [simp, intro]: "acts W R st st"
  by (simp add: acts_def frame_refl)

lemma acts_trans [trans]: "acts W R st st1 \<Longrightarrow> acts W R st1 st2 \<Longrightarrow> acts W R st st2"
  unfolding acts_def using frame_trans by blast

lemma acts_mono: "acts W R st st' \<Longrightarrow> R \<subseteq> R' \<Longrightarrow> acts W R' st st'"
  unfolding acts_def using frame_mono by blast

lemma acts_fold:
  assumes "\<And>x st. x \<in> set xs \<Longrightarrow> acts W R st (f x st)"
  shows "acts W R st (fold f xs st)"
  using assms by (induction xs arbitrary: st) (auto intro: acts_trans)

lemma acts_fold_pair:
  assumes "\<And>x y st. x \<in> set xs \<Longrightarrow> acts W R st (snd (f x (y, st)))"
  shows "acts W R st (snd (fold f xs (y, st)))"
  using assms
proof (induction xs arbitrary: y st)
  case (Cons x xs)
  obtain y1 st1 where "f x (y, st) = (y1, st1)" by (rule prod.exhaust)
  then show ?case using Cons.IH [of st1 y1] Cons.prems [of x st y] Cons.prems by (auto intro: acts_trans)
qed simp

text \<open>An operation that changes neither the subscriptions nor the moves.\<close>

lemma forgotten_cong:
  "is_subs st' = is_subs st \<Longrightarrow> is_moves st' = is_moves st \<Longrightarrow>
    (\<And>s. sub_watcher (is_sub st' s) = sub_watcher (is_sub st s)) \<Longrightarrow> forgotten r st' \<longleftrightarrow> forgotten r st"
  by (simp add: forgotten_def)

lemma acts_data:
  assumes "is_subs st' = is_subs st" and "is_moves st' = is_moves st" and "is_nextSub st' = is_nextSub st"
    and "\<And>s. sub_watcher (is_sub st' s) = sub_watcher (is_sub st s)"
    and "inotify_ok W st \<Longrightarrow> data_ok st'" and "W (is_kernel st') \<subseteq> W (is_kernel st)"
    and "\<And>r. r \<notin> R \<Longrightarrow> is_events st' r = is_events st r"
  shows "acts W R st st'"
  unfolding acts_def
proof (intro impI conjI)
  assume ok: "inotify_ok W st"
  then show "inotify_ok W st'"
    using assms(1-3,5,6) by (auto simp: inotify_ok_def subs_ok_def moves_ok_def owned_def)
  show "frame R st st'"
    using assms(1-4,7) forgotten_cong [of st' st] by (simp add: frame_def)
qed

lemma ok_data: "inotify_ok W st \<Longrightarrow> dt_ok (is_tree st t)" "inotify_ok W st \<Longrightarrow> el_ok (is_events st r)"
  by (simp_all add: inotify_ok_def data_ok_def)

lemma ok_data_ok: "inotify_ok W st \<Longrightarrow> data_ok st"
  by (simp add: inotify_ok_def)

lemma acts_kernel:
  assumes "\<And>k. W (snd (f k)) \<subseteq> W k"
  shows "acts W R st (snd (with_kernel f st))"
proof -
  have "snd (with_kernel f st) = st\<lparr>is_kernel := snd (f (is_kernel st))\<rparr>"
    by (simp add: with_kernel_def split_def Let_def)
  with assms [of "is_kernel st"] show ?thesis
    by (auto simp: data_ok_def dest: ok_data_ok intro!: acts_data)
qed

lemma acts_set_tree:
  assumes "inotify_ok W st \<Longrightarrow> dt_ok x"
  shows "acts W R st (set_tree t x st)"
  by (rule acts_data) (use assms in \<open>auto simp: set_tree_def data_ok_def dest: ok_data_ok\<close>)

lemma acts_on_events:
  assumes "r \<in> R" and "\<And>l. el_ok l \<Longrightarrow> el_ok (f l)"
  shows "acts W R st (on_events r f st)"
  by (rule acts_data) (use assms in \<open>auto simp: on_events_def data_ok_def dest: ok_data_ok\<close>)

lemma acts_invalidate: "acts W R st (in_invalidate r st)"
  by (rule acts_data) (auto simp: in_invalidate_def data_ok_def dest: ok_data_ok)

lemma acts_report_removed: "r \<in> R \<Longrightarrow> acts W R st (report_removed r entries st)"
  unfolding report_removed_def by (intro acts_fold acts_on_events event_ok)

lemma acts_extract: "acts W R st (snd (extract_tree t path st))"
  by (auto simp: extract_tree_def split_def Let_def intro!: acts_set_tree tree_ok ok_data)

lemma kernel_laws:
  assumes "watch_laws env W"
  shows "ie_addWatch env p m k = (Inr d, k') \<Longrightarrow> W k' \<subseteq> insert d (W k)"
    and "ie_addWatch env p m k = (Inl e, k') \<Longrightarrow> W k' \<subseteq> W k"
    and "W (snd (ie_rmWatch env d k)) \<subseteq> W k - {d}"
    and "W (snd (ie_cancelled env r k)) \<subseteq> W k" and "W (snd (ie_lstat env p k)) \<subseteq> W k"
    and "W (snd (opendir env p k)) \<subseteq> W k" and "W (snd (ie_now env k)) \<subseteq> W k"
    and "W (snd (ie_read env k)) \<subseteq> W k" and "W (snd (ie_poll env k)) \<subseteq> W k"
  using assms unfolding watch_laws_def by (elim conjE, simp_all add: opendir_def)+

lemma acts_calls:
  assumes "watch_laws env W"
  shows "acts W R st (snd (with_kernel (ie_cancelled env r) st))" "acts W R st (snd (with_kernel (ie_lstat env path) st))"
    "acts W R st (snd (with_kernel (opendir env path) st))" "acts W R st (snd (with_kernel (ie_now env) st))"
    "acts W R st (snd (with_kernel (ie_read env) st))" "acts W R st (snd (with_kernel (ie_poll env) st))"
  by (rule acts_kernel, rule kernel_laws [OF assms])+

lemma acts_fewer:
  assumes "set (is_moves st') \<subseteq> set (is_moves st)" and "um_ok (is_moves st) \<Longrightarrow> um_ok (is_moves st')"
    and "is_subs st' = is_subs st" "is_nextSub st' = is_nextSub st" "is_sub st' = is_sub st" "is_tree st' = is_tree st"
      "is_events st' = is_events st" "is_kernel st' = is_kernel st"
  shows "acts W R st st'"
  unfolding acts_def
proof (intro impI conjI)
  assume "inotify_ok W st"
  then show "inotify_ok W st'"
    using assms by (auto simp: inotify_ok_def subs_ok_def moves_ok_def data_ok_def owned_def)
  show "frame R st st'" using assms by (auto simp: frame_def forgotten_def)
qed

lemma acts_drop_moves: "acts W R st (drop_moves r st)"
  by (rule acts_fewer) (auto simp: drop_moves_def intro: um_ok_filter)

lemma acts_delete_move: "acts W R st (st\<lparr>is_moves := AList.delete key (is_moves st)\<rparr>)"
  by (rule acts_fewer) (auto simp: AList.delete_eq um_ok_filter)

lemma fold_moved_watcher:
  "sub_watcher (fold (\<lambda>s f. f(s := (f s)\<lparr>sub_path := g (f s)\<rparr>)) ss f s') = sub_watcher (f s')"
  by (induction ss arbitrary: f) auto

lemma acts_moveSubscriptions: "acts W R st (moveSubscriptions move path st)"
  by (rule acts_data) (auto simp: moveSubscriptions_def data_ok_def
      fold_moved_watcher [of "\<lambda>x. path @ drop (length (pm_path move)) (sub_path x)"] dest: ok_data_ok)

text \<open>Giving back descriptors: the watches left are those of a subscription or still to be given back.\<close>

lemma rm_unused_fields [simp]:
  "is_subs (rm_unused env ds st) = is_subs st" "is_moves (rm_unused env ds st) = is_moves st"
  "is_sub (rm_unused env ds st) = is_sub st" "is_nextSub (rm_unused env ds st) = is_nextSub st"
  "is_tree (rm_unused env ds st) = is_tree st" "is_events (rm_unused env ds st) = is_events st"
  "is_nextTree (rm_unused env ds st) = is_nextTree st" "is_invalidated (rm_unused env ds st) = is_invalidated st"
  by (induction env ds st rule: rm_unused.induct) (auto simp: with_kernel_def split_def Let_def)

lemma rm_unused_watches:
  assumes "watch_laws env W" and "W (is_kernel st) \<subseteq> fst ` set (is_subs st) \<union> set ds \<union> X"
  shows "W (is_kernel (rm_unused env ds st)) \<subseteq> fst ` set (is_subs st) \<union> X"
  using assms(2)
proof (induction ds arbitrary: st)
  case Nil
  then show ?case by simp
next
  case (Cons d ds)
  show ?case
  proof (cases "d \<in> fst ` set (is_subs st)")
    case True
    then show ?thesis using Cons by auto
  next
    case False
    let ?st = "(snd (with_kernel (ie_rmWatch env d) st))\<lparr>is_removed := d # is_removed st\<rparr>"
    have "W (is_kernel ?st) \<subseteq> W (is_kernel st) - {d}" and subs: "is_subs ?st = is_subs st"
      using kernel_laws(3) [OF assms(1)] by (auto simp: with_kernel_def split_def Let_def)
    with Cons.prems have "W (is_kernel ?st) \<subseteq> fst ` set (is_subs ?st) \<union> set ds \<union> X" by auto
    from Cons.IH [OF this] False subs show ?thesis by simp
  qed
qed

lemma remove_where_fields [simp]:
  "is_subs (remove_where env P st) = filter (\<lambda>e. \<not> P e) (is_subs st)" "is_moves (remove_where env P st) = is_moves st"
  "is_sub (remove_where env P st) = is_sub st" "is_nextSub (remove_where env P st) = is_nextSub st"
  "is_tree (remove_where env P st) = is_tree st" "is_events (remove_where env P st) = is_events st"
  "is_nextTree (remove_where env P st) = is_nextTree st" "is_invalidated (remove_where env P st) = is_invalidated st"
  by (simp_all add: remove_where_def)

lemma remove_where_watches:
  assumes "watch_laws env W" and "W (is_kernel st) \<subseteq> fst ` set (is_subs st) \<union> X"
  shows "W (is_kernel (remove_where env P st)) \<subseteq> fst ` set (filter (\<lambda>e. \<not> P e) (is_subs st)) \<union> X"
proof -
  let ?st = "st\<lparr>is_subs := filter (\<lambda>e. \<not> P e) (is_subs st)\<rparr>"
  have "W (is_kernel ?st) \<subseteq> fst ` set (is_subs ?st) \<union> set (remdups (map fst (filter P (is_subs st)))) \<union> X"
    using assms(2) by auto
  from rm_unused_watches [OF assms(1) this] show ?thesis by (simp add: remove_where_def Let_def)
qed

lemma acts_remove_where:
  assumes "watch_laws env W"
  shows "acts W R st (remove_where env P st)"
  unfolding acts_def
proof (intro impI conjI)
  assume ok: "inotify_ok W st"
  then have "W (is_kernel st) \<subseteq> fst ` set (is_subs st) \<union> {}" by (simp add: inotify_ok_def owned_def)
  from remove_where_watches [OF assms this] ok show "inotify_ok W (remove_where env P st)"
    by (auto simp: inotify_ok_def subs_ok_def moves_ok_def data_ok_def owned_def distinct_map_filter)
  show "frame R st (remove_where env P st)" by (auto simp: frame_def forgotten_def)
qed

lemma acts_removes:
  assumes "watch_laws env W"
  shows "acts W R st (removeSubscriptions env r path st)" "acts W R st (removeMoveSubscriptions env move st)"
  using acts_remove_where [OF assms] by (simp_all add: removeSubscriptions_def removeMoveSubscriptions_def)

subsection \<open>The operations\<close>

text \<open>Backward rules: each takes off the last operation, and a case keeps what has been done before it.\<close>

lemma acts_bind:
  assumes "acts W R st (snd p)" and "\<And>x st1. p = (x, st1) \<Longrightarrow> acts W R st st1 \<Longrightarrow> acts W R st (snd (g x st1))"
  shows "acts W R st (snd (case p of (x, st1) \<Rightarrow> g x st1))"
  using assms by (cases p) auto

lemma acts_after:
  assumes "acts W R st (snd p)" and "\<And>x st1. p = (x, st1) \<Longrightarrow> acts W R st st1 \<Longrightarrow> acts W R st (g x st1)"
  shows "acts W R st (case p of (x, st1) \<Rightarrow> g x st1)"
  using assms by (cases p) auto

lemma acts_find_update: "inotify_ok W st \<Longrightarrow> dt_update (is_tree st t) p m = (b, x) \<Longrightarrow> dt_ok x"
  using dt_ok_update [OF ok_data(1)] by (metis snd_conv)

lemmas acts_intros =
  acts_bind acts_after acts_trans [OF _ acts_set_tree] acts_trans [OF _ acts_on_events] acts_trans [OF _ acts_invalidate]
  acts_trans [OF _ acts_report_removed] acts_trans [OF _ acts_extract] acts_trans [OF _ acts_drop_moves]
  acts_trans [OF _ acts_delete_move] acts_trans [OF _ acts_moveSubscriptions] acts_trans [OF _ acts_calls(1)]
  acts_trans [OF _ acts_calls(2)] acts_trans [OF _ acts_calls(3)] acts_trans [OF _ acts_calls(4)]
  acts_trans [OF _ acts_removes(1)] acts_trans [OF _ acts_removes(2)]

definition emplace_sub :: "int \<Rightarrow> subscription \<Rightarrow> 'k inotify \<Rightarrow> 'k inotify" where
  "emplace_sub wd sub st =
     st\<lparr>is_sub := (is_sub st)(is_nextSub st := sub), is_nextSub := is_nextSub st + 1,
        is_subs := is_subs st @ [(wd, is_nextSub st)]\<rparr>"

lemma emplace_sub_ok:
  assumes "subs_ok st" and "moves_ok st" and "data_ok st" and "W (is_kernel st) \<subseteq> fst ` set (is_subs st) \<union> {wd}"
  shows "inotify_ok W (emplace_sub wd sub st)"
  using assms by (auto simp: inotify_ok_def subs_ok_def moves_ok_def data_ok_def owned_def emplace_sub_def)

lemma frame_emplace_sub:
  assumes "subs_ok st" and "sub_watcher sub \<in> R"
  shows "frame R st (emplace_sub wd sub st)"
  using assms by (auto simp: frame_def forgotten_def subs_ok_def emplace_sub_def)

lemma frame_remove_where: "frame R st (remove_where env P st)"
  by (auto simp: frame_def forgotten_def)

lemma acts_watchDir:
  assumes "watch_laws env W" and "r \<in> R"
  shows "acts W R st (snd (watchDir env r path t st))"
proof -
  obtain result k where call: "ie_addWatch env path ((if path \<noteq> ie_dir env r \<and> below_or_at (ie_dir env r) path
                  then IN_MOVE_SELF OR IN_DELETE_SELF OR IN_ONLYDIR else INOTIFY_MASK) OR IN_MASK_ADD) (is_kernel st) = (result, k)"
    by (rule prod.exhaust)
  let ?st1 = "st\<lparr>is_kernel := k\<rparr>"
  show ?thesis
  proof (cases result)
    case (Inl errno)
    then have "acts W R st ?st1"
      using kernel_laws(2) [OF assms(1)] call by (intro acts_data) (auto simp: data_ok_def dest: ok_data_ok)
    then show ?thesis using call Inl by (simp add: watchDir_def with_kernel_def Let_def)
  next
    case (Inr wd)
    let ?mine = "\<lambda>e. sub_watcher (is_sub st (snd e)) = r \<and> sub_path (is_sub st (snd e)) = path"
    let ?st2 = "remove_where env (\<lambda>e. ?mine e \<and> fst e \<noteq> wd) ?st1"
    have new: "W k \<subseteq> insert wd (W (is_kernel st))" using kernel_laws(1) [OF assms(1)] call Inr by blast
    have result: "snd (watchDir env r path t st) =
        (if \<exists>e \<in> set (is_subs st). ?mine e \<and> fst e = wd then ?st2
         else emplace_sub wd \<lparr>sub_tree = t, sub_path = path, sub_watcher = r\<rparr> ?st2)"
      using call Inr by (auto simp: watchDir_def with_kernel_def Let_def emplace_sub_def)
    show ?thesis
      unfolding acts_def
    proof (intro impI)
      assume ok: "inotify_ok W st"
      with new have "W (is_kernel ?st1) \<subseteq> fst ` set (is_subs ?st1) \<union> {wd}" by (auto simp: inotify_ok_def owned_def)
      from remove_where_watches [OF assms(1) this, of "\<lambda>e. ?mine e \<and> fst e \<noteq> wd"]
      have w: "W (is_kernel ?st2) \<subseteq> fst ` set (is_subs ?st2) \<union> {wd}" by simp
      have fields: "subs_ok ?st2" "moves_ok ?st2" "data_ok ?st2"
        using ok by (auto simp: inotify_ok_def subs_ok_def moves_ok_def data_ok_def distinct_map_filter)
      have fr: "frame R st ?st2"
        using frame_trans [OF _ frame_remove_where, of R st ?st1] by (simp add: frame_def forgotten_def)
      show "inotify_ok W (snd (watchDir env r path t st)) \<and> frame R st (snd (watchDir env r path t st))"
      proof (cases "\<exists>e \<in> set (is_subs st). ?mine e \<and> fst e = wd")
        case True
        then have "wd \<in> fst ` set (is_subs ?st2)" by force
        then have "owned W ?st2" using w by (auto simp: owned_def)
        then show ?thesis using True fields fr result by (simp add: inotify_ok_def)
      next
        case False
        from result [unfolded if_not_P [OF False]] show ?thesis
          using emplace_sub_ok [where W = W, OF fields w] frame_trans [OF fr frame_emplace_sub [OF fields(1)]] assms(2)
          by (simp only: subscription.simps)
      qed
    qed
  qed
qed

lemma acts_scan_item:
  assumes "watch_laws env W" and "r \<in> R"
  shows "acts W R st (snd (scan_item env r path t reportEvents name st))"
  unfolding scan_item_def Let_def using assms
  by (auto intro!: acts_intros tree_ok event_ok ok_data split: option.split)

lemma acts_scan_items:
  assumes "watch_laws env W" and "r \<in> R"
  shows "acts W R st (snd (scan_items env r path t reportEvents names st))"
proof (induction names arbitrary: st)
  case Nil
  then show ?case by simp
next
  case (Cons name names)
  have cancelled: "acts W R st (snd (scan_cancelled env r reportEvents st))"
    using acts_calls(1) [OF assms(1)] by (simp add: scan_cancelled_def)
  show ?case
    unfolding scan_items.simps
    by (rule acts_bind [OF cancelled])
      (auto intro!: acts_intros split: bool.split intro: acts_trans [OF _ acts_scan_item [OF assms]] acts_trans [OF _ Cons])
qed


lemma acts_watch_then:
  assumes "watch_laws env W" and "r \<in> R" and "acts W R st st1"
    and "\<And>st2. acts W R st2 (snd (addCreatedTree env r t reportEvents path st2))"
  shows "acts W R st (snd (case watchDir env r path t st1 of
    (Some errno, st2) \<Rightarrow> (Some errno, st2) | (None, st2) \<Rightarrow> addCreatedTree env r t reportEvents path st2))"
  by (rule acts_trans [OF assms(3)], rule acts_bind [OF acts_watchDir [OF assms(1,2)]])
    (auto split: option.split intro: acts_trans [OF _ assms(4)])

lemma acts_addCreatedTree:
  "watch_laws env W \<Longrightarrow> r \<in> R \<Longrightarrow> acts W R st (snd (addCreatedTree env r t reportEvents path st))"
  "watch_laws env W \<Longrightarrow> r \<in> R \<Longrightarrow> acts W R st (snd (addSubdirectories env r t reportEvents subs st))"
proof (induction env r t reportEvents path st and env r t reportEvents subs st rule: addCreatedTree_addSubdirectories.induct)
  case (1 env r t reportEvents path st)
  note laws = "1.prems"
  have IH: "acts W R st3 (snd (addSubdirectories env r t reportEvents subs st3))"
    if "with_kernel (opendir env path) st = (Inr (attributes, names), st1)"
      and "(if dt_find (is_tree st1 t) path \<noteq> None then Inr st1
            else (case attributes of Inl errno \<Rightarrow> Inl errno
              | Inr s \<Rightarrow> Inr (set_tree t (dt_add (is_tree st1 t) path (CONVERT_TIME s) True) st1))) = Inr st2"
      and "scan_items env r path t reportEvents names st2 = ((False, subs), st3)"
    for attributes names st1 st2 st3 subs
    using that by (intro "1.IH" [OF that(1) [symmetric] refl refl that(2) that(3) [symmetric] refl _ laws]) simp
  show ?case
    by (subst addCreatedTree.simps, rule acts_bind [OF acts_calls(3) [OF laws(1)]])
      (auto split: option.split sum.split intro!: acts_intros acts_trans [OF _ acts_scan_items [OF laws]] tree_ok ok_data;
        rule acts_trans, assumption, rule IH, auto)
next
  case (2 env r t reportEvents st)
  then show ?case by simp
next
  case (3 env r t reportEvents candidate subdirectories st)
  note laws = "3.prems"
  have cancelled: "acts W R st (snd (scan_cancelled env r reportEvents st))"
    using acts_calls(1) [OF laws(1)] by (simp add: scan_cancelled_def)
  have IH1: "acts W R st2 (snd (addCreatedTree env r t reportEvents candidate st2))"
    if "scan_cancelled env r reportEvents st = (False, st1)" "watchDir env r candidate t st1 = (None, st2)" for st1 st2
    by (rule "3.IH"(1)) (use that laws in auto)
  have IH2: "acts W R st3 (snd (addSubdirectories env r t reportEvents subdirectories st3))"
    if "scan_cancelled env r reportEvents st = (False, st1)"
      "(case watchDir env r candidate t st1 of (None, st2) \<Rightarrow> addCreatedTree env r t reportEvents candidate st2
          | (Some errno, st2) \<Rightarrow> (Some errno, st2)) = (None, st3)" for st1 st3
    by (rule "3.IH"(2)) (use that laws in auto)
  have IH3: "acts W R st4 (snd (addSubdirectories env r t reportEvents subdirectories st4))"
    if "scan_cancelled env r reportEvents st = (False, st1)"
      "(case watchDir env r candidate t st1 of (None, st2) \<Rightarrow> addCreatedTree env r t reportEvents candidate st2
          | (Some errno, st2) \<Rightarrow> (Some errno, st2)) = (Some errno, st3)"
      "errno = Files.ENOENT \<or> errno = Files.ENOTDIR"
      "st4 = set_tree t (dt_remove Linux (is_tree (removeSubscriptions env r candidate st3) t) candidate) (removeSubscriptions env r candidate st3)"
    for st1 st3 st4 errno
    by (simp only: that(4), rule "3.IH"(3)) (use that laws in auto)
  have retreat: "acts W R st3 (set_tree t (dt_remove Linux (is_tree (removeSubscriptions env r candidate st3) t) candidate)
      (removeSubscriptions env r candidate st3))" for st3
    by (auto intro!: acts_intros laws tree_ok ok_data)
  show ?case
    by (subst addSubdirectories.simps, rule acts_bind [OF cancelled])
      (auto split: option.split bool.split simp: Let_def
        intro!: acts_intros acts_trans [OF _ acts_watchDir [OF laws]] acts_trans [OF _ IH1];
       ((erule acts_trans [OF _ IH2], assumption, assumption) |
        (erule acts_trans [OF acts_trans [OF _ retreat] IH3], assumption, assumption, simp, rule refl)))
qed


lemma acts_reconcile_entry:
  assumes "watch_laws env W" and "r \<in> R"
  shows "acts W R st (snd (reconcile_entry env r path x (before, st)))"
  unfolding reconcile_entry_def using assms
  by (cases x) (auto intro!: acts_intros event_ok split: option.split)

lemma acts_reconcile_missing:
  assumes "watch_laws env W" and "r \<in> R"
  shows "acts W R st (reconcile_missing env r x st)"
  unfolding reconcile_missing_def using assms by (cases x) (auto simp: Let_def intro!: acts_intros event_ok)

lemma acts_reconcileMovedTree:
  assumes "watch_laws env W" and "r \<in> R"
  shows "acts W R st (snd (reconcileMovedTree env r path t st))"
  unfolding reconcileMovedTree_def Let_def
  by (auto split: option.split intro!: acts_intros acts_trans [OF _ acts_addCreatedTree(1) [OF assms]]
      acts_trans [OF _ acts_fold_pair] acts_reconcile_entry [OF assms] acts_trans [OF _ acts_fold] acts_reconcile_missing [OF assms])

lemma acts_suppress: "acts W R st (st\<lparr>is_moves := suppress r s (is_moves st)\<rparr>)"
proof -
  have keys: "map fst (suppress r s ms) = map fst ms" for ms by (induction ms) auto
  have watchers: "(\<lambda>m. (fst m, pm_watcher (snd m))) ` set (suppress r s ms) = (\<lambda>m. (fst m, pm_watcher (snd m))) ` set ms" for ms
    by (induction ms) auto
  have *: "(\<forall>m \<in> set ms. P (fst m) (pm_watcher (snd m))) \<longleftrightarrow>
      (\<forall>x \<in> (\<lambda>m. (fst m, pm_watcher (snd m))) ` set ms. P (fst x) (snd x))" for P and ms :: "(move_key \<times> pending_move) list"
    by simp
  have all: "(\<forall>m \<in> set (suppress r s ms). P (fst m) (pm_watcher (snd m))) \<longleftrightarrow> (\<forall>m \<in> set ms. P (fst m) (pm_watcher (snd m)))" for P ms
    unfolding * watchers ..
  have "um_ok (suppress r s (is_moves st)) = um_ok (is_moves st)" by (simp add: um_ok_def keys)
  moreover note all [where P = "\<lambda>key w. w = fst key" and ms = "is_moves st"]
    all [where P = "\<lambda>key w. w \<noteq> r'" and ms = "is_moves st" for r']
  ultimately show ?thesis
    by (simp add: acts_def inotify_ok_def subs_ok_def moves_ok_def data_ok_def owned_def frame_def forgotten_def)
qed

lemma acts_root_gone:
  assumes "watch_laws env W" and "r \<in> R"
  shows "acts W R st (root_gone env r t path st)"
  unfolding root_gone_def Let_def using assms
  by (auto intro!: acts_intros acts_trans [OF _ acts_fold] acts_report_removed)

lemma acts_report_moved:
  assumes "r \<in> R"
  shows "acts W R st (report_moved env r t cookie oldPath path targetExisted entry st)"
  unfolding report_moved_def Let_def using assms by (auto intro!: acts_intros event_ok)

lemma acts_complete_move:
  assumes "r \<in> R"
  shows "acts W R st (complete_move env r t cookie path move st)"
  unfolding complete_move_def Let_def using assms
  by (auto intro!: acts_intros acts_trans [OF _ acts_fold] acts_report_moved tree_ok ok_data)

lemma acts_report_arrival:
  assumes "r \<in> R"
  shows "acts W R st (report_arrival r t cookie path kind moved st)"
  unfolding report_arrival_def Let_def using assms by (auto split: option.split intro!: acts_intros event_ok tree_ok ok_data)

lemma acts_index_arrival: "acts W R st (snd (index_arrival t path s moved st))"
  unfolding index_arrival_def
  by (auto split: option.split bool.split prod.split intro!: acts_intros tree_ok ok_data acts_find_update)

lemma acts_watch_arrival:
  assumes "watch_laws env W" and "r \<in> R"
  shows "acts W R st (snd (watch_arrival env r t path moved suppressedEvents st))"
  unfolding watch_arrival_def Let_def
  by (auto split: option.split intro!: acts_intros acts_trans [OF _ acts_watchDir [OF assms]]
      acts_trans [OF _ acts_reconcileMovedTree [OF assms]] acts_trans [OF _ acts_addCreatedTree(1) [OF assms]])

lemma acts_watch_failed:
  assumes "watch_laws env W" and "r \<in> R"
  shows "acts W R st (watch_failed env r t path isMoveWithinRoot errno st)"
  unfolding watch_failed_def Let_def using assms by (auto intro!: acts_intros event_ok tree_ok ok_data)

lemma acts_replace_by_special:
  assumes "watch_laws env W" and "r \<in> R"
  shows "acts W R st (snd (replace_by_special env r t path st))"
  unfolding replace_by_special_def Let_def using assms by (auto intro!: acts_intros acts_trans [OF _ acts_fold] event_ok)

lemma acts_handle_change:
  assumes "watch_laws env W" and "r \<in> R"
  shows "acts W R st (snd (handle_change env r t path st))"
  unfolding handle_change_def Let_def using assms by (auto split: option.split intro!: acts_intros event_ok tree_ok ok_data)


lemma acts_add_move:
  assumes "pm_watcher move = r" and "r \<in> R"
  shows "acts W R st (st\<lparr>is_moves := AList.update (r, cookie) move (is_moves st)\<rparr>)"
  unfolding acts_def
proof (intro impI conjI)
  let ?moves = "AList.update (r, cookie) move (is_moves st)"
  have moves: "set ?moves \<subseteq> insert ((r, cookie), move) (set (is_moves st))" by (rule set_update_subset)
  assume "inotify_ok W st"
  then show "inotify_ok W (st\<lparr>is_moves := ?moves\<rparr>)"
    using moves assms(1) by (auto simp: inotify_ok_def subs_ok_def moves_ok_def data_ok_def owned_def um.ok_put)
  show "frame R st (st\<lparr>is_moves := ?moves\<rparr>)"
    using moves assms by (auto simp: frame_def forgotten_def)
qed

lemma acts_handle_departure:
  assumes "watch_laws env W" and "r \<in> R"
  shows "acts W R st (snd (handle_departure env ev r t path st))"
  unfolding handle_departure_def Let_def
  using assms by (auto intro!: acts_intros acts_trans [OF _ acts_add_move])

lemma acts_handle_arrival:
  assumes "watch_laws env W" and "r \<in> R"
  shows "acts W R st (snd (handle_arrival env ev r t path st))"
proof -
  let ?st1 = "case pending_of ev r st of None \<Rightarrow> st | Some move \<Rightarrow> complete_move env r t (ev_cookie ev) path move st"
  have "acts W R st ?st1" by (auto split: option.split intro: acts_complete_move [OF assms(2)])
  then show ?thesis
    unfolding handle_arrival_def Let_def using assms
    by (auto split: option.split intro!: acts_intros acts_trans [OF _ acts_replace_by_special] acts_trans [OF _ acts_report_arrival]
        acts_trans [OF _ acts_index_arrival] acts_trans [OF _ acts_watch_arrival] acts_trans [OF _ acts_watch_failed])
qed

lemma acts_handleSubscription:
  assumes "watch_laws env W" and "sub_watcher (is_sub st s) \<in> R"
  shows "acts W R st (snd (handleSubscription env ev s st))"
  unfolding handleSubscription_def Let_def using assms
  by (auto intro: acts_root_gone acts_suppress acts_handle_arrival acts_handle_change acts_handle_departure)

text \<open>The watchers that have a subscription for the descriptor.\<close>

definition watching :: "'k inotify \<Rightarrow> int \<Rightarrow> wref set" where
  "watching st wd = (\<lambda>e. sub_watcher (is_sub st (snd e))) ` {e \<in> set (is_subs st). fst e = wd}"

lemma acts_handleEvent:
  assumes "watch_laws env W" and "watching st (ev_wd ev) \<subseteq> R"
  shows "acts W R st (snd (handleEvent env ev (watchers, st)))"
  unfolding acts_def
proof (intro impI)
  let ?f = "\<lambda>s (watchers', st'). (let (touched, st'') = handleSubscription env ev s st' in
          (if touched then List.insert (sub_watcher (is_sub st'' s)) watchers' else watchers', st''))"
  let ?todo = "remdups (map snd (filter (\<lambda>e. fst e = ev_wd ev) (is_subs st)))"
  assume ok: "inotify_ok W st"
  have todo: "s < is_nextSub st \<and> sub_watcher (is_sub st s) \<in> R" if "s \<in> set ?todo" for s
    using that ok assms(2) by (auto simp: inotify_ok_def subs_ok_def watching_def image_subset_iff)
  have "inotify_ok W (snd (fold ?f ss (ws, st'))) \<and> frame R st (snd (fold ?f ss (ws, st')))"
    if "set ss \<subseteq> set ?todo" "inotify_ok W st'" "frame R st st'" for ss ws st'
    using that
  proof (induction ss arbitrary: ws st')
    case Nil
    then show ?case by simp
  next
    case (Cons s ss)
    let ?st = "snd (handleSubscription env ev s st')"
    have "sub_watcher (is_sub st' s) \<in> R" using Cons.prems(1,3) todo [of s] by (auto simp: frame_def)
    then have "inotify_ok W ?st" "frame R st ?st"
      using acts_handleSubscription [OF assms(1), of st' s R ev] Cons.prems(2,3) frame_trans unfolding acts_def by blast+
    moreover obtain ws' where "?f s (ws, st') = (ws', ?st)"
      by (cases "handleSubscription env ev s st'") simp
    moreover have "set ss \<subseteq> set ?todo" using Cons.prems(1) by (simp only: set_simps insert_subset)
    ultimately show ?case using Cons.IH [of ?st ws'] by (simp only: fold_simps)
  qed
  from this [of ?todo st watchers, OF subset_refl ok frame_refl]
  show "inotify_ok W (snd (handleEvent env ev (watchers, st))) \<and> frame R st (snd (handleEvent env ev (watchers, st)))"
    by (simp add: handleEvent_def)
qed

lemma acts_overflow_watcher:
  assumes "watch_laws env W" and "r \<in> R"
  shows "acts W R st (overflow_watcher env r st)"
  unfolding overflow_watcher_def using assms by (auto intro!: acts_intros event_ok)

lemma acts_handleOverflow:
  assumes "watch_laws env W" and "\<Union> (watching st ` UNIV) \<subseteq> R"
  shows "acts W R st (snd (handleOverflow env (watchers, st)))"
proof -
  have "sub_watcher (is_sub st (snd e)) \<in> R" if "e \<in> set (is_subs st)" for e
    using that assms(2) by (auto simp: watching_def image_subset_iff)
  then show ?thesis
    by (auto simp: handleOverflow_def Let_def intro!: acts_fold acts_overflow_watcher [OF assms(1)])
qed

lemma acts_flush_move:
  assumes "watch_laws env W" and "pm_watcher (snd m) \<in> R"
  shows "acts W R st (flush_move env m st)"
  unfolding flush_move_def Let_def using assms by (cases m) (auto intro!: acts_intros)

lemma acts_flushExpiredMoves:
  assumes "watch_laws env W" and "(\<lambda>m. pm_watcher (snd m)) ` set (is_moves st) \<subseteq> R"
  shows "acts W R st (snd (flushExpiredMoves env st))"
proof -
  have "is_moves (snd (with_kernel (ie_now env) st)) = is_moves st" by (simp add: with_kernel_def split_def Let_def)
  moreover have "pm_watcher m \<in> R" if "(key, m) \<in> set (is_moves st)" for key m using that assms(2) by force
  ultimately show ?thesis
    unfolding flushExpiredMoves_def Let_def using assms(1)
    by (auto intro!: acts_intros acts_trans [OF _ acts_fold] acts_flush_move)
qed

lemma acts_watch_ancestors:
  assumes "watch_laws env W" and "r \<in> R"
  shows "acts W R st (snd (watch_ancestors env r t ancestors st))"
proof (induction ancestors arbitrary: st)
  case (Cons a as)
  then show ?case
    by (auto split: option.split intro!: acts_intros acts_watchDir [OF assms] intro: acts_trans)
qed simp

lemma acts_watch_root:
  assumes "watch_laws env W" and "r \<in> R"
  shows "acts W R st (snd (watch_root env r t st))"
  unfolding watch_root_def
  by (auto split: option.split intro!: acts_intros acts_watchDir [OF assms] acts_trans [OF _ acts_addCreatedTree(1) [OF assms]])


lemma acts_inotify_subscribe:
  assumes "watch_laws env W" and "r \<in> R"
  shows "acts W R st (snd (snd (inotify_subscribe env r (wt, st))))"
proof -
  let ?t = "is_nextTree st"
  let ?st0 = "set_tree ?t (fst (brute_getTree (\<lambda>u x. (x, u)) (ie_dir env r) False ())) (st\<lparr>is_nextTree := ?t + 1\<rparr>)"
  have start: "acts W R st ?st0"
    by (rule acts_data) (auto simp: set_tree_def brute_getTree_def Let_def data_ok_def tree_ok dest: ok_data_ok)
  have complete: "acts W R st (set_tree t ((is_tree st t)\<lparr>isComplete := True\<rparr>) st)" for t st
    by (rule acts_set_tree) (auto simp: dt_ok_def dest: ok_data(1) [of W st t])
  obtain result st1 where watched:
    "(case watch_ancestors env r ?t (path_ancestors (ie_dir env r)) ?st0 of
        (Some err, st1) \<Rightarrow> (Some err, st1) | (None, st1) \<Rightarrow> watch_root env r ?t st1) = (result, st1)"
    by (rule prod.exhaust)
  have "acts W R st (snd (case watch_ancestors env r ?t (path_ancestors (ie_dir env r)) ?st0 of
        (Some err, st1) \<Rightarrow> (Some err, st1) | (None, st1) \<Rightarrow> watch_root env r ?t st1))"
    by (rule acts_trans [OF start])
      (auto split: option.split intro!: acts_bind acts_watch_ancestors [OF assms] acts_trans [OF _ acts_watch_root [OF assms]])
  then have st1: "acts W R st st1" unfolding watched by simp
  show ?thesis
  proof (cases result)
    case (Some err)
    then show ?thesis using watched st1 assms
      by (simp add: inotify_subscribe_def Let_def) (auto intro: acts_trans [OF _ acts_removes(1)])
  next
    case None
    obtain cancelled st2 where c: "with_kernel (ie_cancelled env r) st1 = (cancelled, st2)" by (rule prod.exhaust)
    with acts_trans [OF st1 acts_calls(1) [OF assms(1)]] have "acts W R st st2" by (metis snd_conv)
    then show ?thesis using watched None c assms
      by (cases cancelled) (simp_all add: inotify_subscribe_def Let_def acts_trans [OF _ acts_removes(1)] acts_trans [OF _ complete])
  qed
qed

text \<open>\<open>unsubscribe\<close> gives up one subscription after the other; the one it looks at is there.\<close>

lemma acts_unsubscribe_one:
  assumes laws: "watch_laws env W" and "r \<in> R" and e: "e \<in> set (is_subs st)"
    and only: "only \<longleftrightarrow> length (filter (\<lambda>e'. fst e' = fst e) (is_subs st)) = 1"
    and call: "(if only then with_kernel (ie_rmWatch env (fst e)) st else (None, st)) = (err, st1)"
  shows "acts W R st st1"
    and "acts W R st (st1\<lparr>is_subs := remove1 e (is_subs st1),
            is_removed := (if only then fst e # is_removed st1 else is_removed st1)\<rparr>)" (is "acts W R st ?st2")
proof -
  have st1: "st1 = st\<lparr>is_kernel := is_kernel st1\<rparr>" "W (is_kernel st1) \<subseteq> W (is_kernel st) - (if only then {fst e} else {})"
    using call kernel_laws(3) [OF laws, of "fst e" "is_kernel st"]
    by (auto simp: with_kernel_def split_def Let_def subset_Diff_insert split: if_splits)
  show "acts W R st st1"
    by (subst st1(1), rule acts_data) (use st1(2) in \<open>auto simp: data_ok_def dest: ok_data_ok\<close>)
  have fields: "is_subs st1 = is_subs st" "is_moves st1 = is_moves st" "is_nextSub st1 = is_nextSub st" "is_sub st1 = is_sub st"
      "is_tree st1 = is_tree st" "is_events st1 = is_events st"
    by (subst st1(1), simp)+
  show "acts W R st ?st2"
    unfolding acts_def
  proof (intro impI conjI)
    assume ok: "inotify_ok W st"
    have kept: "d \<in> fst ` set (remove1 e (is_subs st))" if "d \<in> W (is_kernel st1)" for d
    proof (cases "d = fst e")
      case True
      with that st1(2) have "\<not> only" by auto
      have "length (filter (\<lambda>e'. fst e' = fst e) (remove1 e (is_subs st))) =
          length (filter (\<lambda>e'. fst e' = fst e) (is_subs st)) - 1"
        using e by (simp add: filter_remove1 length_remove1)
      moreover have "length (filter (\<lambda>e'. fst e' = fst e) (is_subs st)) \<ge> 1"
        using e by (metis (mono_tags, lifting) One_nat_def Suc_leI filter_empty_conv length_greater_0_conv)
      ultimately have "filter (\<lambda>e'. fst e' = fst e) (remove1 e (is_subs st)) \<noteq> []"
        using only \<open>\<not> only\<close> by auto
      then show ?thesis using True by (metis (mono_tags, lifting) filter_empty_conv image_eqI)
    next
      case False
      have "d \<in> fst ` set (is_subs st)" using that st1(2) ok unfolding inotify_ok_def owned_def by blast
      then obtain e' where "e' \<in> set (is_subs st)" "d = fst e'" by blast
      then show ?thesis using False by (metis image_eqI in_set_remove1)
    qed
    then have "owned W ?st2" by (auto simp: owned_def fields)
    moreover have "distinct (map snd (remove1 e (is_subs st)))"
      using ok by (metis distinct_map distinct_remove1 inj_on_subset inotify_ok_def notin_set_remove1 subs_ok_def subsetI)
    ultimately show "inotify_ok W ?st2"
      using ok by (auto simp: inotify_ok_def subs_ok_def moves_ok_def data_ok_def fields dest: notin_set_remove1)
    show "frame R st ?st2" by (auto simp: frame_def forgotten_def fields dest: notin_set_remove1)
  qed
qed

lemma acts_unsubscribe_loop:
  assumes "watch_laws env W" and "r \<in> R" and "distinct es" and "set es \<subseteq> set (is_subs st)"
  shows "acts W R st (snd (unsubscribe_loop env r es st))"
  using assms(3,4)
proof (induction es arbitrary: st)
  case Nil
  then show ?case by simp
next
  case (Cons e es)
  let ?only = "length (filter (\<lambda>e'. fst e' = fst e) (is_subs st)) = 1"
  obtain err st1 where call: "(if ?only then with_kernel (ie_rmWatch env (fst e)) st else (None, st)) = (err, st1)"
    by (rule prod.exhaust)
  have e: "e \<in> set (is_subs st)" using Cons.prems(2) by simp
  note one = acts_unsubscribe_one [OF assms(1,2) e refl call]
  let ?st2 = "st1\<lparr>is_subs := remove1 e (is_subs st1), is_removed := (if ?only then fst e # is_removed st1 else is_removed st1)\<rparr>"
  have "is_subs st1 = is_subs st" using call by (auto simp: with_kernel_def split_def Let_def split: if_splits)
  then have "set es \<subseteq> set (is_subs ?st2)" using Cons.prems by (auto intro!: in_set_remove1 [THEN iffD2])
  from Cons.IH [OF _ this] Cons.prems(1) have rest: "acts W R ?st2 (snd (unsubscribe_loop env r es ?st2))" by simp
  have skip: "acts W R st (snd (unsubscribe_loop env r es st))" using Cons.IH [of st] Cons.prems by simp
  show ?case
    unfolding unsubscribe_loop.simps Let_def call prod.case using one(1) acts_trans [OF one(2) rest] skip by simp
qed

lemma acts_inotify_unsubscribe:
  assumes "watch_laws env W" and "r \<in> R"
  shows "acts W R st (snd (snd (inotify_unsubscribe env r (wt, st))))"
proof (cases "distinct (is_subs st)")
  case True
  then have "acts W R (drop_moves r st) (snd (unsubscribe_loop env r (is_subs (drop_moves r st)) (drop_moves r st)))"
    by (intro acts_unsubscribe_loop [OF assms]) (simp_all add: drop_moves_def)
  from acts_trans [OF acts_drop_moves this] show ?thesis
    by (auto simp: inotify_unsubscribe_def Let_def split: prod.split)
next
  case False
  then have "\<not> inotify_ok W st" by (auto simp: inotify_ok_def subs_ok_def distinct_map)
  then show ?thesis by (simp add: acts_def)
qed

subsection \<open>The backend as a state machine\<close>

text \<open>
  The parts that run under the lock \<open>mMutex\<close>, in any order: the calls of \<open>Backend\<close> on any thread, and
  what the backend's own thread does between two of them. The label is the watcher that is subscribed.
\<close>

inductive inotify_step :: "'k inotify_env \<Rightarrow> wref option \<Rightarrow> 'k inotify \<Rightarrow> 'k inotify \<Rightarrow> bool" for env where
  step_subscribe: "inotify_step env (Some r) st (snd (snd (inotify_subscribe env r (wt, st))))"
| step_unsubscribe: "inotify_step env None st (snd (snd (inotify_unsubscribe env r (wt, st))))"
| step_read: "inotify_step env None st (snd (with_kernel (ie_read env) st))"
| step_poll: "inotify_step env None st (snd (with_kernel (ie_poll env) st))"
| step_event: "inotify_step env None st (snd (handle_read env ev (watchers, st)))"
| step_flush: "inotify_step env None st (snd (flushExpiredMoves env st))"

definition inotify_new :: "'k \<Rightarrow> 'k inotify" where
  "inotify_new k =
     \<lparr>is_subs = [], is_moves = [], is_sub = (\<lambda>_. \<lparr>sub_tree = 0, sub_path = [], sub_watcher = 0\<rparr>), is_nextSub = 0,
      is_tree = (\<lambda>_. dt_new []), is_nextTree = 0, is_events = (\<lambda>_. el_empty), is_invalidated = [], is_removed = [],
      is_kernel = k\<rparr>"

inductive inotify_reachable :: "'k inotify_env \<Rightarrow> 'k \<Rightarrow> 'k inotify \<Rightarrow> bool" for env k where
  reachable_new: "inotify_reachable env k (inotify_new k)"
| reachable_step: "inotify_reachable env k st \<Longrightarrow> inotify_step env l st st' \<Longrightarrow> inotify_reachable env k st'"

lemma acts_step:
  assumes "watch_laws env W" and "inotify_step env l st st'"
  shows "acts W UNIV st st'"
  using assms(2)
proof cases
  case (step_event ev watchers)
  then show ?thesis
    by (simp add: handle_read_def acts_handleOverflow [OF assms(1)] acts_handleEvent [OF assms(1)])
qed (simp_all add: acts_inotify_subscribe acts_inotify_unsubscribe acts_calls acts_flushExpiredMoves assms(1))

text \<open>A step leaves a forgotten watcher alone, unless it subscribes it.\<close>

lemma acts_step_forgotten:
  assumes laws: "watch_laws env W" and step: "inotify_step env l st st'" and "l \<noteq> Some r" and "forgotten r st"
  shows "acts W (- {r}) st st'"
  using step
proof cases
  case (step_subscribe r' wt)
  then show ?thesis using acts_inotify_subscribe [OF laws] assms(3) by simp
next
  case (step_unsubscribe r' wt)
  show ?thesis
  proof (cases "r' = r")
    case True
    have none: "filter (\<lambda>e. sub_watcher (is_sub st (snd e)) = r) (is_subs st) = []"
      and same: "drop_moves r st = st" using assms(4) by (auto simp: forgotten_def drop_moves_def filter_empty_conv filter_id_conv)
    have "unsubscribe_loop env r es st = (None, st)" if "set es \<subseteq> set (is_subs st)" for es
      using that none by (induction es) (auto simp: filter_empty_conv)
    from this [of "is_subs st"] step_unsubscribe True same show ?thesis by (simp add: inotify_unsubscribe_def Let_def)
  next
    case False
    then show ?thesis using step_unsubscribe acts_inotify_unsubscribe [OF laws, of r' "- {r}"] by simp
  qed
next
  case step_read
  then show ?thesis using acts_calls [OF laws] by simp
next
  case step_poll
  then show ?thesis using acts_calls [OF laws] by simp
next
  case (step_event ev watchers)
  have "watching st wd \<subseteq> - {r}" for wd using assms(4) by (auto simp: watching_def forgotten_def)
  then show ?thesis
    using step_event by (simp add: handle_read_def acts_handleOverflow [OF laws] acts_handleEvent [OF laws] UN_subset_iff)
next
  case step_flush
  then show ?thesis using acts_flushExpiredMoves [OF laws, of st "- {r}"] assms(4) by (auto simp: forgotten_def)
qed

lemma inotify_ok_new: "W k = {} \<Longrightarrow> inotify_ok W (inotify_new k)"
  by (simp add: inotify_ok_def subs_ok_def moves_ok_def data_ok_def owned_def inotify_new_def tree_ok el_ok_empty)

lemma inotify_ok_reachable:
  assumes "watch_laws env W" and "W k = {}" and "inotify_reachable env k st"
  shows "inotify_ok W st"
  using assms(3)
proof induction
  case reachable_new
  then show ?case using assms(2) by (rule inotify_ok_new)
next
  case (reachable_step st l st')
  then show ?case using acts_step [OF assms(1)] by (auto simp: acts_def)
qed

text \<open>A successful \<open>unsubscribe\<close> leaves nothing of the watcher.\<close>

lemma unsubscribe_loop_done:
  assumes "unsubscribe_loop env r es st = (None, st')" and "distinct (is_subs st)"
  shows "is_moves st' = is_moves st \<and> is_sub st' = is_sub st \<and> is_events st' = is_events st \<and>
    set (is_subs st') = {e \<in> set (is_subs st). \<not> (e \<in> set es \<and> sub_watcher (is_sub st (snd e)) = r)}"
  using assms
proof (induction es arbitrary: st)
  case Nil
  then show ?case by auto
next
  case (Cons e es)
  show ?case
  proof (cases "sub_watcher (is_sub st (snd e)) = r")
    case False
    then show ?thesis using Cons.prems Cons.IH [of st] by auto
  next
    case True
    let ?only = "length (filter (\<lambda>e'. fst e' = fst e) (is_subs st)) = 1"
    obtain err st1 where call: "(if ?only then with_kernel (ie_rmWatch env (fst e)) st else (None, st)) = (err, st1)"
      by (rule prod.exhaust)
    let ?st2 = "st1\<lparr>is_subs := remove1 e (is_subs st1), is_removed := (if ?only then fst e # is_removed st1 else is_removed st1)\<rparr>"
    have fields: "is_subs st1 = is_subs st" "is_moves st1 = is_moves st" "is_sub st1 = is_sub st" "is_events st1 = is_events st"
      using call by (auto simp: with_kernel_def split_def Let_def split: if_splits)
    have "unsubscribe_loop env r es ?st2 = (None, st')"
      using Cons.prems(1) True unfolding unsubscribe_loop.simps Let_def call prod.case by (simp split: if_splits)
    from Cons.IH [OF this] Cons.prems(2) fields True show ?thesis by auto
  qed
qed

lemma unsubscribed_forgotten:
  assumes "inotify_unsubscribe env r (wt, st) = (None, wt', st')" and "distinct (is_subs st)"
  shows "forgotten r st'" and "is_events st' = is_events st"
proof -
  have "unsubscribe_loop env r (is_subs st) (drop_moves r st) = (None, st')"
    using assms(1) by (auto simp: inotify_unsubscribe_def Let_def drop_moves_def split: prod.splits)
  from unsubscribe_loop_done [OF this] assms(2) show "forgotten r st'" "is_events st' = is_events st"
    by (auto simp: forgotten_def drop_moves_def)
qed

subsection \<open>Overflow\<close>

lemma overflow_watcher_fields:
  "is_subs (overflow_watcher env r st) = filter (\<lambda>e. sub_watcher (is_sub st (snd e)) \<noteq> r) (is_subs st)"
  "is_sub (overflow_watcher env r st) = is_sub st"
  "is_moves (overflow_watcher env r st) = filter (\<lambda>m. pm_watcher (snd m) \<noteq> r) (is_moves st)"
  "is_events (overflow_watcher env r st) = (is_events st)(r := el_error (is_events st r) overflow_message)"
  "is_invalidated (overflow_watcher env r st) = r # is_invalidated st"
  by (simp_all add: overflow_watcher_def drop_moves_def removeSubscriptions_def on_events_def in_invalidate_def)

lemma el_hasError_error: "el_hasError (el_error l err)"
  by (simp add: el_hasError_def el_error_def split: option.split)

lemma overflow_watchers_fields:
  assumes "distinct rs"
  shows "is_subs (fold (overflow_watcher env) rs st) = filter (\<lambda>e. sub_watcher (is_sub st (snd e)) \<notin> set rs) (is_subs st) \<and>
    is_moves (fold (overflow_watcher env) rs st) = filter (\<lambda>m. pm_watcher (snd m) \<notin> set rs) (is_moves st) \<and>
    is_events (fold (overflow_watcher env) rs st) =
      (\<lambda>r. if r \<in> set rs then el_error (is_events st r) overflow_message else is_events st r) \<and>
    is_invalidated (fold (overflow_watcher env) rs st) = rev rs @ is_invalidated st"
  using assms
proof (induction rs arbitrary: st)
  case Nil
  then show ?case by simp
next
  case (Cons r rs)
  from Cons.IH [of "overflow_watcher env r st"] Cons.prems show ?case
    by (simp add: overflow_watcher_fields conj_commute fun_eq_iff)
qed

subsection \<open>A move within the root\<close>

lemma fold_move_paths:
  assumes "distinct ss"
  shows "fold (\<lambda>s f. f(s := (f s)\<lparr>sub_path := g (sub_path (f s))\<rparr>)) ss f =
    (\<lambda>s. if s \<in> set ss then (f s)\<lparr>sub_path := g (sub_path (f s))\<rparr> else f s)"
  using assms by (induction ss arbitrary: f) (auto simp: fun_eq_iff)

lemma moved_subscriptions:
  assumes "distinct (pm_subscriptions move)"
  shows "is_sub (moveSubscriptions move new st) s =
    (if s \<in> set (pm_subscriptions move)
     then (is_sub st s)\<lparr>sub_path := relocate (pm_path move) new (sub_path (is_sub st s))\<rparr> else is_sub st s)"
  using fold_move_paths [OF assms, of "relocate (pm_path move) new" "is_sub st"]
  by (simp add: moveSubscriptions_def relocate_def)

definition rename_entry :: "u32 \<Rightarrow> string \<Rightarrow> string \<Rightarrow> dir_entry \<Rightarrow> event_list \<Rightarrow> event_list" where
  "rename_entry cookie old new e l =
     el_rename l (de_path e) (relocate old new (de_path e)) (rename_id cookie @ '':'' @ drop (length old) (de_path e))
       (entryKind (de_isDir e))"

lemma fold_on_events: "fold (\<lambda>e. on_events r (f e)) es st = on_events r (fold f es) st"
  by (induction es arbitrary: st) (simp_all add: on_events_def)

lemma report_moved_renames:
  assumes "\<And>e. e \<in> set es \<Longrightarrow> \<not> ie_ignored env r (relocate old new (de_path e))"
  shows "fold (report_moved env r t cookie old new False) es st = on_events r (fold (rename_entry cookie old new) es) st"
proof -
  have "report_moved env r t cookie old new False e = on_events r (rename_entry cookie old new e)" if "e \<in> set es" for e
    using assms [OF that] by (auto simp: report_moved_def Let_def relocate_def rename_entry_def [abs_def] fun_eq_iff)
  then have "fold (report_moved env r t cookie old new False) es st = fold (\<lambda>e. on_events r (rename_entry cookie old new e)) es st"
    by (intro fold_cong) auto
  then show ?thesis by (simp add: fold_on_events)
qed

text \<open>The move that waits after its first half, and the state then.\<close>

lemma departure_of_move:
  assumes "on ev IN_MOVED_FROM" and "\<not> on ev (IN_DELETE_SELF OR IN_MOVE_SELF)" and "ev_cookie ev = c" and "c \<noteq> 0"
    and "dt_extract Linux (is_tree st t) old = (entries, x)"
    and "moved = (if on ev IN_ISDIR then map snd (filter (\<lambda>(d, s). sub_watcher (is_sub st s) = r \<and>
      below_or_at (sub_path (is_sub st s)) old) (is_subs st)) else [])"
  obtains now k where "handle_departure env ev r t old st =
    (True, st\<lparr>is_tree := (is_tree st)(t := x), is_kernel := k, is_moves := AList.update (r, c)
      \<lparr>pm_watcher = r, pm_tree = t, pm_path = old, pm_isDirectory = on ev IN_ISDIR, pm_entries = entries,
       pm_subscriptions = moved, pm_createdAt = now, pm_suppressedEvents = False\<rparr> (is_moves st)\<rparr>)"
proof -
  obtain now k where "ie_now env (is_kernel st) = (now, k)" by (rule prod.exhaust)
  then have "handle_departure env ev r t old st =
    (True, st\<lparr>is_tree := (is_tree st)(t := x), is_kernel := k, is_moves := AList.update (r, c)
      \<lparr>pm_watcher = r, pm_tree = t, pm_path = old, pm_isDirectory = on ev IN_ISDIR, pm_entries = entries,
       pm_subscriptions = moved, pm_createdAt = now, pm_suppressedEvents = False\<rparr> (is_moves st)\<rparr>)"
    using assms by (simp add: handle_departure_def Let_def extract_tree_def set_tree_def with_kernel_def)
  then show thesis by (rule that)
qed

lemma watch_arrival_moved:
  "\<not> ie_hasIgnores env r \<Longrightarrow> watch_arrival env r t path (Some (oldPath, False)) False st = (None, st)"
  by (simp add: watch_arrival_def)

lemma arrival_of_move:
  assumes ev: "on ev IN_MOVED_TO" "ev_cookie ev = c" "c \<noteq> 0"
    and pending: "map_of (is_moves st) (r, c) = Some move" and fresh: "\<not> pm_suppressedEvents move"
    and entries: "pm_entries move \<noteq> []" and free: "dt_find (is_tree st t) new = None"
    and known: "dt_find (dt_restore (is_tree st t) (pm_entries move) (pm_path move) new) new \<noteq> None"
    and ignores: "\<not> ie_hasIgnores env r"
      "\<And>e. e \<in> set (pm_entries move) \<Longrightarrow> \<not> ie_ignored env r (relocate (pm_path move) new (de_path e))"
    and found: "ie_lstat env new (is_kernel st) = (Some s, k)" "S_ISREG s \<or> S_ISDIR s"
  shows "handle_arrival env ev r t new st =
    (True, (moveSubscriptions move new st)\<lparr>is_kernel := k,
       is_tree := (is_tree st)(t := snd (dt_update (dt_restore (is_tree st t) (pm_entries move) (pm_path move) new) new (CONVERT_TIME s))),
       is_events := (is_events st)(r := fold (rename_entry c (pm_path move) new) (pm_entries move) (is_events st r)),
       is_moves := AList.delete (r, c) (is_moves st)\<rparr>)"
proof -
  let ?x = "dt_restore (is_tree st t) (pm_entries move) (pm_path move) new"
  let ?l = "fold (rename_entry c (pm_path move) new) (pm_entries move) (is_events st r)"
  let ?st1 = "(moveSubscriptions move new st)\<lparr>is_tree := (is_tree st)(t := ?x), is_events := (is_events st)(r := ?l),
      is_moves := AList.delete (r, c) (is_moves st)\<rparr>"
  have "complete_move env r t c new move st = ?st1"
    using report_moved_renames [of "pm_entries move" env r "pm_path move" new t c st] ignores(2) free
    by (simp add: complete_move_def Let_def set_tree_def on_events_def moveSubscriptions_def)
  moreover obtain x where "dt_update ?x new (CONVERT_TIME s) = (True, x)"
    using known fst_dt_update [of ?x new "CONVERT_TIME s"] by (metis prod.collapse)
  ultimately show ?thesis
    using ev pending fresh entries ignores(1) found
    by (cases "S_ISDIR s")
      (simp_all add: handle_arrival_def pending_of_def Let_def with_kernel_def report_arrival_def index_arrival_def
        watch_arrival_moved set_tree_def moveSubscriptions_def)
qed

subsection \<open>Properties\<close>

text \<open>
  C3. In every state the backend can reach, by subscribing and unsubscribing, handling events and
  overflows, and flushing moves in any order and with any behaviour of the file system, every watch the
  kernel holds belongs to a subscription (no descriptor leaks, on any error path), no subscription is
  listed twice, a pending move is filed under its own watcher, at most one per cookie, and every tree
  and every event list is well-formed.
\<close>

theorem no_watch_is_leaked:
  assumes "watch_laws env W" and "W k = {}" and "inotify_reachable env k st"
  shows "W (is_kernel st) \<subseteq> fst ` set (is_subs st) \<and> distinct (map snd (is_subs st)) \<and>
    distinct (map fst (is_moves st)) \<and> (\<forall>(key, move) \<in> set (is_moves st). pm_watcher move = fst key) \<and>
    (\<forall>t. dt_ok (is_tree st t)) \<and> (\<forall>r. el_ok (is_events st r))"
  using inotify_ok_reachable [OF assms]
  by (auto simp: inotify_ok_def owned_def subs_ok_def moves_ok_def data_ok_def um_ok_def)

text \<open>A kernel that keeps the set of its watches, and an empty file system.\<close>

definition sample_env :: "int set inotify_env" where
  "sample_env =
     \<lparr>ie_dir = (\<lambda>_. ''/w''), ie_hasIgnores = (\<lambda>_. False), ie_ignored = (\<lambda>_ _. False), ie_cancelled = (\<lambda>_ k. (False, k)),
      ie_addWatch = (\<lambda>p _ k. (Inr (int (length p)), insert (int (length p)) k)), ie_rmWatch = (\<lambda>d k. (None, k - {d})),
      ie_lstat = (\<lambda>_ k. (None, k)),
      ie_opendir = (\<lambda>_ k. (Inr (Inr \<lparr>stat_dev = 1, stat_ino = 1, stat_sec = 0, stat_nsec = 0, stat_nlink = 1, stat_type = Folder\<rparr>, []), k)),
      ie_strerror = (\<lambda>_. []), ie_now = (\<lambda>k. (0, k)), ie_read = (\<lambda>k. (Inl EAGAIN, k)), ie_poll = (\<lambda>k. (Inl 4, k)),
      ie_pipe2 = (\<lambda>k. (Inr (3, 4), k)), ie_init1 = (\<lambda>k. (Inr 5, k))\<rparr>"

lemma sample_laws: "watch_laws sample_env (\<lambda>k. k)"
  by (auto simp: watch_laws_def sample_env_def)

definition sample_subscribed :: "int set inotify" where
  "sample_subscribed = snd (snd (inotify_subscribe sample_env 7 (\<lparr>wt_state = None, wt_needsResubscribe = False\<rparr>, inotify_new {})))"

lemma sample_reachable: "inotify_reachable sample_env {} sample_subscribed"
  unfolding sample_subscribed_def by (rule reachable_step [OF reachable_new step_subscribe])

lemma sample_subscriptions: "is_subs sample_subscribed = [(2, 0)]" "is_kernel sample_subscribed = {2}"
    "is_moves sample_subscribed = []" "is_sub sample_subscribed 0 = \<lparr>sub_tree = 0, sub_path = ''/w'', sub_watcher = 7\<rparr>"
  by code_simp+

lemma no_watch_is_leaked_witness:
  "is_kernel sample_subscribed = {2} \<and> is_kernel sample_subscribed \<subseteq> fst ` set (is_subs sample_subscribed)"
  using no_watch_is_leaked [OF sample_laws refl sample_reachable] sample_subscriptions(2) by blast

text \<open>Any run of the backend in which the watcher is not subscribed.\<close>

definition runs_without :: "'k inotify_env \<Rightarrow> wref \<Rightarrow> 'k inotify \<Rightarrow> 'k inotify \<Rightarrow> bool" where
  "runs_without env r = (\<lambda>st st'. \<exists>l. l \<noteq> Some r \<and> inotify_step env l st st')\<^sup>*\<^sup>*"

lemma runs_without_forgotten:
  assumes "watch_laws env W" and "runs_without env r st st'" and "inotify_ok W st" and "forgotten r st"
  shows "forgotten r st' \<and> is_events st' r = is_events st r \<and> inotify_ok W st'"
  using assms(2) unfolding runs_without_def
proof (induction rule: rtranclp_induct)
  case base
  then show ?case using assms(3,4) by simp
next
  case (step st1 st2)
  then obtain l where "l \<noteq> Some r" "inotify_step env l st1 st2" by blast
  with acts_step_forgotten [OF assms(1) this(2,1)] step.IH show ?case by (simp add: acts_def frame_def)
qed

text \<open>
  C22. A watcher whose \<open>unsubscribe\<close> has succeeded is silent from then on: whatever the backend does
  afterwards, for other watchers or in handling what the kernel still has queued, no event is recorded
  for it and no subscription or pending move of it comes back, until it is subscribed again.
\<close>

theorem unsubscribed_watcher_is_silent:
  assumes "watch_laws env W" and "W k = {}" and "inotify_reachable env k st"
    and "inotify_unsubscribe env r (wt, st) = (None, wt', st1)" and "runs_without env r st1 st2"
  shows "is_events st2 r = is_events st r \<and> (\<forall>e \<in> set (is_subs st2). sub_watcher (is_sub st2 (snd e)) \<noteq> r) \<and>
    (\<forall>m \<in> set (is_moves st2). pm_watcher (snd m) \<noteq> r)"
proof -
  have ok: "inotify_ok W st" using assms(1-3) by (rule inotify_ok_reachable)
  then have "distinct (is_subs st)" by (auto simp: inotify_ok_def subs_ok_def distinct_map)
  note gone = unsubscribed_forgotten [OF assms(4) this]
  have "inotify_ok W st1"
    using acts_inotify_unsubscribe [OF assms(1), of r UNIV st wt] assms(4) ok by (simp add: acts_def)
  from runs_without_forgotten [OF assms(1,5) this gone(1)] gone(2) show ?thesis by (simp add: forgotten_def)
qed

definition sample_unsubscribed :: "int set inotify" where
  "sample_unsubscribed =
     snd (snd (inotify_unsubscribe sample_env 7 (\<lparr>wt_state = None, wt_needsResubscribe = False\<rparr>, sample_subscribed)))"

lemma unsubscribed_watcher_is_silent_witness:
  "is_events (snd (flushExpiredMoves sample_env sample_unsubscribed)) 7 = is_events sample_subscribed 7 \<and>
    is_subs sample_subscribed \<noteq> []"
proof -
  have "fst (inotify_unsubscribe sample_env 7 (\<lparr>wt_state = None, wt_needsResubscribe = False\<rparr>, sample_subscribed)) = None"
    by code_simp
  then have "inotify_unsubscribe sample_env 7 (\<lparr>wt_state = None, wt_needsResubscribe = False\<rparr>, sample_subscribed) =
      (None, fst (snd (inotify_unsubscribe sample_env 7 (\<lparr>wt_state = None, wt_needsResubscribe = False\<rparr>, sample_subscribed))),
        sample_unsubscribed)"
    by (simp add: sample_unsubscribed_def prod_eq_iff)
  moreover have "runs_without sample_env 7 sample_unsubscribed (snd (flushExpiredMoves sample_env sample_unsubscribed))"
    unfolding runs_without_def by (rule r_into_rtranclp) (use step_flush in blast)
  ultimately show ?thesis
    using unsubscribed_watcher_is_silent [OF sample_laws refl sample_reachable] sample_subscriptions(1) by simp
qed

text \<open>
  C7. \<open>MOVED_FROM\<close> and \<open>MOVED_TO\<close> with one cookie are one rename: when the source is indexed, nothing is
  known at the target and no ignore rules apply, the tree after both is the tree renamed, with the new
  time of the moved entry; the recorded events are one rename per entry of the subtree, with an id of its
  own; no subscription is added or lost, and those below a moved directory have their new paths; and
  the move is no longer pending.
\<close>

theorem move_within_root_is_a_rename:
  assumes ok: "inotify_ok W st"
    and ev1: "on ev1 IN_MOVED_FROM" "\<not> on ev1 (IN_DELETE_SELF OR IN_MOVE_SELF)" "ev_cookie ev1 = c"
    and ev2: "on ev2 IN_MOVED_TO" "ev_cookie ev2 = c" "c \<noteq> 0"
    and source: "dt_find (is_tree st t) old \<noteq> None" and target: "dt_find (is_tree st t) new = None"
    and ignores: "\<not> ie_hasIgnores env r" "\<And>p. in_subtree CHR ''/'' new p \<Longrightarrow> \<not> ie_ignored env r p"
    and found: "\<And>k. fst (ie_lstat env new k) = Some s" "S_ISREG s \<or> S_ISDIR s"
    and run: "handle_departure env ev1 r t old st = (b1, st1)" "handle_arrival env ev2 r t new st1 = (b2, st2)"
  shows "b1 \<and> b2 \<and>
    is_tree st2 = (is_tree st)(t := snd (dt_update (dt_rename Linux (is_tree st t) old new) new (CONVERT_TIME s))) \<and>
    is_events st2 = (is_events st)
      (r := fold (rename_entry c old new) (fst (dt_extract Linux (is_tree st t) old)) (is_events st r)) \<and>
    is_subs st2 = is_subs st \<and>
    (\<forall>e \<in> set (is_subs st). is_sub st2 (snd e) =
      (let sub = is_sub st (snd e) in
       if sub_watcher sub = r \<and> on ev1 IN_ISDIR \<and> in_subtree CHR ''/'' old (sub_path sub)
       then sub\<lparr>sub_path := relocate old new (sub_path sub)\<rparr> else sub)) \<and>
    map_of (is_moves st2) (r, c) = None"
proof -
  let ?tree = "is_tree st t"
  let ?moved = "if on ev1 IN_ISDIR then map snd (filter (\<lambda>(d, s). sub_watcher (is_sub st s) = r \<and>
      below_or_at (sub_path (is_sub st s)) old) (is_subs st)) else []"
  obtain entries x where ex: "dt_extract Linux ?tree old = (entries, x)" by (rule prod.exhaust)
  obtain now k where dep: "handle_departure env ev1 r t old st =
    (True, st\<lparr>is_tree := (is_tree st)(t := x), is_kernel := k, is_moves := AList.update (r, c)
      \<lparr>pm_watcher = r, pm_tree = t, pm_path = old, pm_isDirectory = on ev1 IN_ISDIR, pm_entries = entries,
       pm_subscriptions = ?moved, pm_createdAt = now, pm_suppressedEvents = False\<rparr> (is_moves st)\<rparr>)"
    using departure_of_move [OF ev1(1,2,3) ev2(3) ex refl] by blast
  define move where "move = \<lparr>pm_watcher = r, pm_tree = t, pm_path = old, pm_isDirectory = on ev1 IN_ISDIR, pm_entries = entries,
       pm_subscriptions = ?moved, pm_createdAt = now, pm_suppressedEvents = False\<rparr>"
  have st1: "b1" "st1 = st\<lparr>is_tree := (is_tree st)(t := x), is_kernel := k, is_moves := AList.update (r, c) move (is_moves st)\<rparr>"
    using run(1) dep by (simp_all add: move_def)
  have tree: "dt_ok ?tree" using ok by (rule ok_data)
  have es: "entries = fst (dt_extract Linux ?tree old)" "x = snd (dt_extract Linux ?tree old)" by (simp_all add: ex)
  have rename: "dt_restore x entries old new = dt_rename Linux ?tree old new"
    by (simp add: dt_rename_extract_restore es)
  have known: "dt_find (dt_rename Linux ?tree old new) new \<noteq> None"
    using source by (auto simp: dt_find_rename [OF tree])
  obtain e0 where "dt_find ?tree old = Some e0" using source by auto
  then have "e0 \<in> set entries" using dt_ok_path [OF tree] by (simp add: es set_extracted [OF tree])
  then have entries: "entries \<noteq> []" by auto
  have below: "\<not> ie_ignored env r (relocate old new (de_path e))" if "e \<in> set entries" for e
    using that ignores(2) relocate_in_subtree by (force simp: es set_extracted [OF tree])
  obtain k' where "ie_lstat env new k = (Some s, k')" using found(1) by (metis prod.collapse)
  with st1(2) ev2 entries below ignores(1) found(2) target known rename have
    "handle_arrival env ev2 r t new st1 =
      (True, (moveSubscriptions move new st1)\<lparr>is_kernel := k',
         is_tree := (is_tree st1)(t := snd (dt_update (dt_rename Linux ?tree old new) new (CONVERT_TIME s))),
         is_events := (is_events st1)(r := fold (rename_entry c old new) entries (is_events st1 r)),
         is_moves := AList.delete (r, c) (is_moves st1)\<rparr>)"
    by (subst arrival_of_move [where move = move]) (simp_all add: move_def es dt_find_extract update_conv')
  then have st2: "b2" "st2 = (moveSubscriptions move new st1)\<lparr>is_kernel := k',
         is_tree := (is_tree st1)(t := snd (dt_update (dt_rename Linux ?tree old new) new (CONVERT_TIME s))),
         is_events := (is_events st1)(r := fold (rename_entry c old new) entries (is_events st1 r)),
         is_moves := AList.delete (r, c) (is_moves st1)\<rparr>"
    using run(2) by simp_all
  have "distinct (map snd (is_subs st))" using ok by (simp add: inotify_ok_def subs_ok_def)
  then have "distinct (pm_subscriptions move)" by (simp add: move_def distinct_map_filter)
  note moved_subscriptions [OF this, of new st1]
  moreover have "snd e \<in> set (pm_subscriptions move) \<longleftrightarrow> on ev1 IN_ISDIR \<and> sub_watcher (is_sub st (snd e)) = r \<and>
      in_subtree CHR ''/'' old (sub_path (is_sub st (snd e)))" if "e \<in> set (is_subs st)" for e
    using that by (force simp: move_def below_or_at_iff)
  moreover have "pm_path move = old" "is_sub st1 = is_sub st" "is_subs st2 = is_subs st"
    by (simp_all add: move_def st1(2) st2(2) moveSubscriptions_def)
  moreover have "is_sub st2 = is_sub (moveSubscriptions move new st1)" by (simp add: st2(2))
  ultimately have "\<forall>e \<in> set (is_subs st). is_sub st2 (snd e) =
      (let sub = is_sub st (snd e) in
       if sub_watcher sub = r \<and> on ev1 IN_ISDIR \<and> in_subtree CHR ''/'' old (sub_path sub)
       then sub\<lparr>sub_path := relocate old new (sub_path sub)\<rparr> else sub)"
    by (simp add: Let_def conj_commute)
  with st1 st2 \<open>is_subs st2 = is_subs st\<close> show ?thesis by (simp add: es delete_conv')
qed

definition folder_stat :: stat where
  "folder_stat = \<lparr>stat_dev = 1, stat_ino = 1, stat_sec = 5, stat_nsec = 0, stat_nlink = 1, stat_type = Folder\<rparr>"

definition folder_env :: "int set inotify_env" where
  "folder_env = sample_env\<lparr>ie_lstat := \<lambda>_ k. (Some folder_stat, k)\<rparr>"

definition folder_state :: "int set inotify" where
  "folder_state = (inotify_new {})\<lparr>is_tree := \<lambda>_. dt_add (dt_new ''/w'') ''/w/a'' 1 True,
     is_sub := \<lambda>_. \<lparr>sub_tree = 0, sub_path = ''/w/a'', sub_watcher = 7\<rparr>, is_subs := [(4, 0)], is_nextSub := 1\<rparr>"

definition moved_from :: inotify_event where
  "moved_from = \<lparr>ev_wd = 2, ev_mask = IN_MOVED_FROM OR IN_ISDIR, ev_cookie = 9, ev_name = ''a''\<rparr>"

definition moved_to :: inotify_event where
  "moved_to = \<lparr>ev_wd = 2, ev_mask = IN_MOVED_TO OR IN_ISDIR, ev_cookie = 9, ev_name = ''b''\<rparr>"

definition after_from :: "int set inotify" where
  "after_from = snd (handle_departure folder_env moved_from 7 0 ''/w/a'' folder_state)"

definition after_to :: "int set inotify" where
  "after_to = snd (handle_arrival folder_env moved_to 7 0 ''/w/b'' after_from)"

lemma move_within_root_is_a_rename_witness:
  "is_events after_to 7 = el_rename el_empty ''/w/a'' ''/w/b'' ''inotify:9:'' Directory \<and>
   sub_path (is_sub after_to 0) = ''/w/b'' \<and> dt_find (is_tree after_to 0) ''/w/a'' = None"
proof -
  have ok: "inotify_ok (\<lambda>_. {}) folder_state"
    by (simp add: inotify_ok_def subs_ok_def moves_ok_def data_ok_def owned_def folder_state_def inotify_new_def tree_ok el_ok_empty)
  have masks: "on moved_from IN_MOVED_FROM" "\<not> on moved_from (IN_DELETE_SELF OR IN_MOVE_SELF)" "ev_cookie moved_from = 9"
      "on moved_to IN_MOVED_TO" "ev_cookie moved_to = 9" "on moved_from IN_ISDIR"
    by code_simp+
  have tree: "dt_find (is_tree folder_state 0) ''/w/a'' \<noteq> None" "dt_find (is_tree folder_state 0) ''/w/b'' = None"
    by code_simp+
  have run: "handle_departure folder_env moved_from 7 0 ''/w/a'' folder_state = (fst (handle_departure folder_env moved_from 7 0 ''/w/a'' folder_state), after_from)"
      "handle_arrival folder_env moved_to 7 0 ''/w/b'' after_from = (fst (handle_arrival folder_env moved_to 7 0 ''/w/b'' after_from), after_to)"
    by (simp_all add: after_from_def after_to_def)
  have env: "\<not> ie_hasIgnores folder_env 7" "\<And>p. \<not> ie_ignored folder_env 7 p" "\<And>k. fst (ie_lstat folder_env p k) = Some folder_stat"
      "S_ISDIR folder_stat" for p
    by (simp_all add: folder_env_def sample_env_def folder_stat_def S_ISDIR_def)
  have result: "is_tree after_to = (is_tree folder_state)(0 := snd (dt_update (dt_rename Linux (is_tree folder_state 0) ''/w/a'' ''/w/b'') ''/w/b'' (CONVERT_TIME folder_stat)))"
    "is_events after_to = (is_events folder_state)
      (7 := fold (rename_entry 9 ''/w/a'' ''/w/b'') (fst (dt_extract Linux (is_tree folder_state 0) ''/w/a'')) (is_events folder_state 7))"
    "\<forall>e \<in> set (is_subs folder_state). is_sub after_to (snd e) =
      (let sub = is_sub folder_state (snd e) in
       if sub_watcher sub = 7 \<and> on moved_from IN_ISDIR \<and> in_subtree CHR ''/'' ''/w/a'' (sub_path sub)
       then sub\<lparr>sub_path := relocate ''/w/a'' ''/w/b'' (sub_path sub)\<rparr> else sub)"
    using move_within_root_is_a_rename [OF ok masks(1-5) _ tree env(1,2,3) disjI2 [OF env(4)] run] by simp_all
  show ?thesis
    unfolding result(1,2) using result(3) masks(6)
    by (simp add: folder_state_def inotify_new_def) code_simp
qed

text \<open>
  C23. After a queue overflow nothing is missed in silence: every watcher with a subscription is to be
  notified and invalidated, its event list carries the overflow error, no subscription, and no pending
  move of such a watcher, survives, the kernel holds no watch any more, and watchers without a
  subscription are not touched.
\<close>

theorem overflow_invalidates_everything:
  assumes "watch_laws env W" and "inotify_ok W st" and "handleOverflow env (watchers, st) = (watchers', st')"
  shows "is_subs st' = [] \<and> W (is_kernel st') = {} \<and>
    (\<forall>r. if \<exists>e \<in> set (is_subs st). sub_watcher (is_sub st (snd e)) = r
      then r \<in> set watchers' \<and> r \<in> set (is_invalidated st') \<and> el_hasError (is_events st' r) \<and>
        (\<forall>m \<in> set (is_moves st'). pm_watcher (snd m) \<noteq> r)
      else is_events st' r = is_events st r \<and> (r \<in> set watchers' \<longleftrightarrow> r \<in> set watchers))"
proof -
  let ?rs = "remdups (map (\<lambda>e. sub_watcher (is_sub st (snd e))) (is_subs st))"
  have run: "watchers' = fold List.insert ?rs watchers" "st' = fold (overflow_watcher env) ?rs st"
    using assms(3) by (simp_all add: handleOverflow_def Let_def)
  have inserted: "set (fold List.insert rs ws) = set rs \<union> set ws" for rs ws :: "wref list"
    by (induction rs arbitrary: ws) auto
  note after = overflow_watchers_fields [OF distinct_remdups, of env "map (\<lambda>e. sub_watcher (is_sub st (snd e))) (is_subs st)" st]
  have subs: "is_subs st' = []" using after run(2) by (auto simp: filter_empty_conv)
  have "inotify_ok W st'"
    using acts_handleOverflow [OF assms(1) subset_UNIV, of st watchers] assms(2,3) by (simp add: acts_def)
  then have "W (is_kernel st') = {}" using subs by (simp add: inotify_ok_def owned_def)
  with subs after show ?thesis
    unfolding run(1) inserted by (auto simp: run(2) image_iff el_hasError_error)
qed

definition sample_overflowed :: "wref list \<times> int set inotify" where
  "sample_overflowed = handleOverflow sample_env ([], sample_subscribed)"

lemma overflow_invalidates_everything_witness:
  "is_subs sample_subscribed \<noteq> [] \<and> is_subs (snd sample_overflowed) = [] \<and> is_kernel (snd sample_overflowed) = {}"
  using overflow_invalidates_everything [OF sample_laws inotify_ok_reachable [OF sample_laws refl sample_reachable],
      of "[]" "fst sample_overflowed" "snd sample_overflowed"] sample_subscriptions(1)
  by (simp add: sample_overflowed_def)

text \<open>
  A directory that vanishes between \<open>lstat\<close> and \<open>inotify_add_watch\<close> has been reported as created, and
  then leaves the tree without an event. The kernel's event for its deletion finds nothing in the tree,
  so the creation stays recorded: the report names a directory that is not there.
\<close>

definition vanishing_env :: "int set inotify_env" where
  "vanishing_env = folder_env\<lparr>ie_opendir := \<lambda>p k. (Inr (Inr folder_stat, [''s'']), k),
     ie_addWatch := \<lambda>p _ k. if p = ''/w/d/s'' then (Inl Files.ENOENT, k) else (Inr (int (length p)), insert (int (length p)) k)\<rparr>"

definition vanished :: "int set inotify" where
  "vanished = snd (addCreatedTree vanishing_env 7 0 True ''/w/d'' (inotify_new {}))"

definition deletion :: inotify_event where
  "deletion = \<lparr>ev_wd = 4, ev_mask = IN_DELETE OR IN_ISDIR, ev_cookie = 0, ev_name = ''s''\<rparr>"

definition vanished_deleted :: "int set inotify" where
  "vanished_deleted = snd (handle_departure vanishing_env deletion 7 0 ''/w/d/s'' vanished)"

lemma vanished_state:
  "is_events vanished 7 = el_create el_empty ''/w/d/s'' Directory" "dt_find (is_tree vanished 0) ''/w/d/s'' = None"
  by code_simp+

lemma vanished_directory_stays_created:
  "is_events vanished_deleted 7 = el_create el_empty ''/w/d/s'' Directory"
  by code_simp

end
