(* ===== verification/FSEvents.thy ===== *)
theory FSEvents
  imports DirTrees Identities Backends
begin

section \<open>The FSEvents backend (src/macos/FSEventsBackend.hh, src/macos/FSEventsBackend.cc)\<close>

unbundle bit_operations_syntax

text \<open>
  For each watcher the backend keeps a tree and an index of identities, and turns the callbacks of its
  event stream into events of the watcher. The record \<open>fsevents\<close> is one \<open>State\<close> object together with what
  is shared with it: the event list of the watcher (\<open>fs_events\<close>) and its flag \<open>mNeedsResubscribe\<close>, the
  number of calls of \<open>notify\<close>, the streams handed to \<open>stopStreamAfterCallback\<close> or stopped at once, and a
  state \<open>'k\<close> of the operating system, which every system call may change. Exceptions of \<open>isIgnored\<close> are
  not followed.
\<close>

subsection \<open>Data\<close>

type_synonym stream = nat

record pending_event =
  pe_path :: string
  pe_flags :: u32

record 'k fsevents =
  fs_tree :: dir_tree
  fs_identities :: identity_index
  fs_renameSequence :: u64
  fs_initializing :: bool
  fs_pendingEvents :: "pending_event list"
  fs_stream :: "stream option"
  fs_events :: event_list
  fs_needsResubscribe :: bool
  fs_notified :: nat
  fs_stopped :: "stream list"
  fs_kernel :: 'k

text \<open>
  \<open>fe_files\<close> is the file system as one call of \<open>readIndexedPath\<close> finds it, \<open>fe_traverse\<close> what one call of
  \<open>scanIdentityIndex\<close> finds and the answers it gets from \<open>shouldCancel\<close>. \<open>fe_rank\<close> is the place of an identity in the order
  in which the unordered map of rename candidates is traversed, which may be another one every time.
\<close>

record 'k fs_env =
  fe_dir :: string
  fe_ignored :: "string \<Rightarrow> bool"
  fe_strerror :: "nat \<Rightarrow> string"
  fe_files :: "'k \<Rightarrow> ((string \<Rightarrow> stat option) \<times> (string \<Rightarrow> attr_buffer option)) \<times> 'k"
  fe_traverse :: "string \<Rightarrow> 'k \<Rightarrow> ((nat \<Rightarrow> bool) \<times> (nat + fts_node list)) \<times> 'k"
  fe_cancelled :: "'k \<Rightarrow> bool \<times> 'k"
  fe_stat :: "'k \<Rightarrow> (nat + stat) \<times> 'k"
  fe_create :: "'k \<Rightarrow> stream option \<times> 'k"
  fe_start :: "stream \<Rightarrow> 'k \<Rightarrow> bool \<times> 'k"
  fe_rank :: "'k \<Rightarrow> file_identity \<Rightarrow> nat"

definition FlagMustScanSubDirs :: u32 where "FlagMustScanSubDirs = 0x1"
definition FlagHistoryDone :: u32 where "FlagHistoryDone = 0x10"
definition FlagRootChanged :: u32 where "FlagRootChanged = 0x20"
definition FlagItemCreated :: u32 where "FlagItemCreated = 0x100"
definition FlagItemRemoved :: u32 where "FlagItemRemoved = 0x200"
definition FlagItemInodeMetaMod :: u32 where "FlagItemInodeMetaMod = 0x400"
definition FlagItemRenamed :: u32 where "FlagItemRenamed = 0x800"
definition FlagItemModified :: u32 where "FlagItemModified = 0x1000"
definition FlagItemFinderInfoMod :: u32 where "FlagItemFinderInfoMod = 0x2000"
definition FlagItemChangeOwner :: u32 where "FlagItemChangeOwner = 0x4000"
definition FlagItemXattrMod :: u32 where "FlagItemXattrMod = 0x8000"
definition FlagItemIsFile :: u32 where "FlagItemIsFile = 0x10000"
definition FlagItemIsDir :: u32 where "FlagItemIsDir = 0x20000"
definition FlagItemIsSymlink :: u32 where "FlagItemIsSymlink = 0x40000"
definition FlagItemIsHardlink :: u32 where "FlagItemIsHardlink = 0x100000"
definition FlagItemIsLastHardlink :: u32 where "FlagItemIsLastHardlink = 0x200000"
definition FlagItemCloned :: u32 where "FlagItemCloned = 0x400000"

definition IGNORED_FLAGS :: u32 where
  "IGNORED_FLAGS = FlagItemIsHardlink OR FlagItemIsLastHardlink OR FlagItemIsSymlink OR FlagItemIsDir OR FlagItemIsFile"

definition METADATA_FLAGS :: u32 where
  "METADATA_FLAGS = FlagItemInodeMetaMod OR FlagItemFinderInfoMod OR FlagItemChangeOwner OR FlagItemXattrMod"

definition hasFlag :: "u32 \<Rightarrow> u32 \<Rightarrow> bool" where
  "hasFlag flags flag \<longleftrightarrow> flags AND flag = flag"

definition isDescendantPath :: "string \<Rightarrow> string \<Rightarrow> bool" where
  "isDescendantPath path directory \<longleftrightarrow>
     length path > length directory \<and> take (length directory) path = directory \<and> path ! length directory = CHR ''/''"

subsection \<open>System calls and small state changes\<close>

definition fs_call :: "('k \<Rightarrow> 'a \<times> 'k) \<Rightarrow> 'k fsevents \<Rightarrow> 'a \<times> 'k fsevents" where
  "fs_call f st = (let (x, k) = f (fs_kernel st) in (x, st\<lparr>fs_kernel := k\<rparr>))"

definition read_path :: "'k fs_env \<Rightarrow> string \<Rightarrow> 'k fsevents \<Rightarrow> indexed_path option \<times> 'k fsevents" where
  "read_path env path st =
     (let ((lstat, getattrlist), st1) = fs_call (fe_files env) st in (readIndexedPath lstat getattrlist path, st1))"

definition scan_path :: "'k fs_env \<Rightarrow> string \<Rightarrow> 'k fsevents \<Rightarrow> (string option \<times> scanned) \<times> 'k fsevents" where
  "scan_path env path st =
     (let ((cancelled, opened), st1) = fs_call (fe_traverse env path) st in
      (scan_files (fe_ignored env) cancelled (fe_strerror env) path opened, st1))"

definition fs_log :: "(event_list \<Rightarrow> event_list) \<Rightarrow> 'k fsevents \<Rightarrow> 'k fsevents" where
  "fs_log f st = st\<lparr>fs_events := f (fs_events st)\<rparr>"

definition fs_notify :: "'k fsevents \<Rightarrow> 'k fsevents" where
  "fs_notify st = st\<lparr>fs_notified := fs_notified st + 1\<rparr>"

definition put_tree :: "string \<Rightarrow> u64 \<Rightarrow> bool \<Rightarrow> dir_tree \<Rightarrow> dir_tree" where
  "put_tree path mtime isDirectory t =
     (case dt_update t path mtime of (True, t') \<Rightarrow> t' | (False, t') \<Rightarrow> dt_add t' path mtime isDirectory)"

definition put_identity :: "string \<Rightarrow> indexed_path \<Rightarrow> 'k fsevents \<Rightarrow> 'k fsevents" where
  "put_identity path entry st =
     st\<lparr>fs_identities := ix_add path entry (fs_identities st),
        fs_tree := put_tree path (ip_mtime entry) (ip_isDirectory entry) (fs_tree st)\<rparr>"

text \<open>The exchange of the stream with null, and the stopping of the one that was there.\<close>

definition stop_stream :: "'k fsevents \<Rightarrow> 'k fsevents" where
  "stop_stream st =
     (case fs_stream st of None \<Rightarrow> st | Some s \<Rightarrow> st\<lparr>fs_stream := None, fs_stopped := s # fs_stopped st\<rparr>)"

definition retire_stream :: "'k fsevents \<Rightarrow> 'k fsevents" where
  "retire_stream st =
     (case fs_stream st of None \<Rightarrow> st | Some s \<Rightarrow> stop_stream (st\<lparr>fs_needsResubscribe := True\<rparr>))"

subsection \<open>Entries\<close>

definition removeIndexedPath :: "string \<Rightarrow> 'k fsevents \<Rightarrow> 'k fsevents" where
  "removeIndexedPath path st =
     (case ix_find (fs_identities st) path of
        None \<Rightarrow> st
      | Some indexed \<Rightarrow>
          (let st1 =
             (if \<not> ip_isDirectory indexed then fs_log (\<lambda>l. el_remove l path File) st
              else
                fs_log (fold (\<lambda>(p, e) l. el_remove l p (entryKind (ip_isDirectory e)))
                    (filter (\<lambda>(p, e). p = path \<or> isDescendantPath p path) (ix_entries (fs_identities st)))) st) in
           st1\<lparr>fs_identities := ix_remove path (fs_identities st1), fs_tree := dt_remove MacOS (fs_tree st1) path\<rparr>))"

definition recordCreatedPath :: "string \<Rightarrow> indexed_path \<Rightarrow> 'k fsevents \<Rightarrow> 'k fsevents" where
  "recordCreatedPath path entry st =
     (let previous = ix_find (fs_identities st) path;
          sameIdentity = (case previous of None \<Rightarrow> False
            | Some e \<Rightarrow> ip_identity e = ip_identity entry \<and> ip_isDirectory e = ip_isDirectory entry);
          modified = (sameIdentity \<and> \<not> ip_isDirectory entry \<and>
            (case previous of None \<Rightarrow> False | Some e \<Rightarrow> ip_mtime e \<noteq> ip_mtime entry));
          replacedFile = ((case previous of None \<Rightarrow> False | Some e \<Rightarrow> \<not> ip_isDirectory e) \<and>
            \<not> ip_isDirectory entry \<and> \<not> sameIdentity);
          typeChanged = (case previous of None \<Rightarrow> False | Some e \<Rightarrow> ip_isDirectory e \<noteq> ip_isDirectory entry);
          st1 = (if typeChanged then removeIndexedPath path st
                 else if \<not> sameIdentity then st\<lparr>fs_tree := dt_remove MacOS (fs_tree st) path\<rparr> else st);
          st2 = put_identity path entry st1 in
      if modified \<or> replacedFile then fs_log (\<lambda>l. el_update l path File) st2
      else if \<not> sameIdentity then fs_log (\<lambda>l. el_create l path (entryKind (ip_isDirectory entry))) st2
      else st2)"

text \<open>The error that the scan throws, if any, after what it has recorded.\<close>

definition addCreatedPath :: "'k fs_env \<Rightarrow> string \<Rightarrow> 'k fsevents \<Rightarrow> string option \<times> 'k fsevents" where
  "addCreatedPath env path st =
     (case read_path env path st of
        (None, st1) \<Rightarrow> (None, st1)
      | (Some entry, st1) \<Rightarrow>
          if \<not> ip_isDirectory entry then (None, recordCreatedPath path entry st1)
          else
            (case scan_path env path st1 of
               ((err, index, seen), st2) \<Rightarrow> (err, fold (\<lambda>(p, e). recordCreatedPath p e) seen st2)))"

definition try_addCreatedPath :: "'k fs_env \<Rightarrow> string \<Rightarrow> 'k fsevents \<Rightarrow> 'k fsevents" where
  "try_addCreatedPath env path st =
     (case addCreatedPath env path st of
        (None, st1) \<Rightarrow> st1
      | (Some err, st1) \<Rightarrow> fs_log (\<lambda>l. el_error l err) st1)"

subsection \<open>Pairing renames\<close>

type_synonym rename_candidates = "(file_identity \<times> (string \<times> indexed_path) list) list"

definition put_candidate :: "string \<Rightarrow> indexed_path \<Rightarrow> rename_candidates \<Rightarrow> rename_candidates" where
  "put_candidate path e m =
     AList.update (ip_identity e)
       (AList.update path e (case map_of m (ip_identity e) of None \<Rightarrow> [] | Some paths \<Rightarrow> paths)) m"

definition sequence_id :: "u64 \<Rightarrow> string" where
  "sequence_id n = ''fsevents:'' @ decimal (unat n)"

definition fs_rename :: "string \<Rightarrow> string \<Rightarrow> entry_kind \<Rightarrow> 'k fsevents \<Rightarrow> 'k fsevents" where
  "fs_rename oldPath newPath kind st =
     (let n = fs_renameSequence st + 1 in
      fs_log (\<lambda>l. el_rename l oldPath newPath (sequence_id n) kind) (st\<lparr>fs_renameSequence := n\<rparr>))"

text \<open>The first loop: what each rename event finds at its path, before and now.\<close>

definition collect_candidates ::
  "'k fs_env \<Rightarrow> pending_event \<Rightarrow> (rename_candidates \<times> rename_candidates) \<times> 'k fsevents
    \<Rightarrow> (rename_candidates \<times> rename_candidates) \<times> 'k fsevents" where
  "collect_candidates env ev = (\<lambda>((removed, added), st).
     if \<not> hasFlag (pe_flags ev) FlagItemRenamed \<or> fe_ignored env (pe_path ev) then ((removed, added), st)
     else
       (let before = ix_find (fs_identities st) (pe_path ev);
            (after, st1) = read_path env (pe_path ev) st;
            differs = (case (before, after) of (Some b, Some a) \<Rightarrow> ip_identity b \<noteq> ip_identity a | _ \<Rightarrow> True) in
        (((case before of Some b \<Rightarrow> if differs then put_candidate (pe_path ev) b removed else removed | None \<Rightarrow> removed),
          (case after of Some a \<Rightarrow> if differs then put_candidate (pe_path ev) a added else added | None \<Rightarrow> added)),
         st1)))"

text \<open>The second: one identity of \<open>removed\<close>, with the paths handled so far.\<close>

definition correlate_identity ::
  "rename_candidates \<Rightarrow> file_identity \<times> (string \<times> indexed_path) list \<Rightarrow> string list \<times> 'k fsevents
    \<Rightarrow> string list \<times> 'k fsevents" where
  "correlate_identity added = (\<lambda>(i, paths) (handled, st).
     (case (paths, map_of added i) of
        ([(oldPath, oldEntry)], Some [(newPath, newEntry)]) \<Rightarrow>
          if ix_pathCount (fs_identities st) i \<noteq> 1 \<or> ix_find (fs_identities st) newPath \<noteq> None \<or>
             ip_isDirectory oldEntry \<or> ip_isDirectory newEntry \<or> ip_linkCount oldEntry \<noteq> 1 \<or> ip_linkCount newEntry \<noteq> 1
          then (handled, st)
          else
            (let st1 = fs_rename oldPath newPath (entryKind (ip_isDirectory oldEntry)) st in
             (newPath # oldPath # handled,
              st1\<lparr>fs_identities := ix_add newPath newEntry (ix_rename oldPath newPath (fs_identities st1)),
                  fs_tree := dt_add (dt_remove MacOS (fs_tree st1) oldPath) newPath (ip_mtime newEntry) (ip_isDirectory newEntry)\<rparr>))
      | _ \<Rightarrow> (handled, st)))"

text \<open>The map is traversed in any order; which renames are found can depend on it, when one's target is another's source.\<close>

definition in_order :: "(file_identity \<Rightarrow> nat) \<Rightarrow> rename_candidates \<Rightarrow> rename_candidates" where
  "in_order rank m = sort_key (\<lambda>(i, paths). rank i) m"

definition correlateRenames ::
  "'k fs_env \<Rightarrow> pending_event list \<Rightarrow> 'k fsevents \<Rightarrow> string list \<times> 'k fsevents" where
  "correlateRenames env evs st =
     (let ((removed, added), st1) = fold (collect_candidates env) evs (([], []), st) in
      fold (correlate_identity added) (in_order (fe_rank env (fs_kernel st1)) removed) ([], st1))"

subsection \<open>Comparing complete trees\<close>

record reconciled_rename =
  rr_oldPath :: string
  rr_newPath :: string
  rr_entry :: indexed_path

definition removed_candidates :: "identity_index \<Rightarrow> identity_index \<Rightarrow> rename_candidates" where
  "removed_candidates old current =
     fold (\<lambda>(p, e) m. case ix_find current p of
             Some after \<Rightarrow> if ip_identity after \<noteq> ip_identity e then put_candidate p e m else m
           | None \<Rightarrow> put_candidate p e m) (ix_entries old) []"

text \<open>The paths that were added are found by the same loop with the two indexes exchanged.\<close>

definition created_candidates :: "identity_index \<Rightarrow> identity_index \<Rightarrow> rename_candidates" where
  "created_candidates old current = removed_candidates current old"

definition possible_rename ::
  "identity_index \<Rightarrow> identity_index \<Rightarrow> rename_candidates \<Rightarrow> file_identity \<times> (string \<times> indexed_path) list
    \<Rightarrow> reconciled_rename option" where
  "possible_rename old current added = (\<lambda>(i, paths).
     (case (paths, map_of added i) of
        ([(oldPath, oldEntry)], Some [(newPath, newEntry)]) \<Rightarrow>
          if ix_pathCount old i \<noteq> 1 \<or> ix_pathCount current i \<noteq> 1 \<or> ix_find old newPath \<noteq> None \<or>
             ip_isDirectory oldEntry \<noteq> ip_isDirectory newEntry \<or>
             \<not> ip_isDirectory oldEntry \<and> (ip_linkCount oldEntry \<noteq> 1 \<or> ip_linkCount newEntry \<noteq> 1)
          then None
          else Some \<lparr>rr_oldPath = oldPath, rr_newPath = newPath, rr_entry = newEntry\<rparr>
      | _ \<Rightarrow> None))"

text \<open>
  Directories first, the shorter old paths first among each; \<open>std::sort\<close> leaves the order of ties open,
  here they keep theirs.
\<close>

definition sort_renames :: "reconciled_rename list \<Rightarrow> reconciled_rename list" where
  "sort_renames = sort_key (\<lambda>c. (\<not> ip_isDirectory (rr_entry c), length (rr_oldPath c)))"

definition covers :: "reconciled_rename \<Rightarrow> reconciled_rename \<Rightarrow> bool" where
  "covers accepted candidate \<longleftrightarrow>
     ip_isDirectory (rr_entry accepted) \<and> isDescendantPath (rr_oldPath candidate) (rr_oldPath accepted) \<and>
     rr_newPath candidate = rr_newPath accepted @ drop (length (rr_oldPath accepted)) (rr_oldPath candidate)"

fun accept_renames :: "reconciled_rename list \<Rightarrow> reconciled_rename list \<Rightarrow> reconciled_rename list" where
  "accept_renames accepted [] = accepted"
| "accept_renames accepted (c # cs) =
     (if \<exists>a \<in> set accepted. covers a c then accept_renames accepted cs else accept_renames (accepted @ [c]) cs)"

text \<open>The unchanged entries below a renamed directory, with the paths they have now.\<close>

definition moved_below ::
  "identity_index \<Rightarrow> rename_candidates \<Rightarrow> reconciled_rename \<Rightarrow> (string \<times> string \<times> indexed_path) list" where
  "moved_below current removed accepted =
     (if \<not> ip_isDirectory (rr_entry accepted) then []
      else
        List.map_filter (\<lambda>(p, e).
          if \<not> isDescendantPath p (rr_oldPath accepted) then None
          else
            (let newPath = rr_newPath accepted @ drop (length (rr_oldPath accepted)) p in
             (case ix_find current newPath of
                None \<Rightarrow> None
              | Some e' \<Rightarrow>
                  if ip_identity e' = ip_identity e \<and> ip_isDirectory e' = ip_isDirectory e then Some (p, newPath, e) else None)))
          (concat (map snd removed)))"

definition report_removals :: "identity_index \<Rightarrow> string list \<Rightarrow> (string \<times> indexed_path) list \<Rightarrow> 'k fsevents \<Rightarrow> 'k fsevents" where
  "report_removals current handled =
     fold (\<lambda>(p, e) st.
       if p \<notin> set handled \<and> (ip_isDirectory e \<or> (case ix_find current p of None \<Rightarrow> True | Some r \<Rightarrow> ip_isDirectory r))
       then fs_log (\<lambda>l. el_remove l p (entryKind (ip_isDirectory e))) st else st)"

definition report_creations :: "identity_index \<Rightarrow> string list \<Rightarrow> (string \<times> indexed_path) list \<Rightarrow> 'k fsevents \<Rightarrow> 'k fsevents" where
  "report_creations old handled =
     fold (\<lambda>(p, e) st.
       if p \<in> set handled then st
       else if (case ix_find old p of None \<Rightarrow> False | Some b \<Rightarrow> \<not> ip_isDirectory b) \<and> \<not> ip_isDirectory e
       then fs_log (\<lambda>l. el_update l p File) st
       else fs_log (\<lambda>l. el_create l p (entryKind (ip_isDirectory e))) st)"

definition report_changes :: "identity_index \<Rightarrow> (string \<times> indexed_path) list \<Rightarrow> 'k fsevents \<Rightarrow> 'k fsevents" where
  "report_changes old =
     fold (\<lambda>(p, e) st.
       (case ix_find old p of
          None \<Rightarrow> st
        | Some b \<Rightarrow>
            if ip_identity b = ip_identity e \<and> \<not> ip_isDirectory e \<and> ip_mtime b \<noteq> ip_mtime e
            then fs_log (\<lambda>l. el_update l p File) st else st))"

definition report_difference :: "identity_index \<Rightarrow> 'k fsevents \<Rightarrow> 'k fsevents" where
  "report_difference current st =
     (let old = fs_identities st;
          removed = removed_candidates old current;
          added = created_candidates old current;
          accepted = accept_renames [] (sort_renames (List.map_filter (possible_rename old current added) removed));
          below = concat (map (moved_below current removed) accepted);
          st1 = fold (\<lambda>c. fs_rename (rr_oldPath c) (rr_newPath c) (entryKind (ip_isDirectory (rr_entry c)))) accepted st;
          st2 = fold (\<lambda>(p, q, e). fs_rename p q (entryKind (ip_isDirectory e))) below st1;
          st3 = report_removals current (map rr_oldPath accepted @ map fst below) (concat (map snd removed)) st2;
          st4 = report_creations old (map rr_newPath accepted @ map (fst \<circ> snd) below) (concat (map snd added)) st3 in
      report_changes old (ix_entries current) st4)"

definition reconcileFullTree :: "'k fs_env \<Rightarrow> 'k fsevents \<Rightarrow> string option \<times> 'k fsevents" where
  "reconcileFullTree env st =
     (case scan_path env (fe_dir env) st of
        ((Some err, _), st1) \<Rightarrow> (Some err, st1)
      | ((None, current, seen), st1) \<Rightarrow>
          (case fs_call (fe_cancelled env) st1 of
             (True, st2) \<Rightarrow> (None, st2)
           | (False, st2) \<Rightarrow>
               (None, (report_difference current st2)
                  \<lparr>fs_identities := current,
                   fs_tree := fold (\<lambda>(p, e) t. dt_add t p (ip_mtime e) (ip_isDirectory e)) seen (dt_new (fe_dir env))\<rparr>)))"

subsection \<open>Handling a batch of events\<close>

definition metadata_updates :: "pending_event list \<Rightarrow> 'k fsevents \<Rightarrow> 'k fsevents" where
  "metadata_updates =
     fold (\<lambda>ev st.
       if pe_flags ev AND METADATA_FLAGS = 0 then st
       else
         (case ix_find (fs_identities st) (pe_path ev) of
            None \<Rightarrow> st
          | Some entry \<Rightarrow> fs_log (\<lambda>l. el_update l (pe_path ev) (entryKind (ip_isDirectory entry))) st))"

definition rescan :: "'k fs_env \<Rightarrow> pending_event list \<Rightarrow> 'k fsevents \<Rightarrow> 'k fsevents" where
  "rescan env evs st =
     (case reconcileFullTree env st of
        (None, st1) \<Rightarrow> fs_notify (metadata_updates evs st1)
      | (Some err, st1) \<Rightarrow> fs_notify (fs_log (\<lambda>l. el_error l err) st1))"

text \<open>Whether a renamed directory is among the events; \<open>any_of\<close> stops at the first.\<close>

fun renames_directory :: "'k fs_env \<Rightarrow> pending_event list \<Rightarrow> 'k fsevents \<Rightarrow> bool \<times> 'k fsevents" where
  "renames_directory env [] st = (False, st)"
| "renames_directory env (ev # evs) st =
     (if \<not> hasFlag (pe_flags ev) FlagItemRenamed then renames_directory env evs st
      else
        (case read_path env (pe_path ev) st of
           (after, st1) \<Rightarrow>
             if hasFlag (pe_flags ev) FlagItemIsDir \<or>
                (case ix_find (fs_identities st) (pe_path ev) of None \<Rightarrow> False | Some b \<Rightarrow> ip_isDirectory b) \<or>
                (case after of None \<Rightarrow> False | Some a \<Rightarrow> ip_isDirectory a)
             then (True, st1) else renames_directory env evs st1))"

text \<open>
  An entry that is gone: whether it was the root, and the state. Then the two branches for an entry
  that is there: \<open>unchanged\<close> is the test by time stamp that both make.
\<close>

definition missing_entry :: "'k fs_env \<Rightarrow> string \<Rightarrow> 'k fsevents \<Rightarrow> bool \<times> 'k fsevents" where
  "missing_entry env path st = (path = fe_dir env, removeIndexedPath path st)"

definition same_identity :: "string \<Rightarrow> indexed_path \<Rightarrow> 'k fsevents \<Rightarrow> bool" where
  "same_identity path indexed st \<longleftrightarrow>
     (case ix_find (fs_identities st) path of None \<Rightarrow> False | Some b \<Rightarrow> ip_identity b = ip_identity indexed)"

definition type_changed :: "string \<Rightarrow> indexed_path \<Rightarrow> 'k fsevents \<Rightarrow> bool" where
  "type_changed path indexed st \<longleftrightarrow>
     (case ix_find (fs_identities st) path of None \<Rightarrow> False | Some b \<Rightarrow> ip_isDirectory b \<noteq> ip_isDirectory indexed)"

definition unchanged :: "bool \<Rightarrow> string \<Rightarrow> indexed_path \<Rightarrow> 'k fsevents \<Rightarrow> bool" where
  "unchanged hasMetadataChange path indexed st \<longleftrightarrow>
     \<not> hasMetadataChange \<and> same_identity path indexed st \<and>
     (case dt_find (fs_tree st) path of None \<Rightarrow> False | Some e \<Rightarrow> de_mtime e = ip_mtime indexed) \<and>
     ip_mtime indexed mod 1000000000 \<noteq> 0"

definition handle_modified :: "'k fs_env \<Rightarrow> bool \<Rightarrow> string \<Rightarrow> 'k fsevents \<Rightarrow> bool \<times> 'k fsevents" where
  "handle_modified env hasMetadataChange path st =
     (case read_path env path st of
        (None, st1) \<Rightarrow> missing_entry env path st1
      | (Some indexed, st1) \<Rightarrow>
          (False,
           if ix_find (fs_identities st1) path = None \<or> dt_find (fs_tree st1) path = None \<or> type_changed path indexed st1
           then try_addCreatedPath env path st1
           else if unchanged hasMetadataChange path indexed st1 then st1
           else fs_log (\<lambda>l. el_update l path (entryKind (ip_isDirectory indexed))) (put_identity path indexed st1)))"

definition handle_mixed :: "'k fs_env \<Rightarrow> bool \<Rightarrow> bool \<Rightarrow> string \<Rightarrow> 'k fsevents \<Rightarrow> bool \<times> 'k fsevents" where
  "handle_mixed env isModified hasMetadataChange path st =
     (case read_path env path st of
        (None, st1) \<Rightarrow> missing_entry env path st1
      | (Some indexed, st1) \<Rightarrow>
          (False,
           if type_changed path indexed st1 then try_addCreatedPath env path st1
           else if unchanged hasMetadataChange path indexed st1 then st1
           else if (isModified \<or> same_identity path indexed st1 \<or>
               (case ix_find (fs_identities st1) path of None \<Rightarrow> False | Some b \<Rightarrow> \<not> ip_isDirectory b) \<and> \<not> ip_isDirectory indexed) \<and>
               dt_find (fs_tree st1) path \<noteq> None
           then fs_log (\<lambda>l. el_update l path (entryKind (ip_isDirectory indexed))) (put_identity path indexed st1)
           else if \<not> same_identity path indexed st1 \<and> ip_isDirectory indexed then try_addCreatedPath env path st1
           else
             fs_log (\<lambda>l. el_create l path (entryKind (ip_isDirectory indexed)))
               (st1\<lparr>fs_identities := ix_add path indexed (fs_identities st1),
                    fs_tree := dt_add (fs_tree st1) path (ip_mtime indexed) (ip_isDirectory indexed)\<rparr>)))"

text \<open>One event that is not skipped: whether the root was deleted.\<close>

definition handle_flags :: "'k fs_env \<Rightarrow> pending_event \<Rightarrow> 'k fsevents \<Rightarrow> bool \<times> 'k fsevents" where
  "handle_flags env ev st =
     (let flags = pe_flags ev; path = pe_path ev;
          isCreate = hasFlag flags FlagItemCreated; isRemove = hasFlag flags FlagItemRemoved;
          hasMetadataChange = (flags AND METADATA_FLAGS \<noteq> 0);
          isModified = (hasFlag flags FlagItemModified \<or> hasMetadataChange);
          isRename = hasFlag flags FlagItemRenamed in
      if isCreate \<and> \<not> (isRemove \<or> isModified \<or> isRename) then (False, try_addCreatedPath env path st)
      else if isRemove \<and> \<not> (isCreate \<or> isModified \<or> isRename) then missing_entry env path st
      else if isModified \<and> \<not> (isCreate \<or> isRemove \<or> isRename) then handle_modified env hasMetadataChange path st
      else handle_mixed env isModified hasMetadataChange path st)"

text \<open>\<open>FlagItemCloned\<close> counts as ignored: the deployment target is later than macOS 10.13.\<close>

fun process_each :: "'k fs_env \<Rightarrow> string list \<Rightarrow> pending_event list \<Rightarrow> bool \<times> 'k fsevents \<Rightarrow> bool \<times> 'k fsevents" where
  "process_each env correlated [] ds = ds"
| "process_each env correlated (ev # evs) (deletedRoot, st) =
     (if hasFlag (pe_flags ev) FlagHistoryDone then (deletedRoot, fs_notify st)
      else if pe_flags ev AND NOT (IGNORED_FLAGS OR FlagItemCloned) = 0 \<or> fe_ignored env (pe_path ev) \<or> pe_path ev \<in> set correlated
      then process_each env correlated evs (deletedRoot, st)
      else (case handle_flags env ev st of (gone, st1) \<Rightarrow> process_each env correlated evs (deletedRoot \<or> gone, st1)))"

definition processEvents :: "'k fs_env \<Rightarrow> pending_event list \<Rightarrow> 'k fsevents \<Rightarrow> 'k fsevents" where
  "processEvents env evs st =
     (if \<exists>ev \<in> set evs. hasFlag (pe_flags ev) FlagRootChanged
      then fs_notify (retire_stream (removeIndexedPath (fe_dir env) st))
      else
        (case (if \<exists>ev \<in> set evs. hasFlag (pe_flags ev) FlagMustScanSubDirs then (True, st) else renames_directory env evs st) of
           (True, st1) \<Rightarrow> rescan env evs st1
         | (False, st1) \<Rightarrow>
             (case correlateRenames env evs st1 of
                (correlated, st2) \<Rightarrow>
                  (case process_each env correlated evs (False, st2) of
                     (deletedRoot, st3) \<Rightarrow> (if deletedRoot then retire_stream (fs_notify st3) else fs_notify st3)))))"

definition FSEventsCallback :: "'k fs_env \<Rightarrow> stream \<Rightarrow> (string \<times> u32) list \<Rightarrow> 'k fsevents \<Rightarrow> 'k fsevents" where
  "FSEventsCallback env streamRef arrived st =
     (if fs_stream st \<noteq> Some streamRef then st
      else
        (let evs = map (\<lambda>(path, flags). \<lparr>pe_path = path, pe_flags = flags\<rparr>) (filter (\<lambda>(path, flags). \<not> fe_ignored env path) arrived) in
         if evs = [] then st
         else if fs_initializing st then st\<lparr>fs_pendingEvents := fs_pendingEvents st @ evs\<rparr>
         else processEvents env evs st))"

subsection \<open>Starting and stopping a stream\<close>

definition checkWatcher :: "'k fs_env \<Rightarrow> 'k fsevents \<Rightarrow> string option \<times> 'k fsevents" where
  "checkWatcher env st =
     (case fs_call (fe_stat env) st of
        (Inl errno, st1) \<Rightarrow> (Some (fe_strerror env errno), st1)
      | (Inr s, st1) \<Rightarrow> (if S_ISDIR s then None else Some (fe_strerror env Files.ENOTDIR), st1))"

text \<open>
  \<open>startStream\<close> up to the start of the stream, and from the scan on. In between, and until the last
  part runs on the queue, callbacks may arrive.
\<close>

definition open_stream :: "'k fs_env \<Rightarrow> 'k fsevents \<Rightarrow> string option \<times> 'k fsevents" where
  "open_stream env st =
     (case checkWatcher env st of
        (Some err, st1) \<Rightarrow> (Some err, st1)
      | (None, st1) \<Rightarrow>
          (case fs_call (fe_create env) (st1\<lparr>fs_tree := dt_new (fe_dir env)\<rparr>) of
             (None, st2) \<Rightarrow> (Some ''Error creating FSEvents stream'', st2)
           | (Some stream, st2) \<Rightarrow>
               (case fs_call (fe_start env stream) (st2\<lparr>fs_stream := Some stream\<rparr>) of
                  (False, st3) \<Rightarrow> (Some ''Error starting FSEvents stream'', st3\<lparr>fs_stream := None\<rparr>)
                | (True, st3) \<Rightarrow> (None, st3))))"

definition index_stream :: "'k fs_env \<Rightarrow> 'k fsevents \<Rightarrow> (string option \<times> bool) \<times> 'k fsevents" where
  "index_stream env st =
     (case scan_path env (fe_dir env) st of
        ((err, index, seen), st1) \<Rightarrow>
          (let st2 = st1\<lparr>fs_tree := fold (\<lambda>(p, e) t. dt_add t p (ip_mtime e) (ip_isDirectory e)) seen (fs_tree st1)\<rparr> in
           (case err of
              Some e \<Rightarrow> ((Some e, False), st2)
            | None \<Rightarrow>
                (case fs_call (fe_cancelled env) st2 of
                   (True, st3) \<Rightarrow> ((None, True), stop_stream (st3\<lparr>fs_needsResubscribe := True\<rparr>))
                 | (False, st3) \<Rightarrow> ((None, False), st3\<lparr>fs_identities := index\<rparr>)))))"

definition finish_stream :: "'k fs_env \<Rightarrow> stream \<Rightarrow> 'k fsevents \<Rightarrow> 'k fsevents" where
  "finish_stream env stream st =
     (if fs_stream st \<noteq> Some stream then st
      else
        (let pending = fs_pendingEvents st; st1 = st\<lparr>fs_initializing := False, fs_pendingEvents := []\<rparr> in
         if pending = [] then st1 else processEvents env pending st1))"

text \<open>A new \<open>State\<close> object; the fields of the watcher and of the system stay.\<close>

definition new_state :: "'k fsevents \<Rightarrow> 'k fsevents" where
  "new_state st = st\<lparr>fs_tree := dt_new [], fs_identities := ix_empty, fs_renameSequence := 0, fs_initializing := True,
     fs_pendingEvents := [], fs_stream := None\<rparr>"

text \<open>\<open>subscribe\<close> when no callback comes in between: the error it throws, if any.\<close>

definition fsevents_subscribe :: "'k fs_env \<Rightarrow> 'k fsevents \<Rightarrow> string option \<times> 'k fsevents" where
  "fsevents_subscribe env st =
     (case open_stream env (new_state st) of
        (Some err, st1) \<Rightarrow> (Some err, stop_stream st1)
      | (None, st1) \<Rightarrow>
          (case index_stream env st1 of
             ((Some err, _), st2) \<Rightarrow> (Some err, stop_stream st2)
           | ((None, True), st2) \<Rightarrow> (None, st2)
           | ((None, False), st2) \<Rightarrow>
               (None, case fs_stream st2 of None \<Rightarrow> st2 | Some stream \<Rightarrow> finish_stream env stream st2)))"

definition fsevents_unsubscribe :: "'k fsevents \<Rightarrow> 'k fsevents" where
  "fsevents_unsubscribe st = stop_stream st"

end
