(* ===== verification/FSEventsRescan.thy ===== *)
theory FSEventsRescan
  imports FSEvents
begin

section \<open>What a full rescan reports\<close>

text \<open>
  The comparison of the indexed tree with the one found by a full scan is shown to report exactly the
  net difference of the two, in terms of the log of changes of the event list: every operation it makes
  on the list is possible at its place, and together they lead from the old entries to the new ones.
\<close>

subsection \<open>Sequences of changes, one kind after the other\<close>

lemma possible_all_append:
  "possible_all now (xs @ ys) \<longleftrightarrow> possible_all now xs \<and> possible_all (fold entries_after xs now) ys"
  by (induction xs arbitrary: now) auto

lemma renames_possible:
  assumes "distinct (map (\<lambda>(p, q, r, k). (p, k)) rs)" and "distinct (map (\<lambda>(p, q, r, k). (q, k)) rs)"
    and "\<And>p q r k. (p, q, r, k) \<in> set rs \<Longrightarrow> now (p, k) \<and> \<not> now (q, k)"
  shows "possible_all now (map (\<lambda>(p, q, r, k). Renamed p q r k) rs) \<and>
    fold entries_after (map (\<lambda>(p, q, r, k). Renamed p q r k) rs) now =
      (\<lambda>x. (now x \<and> x \<notin> (\<lambda>(p, q, r, k). (p, k)) ` set rs) \<or> x \<in> (\<lambda>(p, q, r, k). (q, k)) ` set rs)"
  using assms
proof (induction rs arbitrary: now)
  case Nil
  then show ?case by simp
next
  case (Cons a rs)
  obtain p q r k where a: "a = (p, q, r, k)" by (metis surj_pair)
  have here: "now (p, k)" "\<not> now (q, k)" using Cons.prems(3) [of p q r k] by (auto simp: a)
  define now' where "now' = now((p, k) := False, (q, k) := True)"
  have "now' (p', k') \<and> \<not> now' (q', k')" if "(p', q', r', k') \<in> set rs" for p' q' r' k'
  proof -
    have "now (p', k')" "\<not> now (q', k')" using Cons.prems(3) [of p' q' r' k'] that by auto
    moreover have "(p', k') \<noteq> (p, k)" "(q', k') \<noteq> (q, k)" using Cons.prems(1,2) that by (auto simp: a image_iff)
    ultimately show ?thesis using here by (auto simp: now'_def)
  qed
  from Cons.IH [of now', OF _ _ this] Cons.prems(1,2) have IH:
    "possible_all now' (map (\<lambda>(p, q, r, k). Renamed p q r k) rs)"
    "fold entries_after (map (\<lambda>(p, q, r, k). Renamed p q r k) rs) now' =
      (\<lambda>x. (now' x \<and> x \<notin> (\<lambda>(p, q, r, k). (p, k)) ` set rs) \<or> x \<in> (\<lambda>(p, q, r, k). (q, k)) ` set rs)" by auto
  have after: "entries_after (Renamed p q r k) now = now'" by (simp add: now'_def)
  have "possible now (Renamed p q r k)" using here by simp
  moreover have "(q, x, y, k) \<notin> set rs" for x y using Cons.prems(3) [of q x y k] here(2) by (auto simp: a)
  ultimately show ?case using IH
    by (simp only: a list.map fold.simps o_apply possible_all.simps prod.case after)
      (use Cons.prems(1,2) in \<open>auto simp: a now'_def fun_eq_iff image_iff\<close>)
qed

lemma removals_possible:
  assumes "distinct ks" and "\<And>p k. (p, k) \<in> set ks \<Longrightarrow> now (p, k)"
  shows "possible_all now (map (\<lambda>(p, k). Removed p k) ks) \<and>
    fold entries_after (map (\<lambda>(p, k). Removed p k) ks) now = (\<lambda>x. now x \<and> x \<notin> set ks)"
  using assms
proof (induction ks arbitrary: now)
  case (Cons a ks)
  obtain p k where a: "a = (p, k)" by (cases a)
  define now' where "now' = now((p, k) := False)"
  have "now' (p', k')" if "(p', k') \<in> set ks" for p' k'
    using Cons.prems that by (auto simp: a now'_def)
  from Cons.IH [of now', OF _ this] Cons.prems have IH:
    "possible_all now' (map (\<lambda>(p, k). Removed p k) ks)"
    "fold entries_after (map (\<lambda>(p, k). Removed p k) ks) now' = (\<lambda>x. now' x \<and> x \<notin> set ks)" by auto
  have after: "entries_after (Removed p k) now = now'" by (simp add: now'_def)
  have "possible now (Removed p k)" using Cons.prems by (simp add: a)
  with IH show ?case
    by (simp only: a list.map fold.simps o_apply possible_all.simps prod.case after) (auto simp: now'_def fun_eq_iff)
qed simp

text \<open>Creations and updates of different entries.\<close>


lemma creations_possible:
  assumes "distinct (map (\<lambda>(p, k, new). (p, k)) cs)"
    and "\<And>p k new. (p, k, new) \<in> set cs \<Longrightarrow> now (p, k) \<longleftrightarrow> \<not> new"
  shows "possible_all now (map (\<lambda>(p, k, new). if new then change.Created p k else Updated p k) cs) \<and>
    fold entries_after (map (\<lambda>(p, k, new). if new then change.Created p k else Updated p k) cs) now =
      (\<lambda>x. now x \<or> x \<in> (\<lambda>(p, k, new). (p, k)) ` set cs)"
  using assms
proof (induction cs arbitrary: now)
  case Nil
  then show ?case by simp
next
  case (Cons a cs)
  obtain p k new where a: "a = (p, k, new)" by (metis surj_pair)
  define now' where "now' = now((p, k) := True)"
  have here: "now (p, k) \<longleftrightarrow> \<not> new" using Cons.prems(2) [of p k new] by (simp add: a)
  have "now' (p', k') \<longleftrightarrow> \<not> new'" if "(p', k', new') \<in> set cs" for p' k' new'
  proof -
    have "(p', k') \<noteq> (p, k)" using Cons.prems(1) that by (auto simp: a image_iff)
    then show ?thesis using Cons.prems(2) [of p' k' new'] that by (auto simp: now'_def)
  qed
  from Cons.IH [of now', OF _ this] Cons.prems(1) have IH:
    "possible_all now' (map (\<lambda>(p, k, new). if new then change.Created p k else Updated p k) cs)"
    "fold entries_after (map (\<lambda>(p, k, new). if new then change.Created p k else Updated p k) cs) now' =
      (\<lambda>x. now' x \<or> x \<in> (\<lambda>(p, k, new). (p, k)) ` set cs)" by auto
  have after: "entries_after (if new then change.Created p k else Updated p k) now = now'"
    and "possible now (if new then change.Created p k else Updated p k)"
    using here by (auto simp: now'_def fun_eq_iff)
  with IH show ?case
    by (simp only: a list.map fold.simps o_apply possible_all.simps prod.case after) (auto simp: now'_def fun_eq_iff)
qed

lemma updates_possible:
  "(\<And>p. p \<in> set ps \<Longrightarrow> now (p, File)) \<Longrightarrow>
    possible_all now (map (\<lambda>p. Updated p File) ps) \<and> fold entries_after (map (\<lambda>p. Updated p File) ps) now = now"
  by (induction ps) auto

subsection \<open>The paths that were removed, and those that were added\<close>

text \<open>The entry filed under an identity and a path.\<close>

definition candidate :: "rename_candidates \<Rightarrow> file_identity \<Rightarrow> string \<Rightarrow> indexed_path option" where
  "candidate m i p = (case map_of m i of None \<Rightarrow> None | Some paths \<Rightarrow> map_of paths p)"

definition candidates_ok :: "rename_candidates \<Rightarrow> bool" where
  "candidates_ok m \<longleftrightarrow> um_ok m \<and> (\<forall>(i, paths) \<in> set m. um_ok paths)"

lemma candidates_ok_put:
  assumes "candidates_ok m"
  shows "candidates_ok (put_candidate p e m)"
    and "candidate (put_candidate p e m) i q = (if i = ip_identity e \<and> q = p then Some e else candidate m i q)"
proof -
  let ?paths = "case map_of m (ip_identity e) of None \<Rightarrow> [] | Some paths \<Rightarrow> paths"
  have um: "um_ok m" and each: "\<And>j paths. (j, paths) \<in> set m \<Longrightarrow> um_ok paths" using assms by (auto simp: candidates_ok_def)
  then have paths: "um_ok ?paths" by (auto split: option.split dest: map_of_SomeD)
  have "set (put_candidate p e m) \<subseteq> insert (ip_identity e, AList.update p e ?paths) (set m)"
    unfolding put_candidate_def by (rule set_update_subset)
  then show "candidates_ok (put_candidate p e m)"
    using um.ok_put [OF paths] each um.ok_put [OF um] by (auto simp: candidates_ok_def put_candidate_def)
  show "candidate (put_candidate p e m) i q = (if i = ip_identity e \<and> q = p then Some e else candidate m i q)"
    by (auto simp: candidate_def put_candidate_def update_conv' split: option.split)
qed

definition departed :: "identity_index \<Rightarrow> string \<Rightarrow> indexed_path \<Rightarrow> bool" where
  "departed current p e \<longleftrightarrow> (case ix_find current p of None \<Rightarrow> True | Some a \<Rightarrow> ip_identity a \<noteq> ip_identity e)"

lemma candidates_fold:
  fixes xs :: "(string \<times> indexed_path) list"
  assumes "distinct (map fst xs)" and "candidates_ok m"
  shows "candidates_ok (fold (\<lambda>(p, e) m. if departed current p e then put_candidate p e m else m) xs m) \<and>
    candidate (fold (\<lambda>(p, e) m. if departed current p e then put_candidate p e m else m) xs m) i q =
      (case map_of xs q of
         Some e \<Rightarrow> if departed current q e \<and> ip_identity e = i then Some e else candidate m i q
       | None \<Rightarrow> candidate m i q)"
  using assms
proof (induction xs arbitrary: m)
  case Nil
  then show ?case by simp
next
  case (Cons x xs)
  obtain p e where x: "x = (p, e)" by (cases x)
  let ?m = "if departed current p e then put_candidate p e m else m"
  have "candidates_ok ?m" using candidates_ok_put(1) [OF Cons.prems(2)] Cons.prems(2) by simp
  moreover have "map_of xs p = None" using Cons.prems(1) by (simp add: x map_of_eq_None_iff)
  ultimately show ?case
    using Cons.IH [of ?m] Cons.prems candidates_ok_put(2) [OF Cons.prems(2), of p e i q] by (auto simp: x split: option.split)
qed

lemma removed_candidates_fold:
  "removed_candidates old current = fold (\<lambda>(p, e) m. if departed current p e then put_candidate p e m else m) (ix_entries old) []"
proof -
  have "(case ix_find current p of Some after \<Rightarrow> if ip_identity after \<noteq> ip_identity e then put_candidate p e m else m
         | None \<Rightarrow> put_candidate p e m) = (if departed current p e then put_candidate p e m else m)" for p e m
    by (simp add: departed_def split: option.split)
  then show ?thesis by (simp add: removed_candidates_def)
qed

lemma removed_candidates_ok: "ix_ok old \<Longrightarrow> candidates_ok (removed_candidates old current)"
  using candidates_fold [of "ix_entries old" "[]" current] ix_okD(1) [of old]
  by (simp add: removed_candidates_fold ix_entries_def um_ok_def candidates_ok_def)

lemma candidate_removed:
  assumes "ix_ok old"
  shows "candidate (removed_candidates old current) i p =
    (case ix_find old p of Some e \<Rightarrow> if departed current p e \<and> ip_identity e = i then Some e else None | None \<Rightarrow> None)"
  using candidates_fold [of "ix_entries old" "[]" current i p] ix_okD(1) [OF assms]
  by (simp add: removed_candidates_fold ix_entries_def um_ok_def candidates_ok_def candidate_def ix_find_def split: option.split)

text \<open>All of them, as a list in which each path occurs once.\<close>

definition departures :: "identity_index \<Rightarrow> identity_index \<Rightarrow> (string \<times> indexed_path) list" where
  "departures old current = concat (map snd (removed_candidates old current))"

lemma candidates_pairs:
  assumes "candidates_ok m"
  shows "(p, e) \<in> set (concat (map snd m)) \<longleftrightarrow> (\<exists>i. candidate m i p = Some e)"
proof
  assume "(p, e) \<in> set (concat (map snd m))"
  then obtain i paths where "(i, paths) \<in> set m" "(p, e) \<in> set paths" by auto
  moreover have "um_ok m" "um_ok paths" using assms calculation(1) by (auto simp: candidates_ok_def)
  ultimately have "map_of m i = Some paths" "map_of paths p = Some e" by (simp_all flip: um_ok_map_of)
  then show "\<exists>i. candidate m i p = Some e" by (auto simp: candidate_def intro!: exI [of _ i])
next
  assume "\<exists>i. candidate m i p = Some e"
  then obtain i paths where "map_of m i = Some paths" "map_of paths p = Some e"
    by (auto simp: candidate_def split: option.splits)
  then have "(i, paths) \<in> set m" "(p, e) \<in> set paths" by (auto dest: map_of_SomeD)
  then show "(p, e) \<in> set (concat (map snd m))" by force
qed

lemma set_departures:
  assumes "ix_ok old"
  shows "(p, e) \<in> set (departures old current) \<longleftrightarrow> ix_find old p = Some e \<and> departed current p e"
  using candidates_pairs [OF removed_candidates_ok [OF assms], of p e current]
  by (auto simp: departures_def candidate_removed [OF assms] split: option.splits if_splits)

lemma distinct_candidates:
  assumes "candidates_ok m" and "\<And>i j p. candidate m i p \<noteq> None \<Longrightarrow> candidate m j p \<noteq> None \<Longrightarrow> i = j"
  shows "distinct (map fst (concat (map snd m)))"
  using assms
proof (induction m)
  case Nil
  then show ?case by simp
next
  case (Cons x m)
  obtain i paths where x: "x = (i, paths)" by (cases x)
  have ok: "candidates_ok m" "um_ok paths" "map_of m i = None"
    using Cons.prems(1) by (auto simp: x candidates_ok_def um_ok_def map_of_eq_None_iff)
  have lift: "candidate m j p \<noteq> None \<Longrightarrow> candidate (x # m) j p \<noteq> None" for j p
    using ok(3) by (auto simp: x candidate_def)
  have "distinct (map fst (concat (map snd m)))"
    using Cons.IH [OF ok(1)] Cons.prems(2) lift by blast
  moreover have "p \<notin> fst ` set (concat (map snd m))" if "p \<in> fst ` set paths" for p
  proof
    assume "p \<in> fst ` set (concat (map snd m))"
    then obtain j where j: "candidate m j p \<noteq> None" using candidates_pairs [OF ok(1)] by fastforce
    then have "j \<noteq> i" using ok(3) by (auto simp: candidate_def)
    moreover have "candidate (x # m) i p \<noteq> None" using that by (simp add: x candidate_def map_of_eq_None_iff)
    ultimately show False using Cons.prems(2) lift [OF j] by blast
  qed
  ultimately show ?case using ok(2) by (auto simp: x um_ok_def)
qed

lemma distinct_departures:
  assumes "ix_ok old"
  shows "distinct (map fst (departures old current))"
  unfolding departures_def
  by (rule distinct_candidates [OF removed_candidates_ok [OF assms]])
    (auto simp: candidate_removed [OF assms] split: option.splits if_splits)

subsection \<open>The renames\<close>

lemma possible_rename_Some:
  assumes "ix_ok old" and "ix_ok current" and "(i, paths) \<in> set (removed_candidates old current)"
    and "possible_rename old current (created_candidates old current) (i, paths) = Some c"
  shows "\<exists>e. ix_find old (rr_oldPath c) = Some e \<and> departed current (rr_oldPath c) e \<and> ip_identity e = i \<and>
      ip_isDirectory e = ip_isDirectory (rr_entry c)"
    and "ix_find current (rr_newPath c) = Some (rr_entry c)" and "ip_identity (rr_entry c) = i"
    and "ix_find old (rr_newPath c) = None"
proof -
  let ?created = "created_candidates old current"
  obtain oldPath oldEntry newPath newEntry where split: "paths = [(oldPath, oldEntry)]" "map_of ?created i = Some [(newPath, newEntry)]"
    and c: "c = \<lparr>rr_oldPath = oldPath, rr_newPath = newPath, rr_entry = newEntry\<rparr>"
    and free: "ix_find old newPath = None" and kind: "ip_isDirectory oldEntry = ip_isDirectory newEntry"
    using assms(4) by (auto simp: possible_rename_def split: list.splits option.splits prod.splits if_splits)
  have "map_of (removed_candidates old current) i = Some paths"
    using removed_candidates_ok [OF assms(1), of current] assms(3) by (simp add: candidates_ok_def um_ok_map_of)
  then have "candidate (removed_candidates old current) i oldPath = Some oldEntry" by (simp add: candidate_def split)
  then have old: "ix_find old oldPath = Some oldEntry" "departed current oldPath oldEntry" "ip_identity oldEntry = i"
    by (auto simp: candidate_removed [OF assms(1)] split: option.splits if_splits)
  have "candidate ?created i newPath = Some newEntry" by (simp add: candidate_def split)
  then have new: "ix_find current newPath = Some newEntry" "ip_identity newEntry = i"
    by (auto simp: created_candidates_def candidate_removed [OF assms(2)] split: option.splits if_splits)
  show "\<exists>e. ix_find old (rr_oldPath c) = Some e \<and> departed current (rr_oldPath c) e \<and> ip_identity e = i \<and>
      ip_isDirectory e = ip_isDirectory (rr_entry c)" using old kind by (simp add: c)
  show "ix_find current (rr_newPath c) = Some (rr_entry c)" "ip_identity (rr_entry c) = i" "ix_find old (rr_newPath c) = None"
    using new free by (simp_all add: c)
qed

text \<open>Accepting keeps the order, and never accepts what an earlier one covers.\<close>

lemma accept_renames_sub:
  assumes "sorted_wrt R (accepted @ cs)"
  shows "sorted_wrt R (accept_renames accepted cs)" and "set (accept_renames accepted cs) \<subseteq> set (accepted @ cs)"
  using assms by (induction accepted cs rule: accept_renames.induct) (auto simp: sorted_wrt_append)

lemma accept_renames_uncovered:
  "sorted_wrt (\<lambda>a c. \<not> covers a c) accepted \<Longrightarrow> sorted_wrt (\<lambda>a c. \<not> covers a c) (accept_renames accepted cs)"
  by (induction accepted cs rule: accept_renames.induct) (auto simp: sorted_wrt_append)

lemma distinct_accept_renames:
  "distinct (map f (accepted @ cs)) \<Longrightarrow> distinct (map f (accept_renames accepted cs))"
  by (induction accepted cs rule: accept_renames.induct) auto

definition rename_rank :: "reconciled_rename \<Rightarrow> bool \<times> nat" where
  "rename_rank c = (\<not> ip_isDirectory (rr_entry c), length (rr_oldPath c))"

lemma covers_rank: "covers a c \<Longrightarrow> rename_rank a < rename_rank c"
  by (cases "ip_isDirectory (rr_entry c)") (auto simp: covers_def rename_rank_def isDescendantPath_def)

definition accepted_renames :: "identity_index \<Rightarrow> identity_index \<Rightarrow> reconciled_rename list" where
  "accepted_renames old current =
     accept_renames [] (sort_renames
       (List.map_filter (possible_rename old current (created_candidates old current)) (removed_candidates old current)))"

lemma accepted_uncovered:
  assumes "a \<in> set (accepted_renames old current)" and "c \<in> set (accepted_renames old current)"
  shows "\<not> covers a c"
proof
  assume covered: "covers a c"
  let ?cs = "sort_renames (List.map_filter (possible_rename old current (created_candidates old current)) (removed_candidates old current))"
  have "sorted_wrt (\<lambda>a c. rename_rank a \<le> rename_rank c) ([] @ ?cs)"
    using sorted_sort_key [of rename_rank] by (simp add: sort_renames_def sorted_map rename_rank_def [abs_def])
  then have "sorted_wrt (\<lambda>a c. rename_rank a \<le> rename_rank c) (accepted_renames old current)"
    unfolding accepted_renames_def by (rule accept_renames_sub(1))
  moreover have "sorted_wrt (\<lambda>a c. \<not> covers a c) (accepted_renames old current)"
    unfolding accepted_renames_def by (rule accept_renames_uncovered) simp
  moreover obtain i j where "i < length (accepted_renames old current)" "a = accepted_renames old current ! i"
    "j < length (accepted_renames old current)" "c = accepted_renames old current ! j"
    using assms by (metis in_set_conv_nth)
  ultimately show False
    using covered covers_rank [OF covered] by (metis linorder_neqE_nat leD less_irrefl sorted_wrt_iff_nth_less)
qed

lemma accepted_possible:
  assumes "ix_ok old" and "ix_ok current" and "c \<in> set (accepted_renames old current)"
  shows "\<exists>e. ix_find old (rr_oldPath c) = Some e \<and> departed current (rr_oldPath c) e \<and>
      ip_identity e = ip_identity (rr_entry c) \<and> ip_isDirectory e = ip_isDirectory (rr_entry c)"
    and "ix_find current (rr_newPath c) = Some (rr_entry c)" and "ix_find old (rr_newPath c) = None"
proof -
  have "c \<in> set (List.map_filter (possible_rename old current (created_candidates old current)) (removed_candidates old current))"
    using assms(3) accept_renames_sub(2) [of "\<lambda>_ _. True" "[]"]
    by (force simp: accepted_renames_def sort_renames_def)
  then obtain i paths where "(i, paths) \<in> set (removed_candidates old current)"
    "possible_rename old current (created_candidates old current) (i, paths) = Some c"
    by (auto simp: List.map_filter_def)
  note facts = possible_rename_Some [OF assms(1,2) this]
  show "\<exists>e. ix_find old (rr_oldPath c) = Some e \<and> departed current (rr_oldPath c) e \<and>
      ip_identity e = ip_identity (rr_entry c) \<and> ip_isDirectory e = ip_isDirectory (rr_entry c)"
    using facts(1,3) by auto
  show "ix_find current (rr_newPath c) = Some (rr_entry c)" "ix_find old (rr_newPath c) = None"
    using facts(2,4) by auto
qed

text \<open>Every file and directory has one path, in each of the two trees.\<close>

definition single_paths :: "identity_index \<Rightarrow> bool" where
  "single_paths idx \<longleftrightarrow> (\<forall>p q a b. ix_find idx p = Some a \<longrightarrow> ix_find idx q = Some b \<longrightarrow> ip_identity a = ip_identity b \<longrightarrow> p = q)"

lemma single_pathsD:
  "single_paths idx \<Longrightarrow> ix_find idx p = Some a \<Longrightarrow> ix_find idx q = Some b \<Longrightarrow> ip_identity a = ip_identity b \<Longrightarrow> p = q"
  by (auto simp: single_paths_def)

lemma distinct_map_finer:
  "distinct (map f xs) \<Longrightarrow> (\<And>x y. x \<in> set xs \<Longrightarrow> y \<in> set xs \<Longrightarrow> g x = g y \<Longrightarrow> f x = f y) \<Longrightarrow> distinct (map g xs)"
  unfolding distinct_map inj_on_def by blast

lemma distinct_concat_map:
  "distinct xs \<Longrightarrow> (\<And>x. x \<in> set xs \<Longrightarrow> distinct (f x)) \<Longrightarrow>
    (\<And>x y. x \<in> set xs \<Longrightarrow> y \<in> set xs \<Longrightarrow> x \<noteq> y \<Longrightarrow> set (f x) \<inter> set (f y) = {}) \<Longrightarrow> distinct (concat (map f xs))"
proof (induction xs)
  case (Cons x xs)
  have "set (f x) \<inter> set (f y) = {}" if "y \<in> set xs" for y using Cons.prems(1,3) that by auto
  then have "set (f x) \<inter> set (concat (map f xs)) = {}" by (simp add: disjoint_iff)
  moreover have "distinct (concat (map f xs))" using Cons by simp
  ultimately show ?case using Cons.prems(2) [of x] by simp
qed simp

lemma distinct_map_filter_Some:
  assumes "distinct (map f xs)" and "\<And>x y. x \<in> set xs \<Longrightarrow> h x = Some y \<Longrightarrow> g y = f x"
  shows "distinct (map g (List.map_filter h xs))"
  using assms
proof (induction xs)
  case (Cons x xs)
  have "f x \<notin> g ` set (List.map_filter h xs)"
    using Cons.prems by (force simp: map_filter_def)
  moreover have "distinct (map g (List.map_filter h xs))" using Cons by simp
  moreover have "g y = f x" if "h x = Some y" for y using Cons.prems(2) [of x y] that by simp
  ultimately show ?case by (cases "h x") (simp_all add: map_filter_simps)
qed (simp add: map_filter_simps)

lemma in_map_filter: "y \<in> set (List.map_filter h xs) \<longleftrightarrow> (\<exists>x \<in> set xs. h x = Some y)"
  by (force simp: map_filter_def)

lemma distinct_accepted:
  assumes "ix_ok old" and "ix_ok current"
  shows "distinct (map rr_oldPath (accepted_renames old current))" and "distinct (map rr_newPath (accepted_renames old current))"
proof -
  let ?removed = "removed_candidates old current" and ?possible = "possible_rename old current (created_candidates old current)"
  have "distinct (map fst ?removed)" using removed_candidates_ok [OF assms(1)] by (simp add: candidates_ok_def um_ok_def)
  then have "distinct (map (\<lambda>c. ip_identity (rr_entry c)) (List.map_filter ?possible ?removed))"
    by (rule distinct_map_filter_Some) (use possible_rename_Some(3) [OF assms] in \<open>metis prod.collapse\<close>)
  then have "distinct (map (\<lambda>c. ip_identity (rr_entry c)) ([] @ sort_renames (List.map_filter ?possible ?removed)))"
    by (simp add: sort_renames_def distinct_map)
  then have ids: "distinct (map (\<lambda>c. ip_identity (rr_entry c)) (accepted_renames old current))"
    unfolding accepted_renames_def by (rule distinct_accept_renames)
  show "distinct (map rr_oldPath (accepted_renames old current))"
    by (rule distinct_map_finer [OF ids]) (metis accepted_possible(1) [OF assms] option.inject)
  show "distinct (map rr_newPath (accepted_renames old current))"
    by (rule distinct_map_finer [OF ids]) (metis accepted_possible(2) [OF assms] option.inject)
qed

lemma moved_below_iff:
  assumes "ix_ok old"
  shows "(p, q, e) \<in> set (moved_below current (removed_candidates old current) a) \<longleftrightarrow>
    ip_isDirectory (rr_entry a) \<and> ix_find old p = Some e \<and> departed current p e \<and> isDescendantPath p (rr_oldPath a) \<and>
    q = rr_newPath a @ drop (length (rr_oldPath a)) p \<and>
    (\<exists>e'. ix_find current q = Some e' \<and> ip_identity e' = ip_identity e \<and> ip_isDirectory e' = ip_isDirectory e)"
proof -
  have "(p, q, e) \<in> set (moved_below current (removed_candidates old current) a) \<longleftrightarrow>
      ip_isDirectory (rr_entry a) \<and> (p, e) \<in> set (departures old current) \<and> isDescendantPath p (rr_oldPath a) \<and>
      q = rr_newPath a @ drop (length (rr_oldPath a)) p \<and>
      (\<exists>e'. ix_find current q = Some e' \<and> ip_identity e' = ip_identity e \<and> ip_isDirectory e' = ip_isDirectory e)"
    by (auto simp: moved_below_def in_map_filter departures_def [symmetric] Let_def split: option.splits if_splits
        intro!: bexI [of _ "(p, e)"])
  then show ?thesis using set_departures [OF assms] by blast
qed

definition below_renames :: "identity_index \<Rightarrow> identity_index \<Rightarrow> (string \<times> string \<times> indexed_path) list" where
  "below_renames old current = concat (map (moved_below current (removed_candidates old current)) (accepted_renames old current))"

lemma nested_covers:
  assumes "isDescendantPath p a" and "isDescendantPath p b" and "length a < length b"
    and "x @ drop (length a) p = y @ drop (length b) p"
  shows "isDescendantPath b a \<and> y = x @ drop (length a) b"
proof -
  have b: "b = take (length b) p" "length b < length p" and a: "a = take (length a) p" "p ! length a = CHR ''/''"
    using assms(1,2) by (auto simp: isDescendantPath_def)
  have p: "p = b @ drop (length b) p" using b(1) by (metis append_take_drop_id)
  have "take (length a) b = a" "b ! length a = CHR ''/''"
    using a b assms(3) by (metis min.absorb1 less_imp_le take_take) (metis a(2) assms(3) b(1) nth_take)
  then have "isDescendantPath b a" using assms(3) by (simp add: isDescendantPath_def)
  moreover have "drop (length a) p = drop (length a) b @ drop (length b) p"
    using p assms(3) by (metis drop_append drop0 less_imp_le diff_is_0_eq)
  ultimately show ?thesis using assms(4) by simp
qed

lemma below_once:
  assumes ok: "ix_ok old" "ix_ok current" and single: "single_paths current"
    and a: "a \<in> set (accepted_renames old current)" "(p, q, e) \<in> set (moved_below current (removed_candidates old current) a)"
    and b: "b \<in> set (accepted_renames old current)" "(p, q', e') \<in> set (moved_below current (removed_candidates old current) b)"
  shows "a = b"
proof (rule ccontr)
  assume "a \<noteq> b"
  note A = a(2) [unfolded moved_below_iff [OF ok(1)]] and B = b(2) [unfolded moved_below_iff [OF ok(1)]]
  have "rr_oldPath a \<noteq> rr_oldPath b"
    using \<open>a \<noteq> b\<close> distinct_accepted(1) [OF ok] a(1) b(1) by (metis distinct_map inj_onD)
  moreover have "rr_oldPath a = take (length (rr_oldPath a)) p" "rr_oldPath b = take (length (rr_oldPath b)) p"
    using A B by (simp_all add: isDescendantPath_def)
  ultimately have lengths: "length (rr_oldPath a) \<noteq> length (rr_oldPath b)" by metis
  have "e = e'" using A B by simp
  moreover obtain x y where "ix_find current q = Some x" "ip_identity x = ip_identity e" "ix_find current q' = Some y" "ip_identity y = ip_identity e'"
    using A B by blast
  ultimately have "q = q'" using single_pathsD [OF single] by metis
  then have q: "rr_newPath a @ drop (length (rr_oldPath a)) p = rr_newPath b @ drop (length (rr_oldPath b)) p"
    using A B by simp
  have dirs: "ip_isDirectory (rr_entry a)" "ip_isDirectory (rr_entry b)" "isDescendantPath p (rr_oldPath a)" "isDescendantPath p (rr_oldPath b)"
    using A B by simp_all
  consider "length (rr_oldPath a) < length (rr_oldPath b)" | "length (rr_oldPath b) < length (rr_oldPath a)" using lengths by linarith
  then show False
  proof cases
    case 1
    then have "covers a b" using nested_covers [OF dirs(3,4) 1 q] dirs(1) by (simp add: covers_def)
    then show False using accepted_uncovered [OF a(1) b(1)] by simp
  next
    case 2
    then have "covers b a" using nested_covers [OF dirs(4,3) 2 q [symmetric]] dirs(2) by (simp add: covers_def)
    then show False using accepted_uncovered [OF b(1) a(1)] by simp
  qed
qed

lemma accepted_not_below:
  assumes ok: "ix_ok old" "ix_ok current" and single: "single_paths current"
    and "a \<in> set (accepted_renames old current)" "(p, q, e) \<in> set (moved_below current (removed_candidates old current) a)"
    and "c \<in> set (accepted_renames old current)"
  shows "rr_oldPath c \<noteq> p"
proof
  assume p: "rr_oldPath c = p"
  obtain e' where e': "ix_find current q = Some e'" "ip_identity e' = ip_identity e" using assms(5) by (auto simp: moved_below_iff [OF ok(1)])
  have "ip_identity (rr_entry c) = ip_identity e"
    using accepted_possible(1) [OF ok assms(6)] assms(5) p by (auto simp: moved_below_iff [OF ok(1)])
  then have "rr_newPath c = q" using single_pathsD [OF single accepted_possible(2) [OF ok assms(6)] e'(1)] e'(2) by simp
  then have "covers a c" using assms(5) p by (auto simp: moved_below_iff [OF ok(1)] covers_def)
  then show False using accepted_uncovered [OF assms(4,6)] by simp
qed

subsection \<open>The comparison as a sequence of changes\<close>

lemma fs_log_events [simp]: "fs_events (fs_log f st) = f (fs_events st)"
  by (simp add: fs_log_def)

lemma fs_rename_events [simp]:
  "fs_events (fs_rename p q k st) = el_rename (fs_events st) p q (sequence_id (fs_renameSequence st + 1)) k"
  by (simp add: fs_rename_def Let_def)

lemma fs_renames_changes:
  "\<exists>rs. map (\<lambda>(p, q, r, k). (p, q, k)) rs = xs \<and>
    fs_events (fold (\<lambda>(p, q, k). fs_rename p q k) xs st) = fold apply_change (map (\<lambda>(p, q, r, k). Renamed p q r k) rs) (fs_events st)"
proof (induction xs arbitrary: st)
  case Nil
  then show ?case by simp
next
  case (Cons x xs)
  obtain p q k where x: "x = (p, q, k)" by (metis surj_pair)
  let ?r = "sequence_id (fs_renameSequence st + 1)"
  obtain rs where "map (\<lambda>(p, q, r, k). (p, q, k)) rs = xs"
    "fs_events (fold (\<lambda>(p, q, k). fs_rename p q k) xs (fs_rename p q k st)) =
      fold apply_change (map (\<lambda>(p, q, r, k). Renamed p q r k) rs) (fs_events (fs_rename p q k st))"
    using Cons.IH [of "fs_rename p q k st"] by blast
  then show ?case by (intro exI [of _ "(p, q, ?r, k) # rs"]) (simp add: x)
qed

text \<open>What each of the four loops goes over.\<close>

definition moves_between :: "identity_index \<Rightarrow> identity_index \<Rightarrow> (string \<times> string \<times> entry_kind) list" where
  "moves_between old current =
     map (\<lambda>c. (rr_oldPath c, rr_newPath c, entryKind (ip_isDirectory (rr_entry c)))) (accepted_renames old current) @
     map (\<lambda>(p, q, e). (p, q, entryKind (ip_isDirectory e))) (below_renames old current)"

definition losses_between :: "identity_index \<Rightarrow> identity_index \<Rightarrow> (string \<times> entry_kind) list" where
  "losses_between old current =
     map (\<lambda>(p, e). (p, entryKind (ip_isDirectory e)))
       (filter (\<lambda>(p, e). p \<notin> fst ` set (moves_between old current) \<and>
          (ip_isDirectory e \<or> (case ix_find current p of None \<Rightarrow> True | Some r \<Rightarrow> ip_isDirectory r))) (departures old current))"

definition gains_between :: "identity_index \<Rightarrow> identity_index \<Rightarrow> (string \<times> entry_kind \<times> bool) list" where
  "gains_between old current =
     map (\<lambda>(p, e). (p, entryKind (ip_isDirectory e),
         \<not> ((case ix_find old p of None \<Rightarrow> False | Some b \<Rightarrow> \<not> ip_isDirectory b) \<and> \<not> ip_isDirectory e)))
       (filter (\<lambda>(p, e). p \<notin> (fst \<circ> snd) ` set (moves_between old current)) (departures current old))"

definition edits_between :: "identity_index \<Rightarrow> identity_index \<Rightarrow> string list" where
  "edits_between old current =
     map fst (filter (\<lambda>(p, e). case ix_find old p of None \<Rightarrow> False
        | Some b \<Rightarrow> ip_identity b = ip_identity e \<and> \<not> ip_isDirectory e \<and> ip_mtime b \<noteq> ip_mtime e) (ix_entries current))"

lemma fold_logs:
  assumes "\<And>x st. fs_events (step x st) = (case change x of None \<Rightarrow> fs_events st | Some c \<Rightarrow> apply_change c (fs_events st))"
  shows "fs_events (fold step xs st) = fold apply_change (List.map_filter change xs) (fs_events st)"
  by (induction xs arbitrary: st) (simp_all add: assms map_filter_simps split: option.split)

lemma map_filter_eq: "List.map_filter (\<lambda>x. if P x then Some (f x) else None) xs = map f (filter P xs)"
  by (induction xs) (simp_all add: map_filter_simps)

lemma report_removals_changes:
  "fs_events (report_removals current handled xs st) =
    fold apply_change (map (\<lambda>(p, k). Removed p k) (map (\<lambda>(p, e). (p, entryKind (ip_isDirectory e)))
      (filter (\<lambda>(p, e). p \<notin> set handled \<and>
        (ip_isDirectory e \<or> (case ix_find current p of None \<Rightarrow> True | Some r \<Rightarrow> ip_isDirectory r))) xs))) (fs_events st)"
proof -
  let ?lost = "\<lambda>(p, e). p \<notin> set handled \<and>
        (ip_isDirectory e \<or> (case ix_find current p of None \<Rightarrow> True | Some r \<Rightarrow> ip_isDirectory r))"
  have "fs_events (report_removals current handled xs st) =
      fold apply_change (List.map_filter (\<lambda>x. if ?lost x then Some (case x of (p, e) \<Rightarrow> Removed p (entryKind (ip_isDirectory e))) else None) xs) (fs_events st)"
    unfolding report_removals_def by (rule fold_logs) (simp split: prod.split)
  then show ?thesis unfolding map_filter_eq by (simp add: split_def o_def)
qed

lemma report_creations_changes:
  "fs_events (report_creations old handled xs st) =
    fold apply_change (map (\<lambda>(p, k, new). if new then change.Created p k else Updated p k)
      (map (\<lambda>(p, e). (p, entryKind (ip_isDirectory e),
         \<not> ((case ix_find old p of None \<Rightarrow> False | Some b \<Rightarrow> \<not> ip_isDirectory b) \<and> \<not> ip_isDirectory e)))
       (filter (\<lambda>(p, e). p \<notin> set handled) xs))) (fs_events st)"
proof -
  let ?replaced = "\<lambda>p e. (case ix_find old p of None \<Rightarrow> False | Some b \<Rightarrow> \<not> ip_isDirectory b) \<and> \<not> ip_isDirectory e"
  have events: "fs_events (report_creations old handled xs st) =
      fold apply_change (List.map_filter (\<lambda>x. if (case x of (p, e) \<Rightarrow> p \<notin> set handled)
        then Some (case x of (p, e) \<Rightarrow> if ?replaced p e then Updated p File else change.Created p (entryKind (ip_isDirectory e))) else None) xs)
        (fs_events st)"
    unfolding report_creations_def by (rule fold_logs) (simp split: prod.split)
  have step: "(\<lambda>x. case x of (p, e) \<Rightarrow> if ?replaced p e then Updated p File else change.Created p (entryKind (ip_isDirectory e))) =
      (\<lambda>(p, k, new). if new then change.Created p k else Updated p k) \<circ> (\<lambda>(p, e). (p, entryKind (ip_isDirectory e), \<not> ?replaced p e))"
    by (auto simp: fun_eq_iff entryKind_def)
  show ?thesis unfolding events map_filter_eq step map_map by (rule refl)
qed

lemma report_changes_changes:
  "fs_events (report_changes old xs st) =
    fold apply_change (map (\<lambda>p. Updated p File) (map fst (filter (\<lambda>(p, e). case ix_find old p of None \<Rightarrow> False
        | Some b \<Rightarrow> ip_identity b = ip_identity e \<and> \<not> ip_isDirectory e \<and> ip_mtime b \<noteq> ip_mtime e) xs))) (fs_events st)"
proof -
  let ?edited = "\<lambda>(p, e). case ix_find old p of None \<Rightarrow> False
        | Some b \<Rightarrow> ip_identity b = ip_identity e \<and> \<not> ip_isDirectory e \<and> ip_mtime b \<noteq> ip_mtime e"
  have "fs_events (report_changes old xs st) =
      fold apply_change (List.map_filter (\<lambda>x. if ?edited x then Some (Updated (fst x) File) else None) xs) (fs_events st)"
    unfolding report_changes_def by (rule fold_logs) (simp split: prod.split option.split)
  then show ?thesis unfolding map_filter_eq by (simp add: o_def)
qed


lemma report_difference_events:
  "fs_events (report_difference current st) =
    fold apply_change (map (\<lambda>p. Updated p File) (edits_between (fs_identities st) current))
      (fold apply_change (map (\<lambda>(p, k, new). if new then change.Created p k else Updated p k) (gains_between (fs_identities st) current))
        (fold apply_change (map (\<lambda>(p, k). Removed p k) (losses_between (fs_identities st) current))
          (fs_events (fold (\<lambda>(p, q, k). fs_rename p q k) (moves_between (fs_identities st) current) st))))"
proof -
  let ?old = "fs_identities st"
  let ?moves = "moves_between ?old current"
  have moved: "fold (\<lambda>(p, q, e). fs_rename p q (entryKind (ip_isDirectory e))) (below_renames ?old current)
        (fold (\<lambda>c. fs_rename (rr_oldPath c) (rr_newPath c) (entryKind (ip_isDirectory (rr_entry c)))) (accepted_renames ?old current) st) =
      fold (\<lambda>(p, q, k). fs_rename p q k) ?moves st"
    by (simp add: moves_between_def fold_map o_def split_def)
  have handled: "set (map rr_oldPath (accepted_renames ?old current) @ map fst (below_renames ?old current)) = fst ` set ?moves"
    "set (map rr_newPath (accepted_renames ?old current) @ map (fst \<circ> snd) (below_renames ?old current)) = (fst \<circ> snd) ` set ?moves"
    by (simp_all add: moves_between_def image_Un image_image split_def)
  have gone: "concat (map snd (removed_candidates ?old current)) = departures ?old current"
    and new: "concat (map snd (created_candidates ?old current)) = departures current ?old"
    by (simp_all add: departures_def created_candidates_def)
  show ?thesis
    unfolding report_difference_def Let_def report_changes_changes report_creations_changes report_removals_changes
      accepted_renames_def [symmetric] below_renames_def [symmetric] moved handled gone new
      edits_between_def gains_between_def losses_between_def by (rule refl)
qed

lemma report_difference_changes:
  obtains rs where "map (\<lambda>(p, q, r, k). (p, q, k)) rs = moves_between (fs_identities st) current"
    and "fs_events (report_difference current st) =
      fold apply_change (map (\<lambda>(p, q, r, k). Renamed p q r k) rs @
        map (\<lambda>(p, k). Removed p k) (losses_between (fs_identities st) current) @
        map (\<lambda>(p, k, new). if new then change.Created p k else Updated p k) (gains_between (fs_identities st) current) @
        map (\<lambda>p. Updated p File) (edits_between (fs_identities st) current)) (fs_events st)"
proof -
  let ?moves = "moves_between (fs_identities st) current"
  obtain rs where rs: "map (\<lambda>(p, q, r, k). (p, q, k)) rs = ?moves"
    "fs_events (fold (\<lambda>(p, q, k). fs_rename p q k) ?moves st) = fold apply_change (map (\<lambda>(p, q, r, k). Renamed p q r k) rs) (fs_events st)"
    using fs_renames_changes by blast
  show thesis
    by (rule that [OF rs(1)]) (simp only: report_difference_events rs(2) fold_append o_apply)
qed

subsection \<open>Two trees that can be compared\<close>

definition kinds_in :: "identity_index \<Rightarrow> entry_set" where
  "kinds_in idx = (\<lambda>(p, k). case ix_find idx p of None \<Rightarrow> False | Some e \<Rightarrow> entryKind (ip_isDirectory e) = k)"

text \<open>
  Every file and directory has one path, none changes into the other kind, the file that takes the place of another
  does so for good, and what is below a path found in both trees has been there only with the path itself.
\<close>

definition comparable :: "identity_index \<Rightarrow> identity_index \<Rightarrow> bool" where
  "comparable old current \<longleftrightarrow> single_paths old \<and> single_paths current \<and>
     (\<forall>p q a b. ix_find old p = Some a \<longrightarrow> ix_find current q = Some b \<longrightarrow> ip_identity a = ip_identity b \<longrightarrow>
        ip_isDirectory a = ip_isDirectory b) \<and>
     (\<forall>p q a b c. ix_find old p = Some a \<longrightarrow> ix_find current p = Some b \<longrightarrow> ix_find current q = Some c \<longrightarrow>
        \<not> ip_isDirectory a \<longrightarrow> \<not> ip_isDirectory b \<longrightarrow> ip_identity a \<noteq> ip_identity b \<longrightarrow> ip_identity c \<noteq> ip_identity a) \<and>
     (\<forall>p q. ix_find old p \<noteq> None \<longrightarrow> isDescendantPath p q \<longrightarrow> ix_find current q \<noteq> None \<longrightarrow> ix_find old q \<noteq> None)"

lemma comparableD:
  assumes "comparable old current"
  shows "single_paths old" and "single_paths current"
    and "ix_find old p = Some a \<Longrightarrow> ix_find current q = Some b \<Longrightarrow> ip_identity a = ip_identity b \<Longrightarrow> ip_isDirectory a = ip_isDirectory b"
    and "ix_find old p = Some a \<Longrightarrow> ix_find current p = Some b \<Longrightarrow> ix_find current q = Some c \<Longrightarrow>
        \<not> ip_isDirectory a \<Longrightarrow> \<not> ip_isDirectory b \<Longrightarrow> ip_identity a \<noteq> ip_identity b \<Longrightarrow> ip_identity c \<noteq> ip_identity a"
    and "ix_find old p \<noteq> None \<Longrightarrow> isDescendantPath p q \<Longrightarrow> ix_find current q \<noteq> None \<Longrightarrow> ix_find old q \<noteq> None"
  using assms unfolding comparable_def by blast+

text \<open>What a comparison has to report.\<close>

definition differs_at :: "identity_index \<Rightarrow> identity_index \<Rightarrow> event_key \<Rightarrow> bool" where
  "differs_at old current = (\<lambda>(p, k). kinds_in old (p, k) \<noteq> kinds_in current (p, k) \<or>
     (\<exists>a b. ix_find old p = Some a \<and> ix_find current p = Some b \<and> entryKind (ip_isDirectory a) = k \<and> entryKind (ip_isDirectory b) = k \<and>
        (ip_identity a \<noteq> ip_identity b \<or> k = File \<and> ip_mtime a \<noteq> ip_mtime b)))"

lemma set_moves:
  assumes ok: "ix_ok old" "ix_ok current" and comparable: "comparable old current" and move: "(p, q, k) \<in> set (moves_between old current)"
  obtains a b where "ix_find old p = Some a" "departed current p a" "ix_find current q = Some b" "ix_find old q = None"
    "ip_identity a = ip_identity b" "entryKind (ip_isDirectory a) = k" "entryKind (ip_isDirectory b) = k"
proof -
  consider c where "c \<in> set (accepted_renames old current)" "p = rr_oldPath c" "q = rr_newPath c" "k = entryKind (ip_isDirectory (rr_entry c))"
    | e where "(p, q, e) \<in> set (below_renames old current)" "k = entryKind (ip_isDirectory e)"
    using move by (auto simp: moves_between_def)
  then show thesis
  proof cases
    case 1
    obtain a where "ix_find old p = Some a" "departed current p a" "ip_identity a = ip_identity (rr_entry c)"
      "ip_isDirectory a = ip_isDirectory (rr_entry c)" using accepted_possible(1) [OF ok 1(1)] 1(2) by blast
    moreover note accepted_possible(2,3) [OF ok 1(1), folded 1(3)]
    ultimately show thesis by (intro that [of a "rr_entry c"]) (simp_all only: 1(4))
  next
    case 2
    then obtain c where c: "c \<in> set (accepted_renames old current)" "(p, q, e) \<in> set (moved_below current (removed_candidates old current) c)"
      by (auto simp: below_renames_def)
    note M = c(2) [unfolded moved_below_iff [OF ok(1)]]
    then obtain e' where e': "ix_find current q = Some e'" "ip_identity e' = ip_identity e" "ip_isDirectory e' = ip_isDirectory e" by blast
    have "isDescendantPath q (rr_newPath c)" using M by (auto simp: isDescendantPath_def nth_append)
    then have "ix_find old q = None"
      using comparableD(5) [OF comparable, of q "rr_newPath c"] \<open>isDescendantPath q (rr_newPath c)\<close> accepted_possible(2,3) [OF ok c(1)] by (metis option.distinct(1))
    then show thesis using that [of e e'] M e' 2(2) by simp
  qed
qed

lemma distinct_moves:
  assumes ok: "ix_ok old" "ix_ok current" and comparable: "comparable old current"
  shows "distinct (map (\<lambda>(p, q, k). p) (moves_between old current))" and "distinct (map (\<lambda>(p, q, k). q) (moves_between old current))"
proof -
  note single = comparableD(1,2) [OF comparable]
  have each: "distinct (map fst (moved_below current (removed_candidates old current) a))" for a
    unfolding moved_below_def Let_def departures_def [symmetric]
    by (auto intro!: distinct_map_filter_Some [OF distinct_departures [OF ok(1)]] split: option.splits if_splits)
  have "distinct (accepted_renames old current)" using distinct_accepted(1) [OF ok] by (simp add: distinct_map)
  then have "distinct (concat (map (\<lambda>a. map fst (moved_below current (removed_candidates old current) a)) (accepted_renames old current)))"
    by (rule distinct_concat_map) (use each below_once [OF ok single(2)] in \<open>fastforce+\<close>)
  then have "distinct (map fst (below_renames old current))" by (simp add: below_renames_def map_concat o_def)
  moreover have "rr_oldPath ` set (accepted_renames old current) \<inter> fst ` set (below_renames old current) = {}"
    using accepted_not_below [OF ok single(2)] by (fastforce simp: below_renames_def)
  ultimately show sources: "distinct (map (\<lambda>(p, q, k). p) (moves_between old current))"
    using distinct_accepted(1) [OF ok] by (simp add: moves_between_def o_def split_def)
  show "distinct (map (\<lambda>(p, q, k). q) (moves_between old current))"
  proof (rule distinct_map_finer [OF sources])
    fix x y
    assume moves: "x \<in> set (moves_between old current)" "y \<in> set (moves_between old current)"
      and same: "(case x of (p, q, k) \<Rightarrow> q) = (case y of (p, q, k) \<Rightarrow> q)"
    obtain p q k where x: "x = (p, q, k)" by (metis surj_pair)
    obtain p' k' where y: "y = (p', q, k')" using same x by (cases y) simp
    obtain a b where a: "ix_find old p = Some a" "ix_find current q = Some b" "ip_identity a = ip_identity b"
      using set_moves [OF ok comparable moves(1) [unfolded x]] by metis
    obtain a' b' where a': "ix_find old p' = Some a'" "ix_find current q = Some b'" "ip_identity a' = ip_identity b'"
      using set_moves [OF ok comparable moves(2) [unfolded y]] by metis
    have "p = p'" using single_pathsD [OF single(1) a(1) a'(1)] a(2,3) a'(2,3) by simp
    then show "(case x of (p, q, k) \<Rightarrow> p) = (case y of (p, q, k) \<Rightarrow> p)" by (simp add: x y)
  qed
qed


subsection \<open>The net difference\<close>

lemma kinds_in_iff: "kinds_in idx (p, k) \<longleftrightarrow> (\<exists>e. ix_find idx p = Some e \<and> entryKind (ip_isDirectory e) = k)"
  by (simp add: kinds_in_def split: option.split)

lemma entryKind_eq [simp]: "entryKind a = entryKind b \<longleftrightarrow> a = b" "entryKind a = File \<longleftrightarrow> \<not> a"
  by (simp_all add: entryKind_def)

abbreviation both_files :: "indexed_path \<Rightarrow> indexed_path \<Rightarrow> bool" where
  "both_files a b \<equiv> \<not> ip_isDirectory a \<and> \<not> ip_isDirectory b"

abbreviation move_sources :: "identity_index \<Rightarrow> identity_index \<Rightarrow> event_key set" where
  "move_sources old current \<equiv> (\<lambda>(p, q, k). (p, k)) ` set (moves_between old current)"

abbreviation move_targets :: "identity_index \<Rightarrow> identity_index \<Rightarrow> event_key set" where
  "move_targets old current \<equiv> (\<lambda>(p, q, k). (q, k)) ` set (moves_between old current)"

abbreviation gained :: "identity_index \<Rightarrow> identity_index \<Rightarrow> event_key set" where
  "gained old current \<equiv> (\<lambda>(p, k, new). (p, k)) ` set (gains_between old current)"

lemma in_losses:
  assumes "ix_ok old"
  shows "(p, k) \<in> set (losses_between old current) \<longleftrightarrow> (\<exists>e. ix_find old p = Some e \<and> entryKind (ip_isDirectory e) = k \<and>
    departed current p e \<and> p \<notin> fst ` set (moves_between old current) \<and>
    (ip_isDirectory e \<or> (case ix_find current p of None \<Rightarrow> True | Some r \<Rightarrow> ip_isDirectory r)))"
  unfolding losses_between_def using set_departures [OF assms] by (force simp: image_iff)

lemma in_gains:
  assumes "ix_ok current"
  shows "(p, k, new) \<in> set (gains_between old current) \<longleftrightarrow> (\<exists>e. ix_find current p = Some e \<and> entryKind (ip_isDirectory e) = k \<and>
    departed old p e \<and> p \<notin> (fst \<circ> snd) ` set (moves_between old current) \<and>
    new = (\<not> ((case ix_find old p of None \<Rightarrow> False | Some b \<Rightarrow> \<not> ip_isDirectory b) \<and> \<not> ip_isDirectory e)))"
  unfolding gains_between_def using set_departures [OF assms] by (force simp: image_iff)

lemma in_edits:
  assumes "ix_ok current"
  shows "p \<in> set (edits_between old current) \<longleftrightarrow> (\<exists>a b. ix_find old p = Some a \<and> ix_find current p = Some b \<and>
    ip_identity a = ip_identity b \<and> \<not> ip_isDirectory b \<and> ip_mtime a \<noteq> ip_mtime b)"
proof -
  have entries: "(p, e) \<in> set (ix_entries current) \<longleftrightarrow> ix_find current p = Some e" for e
    using um_ok_map_of [OF ix_okD(1) [OF assms]] by (simp add: ix_entries_def ix_find_def)
  have member: "p \<in> set (map fst (filter P xs)) \<longleftrightarrow> (\<exists>e. (p, e) \<in> set xs \<and> P (p, e))" for P and xs :: "(string \<times> indexed_path) list"
    by force
  show ?thesis unfolding edits_between_def member entries by (auto split: option.splits)
qed

lemma distinct_losses: "ix_ok old \<Longrightarrow> distinct (losses_between old current)"
  unfolding losses_between_def
  by (rule distinct_map_finer [OF distinct_map_filter [OF distinct_departures]]) auto

lemma distinct_gains: "ix_ok current \<Longrightarrow> distinct (map (\<lambda>(p, k, new). (p, k)) (gains_between old current))"
  unfolding gains_between_def map_map
  by (rule distinct_map_finer [OF distinct_map_filter [OF distinct_departures]]) auto


lemma in_sources:
  assumes "ix_ok old" and "ix_ok current" and "comparable old current"
  shows "(p, k) \<in> move_sources old current \<longleftrightarrow> p \<in> fst ` set (moves_between old current) \<and> kinds_in old (p, k)"
    and "p \<in> fst ` set (moves_between old current) \<Longrightarrow>
      \<exists>a b q. ix_find old p = Some a \<and> departed current p a \<and> ix_find current q = Some b \<and> ip_identity a = ip_identity b"
proof -
  have facts: "\<exists>a b. ix_find old p = Some a \<and> departed current p a \<and> ix_find current q = Some b \<and> ip_identity a = ip_identity b \<and>
      entryKind (ip_isDirectory a) = k" if "(p, q, k) \<in> set (moves_between old current)" for q k
    using set_moves [OF assms that] by metis
  show "\<exists>a b q. ix_find old p = Some a \<and> departed current p a \<and> ix_find current q = Some b \<and> ip_identity a = ip_identity b"
    if "p \<in> fst ` set (moves_between old current)" using that facts by force
  show "(p, k) \<in> move_sources old current \<longleftrightarrow> p \<in> fst ` set (moves_between old current) \<and> kinds_in old (p, k)"
  proof
    assume "(p, k) \<in> move_sources old current"
    then obtain q where "(p, q, k) \<in> set (moves_between old current)" by auto
    with facts [OF this] show "p \<in> fst ` set (moves_between old current) \<and> kinds_in old (p, k)" by (force simp: kinds_in_iff)
  next
    assume "p \<in> fst ` set (moves_between old current) \<and> kinds_in old (p, k)"
    then obtain q k' where move: "(p, q, k') \<in> set (moves_between old current)" and "kinds_in old (p, k)" by auto
    then have "k' = k" using facts [OF move] by (auto simp: kinds_in_iff)
    then show "(p, k) \<in> move_sources old current" using move by force
  qed
qed

lemma in_targets:
  assumes "ix_ok old" and "ix_ok current" and "comparable old current"
  shows "(q, k) \<in> move_targets old current \<longleftrightarrow> q \<in> (fst \<circ> snd) ` set (moves_between old current) \<and> kinds_in current (q, k)"
    and "q \<in> (fst \<circ> snd) ` set (moves_between old current) \<Longrightarrow> ix_find old q = None"
proof -
  have facts: "ix_find old q = None \<and> kinds_in current (q, k)" if "(p, q, k) \<in> set (moves_between old current)" for p k
    using set_moves [OF assms that] by (metis kinds_in_iff)
  show "ix_find old q = None" if "q \<in> (fst \<circ> snd) ` set (moves_between old current)" using that facts by force
  show "(q, k) \<in> move_targets old current \<longleftrightarrow> q \<in> (fst \<circ> snd) ` set (moves_between old current) \<and> kinds_in current (q, k)"
  proof
    assume "(q, k) \<in> move_targets old current"
    then obtain p where "(p, q, k) \<in> set (moves_between old current)" by auto
    with facts [OF this] show "q \<in> (fst \<circ> snd) ` set (moves_between old current) \<and> kinds_in current (q, k)" by (force simp: image_iff)
  next
    assume "q \<in> (fst \<circ> snd) ` set (moves_between old current) \<and> kinds_in current (q, k)"
    then obtain p k' where move: "(p, q, k') \<in> set (moves_between old current)" and "kinds_in current (q, k)" by auto
    then have "k' = k" using facts [OF move] by (auto simp: kinds_in_iff)
    then show "(q, k) \<in> move_targets old current" using move by force
  qed
qed

text \<open>A file in whose place another one is found is not moved, and not reported as removed.\<close>

lemma replaced_file_stays:
  assumes "ix_ok old" and "ix_ok current" and "comparable old current"
    and "ix_find old p = Some a" and "ix_find current p = Some b" and "both_files a b"
  shows "p \<notin> fst ` set (moves_between old current)"
proof
  assume "p \<in> fst ` set (moves_between old current)"
  then obtain c q where "departed current p a" "ix_find current q = Some c" "ip_identity a = ip_identity c"
    using in_sources(2) [OF assms(1-3)] assms(4) by fastforce
  then show False using comparableD(4) [OF assms(3-5), of q c] assms(5,6) by (simp add: departed_def)
qed

text \<open>The four sets in terms of the entries before and after.\<close>

lemma keys_at:
  assumes ok: "ix_ok old" "ix_ok current" and comparable: "comparable old current"
  shows "(p, k) \<in> set (losses_between old current) \<longleftrightarrow> (\<exists>a. ix_find old p = Some a \<and> entryKind (ip_isDirectory a) = k \<and>
      departed current p a \<and> (p, k) \<notin> move_sources old current \<and> \<not> (\<exists>b. ix_find current p = Some b \<and> both_files a b))"
    and "(p, k) \<in> gained old current \<longleftrightarrow> (\<exists>b. ix_find current p = Some b \<and> entryKind (ip_isDirectory b) = k \<and>
      departed old p b \<and> (p, k) \<notin> move_targets old current)"
proof -
  show "(p, k) \<in> set (losses_between old current) \<longleftrightarrow> (\<exists>a. ix_find old p = Some a \<and> entryKind (ip_isDirectory a) = k \<and>
      departed current p a \<and> (p, k) \<notin> move_sources old current \<and> \<not> (\<exists>b. ix_find current p = Some b \<and> both_files a b))"
    unfolding in_losses [OF ok(1)] in_sources(1) [OF ok comparable] kinds_in_iff by (auto split: option.splits)
  have "(p, k) \<in> gained old current \<longleftrightarrow> (\<exists>new. (p, k, new) \<in> set (gains_between old current))" by force
  then show "(p, k) \<in> gained old current \<longleftrightarrow> (\<exists>b. ix_find current p = Some b \<and> entryKind (ip_isDirectory b) = k \<and>
      departed old p b \<and> (p, k) \<notin> move_targets old current)"
    unfolding in_gains [OF ok(2)] in_targets(1) [OF ok comparable] kinds_in_iff by auto
qed

definition after_losses :: "identity_index \<Rightarrow> identity_index \<Rightarrow> entry_set" where
  "after_losses old current = (\<lambda>x. (kinds_in old x \<and> x \<notin> move_sources old current \<or> x \<in> move_targets old current) \<and>
     x \<notin> set (losses_between old current))"

lemma after_losses_iff:
  assumes ok: "ix_ok old" "ix_ok current" and comparable: "comparable old current"
  shows "after_losses old current (p, k) \<longleftrightarrow> (p, k) \<in> move_targets old current \<or>
    (\<exists>a b. ix_find old p = Some a \<and> ix_find current p = Some b \<and> entryKind (ip_isDirectory a) = k \<and>
      entryKind (ip_isDirectory b) = k \<and> (ip_identity a = ip_identity b \<or> both_files a b))"
proof (cases "ix_find old p")
  case None
  then show ?thesis by (auto simp: after_losses_def kinds_in_iff keys_at(1) [OF ok comparable])
next
  case (Some a)
  then have target: "(p, k) \<notin> move_targets old current" using in_targets(1) [OF ok comparable, of p k] in_targets(2) [OF ok comparable, of p] by auto
  have same: "ix_find current p = Some b \<Longrightarrow> ip_identity a = ip_identity b \<Longrightarrow> ip_isDirectory a = ip_isDirectory b" for b
    using comparableD(3) [OF comparable Some] by blast
  have stays: "(p, k) \<notin> move_sources old current" if b: "ix_find current p = Some b" "both_files a b \<or> ip_identity a = ip_identity b" for b
  proof -
    have "p \<notin> fst ` set (moves_between old current)"
    proof
      assume moved: "p \<in> fst ` set (moves_between old current)"
      then have "ip_identity a \<noteq> ip_identity b" using in_sources(2) [OF ok comparable moved] Some b(1) by (auto simp: departed_def)
      then show False using replaced_file_stays [OF ok comparable Some b(1)] b(2) moved by blast
    qed
    then show ?thesis unfolding in_sources(1) [OF ok comparable] by blast
  qed
  show ?thesis
  proof (cases "ix_find current p")
    case None
    then show ?thesis using Some target by (auto simp: after_losses_def kinds_in_iff keys_at(1) [OF ok comparable] departed_def)
  next
    case (Some b)
    have "(p, k) \<in> set (losses_between old current) \<longleftrightarrow> entryKind (ip_isDirectory a) = k \<and> ip_identity a \<noteq> ip_identity b \<and>
        (p, k) \<notin> move_sources old current \<and> \<not> both_files a b"
      unfolding keys_at(1) [OF ok comparable] using \<open>ix_find old p = Some a\<close> Some by (auto simp: departed_def)
    moreover have "after_losses old current (p, k) \<longleftrightarrow>
        entryKind (ip_isDirectory a) = k \<and> (p, k) \<notin> move_sources old current \<and> (p, k) \<notin> set (losses_between old current)"
      using target by (simp add: after_losses_def kinds_in_iff \<open>ix_find old p = Some a\<close>)
    moreover have "(\<exists>a b. ix_find old p = Some a \<and> ix_find current p = Some b \<and> entryKind (ip_isDirectory a) = k \<and>
        entryKind (ip_isDirectory b) = k \<and> (ip_identity a = ip_identity b \<or> both_files a b)) \<longleftrightarrow>
        entryKind (ip_isDirectory a) = k \<and> (ip_identity a = ip_identity b \<or> both_files a b)"
      using same [OF Some] by (auto simp: \<open>ix_find old p = Some a\<close> Some)
    ultimately show ?thesis using target stays [OF Some] by blast
  qed
qed


lemma gains_after_losses:
  assumes ok: "ix_ok old" "ix_ok current" and comparable: "comparable old current" and gain: "(p, k, new) \<in> set (gains_between old current)"
  shows "after_losses old current (p, k) \<longleftrightarrow> \<not> new"
proof -
  obtain b where b: "ix_find current p = Some b" "entryKind (ip_isDirectory b) = k" "departed old p b"
    and fresh: "(p, k) \<notin> move_targets old current"
    and new: "new = (\<not> ((case ix_find old p of None \<Rightarrow> False | Some a \<Rightarrow> \<not> ip_isDirectory a) \<and> \<not> ip_isDirectory b))"
    using gain [unfolded in_gains [OF ok(2)]] unfolding in_targets(1) [OF ok comparable] by blast
  show ?thesis
  proof (cases "ix_find old p")
    case None
    then show ?thesis using fresh new unfolding after_losses_iff [OF ok comparable] by simp
  next
    case (Some a)
    have "ip_identity b \<noteq> ip_identity a" using b(3) Some by (simp add: departed_def)
    then show ?thesis using fresh new b(1,2) Some unfolding after_losses_iff [OF ok comparable] by (auto simp: Some)
  qed
qed

lemma after_gains:
  assumes ok: "ix_ok old" "ix_ok current" and comparable: "comparable old current"
  shows "(\<lambda>x. after_losses old current x \<or> x \<in> gained old current) = kinds_in current"
proof (rule ext, clarify)
  fix p k
  show "(after_losses old current (p, k) \<or> (p, k) \<in> gained old current) = kinds_in current (p, k)"
  proof (cases "ix_find current p")
    case None
    then show ?thesis
      unfolding after_losses_iff [OF ok comparable] keys_at(2) [OF ok comparable] kinds_in_iff in_targets(1) [OF ok comparable] by simp
  next
    case (Some b)
    define T where "T \<longleftrightarrow> (p, k) \<in> move_targets old current"
    have "T \<Longrightarrow> entryKind (ip_isDirectory b) = k"
      using Some unfolding T_def in_targets(1) [OF ok comparable] kinds_in_iff by simp
    moreover have "departed old p b \<or> (\<exists>a. ix_find old p = Some a \<and> ip_identity a = ip_identity b \<and> ip_isDirectory a = ip_isDirectory b)"
      using comparableD(3) [OF comparable _ Some, of p] by (fastforce simp: departed_def split: option.split)
    ultimately show ?thesis
      unfolding after_losses_iff [OF ok comparable] keys_at(2) [OF ok comparable] kinds_in_iff T_def [symmetric] by (auto simp: Some)
  qed
qed

lemma changed_keys:
  assumes ok: "ix_ok old" "ix_ok current" and comparable: "comparable old current"
  shows "move_sources old current \<union> move_targets old current \<union> set (losses_between old current) \<union> gained old current \<union>
    (\<lambda>p. (p, File)) ` set (edits_between old current) = {x. differs_at old current x}"
proof (rule set_eqI, clarify)
  fix p k
  define S where "S \<longleftrightarrow> (p, k) \<in> move_sources old current"
  define T where "T \<longleftrightarrow> (p, k) \<in> move_targets old current"
  have S: "S \<Longrightarrow> \<exists>a. ix_find old p = Some a \<and> entryKind (ip_isDirectory a) = k \<and> departed current p a"
    using in_sources [OF ok comparable] unfolding S_def kinds_in_iff by (metis option.inject)
  have T: "T \<Longrightarrow> ix_find old p = None \<and> (\<exists>b. ix_find current p = Some b \<and> entryKind (ip_isDirectory b) = k)"
    using in_targets [OF ok comparable] unfolding T_def kinds_in_iff by metis
  have E: "(p, k) \<in> (\<lambda>p. (p, File)) ` set (edits_between old current) \<longleftrightarrow> k = File \<and> (\<exists>a b. ix_find old p = Some a \<and> ix_find current p = Some b \<and>
      ip_identity a = ip_identity b \<and> \<not> ip_isDirectory b \<and> ip_mtime a \<noteq> ip_mtime b)"
    using in_edits [OF ok(2), of p old] by auto
  have same: "ix_find old p = Some a \<Longrightarrow> ix_find current p = Some b \<Longrightarrow> ip_identity a = ip_identity b \<Longrightarrow>
      ip_isDirectory a = ip_isDirectory b" for a b using comparableD(3) [OF comparable] .
  show "(p, k) \<in> move_sources old current \<union> move_targets old current \<union> set (losses_between old current) \<union> gained old current \<union>
    (\<lambda>p. (p, File)) ` set (edits_between old current) \<longleftrightarrow> (p, k) \<in> {x. differs_at old current x}"
    unfolding Un_iff keys_at [OF ok comparable] E S_def [symmetric] T_def [symmetric] mem_Collect_eq differs_at_def prod.case kinds_in_iff
  proof (cases "ix_find old p"; cases "ix_find current p")
    fix a b
    assume a: "ix_find old p = Some a" and b: "ix_find current p = Some b"
    show "((((S \<or> T) \<or> (\<exists>a. ix_find old p = Some a \<and> entryKind (ip_isDirectory a) = k \<and>
        departed current p a \<and> \<not> S \<and> \<not> (\<exists>b. ix_find current p = Some b \<and> both_files a b))) \<or>
        (\<exists>b. ix_find current p = Some b \<and> entryKind (ip_isDirectory b) = k \<and> departed old p b \<and> \<not> T)) \<or>
        k = File \<and> (\<exists>a b. ix_find old p = Some a \<and> ix_find current p = Some b \<and>
          ip_identity a = ip_identity b \<and> \<not> ip_isDirectory b \<and> ip_mtime a \<noteq> ip_mtime b)) \<longleftrightarrow>
      (\<exists>e. ix_find old p = Some e \<and> entryKind (ip_isDirectory e) = k) \<noteq> (\<exists>e. ix_find current p = Some e \<and> entryKind (ip_isDirectory e) = k) \<or>
      (\<exists>a b. ix_find old p = Some a \<and> ix_find current p = Some b \<and> entryKind (ip_isDirectory a) = k \<and> entryKind (ip_isDirectory b) = k \<and>
        (ip_identity a \<noteq> ip_identity b \<or> k = File \<and> ip_mtime a \<noteq> ip_mtime b))"
      using S T same [OF a b] by (cases k) (auto simp: a b departed_def entryKind_def split: if_splits)
  qed (use S T in \<open>auto simp: departed_def\<close>)
qed


lemma entries_of_changes:
  "\<Union>(entries_of ` set (map (\<lambda>(p, q, r, k). Renamed p q r k) rs)) = (\<lambda>(p, q, r, k). (p, k)) ` set rs \<union> (\<lambda>(p, q, r, k). (q, k)) ` set rs"
  "\<Union>(entries_of ` set (map (\<lambda>(p, k). Removed p k) ls)) = set ls"
  "\<Union>(entries_of ` set (map (\<lambda>(p, k, new). if new then change.Created p k else Updated p k) gs)) = (\<lambda>(p, k, new). (p, k)) ` set gs"
  "\<Union>(entries_of ` set (map (\<lambda>p. Updated p File) es)) = (\<lambda>p. (p, File)) ` set es"
  by (induction rs, auto) (induction ls, auto, induction gs, auto split: if_splits)

lemma report_difference_tracks:
  assumes ok: "ix_ok (fs_identities st)" "ix_ok current" and comparable: "comparable (fs_identities st) current"
    and tracked: "tracks base (kinds_in (fs_identities st)) t (fs_events st)"
  shows "tracks base (kinds_in current) ({x. differs_at (fs_identities st) current x} \<union> t) (fs_events (report_difference current st))"
proof -
  let ?old = "fs_identities st"
  obtain rs where rs: "map (\<lambda>(p, q, r, k). (p, q, k)) rs = moves_between ?old current"
    and events: "fs_events (report_difference current st) =
      fold apply_change (map (\<lambda>(p, q, r, k). Renamed p q r k) rs @
        map (\<lambda>(p, k). Removed p k) (losses_between ?old current) @
        map (\<lambda>(p, k, new). if new then change.Created p k else Updated p k) (gains_between ?old current) @
        map (\<lambda>p. Updated p File) (edits_between ?old current)) (fs_events st)"
    by (rule report_difference_changes)
  have sources: "(\<lambda>(p, q, r, k). (p, k)) ` set rs = move_sources ?old current"
    and targets: "(\<lambda>(p, q, r, k). (q, k)) ` set rs = move_targets ?old current"
    by (simp_all flip: rs add: image_image split_def)
  have distinct: "distinct (map (\<lambda>(p, q, r, k). (p, k)) rs)" "distinct (map (\<lambda>(p, q, r, k). (q, k)) rs)"
    by (rule distinct_map_finer [OF distinct_moves(1) [OF ok comparable, folded rs, unfolded map_map]], auto)
      (rule distinct_map_finer [OF distinct_moves(2) [OF ok comparable, folded rs, unfolded map_map]], auto)
  have place: "kinds_in ?old (p, k) \<and> \<not> kinds_in ?old (q, k)" if "(p, q, r, k) \<in> set rs" for p q r k
  proof -
    have "(p, q, k) \<in> set (moves_between ?old current)" using that by (force simp flip: rs)
    from set_moves [OF ok comparable this] show ?thesis unfolding kinds_in_iff by (metis option.distinct(1))
  qed
  define now1 where "now1 = (\<lambda>x. kinds_in ?old x \<and> x \<notin> move_sources ?old current \<or> x \<in> move_targets ?old current)"
  have moved: "possible_all (kinds_in ?old) (map (\<lambda>(p, q, r, k). Renamed p q r k) rs)"
    "fold entries_after (map (\<lambda>(p, q, r, k). Renamed p q r k) rs) (kinds_in ?old) = now1"
    using renames_possible [where now = "kinds_in ?old", OF distinct] place unfolding sources targets now1_def by blast+
  have "now1 (p, k)" if "(p, k) \<in> set (losses_between ?old current)" for p k
    using that unfolding keys_at(1) [OF ok comparable] now1_def kinds_in_iff by blast
  from removals_possible [where now = now1, OF distinct_losses [OF ok(1)] this]
  have lost: "possible_all now1 (map (\<lambda>(p, k). Removed p k) (losses_between ?old current))"
    "fold entries_after (map (\<lambda>(p, k). Removed p k) (losses_between ?old current)) now1 = after_losses ?old current"
    unfolding after_losses_def now1_def by blast+
  have gained: "possible_all (after_losses ?old current) (map (\<lambda>(p, k, new). if new then change.Created p k else Updated p k) (gains_between ?old current)) \<and>
    fold entries_after (map (\<lambda>(p, k, new). if new then change.Created p k else Updated p k) (gains_between ?old current)) (after_losses ?old current) = (\<lambda>x. after_losses ?old current x \<or> x \<in> gained ?old current)"
    by (rule creations_possible [OF distinct_gains [OF ok(2)]]) (rule gains_after_losses [OF ok comparable])
  note gains = conjunct1 [OF gained] conjunct2 [OF gained, unfolded after_gains [OF ok comparable]]
  have "kinds_in current (p, File)" if "p \<in> set (edits_between ?old current)" for p
    using that in_edits [OF ok(2)] by (auto simp: kinds_in_iff)
  then have edits: "possible_all (kinds_in current) (map (\<lambda>p. Updated p File) (edits_between ?old current))"
    "fold entries_after (map (\<lambda>p. Updated p File) (edits_between ?old current)) (kinds_in current) = kinds_in current"
    using updates_possible by blast+
  have possible: "possible_all (kinds_in ?old) (map (\<lambda>(p, q, r, k). Renamed p q r k) rs @
        map (\<lambda>(p, k). Removed p k) (losses_between ?old current) @
        map (\<lambda>(p, k, new). if new then change.Created p k else Updated p k) (gains_between ?old current) @
        map (\<lambda>p. Updated p File) (edits_between ?old current))"
    unfolding possible_all_append moved(2) lost(2) gains(2) using moved(1) lost(1) gains(1) edits(1) by blast
  from tracks_apply_changes [OF tracked this] show ?thesis
    unfolding events fold_append o_apply moved(2) lost(2) gains(2) edits(2) set_append image_Un Union_Un_distrib entries_of_changes
      sources targets
    by (simp only: Un_assoc changed_keys [OF ok comparable, unfolded Un_assoc])
qed


subsection \<open>Properties\<close>

lemma scan_path_state: "scan_path env path st = (result, st') \<Longrightarrow> st' = st\<lparr>fs_kernel := fs_kernel st'\<rparr> \<and>
    (\<exists>cancelled opened. scan_files (fe_ignored env) cancelled (fe_strerror env) path opened = result)"
  by (auto simp: scan_path_def fs_call_def split: prod.splits)

lemma fs_call_state: "fs_call f st = (x, st') \<Longrightarrow> st' = st\<lparr>fs_kernel := fs_kernel st'\<rparr>"
  by (auto simp: fs_call_def split: prod.splits)

lemma reconciled:
  assumes "scan_path env (fe_dir env) st = ((None, current, seen), st1)" and "fs_call (fe_cancelled env) st1 = (False, st2)"
  shows "reconcileFullTree env st = (None, (report_difference current st2)
      \<lparr>fs_identities := current, fs_tree := fold (\<lambda>(p, e) t. dt_add t p (ip_mtime e) (ip_isDirectory e)) seen (dt_new (fe_dir env))\<rparr>)"
    and "fs_identities st2 = fs_identities st" and "fs_events st2 = fs_events st" and "ix_ok current"
proof -
  have "st1 = st\<lparr>fs_kernel := fs_kernel st1\<rparr>" "st2 = st1\<lparr>fs_kernel := fs_kernel st2\<rparr>"
    using scan_path_state [OF assms(1)] fs_call_state [OF assms(2)] by blast+
  then show "fs_identities st2 = fs_identities st" "fs_events st2 = fs_events st"
    by (metis fsevents.select_convs(2) fsevents.surjective fsevents.update_convs(11), metis fsevents.select_convs(7) fsevents.surjective fsevents.update_convs(11))
  show "ix_ok current" using scan_path_state [OF assms(1)] scan_files_ok(1) by blast
  show "reconcileFullTree env st = (None, (report_difference current st2)
      \<lparr>fs_identities := current, fs_tree := fold (\<lambda>(p, e) t. dt_add t p (ip_mtime e) (ip_isDirectory e)) seen (dt_new (fe_dir env))\<rparr>)"
    by (simp add: reconcileFullTree_def assms)
qed

text \<open>
  C4. A full rescan that completes reports the net difference: when the event list describes how
  the indexed tree came about from \<open>base\<close>, and the tree found can be compared with it, then afterwards the
  list describes how the tree found came about from the same \<open>base\<close>, with renames of whole directories, replaced
  files and changed files among its operations, and only entries that differ have been touched; the index is the one found.
\<close>

theorem full_rescan_reports_the_difference:
  assumes "scan_path env (fe_dir env) st = ((None, current, seen), st1)" and "fs_call (fe_cancelled env) st1 = (False, st2)"
    and "ix_ok (fs_identities st)" and "comparable (fs_identities st) current"
    and "tracks base (kinds_in (fs_identities st)) touched (fs_events st)"
  shows "\<exists>st'. reconcileFullTree env st = (None, st') \<and> fs_identities st' = current \<and>
    tracks base (kinds_in current) ({x. differs_at (fs_identities st) current x} \<union> touched) (fs_events st')"
proof -
  note R = reconciled [OF assms(1,2)]
  have "tracks base (kinds_in current) ({x. differs_at (fs_identities st) current x} \<union> touched) (fs_events (report_difference current st2))"
    using report_difference_tracks [where st = st2, OF _ R(4)] assms(3-5) by (simp add: R(2,3))
  then show ?thesis by (simp add: R(1))
qed


text \<open>
  A watcher of \<open>/w\<close>. The first scan finds a directory \<open>/w/d\<close> with a file and an ignored
  \<open>/w/x\<close>; by the second the directory has become \<open>/w/e\<close>, and there is a new file.
\<close>

definition fs_sample_stat :: "file_type \<Rightarrow> u64 \<Rightarrow> stat" where
  "fs_sample_stat t n = \<lparr>stat_dev = 1, stat_ino = n, stat_sec = 5, stat_nsec = 1, stat_nlink = 1, stat_type = t\<rparr>"

definition fs_sample_node :: "string \<Rightarrow> file_type \<Rightarrow> u64 \<Rightarrow> fts_node" where
  "fs_sample_node path t n = \<lparr>fts_info = (if t = Folder then FTS_D else FTS_ENTRY), fts_path = path, fts_errno = 0,
     fts_stat = Some (fs_sample_stat t n)\<rparr>"

definition fs_sample_nodes :: "nat \<Rightarrow> fts_node list" where
  "fs_sample_nodes k =
     (if k = 1
      then [fs_sample_node ''/w'' Folder 1, fs_sample_node ''/w/d'' Folder 2, fs_sample_node ''/w/d/f'' Regular 3,
        fs_sample_node ''/w/x'' Regular 4]
      else [fs_sample_node ''/w'' Folder 1, fs_sample_node ''/w/e'' Folder 2, fs_sample_node ''/w/e/f'' Regular 3,
        fs_sample_node ''/w/n'' Regular 5, fs_sample_node ''/w/x'' Regular 4])"

definition fs_sample_env :: "nat fs_env" where
  "fs_sample_env =
     \<lparr>fe_dir = ''/w'', fe_ignored = (\<lambda>p. p = ''/w/x''), fe_strerror = (\<lambda>n. ''error''),
      fe_files = (\<lambda>k. ((\<lambda>p. None, \<lambda>p. None), k)), fe_traverse = (\<lambda>path k. ((\<lambda>n. False, Inr (fs_sample_nodes k)), k + 1)),
      fe_cancelled = (\<lambda>k. (False, k)), fe_stat = (\<lambda>k. (Inr (fs_sample_stat Folder 1), k)),
      fe_create = (\<lambda>k. (Some k, k + 1)), fe_start = (\<lambda>s k. (True, k)), fe_rank = (\<lambda>k i. 0)\<rparr>"

definition fs_sample_watcher :: "nat fsevents" where
  "fs_sample_watcher =
     \<lparr>fs_tree = dt_new [], fs_identities = ix_empty, fs_renameSequence = 0, fs_initializing = True, fs_pendingEvents = [],
      fs_stream = None, fs_events = el_empty, fs_needsResubscribe = False, fs_notified = 0, fs_stopped = [], fs_kernel = 0\<rparr>"

definition fs_sample_started :: "nat fsevents" where
  "fs_sample_started = snd (fsevents_subscribe fs_sample_env fs_sample_watcher)"


text \<open>A check of two trees by their entries.\<close>

definition comparable_entries :: "(string \<times> indexed_path) list \<Rightarrow> (string \<times> indexed_path) list \<Rightarrow> bool" where
  "comparable_entries xs ys \<longleftrightarrow>
     distinct (map (\<lambda>(p, a). ip_identity a) xs) \<and> distinct (map (\<lambda>(p, a). ip_identity a) ys) \<and>
     list_all (\<lambda>(p, a). list_all (\<lambda>(q, b). ip_identity a = ip_identity b \<longrightarrow> ip_isDirectory a = ip_isDirectory b) ys) xs \<and>
     list_all (\<lambda>(p, a). list_all (\<lambda>(q, b). p = q \<and> both_files a b \<and> ip_identity a \<noteq> ip_identity b \<longrightarrow>
       list_all (\<lambda>(r, c). ip_identity c \<noteq> ip_identity a) ys) ys) xs \<and>
     list_all (\<lambda>(p, a). list_all (\<lambda>(q, b). isDescendantPath p q \<longrightarrow> q \<in> set (map fst xs)) ys) xs"

lemma ix_entries_iff: "ix_ok idx \<Longrightarrow> (p, e) \<in> set (ix_entries idx) \<longleftrightarrow> ix_find idx p = Some e"
  using um_ok_map_of [OF ix_okD(1)] by (simp add: ix_entries_def ix_find_def)

lemma single_paths_entries:
  assumes "ix_ok idx" and "distinct (map (\<lambda>(p, a). ip_identity a) (ix_entries idx))"
  shows "single_paths idx"
proof -
  have "inj_on (\<lambda>(p, a). ip_identity a) (set (ix_entries idx))" using assms(2) by (simp add: distinct_map)
  then have "p = q" if "(p, a) \<in> set (ix_entries idx)" "(q, b) \<in> set (ix_entries idx)" "ip_identity a = ip_identity b" for p q a b
    using that inj_onD by fastforce
  then show ?thesis unfolding single_paths_def ix_entries_iff [OF assms(1), symmetric] by blast
qed

lemma comparable_by_entries:
  assumes ok: "ix_ok old" "ix_ok current" and check: "comparable_entries (ix_entries old) (ix_entries current)"
  shows "comparable old current"
  unfolding comparable_def
proof (intro conjI allI impI)
  note entries = ix_entries_iff [OF ok(1), symmetric] ix_entries_iff [OF ok(2), symmetric]
  show "single_paths old" "single_paths current"
    using check single_paths_entries ok by (simp_all add: comparable_entries_def)
  show "ip_isDirectory a = ip_isDirectory b"
    if "ix_find old p = Some a" "ix_find current q = Some b" "ip_identity a = ip_identity b" for p q a b
    using check that unfolding comparable_entries_def list_all_iff entries by fastforce
  show "ip_identity c \<noteq> ip_identity a"
    if "ix_find old p = Some a" "ix_find current p = Some b" "ix_find current q = Some c"
      "\<not> ip_isDirectory a" "\<not> ip_isDirectory b" "ip_identity a \<noteq> ip_identity b" for p q a b c
    using check that unfolding comparable_entries_def list_all_iff entries by fastforce
  show "ix_find old q \<noteq> None" if below: "ix_find old p \<noteq> None" "isDescendantPath p q" "ix_find current q \<noteq> None" for p q
  proof -
    obtain a b where "(p, a) \<in> set (ix_entries old)" "(q, b) \<in> set (ix_entries current)" using below(1,3) entries by auto
    then have "q \<in> set (map fst (ix_entries old))" using check below(2) unfolding comparable_entries_def list_all_iff by fastforce
    then show ?thesis using entries(1) by fastforce
  qed
qed

definition fs_sample_current :: identity_index where
  "fs_sample_current = fst (snd (fst (scan_path fs_sample_env ''/w'' fs_sample_started)))"

lemma fs_sample_scan:
  "fst (fst (scan_path fs_sample_env ''/w'' fs_sample_started)) = None \<and>
   fst (fs_call (fe_cancelled fs_sample_env) (snd (scan_path fs_sample_env ''/w'' fs_sample_started))) = False"
  by code_simp

lemma fs_sample_comparable:
  "comparable_entries (ix_entries (fs_identities fs_sample_started)) (ix_entries fs_sample_current)"
  by code_simp


lemma fs_sample_started_facts:
  "fs_identities fs_sample_started =
     fst (snd (scan_files (fe_ignored fs_sample_env) (\<lambda>n. False) (fe_strerror fs_sample_env) ''/w'' (Inr (fs_sample_nodes 1))))"
  "fs_events fs_sample_started = el_empty"
  by code_simp+

lemma full_rescan_reports_the_difference_witness:
  "\<exists>st'. reconcileFullTree fs_sample_env fs_sample_started = (None, st') \<and> fs_identities st' = fs_sample_current \<and>
     tracks (kinds_in (fs_identities fs_sample_started)) (kinds_in fs_sample_current)
       ({x. differs_at (fs_identities fs_sample_started) fs_sample_current x} \<union> {}) (fs_events st')"
proof -
  obtain err current seen st1 where scan: "scan_path fs_sample_env ''/w'' fs_sample_started = ((err, current, seen), st1)" by (metis surj_pair)
  obtain stop st2 where call: "fs_call (fe_cancelled fs_sample_env) st1 = (stop, st2)" by (metis surj_pair)
  have found: "scan_path fs_sample_env (fe_dir fs_sample_env) fs_sample_started = ((None, fs_sample_current, seen), st1)"
    and go: "fs_call (fe_cancelled fs_sample_env) st1 = (False, st2)"
    using fs_sample_scan scan call by (simp_all add: fs_sample_current_def fs_sample_env_def)
  have ok: "ix_ok (fs_identities fs_sample_started)"
    unfolding fs_sample_started_facts(1) by (metis prod.collapse scan_files_ok(1))
  have comparable: "comparable (fs_identities fs_sample_started) fs_sample_current"
    by (rule comparable_by_entries [OF ok reconciled(4) [OF found go] fs_sample_comparable])
  show ?thesis
    by (rule full_rescan_reports_the_difference [OF found go ok comparable]) (simp add: fs_sample_started_facts(2) tracks_empty)
qed

text \<open>What the rescan reports there: the two renames, and the new file.\<close>

lemma fs_sample_report:
  "map (\<lambda>e. (ev_path e, event_type e, renameId e)) (batch_events (fst (el_drain
     (fs_events (snd (reconcileFullTree fs_sample_env fs_sample_started)))))) =
   [(''/w/d'', ''delete'', Some ''fsevents:1''), (''/w/d/f'', ''delete'', Some ''fsevents:2''),
    (''/w/e'', ''create'', Some ''fsevents:1''), (''/w/e/f'', ''create'', Some ''fsevents:2''), (''/w/n'', ''create'', None)]"
  by code_simp

text \<open>
  Outside the comparable trees the report can be wrong: when a file has been renamed and another one has taken its
  place, the second file is reported as deleted, although it is there.
\<close>

definition reused_path_before :: identity_index where
  "reused_path_before = ix_add ''/w/a'' (sample_identity 7 False) ix_empty"

definition reused_path_after :: identity_index where
  "reused_path_after = ix_add ''/w/b'' (sample_identity 7 False) (ix_add ''/w/a'' (sample_identity 8 False) ix_empty)"

lemma reused_path_is_reported_deleted:
  "map (\<lambda>e. (ev_path e, event_type e)) (batch_events (fst (el_drain
     (fs_events (report_difference reused_path_after (fs_sample_watcher\<lparr>fs_identities := reused_path_before\<rparr>)))))) =
   [(''/w/a'', ''delete''), (''/w/b'', ''create'')] \<and> ix_find reused_path_after ''/w/a'' \<noteq> None"
  by code_simp

end
