(* ===== verification/FSEventsSafety.thy ===== *)
theory FSEventsSafety
  imports FSEventsRescan "HOL-Library.Multiset"
begin

section \<open>What holds of the FSEvents backend at all times\<close>

text \<open>
  Two invariants over the life of one watcher: only paths that are not ignored (and the root) are indexed or
  reported, and each stream that was started is either the current one or has been stopped, once.
  \<open>quiet env st st'\<close> says that a step keeps the first and does not touch the stream; the operations are
  shown to be quiet one by one, with backward rules, except for the two that stop the stream.
\<close>

subsection \<open>Allowed paths\<close>

definition allowed :: "'k fs_env \<Rightarrow> string \<Rightarrow> bool" where
  "allowed env p \<longleftrightarrow> p = fe_dir env \<or> \<not> fe_ignored env p"

definition index_allowed :: "'k fs_env \<Rightarrow> identity_index \<Rightarrow> bool" where
  "index_allowed env idx \<longleftrightarrow> ix_ok idx \<and> (\<forall>p. ix_find idx p \<noteq> None \<longrightarrow> allowed env p)"

definition same_stream :: "'k fsevents \<Rightarrow> 'k fsevents \<Rightarrow> bool" where
  "same_stream st st' \<longleftrightarrow> fs_stream st' = fs_stream st \<and> fs_stopped st' = fs_stopped st"

definition quiet :: "'k fs_env \<Rightarrow> 'k fsevents \<Rightarrow> 'k fsevents \<Rightarrow> bool" where
  "quiet env st st' \<longleftrightarrow> (index_allowed env (fs_identities st) \<and> events_within (allowed env) (fs_events st) \<longrightarrow>
     index_allowed env (fs_identities st') \<and> events_within (allowed env) (fs_events st') \<and> same_stream st st')"

lemma index_allowedD: "index_allowed env idx \<Longrightarrow> ix_ok idx" "index_allowed env idx \<Longrightarrow> ix_find idx p = Some e \<Longrightarrow> allowed env p"
  by (auto simp: index_allowed_def)

lemma index_allowed_empty [simp]: "index_allowed env ix_empty"
  by (simp add: index_allowed_def)

lemma index_allowed_add: "index_allowed env idx \<Longrightarrow> allowed env p \<Longrightarrow> index_allowed env (ix_add p e idx)"
  by (auto simp: index_allowed_def ix_ok_add ix_find_add)

lemma index_allowed_removeExact: "index_allowed env idx \<Longrightarrow> index_allowed env (ix_removeExact p idx)"
  by (auto simp: index_allowed_def ix_ok_removeExact ix_find_removeExact split: if_splits)

lemma index_allowed_remove:
  assumes "index_allowed env idx"
  shows "index_allowed env (ix_remove p idx)"
proof -
  have "index_allowed env (fold ix_removeExact ps idx)" for ps
    using assms by (induction ps arbitrary: idx) (auto intro: index_allowed_removeExact)
  then show ?thesis using index_allowed_removeExact [OF assms] by (auto simp: ix_remove_def split: option.split)
qed

subsection \<open>Quiet steps\<close>

lemma quiet_refl [simp, intro]: "quiet env st st"
  by (simp add: quiet_def same_stream_def)

lemma quiet_trans: "quiet env st st1 \<Longrightarrow> quiet env st1 st2 \<Longrightarrow> quiet env st st2"
  by (simp add: quiet_def same_stream_def)

lemma quiet_fold: "(\<And>x st. x \<in> set xs \<Longrightarrow> quiet env st (f x st)) \<Longrightarrow> quiet env st (fold f xs st)"
  by (induction xs arbitrary: st) (auto intro: quiet_trans)

lemma quiet_log:
  "(index_allowed env (fs_identities st) \<Longrightarrow> events_within (allowed env) (fs_events st) \<Longrightarrow> events_within (allowed env) (f (fs_events st))) \<Longrightarrow>
    quiet env st (fs_log f st)"
  by (simp add: quiet_def same_stream_def fs_log_def)

lemma quiet_data:
  assumes "fs_events st' = fs_events st" and "fs_stream st' = fs_stream st" and "fs_stopped st' = fs_stopped st"
    and "index_allowed env (fs_identities st) \<Longrightarrow> index_allowed env (fs_identities st')"
  shows "quiet env st st'"
  using assms by (simp add: quiet_def same_stream_def)

lemma quiet_notify: "quiet env st (fs_notify st)"
  by (rule quiet_data) (simp_all add: fs_notify_def)

lemma quiet_call: "quiet env st (snd (fs_call f st))"
  by (rule quiet_data) (simp_all add: fs_call_def split: prod.split)

lemma quiet_read: "quiet env st (snd (read_path env path st))"
  by (rule quiet_data) (simp_all add: read_path_def fs_call_def split: prod.split)

lemma quiet_scan: "quiet env st (snd (scan_path env path st))"
  by (rule quiet_data) (simp_all add: scan_path_def fs_call_def split: prod.split)

lemma quiet_put: "allowed env path \<Longrightarrow> quiet env st (put_identity path entry st)"
  by (rule quiet_data) (simp_all add: put_identity_def index_allowed_add)

lemma quiet_bind:
  assumes "quiet env st (snd p)" and "\<And>x st1. p = (x, st1) \<Longrightarrow> quiet env st1 (g x st1)"
  shows "quiet env st (case p of (x, st1) \<Rightarrow> g x st1)"
  using assms by (cases p) (auto intro: quiet_trans)

lemma quiet_remove: "quiet env st (removeIndexedPath path st)"
proof (cases "ix_find (fs_identities st) path")
  case None
  then show ?thesis by (simp add: removeIndexedPath_def)
next
  case (Some indexed)
  let ?xs = "filter (\<lambda>(p, e). p = path \<or> isDescendantPath p path) (ix_entries (fs_identities st))"
  let ?st1 = "if \<not> ip_isDirectory indexed then fs_log (\<lambda>l. el_remove l path File) st
    else fs_log (fold (\<lambda>(p, e) l. el_remove l p (entryKind (ip_isDirectory e))) ?xs) st"
  have "events_within (allowed env) (fold (\<lambda>(p, e) l. el_remove l p (entryKind (ip_isDirectory e))) xs l)"
    if "index_allowed env (fs_identities st)" "events_within (allowed env) l" "set xs \<subseteq> set (ix_entries (fs_identities st))" for xs l
    using that(2,3)
  proof (induction xs arbitrary: l)
    case (Cons x xs)
    obtain p e where x: "x = (p, e)" by (cases x)
    have "ix_find (fs_identities st) p = Some e"
      using Cons.prems(2) um_ok_map_of [OF ix_okD(1) [OF index_allowedD(1) [OF that(1)]]] by (simp add: x ix_entries_def ix_find_def)
    then show ?case using Cons index_allowedD(2) [OF that(1)] by (simp add: x events_within_ops)
  qed simp
  then have folded: "index_allowed env (fs_identities st) \<Longrightarrow> events_within (allowed env) (fs_events st) \<Longrightarrow>
      events_within (allowed env) (fold (\<lambda>(p, e) l. el_remove l p (entryKind (ip_isDirectory e))) ?xs (fs_events st))" by simp
  have "index_allowed env (fs_identities st) \<Longrightarrow> events_within (allowed env) (fs_events st) \<Longrightarrow> events_within (allowed env) (el_remove (fs_events st) path File)"
    by (rule events_within_ops(3), assumption) (rule index_allowedD(2) [OF _ Some])
  then have "quiet env st ?st1" using folded by (cases "ip_isDirectory indexed") (simp_all only: if_True if_False not_True_eq_False not_False_eq_True quiet_log)
  moreover have "quiet env ?st1 (?st1\<lparr>fs_identities := ix_remove path (fs_identities ?st1), fs_tree := dt_remove MacOS (fs_tree ?st1) path\<rparr>)"
    by (rule quiet_data) (simp_all add: index_allowed_remove)
  ultimately show ?thesis unfolding removeIndexedPath_def Some option.case Let_def by (rule quiet_trans)
qed

lemma quiet_update: "allowed env path \<Longrightarrow> quiet env st (fs_log (\<lambda>l. el_update l path k) st)"
  by (rule quiet_log) (rule events_within_ops)

lemma quiet_create: "allowed env path \<Longrightarrow> quiet env st (fs_log (\<lambda>l. el_create l path k) st)"
  by (rule quiet_log) (rule events_within_ops)

lemma quiet_error: "quiet env st (fs_log (\<lambda>l. el_error l err) st)"
  by (rule quiet_log) simp

lemma quiet_tree: "quiet env st (st\<lparr>fs_tree := t\<rparr>)"
  by (rule quiet_data) simp_all

lemmas quiet_steps = quiet_refl quiet_remove quiet_put quiet_update quiet_create quiet_error quiet_tree quiet_notify

lemma quiet_record:
  assumes "allowed env path"
  shows "quiet env st (recordCreatedPath path entry st)"
proof -
  have "quiet env st (if gone then removeIndexedPath path st else if other then st\<lparr>fs_tree := t\<rparr> else st)" for gone other t
    by (simp add: quiet_steps)
  then have put: "quiet env st (put_identity path entry (if gone then removeIndexedPath path st else if other then st\<lparr>fs_tree := t\<rparr> else st))"
    for gone other t using quiet_put [OF assms] quiet_trans by blast
  have log: "quiet env st (if update then fs_log (\<lambda>l. el_update l path File) st2
      else if create then fs_log (\<lambda>l. el_create l path k) st2 else st2)" if "quiet env st st2" for update create k st2
    using that quiet_trans [OF that quiet_update [OF assms]] quiet_trans [OF that quiet_create [OF assms]] by simp
  show ?thesis unfolding recordCreatedPath_def Let_def by (rule log, rule put)
qed


text \<open>What a scan finds is allowed, except perhaps the directory that is scanned.\<close>

lemma scan_path_allowed:
  assumes "scan_path env path st = ((err, index, seen), st')" and "allowed env path"
  shows "index_allowed env index" and "(p, e) \<in> set seen \<Longrightarrow> allowed env p"
proof -
  obtain cancelled opened where scan: "scan_files (fe_ignored env) cancelled (fe_strerror env) path opened = (err, index, seen)"
    using scan_path_state [OF assms(1)] by blast
  have each: "allowed env p" if "(p, e) \<in> set seen" for p e
    using scan_files_ok(3) [OF scan that] assms(2) by (auto simp: allowed_def)
  show "(p, e) \<in> set seen \<Longrightarrow> allowed env p" by (rule each)
  have "allowed env p" if found: "ix_find index p \<noteq> None" for p
  proof -
    obtain e where "map_of (rev seen) p = Some e" using found scan_files_ok(2) [OF scan, of p] by auto
    from map_of_SomeD [OF this] show ?thesis by (intro each [of p e]) simp
  qed
  then show "index_allowed env index" using scan_files_ok(1) [OF scan] by (simp add: index_allowed_def)
qed

lemma quiet_add_created:
  assumes "allowed env path"
  shows "quiet env st (snd (addCreatedPath env path st))"
proof -
  obtain entry st1 where read: "read_path env path st = (entry, st1)" by (metis surj_pair)
  obtain err index seen st2 where scan: "scan_path env path st1 = ((err, index, seen), st2)" by (metis surj_pair)
  have steps: "quiet env st st1" "quiet env st1 st2"
    using quiet_read [of env st path] quiet_scan [of env st1 path] by (simp_all add: read scan)
  have "quiet env st2 (fold (\<lambda>(p, e). recordCreatedPath p e) seen st2)"
    by (rule quiet_fold) (use scan_path_allowed(2) [OF scan assms] in \<open>auto intro: quiet_record\<close>)
  then show ?thesis
    using steps quiet_record [OF assms] by (auto simp: addCreatedPath_def read scan split: option.split intro: quiet_trans)
qed

lemma quiet_try_add:
  assumes "allowed env path"
  shows "quiet env st (try_addCreatedPath env path st)"
proof -
  obtain err st1 where "addCreatedPath env path st = (err, st1)" by (metis surj_pair)
  then show ?thesis using quiet_add_created [OF assms, of st] quiet_error
    by (auto simp: try_addCreatedPath_def split: option.split intro: quiet_trans)
qed

subsection \<open>Correlated renames stay among the allowed paths\<close>

definition candidates_allowed :: "'k fs_env \<Rightarrow> rename_candidates \<Rightarrow> bool" where
  "candidates_allowed env m \<longleftrightarrow> (\<forall>(i, paths) \<in> set m. \<forall>(p, e) \<in> set paths. allowed env p)"

text \<open>The removed candidates are entries of the index, under their own identity.\<close>

definition removed_indexed :: "identity_index \<Rightarrow> rename_candidates \<Rightarrow> bool" where
  "removed_indexed idx m \<longleftrightarrow> (\<forall>(i, paths) \<in> set m. \<forall>(p, e) \<in> set paths. ix_find idx p = Some e \<and> ip_identity e = i)"

lemma put_candidate_all:
  assumes "\<forall>(i, paths) \<in> set m. \<forall>(p, e) \<in> set paths. P i p e" and "P (ip_identity e) p e"
  shows "\<forall>(i, paths) \<in> set (put_candidate p e m). \<forall>(p, e) \<in> set paths. P i p e"
proof -
  let ?paths = "case map_of m (ip_identity e) of None \<Rightarrow> [] | Some paths \<Rightarrow> paths"
  have "\<forall>(q, a) \<in> set ?paths. P (ip_identity e) q a"
    using assms(1) by (cases "map_of m (ip_identity e)") (auto dest!: map_of_SomeD)
  then have "\<forall>(q, a) \<in> set (AList.update p e ?paths). P (ip_identity e) q a"
    using assms(2) set_update_subset [of p e ?paths] by blast
  then show ?thesis
    using assms(1) set_update_subset [of "ip_identity e" "AList.update p e ?paths" m] unfolding put_candidate_def by blast
qed

lemma um_ok_put_candidate: "um_ok m \<Longrightarrow> um_ok (put_candidate p e m)"
  by (simp add: put_candidate_def um.ok_put)

lemma collected:
  assumes "collect_candidates env ev ((removed, added), st) = ((removed', added'), st')"
  shows "quiet env st st'" and "fs_identities st' = fs_identities st"
    and "um_ok removed \<Longrightarrow> um_ok removed'" and "removed_indexed (fs_identities st) removed \<Longrightarrow> removed_indexed (fs_identities st) removed'"
    and "candidates_allowed env added \<Longrightarrow> candidates_allowed env added'"
proof -
  let ?skipped = "\<not> hasFlag (pe_flags ev) FlagItemRenamed \<or> fe_ignored env (pe_path ev)"
  obtain after st1 where read: "read_path env (pe_path ev) st = (after, st1)" by (metis surj_pair)
  have same: "fs_identities st1 = fs_identities st" using read by (auto simp: read_path_def fs_call_def split: prod.splits)
  have st': "st' = st \<or> \<not> ?skipped \<and> st' = st1"
    and removed': "removed' = removed \<or> (\<exists>b. ix_find (fs_identities st) (pe_path ev) = Some b \<and> removed' = put_candidate (pe_path ev) b removed)"
    and added': "added' = added \<or> (\<exists>a. \<not> ?skipped \<and> added' = put_candidate (pe_path ev) a added)"
    using assms by (auto simp: collect_candidates_def read Let_def split: if_splits option.splits)
  show "quiet env st st'" using st' quiet_read [of env st "pe_path ev"] by (auto simp: read)
  show "fs_identities st' = fs_identities st" using st' same by auto
  show "um_ok removed \<Longrightarrow> um_ok removed'" using removed' by (auto intro: um_ok_put_candidate)
  show "removed_indexed (fs_identities st) removed'" if "removed_indexed (fs_identities st) removed"
    using removed'
  proof (elim disjE exE conjE)
    fix b assume b: "ix_find (fs_identities st) (pe_path ev) = Some b" "removed' = put_candidate (pe_path ev) b removed"
    show ?thesis unfolding removed_indexed_def b(2)
      by (rule put_candidate_all) (use that b(1) in \<open>simp_all add: removed_indexed_def\<close>)
  qed (use that in simp)
  show "candidates_allowed env added'" if "candidates_allowed env added"
    using added'
  proof (elim disjE exE conjE)
    fix a assume a: "\<not> ?skipped" "added' = put_candidate (pe_path ev) a added"
    show ?thesis unfolding candidates_allowed_def a(2)
      by (rule put_candidate_all) (use that a(1) in \<open>simp_all add: candidates_allowed_def allowed_def\<close>)
  qed (use that in simp)
qed

lemma collected_all:
  assumes "fold (collect_candidates env) evs ((removed, added), st) = ((removed', added'), st')"
    and "um_ok removed" and "removed_indexed (fs_identities st) removed" and "candidates_allowed env added"
  shows "quiet env st st' \<and> um_ok removed' \<and> removed_indexed (fs_identities st') removed' \<and> candidates_allowed env added'"
  using assms
proof (induction evs arbitrary: removed added st)
  case (Cons ev evs)
  obtain removed1 added1 st1 where one: "collect_candidates env ev ((removed, added), st) = ((removed1, added1), st1)" by (metis surj_pair)
  note c = collected [OF one]
  have rest: "fold (collect_candidates env) evs ((removed1, added1), st1) = ((removed', added'), st')"
    using Cons.prems(1) by (simp only: fold.simps o_apply one)
  have "removed_indexed (fs_identities st1) removed1" using c(2) c(4) [OF Cons.prems(3)] by simp
  from Cons.IH [OF rest c(3) [OF Cons.prems(2)] this c(5) [OF Cons.prems(4)]]
  show ?case using c(1) quiet_trans by blast
qed simp


lemma ix_rename_file:
  assumes "ix_find idx old = Some e" and "\<not> ip_isDirectory e"
  shows "ix_rename old new idx = ix_add new e (ix_removeExact old idx)"
  using assms by (simp add: ix_rename_def ix_find_def Let_def)

lemma quiet_rename: "allowed env p \<Longrightarrow> allowed env q \<Longrightarrow> quiet env st (fs_rename p q k st)"
  using events_within_ops(4) [of "allowed env" "fs_events st" p q] by (simp add: quiet_def same_stream_def fs_rename_def fs_log_def Let_def)

lemma one_path:
  fixes paths :: "(string \<times> indexed_path) list"
  assumes "\<nexists>old oe new ne. paths = [(old, oe)] \<and> found = Some [(new, ne)]"
  shows "(case (paths, found) of ([(old, oe)], Some [(new, ne)]) \<Rightarrow> f old oe new ne | _ \<Rightarrow> z) = z"
  using assms by (auto split: list.split option.split prod.split)

lemma correlate_identity_cases:
  assumes "correlate_identity added (i, paths) (handled, st) = (handled', st')"
  obtains "st' = st"
  | old oe new ne where "paths = [(old, oe)]" "map_of added i = Some [(new, ne)]" "ix_find (fs_identities st) new = None" "\<not> ip_isDirectory oe"
    "st' = (let st1 = fs_rename old new (entryKind (ip_isDirectory oe)) st in
       st1\<lparr>fs_identities := ix_add new ne (ix_rename old new (fs_identities st1)),
           fs_tree := dt_add (dt_remove MacOS (fs_tree st1) old) new (ip_mtime ne) (ip_isDirectory ne)\<rparr>)"
proof (cases "\<exists>old oe new ne. paths = [(old, oe)] \<and> map_of added i = Some [(new, ne)]")
  case True
  then obtain old oe new ne where one: "paths = [(old, oe)]" "map_of added i = Some [(new, ne)]" by blast
  let ?kept = "ix_pathCount (fs_identities st) i \<noteq> 1 \<or> ix_find (fs_identities st) new \<noteq> None \<or>
    ip_isDirectory oe \<or> ip_isDirectory ne \<or> ip_linkCount oe \<noteq> 1 \<or> ip_linkCount ne \<noteq> 1"
  show thesis
  proof (cases ?kept)
    case True
    then show thesis using assms by (intro that(1)) (simp add: correlate_identity_def one)
  next
    case False
    then show thesis using assms by (intro that(2) [OF one]) (simp_all add: correlate_identity_def one Let_def)
  qed
next
  case False
  have "correlate_identity added (i, paths) (handled, st) = (handled, st)"
    unfolding correlate_identity_def prod.case
    by (rule one_path [unfolded prod.case]) (use False in blast)
  then show thesis using assms by (intro that(1)) simp
qed

lemma fs_rename_identities [simp]: "fs_identities (fs_rename p q k st) = fs_identities st"
  by (simp add: fs_rename_def fs_log_def Let_def)

lemma quiet_correlate_identity:
  assumes step: "correlate_identity added (i, paths) (handled, st) = (handled', st')"
    and removed: "removed_indexed (fs_identities st) ((i, paths) # rest)" and keys: "i \<notin> fst ` set rest"
    and added: "candidates_allowed env added" and index: "index_allowed env (fs_identities st)"
  shows "quiet env st st' \<and> removed_indexed (fs_identities st') rest"
  using step
proof (cases rule: correlate_identity_cases)
  case 1
  then show ?thesis using removed by (auto simp: removed_indexed_def)
next
  case (2 old oe new ne)
  have old: "ix_find (fs_identities st) old = Some oe" "ip_identity oe = i" using removed by (simp_all add: 2(1) removed_indexed_def)
  have here: "allowed env old" using index_allowedD(2) [OF index old(1)] .
  have there: "allowed env new" using added map_of_SomeD [OF 2(2)] by (fastforce simp: candidates_allowed_def)
  let ?idx = "ix_add new ne (ix_add new oe (ix_removeExact old (fs_identities st)))"
  have idx: "fs_identities st' = ?idx" by (simp add: 2(5) Let_def ix_rename_file [OF old(1) 2(4)])
  let ?st1 = "fs_rename old new (entryKind (ip_isDirectory oe)) st"
  have "quiet env ?st1 st'"
    by (rule quiet_data) (simp_all add: 2(5) Let_def ix_rename_file [OF old(1) 2(4)] index_allowed_add there index_allowed_removeExact)
  then have "quiet env st st'" using quiet_rename [OF here there] quiet_trans by blast
  moreover have "ix_find ?idx p = Some e \<and> ip_identity e = j" if "(j, ps) \<in> set rest" "(p, e) \<in> set ps" for j ps p e
  proof -
    have e: "ix_find (fs_identities st) p = Some e" "ip_identity e = j" using removed that by (fastforce simp: removed_indexed_def)+
    have "j \<noteq> i" using keys that(1) by force
    then have "p \<noteq> old" using e old by auto
    moreover have "p \<noteq> new" using e(1) 2(3) by auto
    ultimately show ?thesis using e index_allowedD(1) [OF index] by (simp add: ix_find_add ix_ok_add ix_ok_removeExact ix_find_removeExact)
  qed
  ultimately show ?thesis unfolding removed_indexed_def idx by blast
qed

lemma quiet_index: "quiet env st st' \<Longrightarrow> index_allowed env (fs_identities st) \<Longrightarrow> events_within (allowed env) (fs_events st) \<Longrightarrow>
    index_allowed env (fs_identities st') \<and> events_within (allowed env) (fs_events st')"
  by (simp add: quiet_def)

lemma quiet_correlate_all:
  assumes "fold (correlate_identity added) removed (handled, st) = (handled', st')"
    and "um_ok removed" and "removed_indexed (fs_identities st) removed" and "candidates_allowed env added"
    and "index_allowed env (fs_identities st)" and "events_within (allowed env) (fs_events st)"
  shows "quiet env st st'"
  using assms
proof (induction removed arbitrary: handled st)
  case (Cons x rest)
  obtain i paths where x: "x = (i, paths)" by (cases x)
  obtain handled1 st1 where one: "correlate_identity added (i, paths) (handled, st) = (handled1, st1)" by (metis surj_pair)
  have "i \<notin> fst ` set rest" and rest_ok: "um_ok rest" using Cons.prems(2) by (auto simp: x um_ok_def)
  then have step: "quiet env st st1" "removed_indexed (fs_identities st1) rest"
    using quiet_correlate_identity [OF one Cons.prems(3) [unfolded x] _ Cons.prems(4,5)] by blast+
  have "fold (correlate_identity added) rest (handled1, st1) = (handled', st')"
    using Cons.prems(1) by (simp only: x fold.simps o_apply one)
  from Cons.IH [OF this rest_ok step(2) Cons.prems(4)] show ?case
    using quiet_index [OF step(1) Cons.prems(5,6)] quiet_trans [OF step(1)] by blast
qed simp

lemma quietI:
  "(index_allowed env (fs_identities st) \<Longrightarrow> events_within (allowed env) (fs_events st) \<Longrightarrow> quiet env st st') \<Longrightarrow> quiet env st st'"
  by (simp add: quiet_def)

lemma in_order_ok:
  "um_ok (in_order rank m) = um_ok m" "removed_indexed idx (in_order rank m) = removed_indexed idx m"
proof -
  have "mset (map fst (in_order rank m)) = mset (map fst m)" by (simp add: in_order_def mset_map)
  then show "um_ok (in_order rank m) = um_ok m" unfolding um_ok_def by (rule mset_eq_imp_distinct_iff)
  show "removed_indexed idx (in_order rank m) = removed_indexed idx m" by (simp add: removed_indexed_def in_order_def)
qed

lemma quiet_correlate:
  assumes "correlateRenames env evs st = (handled, st')"
  shows "quiet env st st'"
proof (rule quietI)
  assume known: "index_allowed env (fs_identities st)" "events_within (allowed env) (fs_events st)"
  obtain removed added st1 where collect: "fold (collect_candidates env) evs (([], []), st) = ((removed, added), st1)" by (metis surj_pair)
  have "um_ok ([] :: rename_candidates)" "removed_indexed (fs_identities st) []" "candidates_allowed env []"
    by (simp_all add: um_ok_def removed_indexed_def candidates_allowed_def)
  from collected_all [OF collect this]
  have c: "quiet env st st1" "um_ok removed" "removed_indexed (fs_identities st1) removed" "candidates_allowed env added" by blast+
  have "fold (correlate_identity added) (in_order (fe_rank env (fs_kernel st1)) removed) ([], st1) = (handled, st')"
    using assms(1) by (simp add: correlateRenames_def collect)
  from quiet_correlate_all [OF this _ _ c(4)] show "quiet env st st'"
    using c(2,3) in_order_ok quiet_index [OF c(1) known] quiet_trans [OF c(1)] by blast
qed

subsection \<open>A full rescan\<close>

lemma moves_known:
  assumes ok: "ix_ok old" "ix_ok current" and move: "(p, q, k) \<in> set (moves_between old current)"
  shows "ix_find old p \<noteq> None \<and> ix_find current q \<noteq> None"
proof -
  consider c where "c \<in> set (accepted_renames old current)" "p = rr_oldPath c" "q = rr_newPath c"
    | e c where "c \<in> set (accepted_renames old current)" "(p, q, e) \<in> set (moved_below current (removed_candidates old current) c)"
    using move by (auto simp: moves_between_def below_renames_def)
  then show ?thesis
  proof cases
    case 1
    then show ?thesis using accepted_possible(1,2) [OF ok 1(1)] by auto
  next
    case 2
    then show ?thesis unfolding moved_below_iff [OF ok(1)] by auto
  qed
qed

lemma same_stream_refl: "same_stream st st"
  by (simp add: same_stream_def)

lemma same_stream_trans: "same_stream st st1 \<Longrightarrow> same_stream st1 st2 \<Longrightarrow> same_stream st st2"
  by (simp add: same_stream_def)

lemma same_stream_fold: "(\<And>x st. same_stream st (f x st)) \<Longrightarrow> same_stream st st1 \<Longrightarrow> same_stream st (fold f xs st1)"
  by (induction xs arbitrary: st1) (simp_all, metis same_stream_trans)

lemma same_stream_log [simp]: "same_stream st (fs_log f st)"
  by (simp add: same_stream_def fs_log_def)

lemma same_stream_rename [simp]: "same_stream st (fs_rename p q k st)"
  by (simp add: same_stream_def fs_rename_def fs_log_def Let_def)

lemma same_stream_report: "same_stream st (report_difference current st)"
  unfolding report_difference_def Let_def report_removals_def report_creations_def report_changes_def
  by (intro same_stream_fold same_stream_refl) (simp_all add: same_stream_refl split: prod.split option.split)


lemma losses_known: "ix_ok old \<Longrightarrow> (p, k) \<in> set (losses_between old current) \<Longrightarrow> ix_find old p \<noteq> None"
  by (auto simp: in_losses)

lemma gains_known: "ix_ok current \<Longrightarrow> (p, k, new) \<in> set (gains_between old current) \<Longrightarrow> ix_find current p \<noteq> None"
  by (auto simp: in_gains)

lemma edits_known: "ix_ok current \<Longrightarrow> p \<in> set (edits_between old current) \<Longrightarrow> ix_find current p \<noteq> None"
  by (auto simp: in_edits)

lemma allowed_known:
  "index_allowed env idx \<Longrightarrow> ix_find idx p \<noteq> None \<Longrightarrow> allowed env p"
  by (simp add: index_allowed_def)

lemma events_within_report:
  assumes old: "index_allowed env (fs_identities st)" and current: "index_allowed env current" and events: "events_within (allowed env) (fs_events st)"
  shows "events_within (allowed env) (fs_events (report_difference current st))"
proof -
  let ?old = "fs_identities st"
  note ok = index_allowedD(1) [OF old] index_allowedD(1) [OF current]
  obtain rs where rs: "map (\<lambda>(p, q, r, k). (p, q, k)) rs = moves_between ?old current"
    and report: "fs_events (report_difference current st) =
      fold apply_change (map (\<lambda>(p, q, r, k). Renamed p q r k) rs @
        map (\<lambda>(p, k). Removed p k) (losses_between ?old current) @
        map (\<lambda>(p, k, new). if new then change.Created p k else Updated p k) (gains_between ?old current) @
        map (\<lambda>p. Updated p File) (edits_between ?old current)) (fs_events st)"
    by (rule report_difference_changes)
  have moves: "\<forall>x \<in> (\<lambda>(p, q, r, k). (p, k)) ` set rs \<union> (\<lambda>(p, q, r, k). (q, k)) ` set rs. allowed env (fst x)"
  proof -
    have "allowed env p \<and> allowed env q" if "(p, q, r, k) \<in> set rs" for p q r k
    proof -
      have "(p, q, k) \<in> set (moves_between ?old current)" using that by (force simp flip: rs)
      from moves_known [OF ok this] show ?thesis using allowed_known [OF old] allowed_known [OF current] by blast
    qed
    then show ?thesis by auto
  qed
  have "\<forall>x \<in> set (losses_between ?old current). allowed env (fst x)"
    using losses_known [OF ok(1)] allowed_known [OF old] by fastforce
  moreover have "\<forall>x \<in> gained ?old current. allowed env (fst x)" using gains_known [OF ok(2)] allowed_known [OF current] by fastforce
  moreover have "\<forall>x \<in> (\<lambda>p. (p, File)) ` set (edits_between ?old current). allowed env (fst x)"
    using edits_known [OF ok(2)] allowed_known [OF current] by fastforce
  ultimately have "\<forall>x \<in> \<Union>(entries_of ` set (map (\<lambda>(p, q, r, k). Renamed p q r k) rs @ map (\<lambda>(p, k). Removed p k) (losses_between ?old current) @
      map (\<lambda>(p, k, new). if new then change.Created p k else Updated p k) (gains_between ?old current) @
      map (\<lambda>p. Updated p File) (edits_between ?old current))). allowed env (fst x)"
    unfolding set_append image_Un Union_Un_distrib entries_of_changes using moves by blast
  then show ?thesis unfolding report by (intro events_within_changes [OF events]) blast
qed

lemma quiet_reconcile: "quiet env st (snd (reconcileFullTree env st))"
proof -
  obtain err current seen st1 where scan: "scan_path env (fe_dir env) st = ((err, current, seen), st1)" by (metis surj_pair)
  obtain stop st2 where call: "fs_call (fe_cancelled env) st1 = (stop, st2)" by (metis surj_pair)
  have steps: "quiet env st st1" "quiet env st1 st2"
    using quiet_scan [of env st "fe_dir env"] quiet_call [of env st1 "fe_cancelled env"] by (simp_all add: scan call)
  have current: "index_allowed env current" using scan_path_allowed(1) [OF scan] by (simp add: allowed_def)
  define report where "report = report_difference current st2"
  have "quiet env st2 (report\<lparr>fs_identities := current, fs_tree := t\<rparr>)" for t
    using events_within_report [OF _ current, of st2, folded report_def] same_stream_report [of st2 current, folded report_def]
    by (simp add: quiet_def current same_stream_def)
  then show ?thesis
    using steps by (auto simp: reconcileFullTree_def scan call report_def [symmetric] split: option.split bool.split intro: quiet_trans)
qed

lemma quiet_metadata: "quiet env st (metadata_updates evs st)"
  unfolding metadata_updates_def
proof (rule quiet_fold)
  fix ev st
  show "quiet env st (if pe_flags ev AND METADATA_FLAGS = 0 then st
       else (case ix_find (fs_identities st) (pe_path ev) of None \<Rightarrow> st
          | Some entry \<Rightarrow> fs_log (\<lambda>l. el_update l (pe_path ev) (entryKind (ip_isDirectory entry))) st))"
    by (rule quietI, cases "ix_find (fs_identities st) (pe_path ev)") (auto intro!: quiet_update dest: index_allowedD(2))
qed

lemma quiet_rescan: "quiet env st (rescan env evs st)"
proof -
  obtain err st1 where step: "reconcileFullTree env st = (err, st1)" by (metis surj_pair)
  have "quiet env st st1" using quiet_reconcile [of env st] by (simp add: step)
  then show ?thesis unfolding rescan_def step
    by (auto split: option.split intro!: quiet_trans [OF _ quiet_notify] intro: quiet_trans quiet_metadata quiet_error)
qed

lemma quiet_renames_directory: "quiet env st (snd (renames_directory env evs st))"
proof (induction evs arbitrary: st)
  case (Cons ev evs)
  obtain after st1 where "read_path env (pe_path ev) st = (after, st1)" by (metis surj_pair)
  moreover have "quiet env st st1" using quiet_read [of env st "pe_path ev"] by (simp add: calculation)
  ultimately show ?case using Cons.IH [of st] Cons.IH [of st1] quiet_trans by auto
qed simp


subsection \<open>Handling events\<close>

lemma quiet_missing: "quiet env st (snd (missing_entry env path st))"
  by (simp add: missing_entry_def quiet_remove)

lemma quiet_modified:
  assumes "allowed env path"
  shows "quiet env st (snd (handle_modified env meta path st))"
proof -
  obtain found st1 where read: "read_path env path st = (found, st1)" by (metis surj_pair)
  have "quiet env st st1" using quiet_read [of env st path] by (simp add: read)
  moreover have "quiet env st1 (snd (handle_modified env meta path st))"
    by (cases found) (auto simp: handle_modified_def read quiet_missing assms
      intro: quiet_try_add quiet_trans [OF quiet_put quiet_update])
  ultimately show ?thesis by (rule quiet_trans)
qed

lemma quiet_mixed:
  assumes "allowed env path"
  shows "quiet env st (snd (handle_mixed env modified meta path st))"
proof -
  obtain found st1 where read: "read_path env path st = (found, st1)" by (metis surj_pair)
  have "quiet env st st1" using quiet_read [of env st path] by (simp add: read)
  moreover have "quiet env st1 (st1\<lparr>fs_identities := ix_add path e (fs_identities st1), fs_tree := t\<rparr>)" for e t
    by (rule quiet_data) (simp_all add: index_allowed_add assms)
  then have "quiet env st1 (snd (handle_mixed env modified meta path st))"
    by (cases found) (auto simp: handle_mixed_def read quiet_missing assms
      intro: quiet_try_add quiet_trans [OF quiet_put quiet_update] quiet_trans [OF _ quiet_create])
  ultimately show ?thesis by (rule quiet_trans)
qed

lemma quiet_flags: "allowed env (pe_path ev) \<Longrightarrow> quiet env st (snd (handle_flags env ev st))"
  by (simp add: handle_flags_def Let_def quiet_try_add quiet_missing quiet_modified quiet_mixed)

lemma quiet_each: "process_each env correlated evs (gone, st) = (gone', st') \<Longrightarrow> quiet env st st'"
proof (induction evs arbitrary: gone st)
  case (Cons ev evs)
  obtain here st1 where step: "handle_flags env ev st = (here, st1)" by (metis surj_pair)
  show ?case
  proof (cases "hasFlag (pe_flags ev) FlagHistoryDone")
    case True
    then show ?thesis using Cons.prems by (auto intro: quiet_notify)
  next
    case running: False
    show ?thesis
    proof (cases "pe_flags ev AND NOT (IGNORED_FLAGS OR FlagItemCloned) = 0 \<or> fe_ignored env (pe_path ev) \<or> pe_path ev \<in> set correlated")
      case True
      then have "process_each env correlated evs (gone, st) = (gone', st')" using Cons.prems running by simp
      then show ?thesis by (rule Cons.IH)
    next
      case False
      then have "process_each env correlated evs (gone \<or> here, st1) = (gone', st')" using Cons.prems running step by simp
      moreover have "quiet env st st1" using quiet_flags [of env ev st] False by (simp add: step allowed_def)
      ultimately show ?thesis using Cons.IH quiet_trans by blast
    qed
  qed
qed simp

subsection \<open>The stream\<close>

text \<open>What a step may do to the stream: nothing, or stop the current one.\<close>

definition stream_step :: "'k fsevents \<Rightarrow> 'k fsevents \<Rightarrow> bool" where
  "stream_step st st' \<longleftrightarrow> same_stream st st' \<or>
     (\<exists>s. fs_stream st = Some s \<and> fs_stream st' = None \<and> fs_stopped st' = s # fs_stopped st)"

definition steps_ok :: "'k fs_env \<Rightarrow> 'k fsevents \<Rightarrow> 'k fsevents \<Rightarrow> bool" where
  "steps_ok env st st' \<longleftrightarrow> (index_allowed env (fs_identities st) \<and> events_within (allowed env) (fs_events st) \<longrightarrow>
     index_allowed env (fs_identities st') \<and> events_within (allowed env) (fs_events st') \<and> stream_step st st')"

lemma steps_ok_quiet: "quiet env st st' \<Longrightarrow> steps_ok env st st'"
  by (simp add: quiet_def steps_ok_def stream_step_def)

lemma steps_ok_stop: "steps_ok env st (stop_stream st)" "steps_ok env st (retire_stream st)"
  by (auto simp: steps_ok_def stream_step_def same_stream_def stop_stream_def retire_stream_def split: option.split)

lemma steps_ok_then: "quiet env st st1 \<Longrightarrow> steps_ok env st1 st2 \<Longrightarrow> steps_ok env st st2"
  by (auto simp: quiet_def steps_ok_def stream_step_def same_stream_def)

lemma steps_ok_before: "steps_ok env st st1 \<Longrightarrow> quiet env st1 st2 \<Longrightarrow> steps_ok env st st2"
  by (auto simp: quiet_def steps_ok_def stream_step_def same_stream_def)

lemma steps_ok_process: "steps_ok env st (processEvents env evs st)"
proof (cases "\<exists>ev \<in> set evs. hasFlag (pe_flags ev) FlagRootChanged")
  case True
  then show ?thesis
    by (simp add: processEvents_def steps_ok_before [OF steps_ok_then [OF quiet_remove steps_ok_stop(2)] quiet_notify])
next
  case False
  define first where "first = (if \<exists>ev \<in> set evs. hasFlag (pe_flags ev) FlagMustScanSubDirs then (True, st) else renames_directory env evs st)"
  obtain full st1 where first: "first = (full, st1)" by (metis surj_pair)
  have "quiet env st (snd first)" using quiet_renames_directory [of env st evs] by (simp add: first_def)
  then have one: "quiet env st st1" by (simp add: first)
  obtain correlated st2 where correlate: "correlateRenames env evs st1 = (correlated, st2)" by (metis surj_pair)
  obtain gone st3 where each: "process_each env correlated evs (False, st2) = (gone, st3)" by (metis surj_pair)
  have all: "quiet env st (fs_notify st3)"
    using one quiet_correlate [OF correlate] quiet_each [OF each] quiet_notify quiet_trans by blast
  have "processEvents env evs st = (if full then rescan env evs st1 else if gone then retire_stream (fs_notify st3) else fs_notify st3)"
    using False by (simp add: processEvents_def first_def [symmetric] first correlate each)
  then show ?thesis
    using steps_ok_quiet [OF quiet_trans [OF one quiet_rescan]] steps_ok_then [OF all steps_ok_stop(2)] steps_ok_quiet [OF all] by simp
qed


lemma steps_ok_data:
  assumes "fs_events st' = fs_events st" and "fs_identities st' = fs_identities st" and "fs_stream st' = fs_stream st"
    and "fs_stopped st' = fs_stopped st"
  shows "steps_ok env st st'"
  by (rule steps_ok_quiet, rule quiet_data) (simp_all add: assms)

lemma steps_ok_callback: "steps_ok env st (FSEventsCallback env s arrived st)"
  by (simp add: FSEventsCallback_def Let_def steps_ok_process steps_ok_data)

lemma steps_ok_finish: "steps_ok env st (finish_stream env s st)"
proof -
  have "quiet env st (st\<lparr>fs_initializing := False, fs_pendingEvents := []\<rparr>)" by (rule quiet_data) simp_all
  then show ?thesis by (simp add: finish_stream_def Let_def steps_ok_then [OF _ steps_ok_process] steps_ok_quiet)
qed

lemma steps_ok_index: "steps_ok env st (snd (index_stream env st))"
proof -
  obtain err index seen st1 where scan: "scan_path env (fe_dir env) st = ((err, index, seen), st1)" by (metis surj_pair)
  define st2 where "st2 = st1\<lparr>fs_tree := fold (\<lambda>(p, e) t. dt_add t p (ip_mtime e) (ip_isDirectory e)) seen (fs_tree st1)\<rparr>"
  obtain stop st3 where call: "fs_call (fe_cancelled env) st2 = (stop, st3)" by (metis surj_pair)
  have index: "index_allowed env index" using scan_path_allowed(1) [OF scan] by (simp add: allowed_def)
  have two: "quiet env st st2" using quiet_trans [OF quiet_scan [of env st "fe_dir env"] quiet_tree] by (simp add: scan st2_def)
  then have three: "quiet env st st3" using quiet_trans [OF _ quiet_call [of env st2 "fe_cancelled env"]] by (simp add: call)
  have "quiet env st3 (st3\<lparr>fs_identities := index\<rparr>)" by (rule quiet_data) (simp_all add: index)
  then have "quiet env st (st3\<lparr>fs_identities := index\<rparr>)" by (rule quiet_trans [OF three])
  moreover have "quiet env st3 (st3\<lparr>fs_needsResubscribe := True\<rparr>)" by (rule quiet_data) simp_all
  then have "steps_ok env st (stop_stream (st3\<lparr>fs_needsResubscribe := True\<rparr>))"
    using steps_ok_then [OF quiet_trans [OF three] steps_ok_stop(1)] by blast
  moreover have "snd (index_stream env st) = (case err of Some e \<Rightarrow> st2
      | None \<Rightarrow> if stop then stop_stream (st3\<lparr>fs_needsResubscribe := True\<rparr>) else st3\<lparr>fs_identities := index\<rparr>)"
    by (simp add: index_stream_def scan Let_def st2_def [symmetric] call split: option.split)
  ultimately show ?thesis using two by (auto split: option.split intro: steps_ok_quiet)
qed

subsection \<open>The life of a watcher\<close>

text \<open>
  \<open>fs_life env opened st\<close>: a state that can be reached, with the streams started so far. A subscription
  starts the stream (only when there is none, as \<open>watch\<close> comes after \<open>finishUnsubscribe\<close>), indexes
  and finishes; callbacks of any stream come in at any time, also between these parts. The system and the
  delivery of the events may act at any time.
\<close>

inductive fs_life :: "'k fs_env \<Rightarrow> stream list \<Rightarrow> 'k fsevents \<Rightarrow> bool" for env :: "'k fs_env" where
  fresh: "fs_stream st = None \<Longrightarrow> fs_stopped st = [] \<Longrightarrow> fs_identities st = ix_empty \<Longrightarrow> fs_events st = el_empty \<Longrightarrow> fs_life env [] st"
| started: "fs_life env opened st \<Longrightarrow> fs_stream st = None \<Longrightarrow> open_stream env (new_state st) = (None, st') \<Longrightarrow>
    fs_stream st' = Some s \<Longrightarrow> fs_life env (s # opened) st'"
| not_started: "fs_life env opened st \<Longrightarrow> fs_stream st = None \<Longrightarrow> open_stream env (new_state st) = (Some err, st') \<Longrightarrow>
    fs_life env opened (stop_stream st')"
| indexed: "fs_life env opened st \<Longrightarrow> index_stream env st = ((None, cancelled), st') \<Longrightarrow> fs_life env opened st'"
| not_indexed: "fs_life env opened st \<Longrightarrow> index_stream env st = ((Some err, cancelled), st') \<Longrightarrow> fs_life env opened (stop_stream st')"
| finished: "fs_life env opened st \<Longrightarrow> fs_life env opened (finish_stream env s st)"
| callback: "fs_life env opened st \<Longrightarrow> fs_life env opened (FSEventsCallback env s arrived st)"
| unsubscribed: "fs_life env opened st \<Longrightarrow> fs_life env opened (fsevents_unsubscribe st)"
| delivered: "fs_life env opened st \<Longrightarrow> fs_life env opened (st\<lparr>fs_events := snd (el_drain (fs_events st))\<rparr>)"
| system: "fs_life env opened st \<Longrightarrow> fs_life env opened (st\<lparr>fs_kernel := k, fs_needsResubscribe := b\<rparr>)"

definition life_ok :: "'k fs_env \<Rightarrow> stream list \<Rightarrow> 'k fsevents \<Rightarrow> bool" where
  "life_ok env opened st \<longleftrightarrow> index_allowed env (fs_identities st) \<and> events_within (allowed env) (fs_events st) \<and>
     mset opened = mset (fs_stopped st) + (case fs_stream st of None \<Rightarrow> {#} | Some s \<Rightarrow> {#s#})"

lemma life_ok_step: "life_ok env opened st \<Longrightarrow> steps_ok env st st' \<Longrightarrow> life_ok env opened st'"
  by (auto simp: life_ok_def steps_ok_def stream_step_def same_stream_def)

lemma open_stream_step:
  assumes "open_stream env (new_state st) = (err, st')"
  shows "fs_identities st' = ix_empty" and "fs_events st' = fs_events st" and "fs_stopped st' = fs_stopped st"
    and "err \<noteq> None \<Longrightarrow> fs_stream st' = None" and "err = None \<Longrightarrow> fs_stream st' \<noteq> None"
  using assms
  by (auto simp: open_stream_def checkWatcher_def new_state_def fs_call_def split: prod.splits sum.splits if_splits option.splits bool.splits)

lemma life_invariant: "fs_life env opened st \<Longrightarrow> life_ok env opened st"
proof (induction rule: fs_life.induct)
  case (fresh st)
  then show ?case by (simp add: life_ok_def)
next
  case (started opened st st' s)
  then show ?case using open_stream_step [OF started.hyps(3)] by (simp add: life_ok_def)
next
  case (not_started opened st err st')
  have "life_ok env opened st'" using not_started open_stream_step [OF not_started.hyps(3)] by (simp add: life_ok_def)
  then show ?case using steps_ok_stop(1) by (rule life_ok_step)
next
  case (indexed opened st cancelled st')
  then show ?case using life_ok_step [OF indexed.IH steps_ok_index] by simp
next
  case (not_indexed opened st err cancelled st')
  then have "life_ok env opened st'" using life_ok_step [OF not_indexed.IH steps_ok_index] by simp
  then show ?case using steps_ok_stop(1) by (rule life_ok_step)
next
  case (finished opened st s)
  then show ?case using steps_ok_finish life_ok_step by blast
next
  case (callback opened st s arrived)
  then show ?case using steps_ok_callback life_ok_step by blast
next
  case (unsubscribed opened st)
  then show ?case unfolding fsevents_unsubscribe_def using steps_ok_stop(1) life_ok_step by blast
next
  case (delivered opened st)
  then show ?case by (simp add: life_ok_def)
next
  case (system opened st k b)
  then show ?case by (simp add: life_ok_def)
qed


subsection \<open>Properties\<close>

text \<open>
  C5. What \<open>getEvents\<close> delivers concerns the watched directory itself or paths that \<open>isIgnored\<close> does not
  ignore, in every state a watcher can get into: after scans, correlated renames of ignored and other paths,
  full rescans and replayed events.
\<close>

theorem ignored_paths_are_never_reported:
  assumes "fs_life env opened st" and "e \<in> set (batch_events (fst (el_drain (fs_events st))))"
  shows "ev_path e = fe_dir env \<or> \<not> fe_ignored env (ev_path e)"
  using life_invariant [OF assms(1)] events_within_batch [where P = "allowed env", OF _ assms(2)] by (auto simp: life_ok_def allowed_def)

text \<open>
  C9. No event stream leaks and none is stopped twice: the streams a watcher has started are those it has stopped,
  each once, and the current one; so after \<open>unsubscribe\<close> all of them have been stopped, also when the
  root was removed or the subscription was cancelled or failed in the meantime.
\<close>

theorem each_stream_is_stopped_once:
  assumes "fs_life env opened st"
  shows "mset opened = mset (fs_stopped st) + (case fs_stream st of None \<Rightarrow> {#} | Some s \<Rightarrow> {#s#}) \<and>
    mset (fs_stopped (fsevents_unsubscribe st)) = mset opened \<and> fs_stream (fsevents_unsubscribe st) = None"
  using life_invariant [OF assms] by (auto simp: life_ok_def fsevents_unsubscribe_def stop_stream_def split: option.split)

text \<open>
  No event is lost or reordered while the index is built: what the callbacks of the stream bring in the
  meantime (callbacks of other streams count for nothing) is handled in the end as one batch, in the order of
  arrival, without the ignored paths.
\<close>

theorem startup_events_are_replayed:
  assumes "fs_stream st = Some s" and "fs_initializing st"
  shows "finish_stream env s (fold (\<lambda>(r, arrived). FSEventsCallback env r arrived) calls st) =
    (let evs = fs_pendingEvents st @ concat (map (\<lambda>(r, arrived). if r \<noteq> s then []
           else map (\<lambda>(path, flags). \<lparr>pe_path = path, pe_flags = flags\<rparr>) (filter (\<lambda>(path, flags). \<not> fe_ignored env path) arrived)) calls);
         st1 = st\<lparr>fs_initializing := False, fs_pendingEvents := []\<rparr> in
     if evs = [] then st1 else processEvents env evs st1)"
  using assms
proof (induction calls arbitrary: st)
  case Nil
  then show ?case by (simp add: finish_stream_def)
next
  case (Cons call calls)
  obtain r arrived where call: "call = (r, arrived)" by (cases call)
  let ?evs = "if r \<noteq> s then []
    else map (\<lambda>(path, flags). \<lparr>pe_path = path, pe_flags = flags\<rparr>) (filter (\<lambda>(path, flags). \<not> fe_ignored env path) arrived)"
  have "FSEventsCallback env r arrived st = st\<lparr>fs_pendingEvents := fs_pendingEvents st @ ?evs\<rparr>"
    using Cons.prems by (simp add: FSEventsCallback_def Let_def)
  with Cons.IH [of "st\<lparr>fs_pendingEvents := fs_pendingEvents st @ ?evs\<rparr>"] Cons.prems show ?case
    by (simp add: call Let_def)
qed


lemma fs_sample_watcher_fresh: "fs_life env [] fs_sample_watcher"
  by (rule fresh) (simp_all add: fs_sample_watcher_def)

definition fs_sample_open :: "nat fsevents" where
  "fs_sample_open = snd (open_stream fs_sample_env (new_state fs_sample_watcher))"

text \<open>The life up to the removal of the root: events for an ignored path and for the root come in.\<close>

definition fs_sample_removed :: "nat fsevents" where
  "fs_sample_removed =
     FSEventsCallback fs_sample_env 0 [(''/w/x'', FlagItemModified), (''/w'', FlagRootChanged)]
       (finish_stream fs_sample_env 0 (snd (index_stream fs_sample_env fs_sample_open)))"

lemma fs_sample_life: "fs_life fs_sample_env [0] fs_sample_removed"
proof -
  obtain err st where opened: "open_stream fs_sample_env (new_state fs_sample_watcher) = (err, st)" by (metis surj_pair)
  have "fst (open_stream fs_sample_env (new_state fs_sample_watcher)) = None" "fs_stream fs_sample_open = Some 0" by code_simp+
  then have start: "open_stream fs_sample_env (new_state fs_sample_watcher) = (None, st)" "fs_stream st = Some 0" "fs_sample_open = st"
    using opened by (simp_all add: fs_sample_open_def)
  have "fs_life fs_sample_env [0] st"
    by (rule started [OF fs_sample_watcher_fresh _ start(1,2)]) (simp add: fs_sample_watcher_def)
  moreover have "fst (fst (index_stream fs_sample_env fs_sample_open)) = None" by code_simp
  ultimately have "fs_life fs_sample_env [0] (snd (index_stream fs_sample_env fs_sample_open))"
    by (metis start(3) indexed prod.collapse)
  then show ?thesis unfolding fs_sample_removed_def by (intro callback finished)
qed

lemma ignored_paths_are_never_reported_witness:
  "length (batch_events (fst (el_drain (fs_events fs_sample_removed)))) = 3 \<and>
   ev_path (batch_events (fst (el_drain (fs_events fs_sample_removed))) ! 2) \<noteq> ''/w/x''"
proof -
  have length: "length (batch_events (fst (el_drain (fs_events fs_sample_removed)))) = 3" by code_simp
  then have "batch_events (fst (el_drain (fs_events fs_sample_removed))) ! 2 \<in> set (batch_events (fst (el_drain (fs_events fs_sample_removed))))"
    by simp
  from ignored_paths_are_never_reported [OF fs_sample_life this] show ?thesis using length by (auto simp: fs_sample_env_def)
qed

lemma each_stream_is_stopped_once_witness:
  "fs_stopped (fsevents_unsubscribe fs_sample_removed) = [0]"
  using each_stream_is_stopped_once [OF fs_sample_life] by auto

lemma startup_events_are_replayed_witness:
  "finish_stream fs_sample_env 0 (fold (\<lambda>(r, arrived). FSEventsCallback fs_sample_env r arrived)
     [(0, [(''/w/x'', FlagItemModified)]), (1, [(''/w'', FlagItemModified)]), (0, [(''/w'', FlagMustScanSubDirs)])] fs_sample_open) =
   processEvents fs_sample_env [\<lparr>pe_path = ''/w'', pe_flags = FlagMustScanSubDirs\<rparr>]
     (fs_sample_open\<lparr>fs_initializing := False, fs_pendingEvents := []\<rparr>)"
proof -
  have opened: "fs_stream fs_sample_open = Some 0" "fs_initializing fs_sample_open" and none: "fs_pendingEvents fs_sample_open = []"
    by code_simp+
  have ignored: "fe_ignored fs_sample_env = (\<lambda>p. p = ''/w/x'')" by (simp add: fs_sample_env_def)
  let ?brought = "\<lambda>(r, arrived). if r \<noteq> 0 then []
    else map (\<lambda>(path, flags). \<lparr>pe_path = path, pe_flags = flags\<rparr>) (filter (\<lambda>(path, flags). \<not> fe_ignored fs_sample_env path) arrived)"
  have evs: "fs_pendingEvents fs_sample_open @ concat (map ?brought
      [(0 :: nat, [(''/w/x'', FlagItemModified)]), (1, [(''/w'', FlagItemModified)]), (0, [(''/w'', FlagMustScanSubDirs)])]) =
    [\<lparr>pe_path = ''/w'', pe_flags = FlagMustScanSubDirs\<rparr>]"
    by (simp add: none ignored)
  show ?thesis unfolding startup_events_are_replayed [OF opened] evs Let_def by (simp only: list.distinct if_False)
qed


text \<open>
  A file \<open>/w/a\<close> is renamed to \<open>/w/b\<close> and a new one takes its name within one batch: once the two
  paths have been paired, the event for the new file is skipped, so it is neither indexed nor reported.
\<close>

definition file_name :: "string \<Rightarrow> string" where
  "file_name path = rev (takeWhile (\<lambda>c. c \<noteq> CHR ''/'') (rev path))"

definition reused_name_env :: "nat fs_env" where
  "reused_name_env = fs_sample_env\<lparr>fe_files := (\<lambda>k.
     ((\<lambda>p. if p = ''/w/a'' then Some (fs_sample_stat Regular 8) else if p = ''/w/b'' then Some (fs_sample_stat Regular 7) else None,
       \<lambda>p. Some \<lparr>ab_length = length (file_name p) + 5, ab_dataoffset = 0, ab_attrlength = length (file_name p) + 1,
         ab_bytes = replicate 4 (CHR 0x00) @ file_name p @ [CHR 0x00]\<rparr>), k))\<rparr>"

definition reused_name_after :: "nat fsevents" where
  "reused_name_after =
     FSEventsCallback reused_name_env 0
       [(''/w/a'', FlagItemRenamed OR FlagItemCreated OR FlagItemIsFile), (''/w/b'', FlagItemRenamed OR FlagItemIsFile)]
       (fs_sample_watcher\<lparr>fs_stream := Some 0, fs_initializing := False, fs_identities := reused_path_before,
          fs_tree := dt_add (dt_new ''/w'') ''/w/a'' 0 False\<rparr>)"

lemma new_file_at_renamed_path_is_lost:
  "map (\<lambda>e. (ev_path e, event_type e)) (batch_events (fst (el_drain (fs_events reused_name_after)))) =
     [(''/w/a'', ''delete''), (''/w/b'', ''create'')] \<and>
   ix_find (fs_identities reused_name_after) ''/w/a'' = None \<and>
   fst (read_path reused_name_env ''/w/a'' reused_name_after) \<noteq> None"
  by code_simp

end
