(* ===== verification/WinBackend.thy ===== *)
theory WinBackend
  imports DirTrees "HOL-Library.Multiset_Order"
begin

section \<open>The Windows backend (src/windows/WindowsBackend.hh, src/windows/WindowsBackend.cc)\<close>

unbundle bit_operations_syntax

text \<open>
  The record \<open>win_sub\<close> is one \<open>Subscription\<close> together with what it shares: the events of its watcher, the
  flag \<open>mNeedsResubscribe\<close>, how often \<open>notify\<close>, \<open>invalidate\<close> and \<open>CloseHandle\<close> were called, and a state
  \<open>'k\<close> of the operating system that each call may change. Operations that can throw return the message. The
  record \<open>win_env\<close> has the answers of the system: what \<open>WideCharToMultiByte\<close> makes of a name, what
  \<open>CompareStringOrdinal\<close> says of two names, the attributes and entries of paths, and the results of the
  calls that start a read or queue a function on the thread of the backend. \<open>isIgnored\<close> is a total function.
\<close>

subsection \<open>Data\<close>

type_synonym wchar = "16 word"

record win_attributes =
  wa_flags :: u32
  wa_mtime :: u64

record find_data = win_attributes +
  wf_name :: "wchar list"

record notify_info =
  ni_next :: u32
  ni_action :: u32
  ni_length :: u32
  ni_name :: "wchar list"

text \<open>A buffer has a size and starts with the bytes that the system has written to it.\<close>

record win_buffer =
  bf_size :: nat
  bf_bytes :: "8 word list"

record 'k win_sub =
  ws_running :: bool
  ws_pollPending :: bool
  ws_stopRequested :: bool
  ws_stopped :: bool
  ws_overflowed :: bool
  ws_started :: bool
  ws_startError :: string
  ws_pendingRename :: "string option"
  ws_removedPaths :: "string list"
  ws_previousRemovedPaths :: "string list"
  ws_renameSequence :: u64
  ws_handle :: bool
  ws_readBuffer :: win_buffer
  ws_writeBuffer :: win_buffer
  ws_tree :: dir_tree
  ws_events :: event_list
  ws_needsResubscribe :: bool
  ws_invalidated :: nat
  ws_notified :: nat
  ws_closes :: nat
  ws_stopQueued :: bool
  ws_readCancelled :: bool
  ws_kernel :: 'k

record 'k win_env =
  we_dir :: string
  we_ignored :: "string \<Rightarrow> bool"
  we_hasIgnores :: bool
  we_utf8 :: "wchar list \<Rightarrow> string"
  we_sameName :: "string \<Rightarrow> wchar list \<Rightarrow> bool"
  we_attributes :: "string \<Rightarrow> 'k \<Rightarrow> win_attributes option \<times> 'k"
  we_find :: "string \<Rightarrow> 'k \<Rightarrow> find_data option \<times> 'k"
  we_list :: "string \<Rightarrow> 'k \<Rightarrow> find_data list option \<times> 'k"
  we_cancelled :: "'k \<Rightarrow> bool \<times> 'k"
  we_read :: "nat \<Rightarrow> 'k \<Rightarrow> u32 option \<times> 'k"
  we_queue :: "'k \<Rightarrow> bool \<times> 'k"
  we_create :: "'k \<Rightarrow> bool \<times> 'k"
  we_information :: "'k \<Rightarrow> u32 option \<times> 'k"

definition DEFAULT_BUF_SIZE :: nat where "DEFAULT_BUF_SIZE = 1024 * 1024"
definition NETWORK_BUF_SIZE :: nat where "NETWORK_BUF_SIZE = 64 * 1024"

definition FILE_ATTRIBUTE_DIRECTORY :: u32 where "FILE_ATTRIBUTE_DIRECTORY = 0x10"
definition FILE_ATTRIBUTE_DEVICE :: u32 where "FILE_ATTRIBUTE_DEVICE = 0x40"
definition FILE_ATTRIBUTE_REPARSE_POINT :: u32 where "FILE_ATTRIBUTE_REPARSE_POINT = 0x400"

definition FILE_ACTION_ADDED :: u32 where "FILE_ACTION_ADDED = 1"
definition FILE_ACTION_REMOVED :: u32 where "FILE_ACTION_REMOVED = 2"
definition FILE_ACTION_MODIFIED :: u32 where "FILE_ACTION_MODIFIED = 3"
definition FILE_ACTION_RENAMED_OLD_NAME :: u32 where "FILE_ACTION_RENAMED_OLD_NAME = 4"
definition FILE_ACTION_RENAMED_NEW_NAME :: u32 where "FILE_ACTION_RENAMED_NEW_NAME = 5"

definition ERROR_SUCCESS :: u32 where "ERROR_SUCCESS = 0"
definition ERROR_ACCESS_DENIED :: u32 where "ERROR_ACCESS_DENIED = 5"
definition ERROR_INVALID_PARAMETER :: u32 where "ERROR_INVALID_PARAMETER = 87"
definition ERROR_OPERATION_ABORTED :: u32 where "ERROR_OPERATION_ABORTED = 995"
definition ERROR_NOTIFY_ENUM_DIR :: u32 where "ERROR_NOTIFY_ENUM_DIR = 1022"

definition is_directory :: "win_attributes \<Rightarrow> bool" where
  "is_directory a \<longleftrightarrow> wa_flags a AND FILE_ATTRIBUTE_DIRECTORY \<noteq> 0"

definition unsupported :: "u32 \<Rightarrow> bool" where
  "unsupported flags \<longleftrightarrow> flags AND (FILE_ATTRIBUTE_REPARSE_POINT OR FILE_ATTRIBUTE_DEVICE) \<noteq> 0"

subsection \<open>System calls\<close>

text \<open>
  A path has at most 32767 UTF-16 units, each of which takes at most three bytes in UTF-8; the system
  refuses longer ones.
\<close>

definition WIN_PATH_BYTES :: nat where "WIN_PATH_BYTES = 3 * 32767"

definition win_call :: "('k \<Rightarrow> 'a \<times> 'k) \<Rightarrow> 'k win_sub \<Rightarrow> 'a \<times> 'k win_sub" where
  "win_call f st = (let (x, k) = f (ws_kernel st) in (x, st\<lparr>ws_kernel := k\<rparr>))"

definition get_attributes :: "'k win_env \<Rightarrow> string \<Rightarrow> 'k win_sub \<Rightarrow> win_attributes option \<times> 'k win_sub" where
  "get_attributes env path st = (if length path > WIN_PATH_BYTES then (None, st) else win_call (we_attributes env path) st)"

definition list_entries :: "'k win_env \<Rightarrow> string \<Rightarrow> 'k win_sub \<Rightarrow> find_data list option \<times> 'k win_sub" where
  "list_entries env path st = (if length path > WIN_PATH_BYTES then (None, st) else win_call (we_list env path) st)"

text \<open>\<open>utf16ToUtf8\<close>: the converted bytes up to the first NUL.\<close>

definition utf16ToUtf8 :: "'k win_env \<Rightarrow> wchar list \<Rightarrow> string" where
  "utf16ToUtf8 env input = c_str (we_utf8 env input)"

definition win_child :: "string \<Rightarrow> string \<Rightarrow> string" where
  "win_child path name = path @ CHR 0x5C # name"

definition win_log :: "(event_list \<Rightarrow> event_list) \<Rightarrow> 'k win_sub \<Rightarrow> 'k win_sub" where
  "win_log f st = st\<lparr>ws_events := f (ws_events st)\<rparr>"

definition win_set_tree :: "dir_tree \<Rightarrow> 'k win_sub \<Rightarrow> 'k win_sub" where
  "win_set_tree t st = st\<lparr>ws_tree := t\<rparr>"

subsection \<open>Reading the tree\<close>

text \<open>
  The entries of one directory: whether the watcher was cancelled, and the stack of directories. The
  search handle is given as the list of what it finds.
\<close>

fun win_read_entries ::
  "'k win_env \<Rightarrow> string \<Rightarrow> find_data list \<Rightarrow> string list \<Rightarrow> 'k win_sub \<Rightarrow> (bool \<times> string list) \<times> 'k win_sub" where
  "win_read_entries env path [] directories st = ((False, directories), st)"
| "win_read_entries env path (ffd # rest) directories st =
     (case win_call (we_cancelled env) st of
        (True, st1) \<Rightarrow> ((True, directories), st1)
      | (False, st1) \<Rightarrow>
          (let name = utf16ToUtf8 env (wf_name ffd); fullPath = win_child path name in
           if name = ''.'' \<or> name = ''..'' \<or> we_ignored env fullPath \<or> unsupported (wa_flags ffd)
           then win_read_entries env path rest directories st1
           else
             (let isDir = (wa_flags ffd AND FILE_ATTRIBUTE_DIRECTORY \<noteq> 0) in
              win_read_entries env path rest (if isDir then fullPath # directories else directories)
                (win_set_tree (dt_add (ws_tree st1) fullPath (wa_mtime ffd) isDir) st1))))"

text \<open>Paths on the stack only get longer, and long ones do not open.\<close>

definition stack_measure :: "string list \<Rightarrow> nat multiset" where
  "stack_measure paths = mset (map (\<lambda>p. Suc WIN_PATH_BYTES - length p) paths)"

lemma win_read_entries_longer:
  assumes "win_read_entries env path ffds directories st = ((cancelled, directories'), st')"
  shows "\<exists>new. directories' = new @ directories \<and> (\<forall>p \<in> set new. length path < length p)"
  using assms
proof (induction env path ffds directories st rule: win_read_entries.induct)
  case (1 env path directories st)
  then show ?case by simp
next
  case (2 env path ffd rest directories st)
  obtain stop st1 where call: "win_call (we_cancelled env) st = (stop, st1)" by (metis surj_pair)
  show ?case
  proof (cases stop)
    case True
    then show ?thesis using 2 call by simp
  next
    case False
    let ?name = "utf16ToUtf8 env (wf_name ffd)"
    let ?skip = "?name = ''.'' \<or> ?name = ''..'' \<or> we_ignored env (win_child path ?name) \<or> unsupported (wa_flags ffd)"
    have "length path < length (win_child path ?name)" by (simp add: win_child_def)
    then show ?thesis
      using 2(1) [OF call [symmetric] _ refl refl] 2(2) [OF call [symmetric] _ refl refl _ refl] 2(3) call False
      by (cases ?skip) (auto simp: Let_def split: if_splits)
  qed
qed

lemma stack_measure_less:
  assumes "\<forall>p \<in> set new. length path < length p" and "length path \<le> WIN_PATH_BYTES"
  shows "stack_measure (new @ rest) < stack_measure (path # rest)"
proof -
  have "mset (map (\<lambda>p. Suc WIN_PATH_BYTES - length p) new) < {#Suc WIN_PATH_BYTES - length path#}"
    by (rule ex_gt_imp_less_multiset) (use assms in fastforce)
  then show ?thesis by (simp add: stack_measure_def)
qed

lemma stack_measure_pop [simp]: "stack_measure rest < stack_measure (path # rest)"
  unfolding stack_measure_def by (rule subset_imp_less_mset) simp

lemma wf_stack: "wf (inv_image {(x, y). x < y} (\<lambda>(env, paths, st). stack_measure paths))"
  by (rule wf_inv_image) (rule wf)

lemma list_entries_fits: "list_entries env path st = (Some es, st') \<Longrightarrow> length path \<le> WIN_PATH_BYTES"
  by (simp add: list_entries_def split: if_splits)

lemma get_attributes_fits: "get_attributes env path st = (Some a, st') \<Longrightarrow> length path \<le> WIN_PATH_BYTES"
  by (simp add: get_attributes_def split: if_splits)

lemma pushed_deeper:
  assumes "(Some ffds, st1) = list_entries env path st" and "((cancelled, pushed), st3) = win_read_entries env path ffds directories st2"
  shows "stack_measure pushed < stack_measure (path # directories)"
  using win_read_entries_longer [OF assms(2) [symmetric]] list_entries_fits [OF assms(1) [symmetric]] stack_measure_less by blast

text \<open>The error that is thrown, if any.\<close>

function win_read_loop :: "'k win_env \<Rightarrow> string list \<Rightarrow> 'k win_sub \<Rightarrow> string option \<times> 'k win_sub" where
  "win_read_loop env [] st = (None, st)"
| "win_read_loop env (path # directories) st =
     (case win_call (we_cancelled env) st of
        (True, st1) \<Rightarrow> (None, st1)
      | (False, st1) \<Rightarrow>
          (case list_entries env path st1 of
             (None, st2) \<Rightarrow>
               if path = we_dir env then (Some ''Error opening directory'', st2)
               else win_read_loop env directories (win_set_tree (dt_remove Windows (ws_tree st2) path) st2)
           | (Some ffds, st2) \<Rightarrow>
               (case win_read_entries env path ffds directories st2 of
                  ((True, pushed), st3) \<Rightarrow> (None, st3)
                | ((False, pushed), st3) \<Rightarrow> win_read_loop env pushed st3)))"
  by pat_completeness auto
termination
  by (relation "inv_image {(x, y). x < y} (\<lambda>(env, paths, st). stack_measure paths)", rule wf_stack)
    (auto intro: pushed_deeper)


definition win_readTree :: "'k win_env \<Rightarrow> 'k win_sub \<Rightarrow> string option \<times> 'k win_sub" where
  "win_readTree env st = win_read_loop env [we_dir env] st"

subsection \<open>Stopping\<close>

definition win_finishStop :: "'k win_sub \<Rightarrow> 'k win_sub" where
  "win_finishStop st =
     (if ws_stopped st then st
      else
        (let st1 = st\<lparr>ws_stopped := True\<rparr>;
             st2 = (if ws_handle st1 then st1\<lparr>ws_handle := False, ws_closes := ws_closes st1 + 1\<rparr> else st1) in
         if ws_overflowed st2 then st2\<lparr>ws_notified := ws_notified st2 + 1\<rparr> else st2))"

definition win_beginStop :: "'k win_sub \<Rightarrow> 'k win_sub" where
  "win_beginStop st =
     (let st1 = st\<lparr>ws_running := False\<rparr> in
      if ws_pollPending st1 then st1\<lparr>ws_readCancelled := True\<rparr> else win_finishStop st1)"

text \<open>
  \<open>requestStop\<close> on the thread of the backend, where nothing can fail, and on any other thread: there it is two steps, the
  exchange of the flag (\<open>True\<close>: it was set, so there is nothing to do) and the queueing, which takes the flag back when it
  fails. Other threads can act in between.
\<close>

definition win_requestStop_here :: "'k win_sub \<Rightarrow> 'k win_sub" where
  "win_requestStop_here st =
     (if ws_stopRequested st then st else win_beginStop (st\<lparr>ws_stopRequested := True\<rparr>))"

definition win_claimStop :: "'k win_sub \<Rightarrow> bool \<times> 'k win_sub" where
  "win_claimStop st = (ws_stopRequested st, st\<lparr>ws_stopRequested := True\<rparr>)"

definition win_queueStop :: "'k win_env \<Rightarrow> 'k win_sub \<Rightarrow> string option \<times> 'k win_sub" where
  "win_queueStop env st =
     (case win_call (we_queue env) st of
        (True, st1) \<Rightarrow> (None, st1\<lparr>ws_stopQueued := True\<rparr>)
      | (False, st1) \<Rightarrow> (Some ''Unable to queue subscription stop'', st1\<lparr>ws_stopRequested := False\<rparr>))"

definition win_requestStop :: "'k win_env \<Rightarrow> 'k win_sub \<Rightarrow> string option \<times> 'k win_sub" where
  "win_requestStop env st =
     (case win_claimStop st of
        (True, st1) \<Rightarrow> (None, st1)
      | (False, st1) \<Rightarrow> win_queueStop env st1)"

text \<open>The queued function.\<close>

definition win_stop_apc :: "'k win_sub \<Rightarrow> 'k win_sub" where
  "win_stop_apc st = win_beginStop (st\<lparr>ws_stopQueued := False\<rparr>)"

definition win_overflow_message :: string where
  "win_overflow_message =
     ''ReadDirectoryChangesW buffer overflow. The subscription can no longer guarantee complete filesystem events.''"

definition win_failOverflow :: "'k win_sub \<Rightarrow> 'k win_sub" where
  "win_failOverflow st =
     win_requestStop_here
       ((win_log (\<lambda>l. el_error l win_overflow_message) (st\<lparr>ws_overflowed := True\<rparr>))\<lparr>ws_invalidated := ws_invalidated st + 1\<rparr>)"

subsection \<open>Waiting for changes\<close>

text \<open>
  The code only ever makes a buffer smaller (the constructor apart), and the memory of a vector stays when it shrinks: the
  bytes beyond the new size are still there, and are read if the read buffer shrinks while it holds changes.
\<close>

definition resize_buffer :: "nat \<Rightarrow> win_buffer \<Rightarrow> win_buffer" where
  "resize_buffer n b = \<lparr>bf_size = n, bf_bytes = bf_bytes b\<rparr>"

definition use_network_buffers :: "'k win_sub \<Rightarrow> 'k win_sub" where
  "use_network_buffers st =
     st\<lparr>ws_readBuffer := resize_buffer NETWORK_BUF_SIZE (ws_readBuffer st),
        ws_writeBuffer := resize_buffer NETWORK_BUF_SIZE (ws_writeBuffer st)\<rparr>"

lemma win_call_buffer: "(x, st1) = win_call f st \<Longrightarrow> ws_writeBuffer st1 = ws_writeBuffer st"
  by (auto simp: win_call_def split: prod.splits)

function win_poll :: "'k win_env \<Rightarrow> 'k win_sub \<Rightarrow> string option \<times> 'k win_sub" where
  "win_poll env st =
     (if \<not> ws_running st then (None, st)
      else
        (case win_call (we_read env (bf_size (ws_writeBuffer st))) st of
           (None, st1) \<Rightarrow> (None, st1\<lparr>ws_pollPending := True\<rparr>)
         | (Some lastError, st1) \<Rightarrow>
             if lastError = ERROR_INVALID_PARAMETER \<and> bf_size (ws_writeBuffer st1) > NETWORK_BUF_SIZE
             then win_poll env (use_network_buffers st1)
             else (Some ''Failed to read changes'', st1)))"
  by pat_completeness auto
termination
  by (relation "measure (\<lambda>(env, st). bf_size (ws_writeBuffer st))")
    (auto simp: use_network_buffers_def resize_buffer_def dest: win_call_buffer)

declare win_poll.simps [simp del]

subsection \<open>One change\<close>

definition win_removePath :: "string \<Rightarrow> 'k win_sub \<Rightarrow> 'k win_sub" where
  "win_removePath path st =
     (case dt_extract Windows (ws_tree st) path of
        (entries, t) \<Rightarrow> win_log (fold (\<lambda>e l. el_remove l (de_path e) (entryKind (de_isDir e))) entries) (win_set_tree t st))"

definition win_flushPendingRename :: "'k win_sub \<Rightarrow> 'k win_sub" where
  "win_flushPendingRename st =
     (case ws_pendingRename st of
        None \<Rightarrow> st
      | Some path \<Rightarrow> (win_removePath path st)\<lparr>ws_pendingRename := None\<rparr>)"

text \<open>The names of a directory as they are pushed on the stack.\<close>

definition win_children :: "'k win_env \<Rightarrow> string \<Rightarrow> find_data list \<Rightarrow> string list" where
  "win_children env candidate entries =
     rev (map (win_child candidate) (filter (\<lambda>name. name \<noteq> ''.'' \<and> name \<noteq> ''..'') (map (\<lambda>e. utf16ToUtf8 env (wf_name e)) entries)))"

definition win_add_candidate :: "string \<Rightarrow> win_attributes \<Rightarrow> 'k win_sub \<Rightarrow> 'k win_sub" where
  "win_add_candidate candidate data st =
     (if dt_find (ws_tree st) candidate \<noteq> None then st
      else
        win_set_tree (dt_add (ws_tree st) candidate (wa_mtime data) (is_directory data))
          (win_log (\<lambda>l. el_create l candidate (entryKind (is_directory data))) st))"

lemma children_deeper:
  assumes "(Some a, st1) = get_attributes env path st"
  shows "stack_measure (win_children env path entries @ rest) < stack_measure (path # rest)"
  by (rule stack_measure_less) (use get_attributes_fits [OF assms [symmetric]] in \<open>auto simp: win_children_def win_child_def\<close>)

function win_add_loop :: "'k win_env \<Rightarrow> string list \<Rightarrow> 'k win_sub \<Rightarrow> 'k win_sub" where
  "win_add_loop env [] st = st"
| "win_add_loop env (candidate # pending) st =
     (if we_ignored env candidate then win_add_loop env pending st
      else
        (case get_attributes env candidate st of
           (None, st1) \<Rightarrow> win_add_loop env pending st1
         | (Some data, st1) \<Rightarrow>
             if unsupported (wa_flags data) then win_add_loop env pending st1
             else if \<not> is_directory data then win_add_loop env pending (win_add_candidate candidate data st1)
             else
               (case list_entries env candidate (win_add_candidate candidate data st1) of
                  (None, st2) \<Rightarrow> win_add_loop env pending st2
                | (Some entries, st2) \<Rightarrow> win_add_loop env (win_children env candidate entries @ pending) st2)))"
  by pat_completeness auto
termination
  by (relation "inv_image {(x, y). x < y} (\<lambda>(env, paths, st). stack_measure paths)", rule wf_stack)
    (auto intro: children_deeper)

definition win_addPath :: "'k win_env \<Rightarrow> string \<Rightarrow> 'k win_sub \<Rightarrow> 'k win_sub" where
  "win_addPath env path st = win_add_loop env [path] st"


text \<open>The second half of a rename, when the first one is pending.\<close>

definition win_target_existed :: "string \<Rightarrow> 'k win_sub \<Rightarrow> bool \<times> 'k win_sub" where
  "win_target_existed path st =
     (if dt_find (ws_tree st) path \<noteq> None then (True, st)
      else if path \<in> set (ws_removedPaths st) then (True, st\<lparr>ws_removedPaths := removeAll path (ws_removedPaths st)\<rparr>)
      else if path \<in> set (ws_previousRemovedPaths st)
      then (True, st\<lparr>ws_previousRemovedPaths := removeAll path (ws_previousRemovedPaths st)\<rparr>)
      else (False, st))"

definition win_moved_path :: "string \<Rightarrow> string \<Rightarrow> dir_entry \<Rightarrow> string" where
  "win_moved_path oldPath path e = path @ drop (length oldPath) (de_path e)"

definition win_report_moved ::
  "'k win_env \<Rightarrow> bool \<Rightarrow> bool \<Rightarrow> string \<Rightarrow> string \<Rightarrow> string \<Rightarrow> dir_entry \<Rightarrow> event_list \<Rightarrow> event_list" where
  "win_report_moved env targetExisted supported rid oldPath path e l =
     (let newPath = win_moved_path oldPath path e; kind = entryKind (de_isDir e) in
      if targetExisted \<or> \<not> supported \<or> we_ignored env newPath
      then
        (let l1 = el_remove l (de_path e) kind in
         if supported \<and> \<not> we_ignored env newPath then el_create l1 newPath kind else l1)
      else el_rename l (de_path e) newPath (rid @ '':'' @ drop (length oldPath) (de_path e)) kind)"

text \<open>What is done with the entry found at the new path, unless it is not supported.\<close>

definition win_index_target :: "'k win_env \<Rightarrow> string \<Rightarrow> dir_entry list \<Rightarrow> win_attributes option \<Rightarrow> 'k win_sub \<Rightarrow> 'k win_sub" where
  "win_index_target env path moved data st =
     (case data of
        None \<Rightarrow> st
      | Some a \<Rightarrow>
          (let st1 =
             (case dt_update (ws_tree st) path (wa_mtime a) of
                (True, t) \<Rightarrow> win_set_tree t st
              | (False, t) \<Rightarrow>
                  win_set_tree (dt_add t path (wa_mtime a) (is_directory a))
                    (if moved = [] then win_log (\<lambda>l. el_create l path (entryKind (is_directory a))) st else st)) in
           if is_directory a \<and> (moved = [] \<or> we_hasIgnores env) then win_addPath env path st1 else st1))"

definition win_complete_rename :: "'k win_env \<Rightarrow> string \<Rightarrow> string \<Rightarrow> win_attributes option \<Rightarrow> 'k win_sub \<Rightarrow> 'k win_sub" where
  "win_complete_rename env oldPath path data st =
     (let supported = (case data of None \<Rightarrow> True | Some a \<Rightarrow> \<not> unsupported (wa_flags a)) in
      case win_target_existed path st of
        (targetExisted, st1) \<Rightarrow>
          (case dt_extract Windows (ws_tree st1) oldPath of
             (moved, t) \<Rightarrow>
               (let t1 = (if targetExisted then dt_remove Windows t path else t);
                    n = ws_renameSequence st1 + 1;
                    st2 = win_log (fold (win_report_moved env targetExisted supported (''windows:'' @ decimal (unat n)) oldPath path) moved)
                      ((win_set_tree t1 st1)\<lparr>ws_renameSequence := n\<rparr>);
                    visible = filter (\<lambda>e. \<not> we_ignored env (win_moved_path oldPath path e)) moved;
                    st3 = (if supported
                           then win_index_target env path moved data (win_set_tree (dt_restore (ws_tree st2) visible oldPath path) st2)
                           else st2) in
                st3\<lparr>ws_pendingRename := None\<rparr>)))"

definition win_added :: "'k win_env \<Rightarrow> string \<Rightarrow> 'k win_sub \<Rightarrow> 'k win_sub" where
  "win_added env path st =
     (let st1 = win_flushPendingRename st in
      win_addPath env path
        (st1\<lparr>ws_removedPaths := removeAll path (ws_removedPaths st1),
             ws_previousRemovedPaths := removeAll path (ws_previousRemovedPaths st1)\<rparr>))"

definition win_renamed_new :: "'k win_env \<Rightarrow> string \<Rightarrow> 'k win_sub \<Rightarrow> 'k win_sub" where
  "win_renamed_new env path st =
     (case get_attributes env path st of
        (data, st1) \<Rightarrow>
          (case ws_pendingRename st1 of
             Some oldPath \<Rightarrow> win_complete_rename env oldPath path data st1
           | None \<Rightarrow>
               (case data of
                  None \<Rightarrow> st1
                | Some a \<Rightarrow> if unsupported (wa_flags a) then st1 else win_addPath env path st1)))"

definition win_modified :: "'k win_env \<Rightarrow> string \<Rightarrow> 'k win_sub \<Rightarrow> 'k win_sub" where
  "win_modified env path st =
     (case get_attributes env path (win_flushPendingRename st) of
        (None, st1) \<Rightarrow> st1
      | (Some a, st1) \<Rightarrow>
          if unsupported (wa_flags a) \<or> dt_find (ws_tree st1) path = None then st1
          else
            (let st2 = win_set_tree (snd (dt_update (ws_tree st1) path (wa_mtime a))) st1 in
             if is_directory a then st2 else win_log (\<lambda>l. el_update l path File) st2))"

definition last_component :: "string \<Rightarrow> string" where
  "last_component path = rev (takeWhile (\<lambda>c. c \<noteq> CHR 0x5C) (rev path))"

definition win_removed :: "'k win_env \<Rightarrow> string \<Rightarrow> 'k win_sub \<Rightarrow> 'k win_sub" where
  "win_removed env path st =
     (let st1 = win_flushPendingRename st;
          st2 = win_removePath path (st1\<lparr>ws_removedPaths := List.insert path (ws_removedPaths st1)\<rparr>) in
      case win_call (we_find env path) st2 of
        (None, st3) \<Rightarrow> st3
      | (Some data, st3) \<Rightarrow>
          (let name = utf16ToUtf8 env (wf_name data); old = last_component path in
           if name \<noteq> old \<and> we_sameName env old (wf_name data)
           then win_addPath env (take (length path - length old) path @ name) st3 else st3))"

definition win_processEvent :: "'k win_env \<Rightarrow> notify_info \<Rightarrow> 'k win_sub \<Rightarrow> 'k win_sub" where
  "win_processEvent env info st =
     (let path = win_child (we_dir env) (utf16ToUtf8 env (ni_name info)); action = ni_action info in
      if we_ignored env path then win_flushPendingRename st
      else if action = FILE_ACTION_ADDED then win_added env path st
      else if action = FILE_ACTION_RENAMED_NEW_NAME then win_renamed_new env path st
      else if action = FILE_ACTION_MODIFIED then win_modified env path st
      else if action = FILE_ACTION_REMOVED then win_removed env path st
      else if action = FILE_ACTION_RENAMED_OLD_NAME then (win_flushPendingRename st)\<lparr>ws_pendingRename := Some path\<rparr>
      else st)"

subsection \<open>A buffer of changes\<close>

text \<open>The fields of \<open>FILE_NOTIFY_INFORMATION\<close>, which the system lays out in little-endian order.\<close>

definition u32_at :: "8 word list \<Rightarrow> nat \<Rightarrow> u32" where
  "u32_at bs i = (ucast (bs ! i)) OR push_bit 8 (ucast (bs ! (i + 1))) OR
     push_bit 16 (ucast (bs ! (i + 2))) OR push_bit 24 (ucast (bs ! (i + 3)))"

definition u16_at :: "8 word list \<Rightarrow> nat \<Rightarrow> wchar" where
  "u16_at bs i = (ucast (bs ! i)) OR push_bit 8 (ucast (bs ! (i + 1)))"

definition NAME_OFFSET :: nat where "NAME_OFFSET = 12"

definition info_at :: "8 word list \<Rightarrow> notify_info" where
  "info_at bs =
     (let n = u32_at bs 8 in
      \<lparr>ni_next = u32_at bs 0, ni_action = u32_at bs 4, ni_length = n,
       ni_name = map (\<lambda>i. u16_at bs (NAME_OFFSET + 2 * i)) [0..<unat n div 2]\<rparr>)"

text \<open>
  The loop over the buffer, of which \<open>bs\<close> is what lies between \<open>base\<close> and \<open>end\<close>: \<open>True\<close> if it ends
  in \<open>failOverflow\<close>. A name is only read after its length has been checked.
\<close>

text \<open>
  What is left of the buffer is the list of its bytes, so positions are its lengths. \<open>recordSize\<close> is at most 12 + 2^32 - 1,
  which a \<open>size_t\<close> of 64 bits, as on the platforms that are built, holds.
\<close>

function win_event_loop :: "'k win_env \<Rightarrow> 8 word list \<Rightarrow> 'k win_sub \<Rightarrow> bool \<times> 'k win_sub" where
  "win_event_loop env bs st =
     (if bs = [] then (False, st)
      else if length bs < NAME_OFFSET then (True, win_failOverflow st)
      else
        (let fileNameLength = unat (u32_at bs 8); recordSize = NAME_OFFSET + fileNameLength in
         if fileNameLength mod 2 \<noteq> 0 \<or> recordSize > length bs then (True, win_failOverflow st)
         else
           (let next = unat (u32_at bs 0); st1 = win_processEvent env (info_at bs) st in
            if next = 0 then (False, st1)
            else if next < recordSize \<or> next \<ge> length bs then (True, win_failOverflow st1)
            else win_event_loop env (drop next bs) st1)))"
  by pat_completeness auto
termination
  by (relation "measure (\<lambda>(env, bs, st). length bs)") (auto simp: NAME_OFFSET_def)

declare win_event_loop.simps [simp del]

text \<open>The error that is thrown, if any.\<close>

definition win_read_changes :: "'k win_env \<Rightarrow> nat \<Rightarrow> 'k win_sub \<Rightarrow> string option \<times> 'k win_sub" where
  "win_read_changes env numBytes st =
     (if numBytes = 0 \<or> numBytes > bf_size (ws_writeBuffer st) then (None, win_failOverflow st)
      else
        (case win_poll env (st\<lparr>ws_writeBuffer := ws_readBuffer st, ws_readBuffer := ws_writeBuffer st\<rparr>) of
           (Some err, st1) \<Rightarrow> (Some err, st1)
         | (None, st1) \<Rightarrow>
             (case win_event_loop env (take numBytes (bf_bytes (ws_readBuffer st1)))
                (st1\<lparr>ws_previousRemovedPaths := ws_removedPaths st1, ws_removedPaths := []\<rparr>) of
                (True, st2) \<Rightarrow> (None, st2)
              | (False, st2) \<Rightarrow>
                  (let st3 = (win_flushPendingRename st2)\<lparr>ws_previousRemovedPaths := []\<rparr> in
                   (None, st3\<lparr>ws_notified := ws_notified st3 + 1\<rparr>)))))"

definition win_processEvents :: "'k win_env \<Rightarrow> u32 \<Rightarrow> nat \<Rightarrow> 'k win_sub \<Rightarrow> string option \<times> 'k win_sub" where
  "win_processEvents env errorCode numBytes st =
     (if \<not> ws_running st then (None, win_finishStop st)
      else if errorCode = ERROR_OPERATION_ABORTED then (None, st)
      else if errorCode = ERROR_INVALID_PARAMETER then
        (if bf_size (ws_readBuffer st) \<le> NETWORK_BUF_SIZE then (Some ''Invalid parameter watching directory'', st)
         else win_poll env (use_network_buffers st))
      else if errorCode = ERROR_NOTIFY_ENUM_DIR then (None, win_failOverflow st)
      else if errorCode = ERROR_ACCESS_DENIED then
        (case win_call (we_attributes env (we_dir env)) st of
           (data, st1) \<Rightarrow>
             (if (case data of None \<Rightarrow> False | Some a \<Rightarrow> is_directory a) then (Some ''Unknown error'', st1)
              else (Some ''Watched directory was deleted'', st1)))
      else if errorCode \<noteq> ERROR_SUCCESS then (Some ''Unknown error'', st)
      else win_read_changes env numBytes st)"

text \<open>
  The completion routine: the bytes that were written, as the system delivers them. The error goes to
  \<open>handleWatcherError\<close>.
\<close>

definition win_completion :: "'k win_env \<Rightarrow> u32 \<Rightarrow> 8 word list \<Rightarrow> 'k win_sub \<Rightarrow> string option \<times> 'k win_sub" where
  "win_completion env errorCode bytes st =
     win_processEvents env errorCode (length bytes)
       (st\<lparr>ws_pollPending := False, ws_readCancelled := False,
           ws_writeBuffer := (ws_writeBuffer st)\<lparr>bf_bytes := bytes @ drop (length bytes) (bf_bytes (ws_writeBuffer st))\<rparr>\<rparr>)"

subsection \<open>Starting\<close>

definition new_buffer :: win_buffer where
  "new_buffer = \<lparr>bf_size = DEFAULT_BUF_SIZE, bf_bytes = []\<rparr>"

text \<open>The constructor: the error, or the subscription, with the watcher's events and flags as they are.\<close>

definition win_construct :: "'k win_env \<Rightarrow> 'k win_sub \<Rightarrow> string option \<times> 'k win_sub" where
  "win_construct env st =
     (let st1 = st\<lparr>ws_running := True, ws_pollPending := False, ws_stopRequested := False, ws_stopped := False, ws_overflowed := False,
            ws_started := False, ws_startError := [], ws_pendingRename := None, ws_removedPaths := [], ws_previousRemovedPaths := [],
            ws_renameSequence := 0, ws_handle := False, ws_readBuffer := new_buffer, ws_writeBuffer := new_buffer,
            ws_tree := dt_new (we_dir env), ws_closes := 0, ws_stopQueued := False, ws_readCancelled := False\<rparr> in
      case win_call (we_create env) st1 of
        (False, st2) \<Rightarrow> (Some ''Invalid handle'', st2)
      | (True, st2) \<Rightarrow>
          (case win_call (we_information env) (st2\<lparr>ws_handle := True\<rparr>) of
             (None, st3) \<Rightarrow> (Some ''Could not get file information'', st3\<lparr>ws_handle := False, ws_closes := ws_closes st3 + 1\<rparr>)
           | (Some flags, st3) \<Rightarrow>
               if flags AND FILE_ATTRIBUTE_DIRECTORY = 0
               then (Some ''Not a directory'', st3\<lparr>ws_handle := False, ws_closes := ws_closes st3 + 1\<rparr>)
               else (None, st3)))"

definition win_start_failed :: "string \<Rightarrow> 'k win_sub \<Rightarrow> 'k win_sub" where
  "win_start_failed err st = (win_requestStop_here (st\<lparr>ws_startError := err\<rparr>))\<lparr>ws_started := True\<rparr>"

definition win_run :: "'k win_env \<Rightarrow> 'k win_sub \<Rightarrow> 'k win_sub" where
  "win_run env st =
     (case win_poll env st of
        (Some err, st1) \<Rightarrow> win_start_failed err st1
      | (None, st1) \<Rightarrow>
          (case win_readTree env st1 of
             (Some err, st2) \<Rightarrow> win_start_failed err st2
           | (None, st2) \<Rightarrow>
               (case win_call (we_cancelled env) st2 of
                  (cancelled, st3) \<Rightarrow>
                    (if cancelled \<or> ws_stopRequested st3
                     then win_requestStop_here (st3\<lparr>ws_needsResubscribe := True\<rparr>)
                     else win_set_tree ((ws_tree st3)\<lparr>isComplete := True\<rparr>) st3)\<lparr>ws_started := True\<rparr>)))"

text \<open>The destructor, and what \<open>waitForStart\<close> throws.\<close>

definition win_destruct :: "'k win_sub \<Rightarrow> 'k win_sub" where
  "win_destruct st = (if ws_handle st then st\<lparr>ws_handle := False, ws_closes := ws_closes st + 1\<rparr> else st)"

definition win_start_result :: "'k win_sub \<Rightarrow> string option" where
  "win_start_result st = (if ws_startError st = [] then None else Some (ws_startError st))"

text \<open>
  \<open>subscribe\<close>, which queues \<open>win_run\<close>; the second part of \<open>finishSubscribe\<close> once the start was signalled (its
  error is rethrown after the stop has completed); and \<open>unsubscribe\<close>, from another thread.
\<close>

definition win_subscribe :: "'k win_env \<Rightarrow> 'k win_sub \<Rightarrow> string option \<times> 'k win_sub" where
  "win_subscribe env st =
     (case win_construct env st of
        (Some err, st1) \<Rightarrow> (Some err, st1)
      | (None, st1) \<Rightarrow>
          (case win_call (we_queue env) st1 of
             (True, st2) \<Rightarrow> (None, st2)
           | (False, st2) \<Rightarrow> (Some ''Unable to queue APC'', win_destruct st2)))"

definition win_finishSubscribe :: "'k win_env \<Rightarrow> 'k win_sub \<Rightarrow> string option \<times> 'k win_sub" where
  "win_finishSubscribe env st =
     (case win_start_result st of
        None \<Rightarrow> (None, st)
      | Some err \<Rightarrow>
          (case win_requestStop env st of (None, st1) \<Rightarrow> (Some err, st1) | (Some err', st1) \<Rightarrow> (Some err', st1)))"

definition win_unsubscribe :: "'k win_env \<Rightarrow> 'k win_sub \<Rightarrow> string option \<times> 'k win_sub" where
  "win_unsubscribe env st = win_requestStop env st"

end
