(* ===== verification/WinSafety.thy ===== *)
theory WinSafety
  imports WinBackend
begin

section \<open>What holds of the Windows backend at all times\<close>

text \<open>
  Two invariants over the life of a subscription. One is about control: who has still to do what after a stop
  was requested, and that the handle is closed once. The other is about data: only paths that are not ignored are
  in the tree and in the event list. \<open>win_quiet env st st'\<close> says that a step leaves control alone and keeps the
  data invariant; it is shown for everything that handles a change.
\<close>

subsection \<open>Quiet steps\<close>

definition same_control :: "'k win_sub \<Rightarrow> 'k win_sub \<Rightarrow> bool" where
  "same_control st st' \<longleftrightarrow> ws_running st' = ws_running st \<and> ws_pollPending st' = ws_pollPending st \<and>
     ws_stopRequested st' = ws_stopRequested st \<and> ws_stopped st' = ws_stopped st \<and> ws_handle st' = ws_handle st \<and>
     ws_closes st' = ws_closes st \<and> ws_stopQueued st' = ws_stopQueued st \<and> ws_readCancelled st' = ws_readCancelled st"

definition win_tree_ok :: "'k win_env \<Rightarrow> dir_tree \<Rightarrow> bool" where
  "win_tree_ok env t \<longleftrightarrow> dt_ok t \<and> (\<forall>p. dt_find t p \<noteq> None \<longrightarrow> \<not> we_ignored env p)"

definition win_data_ok :: "'k win_env \<Rightarrow> 'k win_sub \<Rightarrow> bool" where
  "win_data_ok env st \<longleftrightarrow> win_tree_ok env (ws_tree st) \<and> events_within (\<lambda>p. \<not> we_ignored env p) (ws_events st)"

definition win_quiet :: "'k win_env \<Rightarrow> 'k win_sub \<Rightarrow> 'k win_sub \<Rightarrow> bool" where
  "win_quiet env st st' \<longleftrightarrow> (win_data_ok env st \<longrightarrow> win_data_ok env st') \<and> same_control st st'"

lemma win_quiet_refl [simp, intro]: "win_quiet env st st"
  by (simp add: win_quiet_def same_control_def)

lemma win_quiet_trans: "win_quiet env st st1 \<Longrightarrow> win_quiet env st1 st2 \<Longrightarrow> win_quiet env st st2"
  by (simp add: win_quiet_def same_control_def)

lemma win_quiet_data:
  "same_control st st' \<Longrightarrow> ws_tree st' = ws_tree st \<Longrightarrow> ws_events st' = ws_events st \<Longrightarrow> win_quiet env st st'"
  by (simp add: win_quiet_def win_data_ok_def)

lemma win_quiet_call: "win_call f st = (x, st') \<Longrightarrow> win_quiet env st st'"
  by (rule win_quiet_data) (auto simp: win_call_def same_control_def split: prod.splits)

lemma win_quiet_attributes: "get_attributes env path st = (x, st') \<Longrightarrow> win_quiet env st st'"
  by (auto simp: get_attributes_def split: if_splits intro: win_quiet_call)

lemma win_quiet_list: "list_entries env path st = (x, st') \<Longrightarrow> win_quiet env st st'"
  by (auto simp: list_entries_def split: if_splits intro: win_quiet_call)

lemma win_quiet_tree:
  "(win_tree_ok env (ws_tree st) \<Longrightarrow> win_tree_ok env t) \<Longrightarrow> win_quiet env st (win_set_tree t st)"
  by (simp add: win_quiet_def same_control_def win_data_ok_def win_set_tree_def)

lemma win_quiet_log:
  "(win_tree_ok env (ws_tree st) \<Longrightarrow> events_within (\<lambda>p. \<not> we_ignored env p) (ws_events st) \<Longrightarrow>
      events_within (\<lambda>p. \<not> we_ignored env p) (f (ws_events st))) \<Longrightarrow> win_quiet env st (win_log f st)"
  by (simp add: win_quiet_def same_control_def win_data_ok_def win_log_def)

lemma win_tree_ok_new [simp]: "win_tree_ok env (dt_new root)"
  by (simp add: win_tree_ok_def dt_ok_new dt_find_new)

lemma win_tree_ok_add: "win_tree_ok env t \<Longrightarrow> \<not> we_ignored env p \<Longrightarrow> win_tree_ok env (dt_add t p mtime d)"
  by (auto simp: win_tree_ok_def dt_ok_add dt_find_add)

lemma win_tree_ok_remove: "win_tree_ok env t \<Longrightarrow> win_tree_ok env (dt_remove Windows t p)"
  by (auto simp: win_tree_ok_def dt_ok_remove dt_find_remove split: if_splits)

lemma win_tree_ok_update: "win_tree_ok env t \<Longrightarrow> win_tree_ok env (snd (dt_update t p mtime))"
  by (auto simp: win_tree_ok_def dt_ok_update dt_find_update split: if_splits)

lemma win_tree_ok_extract: "win_tree_ok env t \<Longrightarrow> win_tree_ok env (snd (dt_extract Windows t p))"
  by (auto simp: win_tree_ok_def dt_ok_extract dt_find_extract split: if_splits)

lemma extracted_not_ignored: "win_tree_ok env t \<Longrightarrow> e \<in> set (fst (dt_extract Windows t p)) \<Longrightarrow> \<not> we_ignored env (de_path e)"
  by (auto simp: win_tree_ok_def set_extracted)

lemma win_tree_ok_restore:
  assumes "win_tree_ok env t" and "\<forall>e \<in> set es. \<not> we_ignored env (win_moved_path old new e)"
  shows "win_tree_ok env (dt_restore t es old new)"
proof -
  have "\<not> we_ignored env p" if "dt_find (dt_restore t es old new) p \<noteq> None" for p
  proof (cases "p \<in> (\<lambda>e. relocate old new (de_path e)) ` set es")
    case True
    then show ?thesis using assms(2) by (auto simp: win_moved_path_def relocate_def)
  next
    case False
    then show ?thesis using assms(1) that by (simp add: win_tree_ok_def dt_find_restore_other)
  qed
  then show ?thesis using assms(1) by (simp add: win_tree_ok_def dt_ok_restore)
qed

lemma win_tree_complete [simp]: "win_tree_ok env (t\<lparr>isComplete := b\<rparr>) = win_tree_ok env t"
  by (simp add: win_tree_ok_def dt_ok_def dt_find_def)

lemma win_quiet_removePath: "win_quiet env st (win_removePath path st)"
proof -
  let ?P = "\<lambda>p. \<not> we_ignored env p"
  obtain es t where ex: "dt_extract Windows (ws_tree st) path = (es, t)" by (metis surj_pair)
  have events: "events_within ?P (fold (\<lambda>e l. el_remove l (de_path e) (entryKind (de_isDir e))) xs l)"
    if "events_within ?P l" "\<forall>e \<in> set xs. ?P (de_path e)" for xs l
    using that by (induction xs arbitrary: l) (simp_all add: events_within_ops)
  have "win_tree_ok env (ws_tree st) \<Longrightarrow> win_tree_ok env t \<and> (\<forall>e \<in> set es. ?P (de_path e))"
    using win_tree_ok_extract [of env "ws_tree st" path] extracted_not_ignored [of env "ws_tree st" _ path] by (simp add: ex)
  then show ?thesis
    by (simp add: win_removePath_def ex win_quiet_def same_control_def win_data_ok_def win_log_def win_set_tree_def events)
qed

lemma win_quiet_flush: "win_quiet env st (win_flushPendingRename st)"
proof (cases "ws_pendingRename st")
  case (Some path)
  have "win_quiet env (win_removePath path st) ((win_removePath path st)\<lparr>ws_pendingRename := None\<rparr>)"
    by (rule win_quiet_data) (simp_all add: same_control_def)
  then show ?thesis using win_quiet_trans [OF win_quiet_removePath] by (simp add: win_flushPendingRename_def Some)
qed (simp add: win_flushPendingRename_def)

lemma win_quiet_candidate: "\<not> we_ignored env candidate \<Longrightarrow> win_quiet env st (win_add_candidate candidate data st)"
  by (simp add: win_add_candidate_def win_quiet_def same_control_def win_data_ok_def win_log_def win_set_tree_def
      events_within_ops win_tree_ok_add)

lemma win_quiet_add_loop: "win_quiet env st (win_add_loop env paths st)"
proof (induction env paths st rule: win_add_loop.induct)
  case (1 env st)
  then show ?case by simp
next
  case (2 env candidate pending st)
  obtain data st1 where attributes: "get_attributes env candidate st = (data, st1)" by (metis surj_pair)
  have one: "win_quiet env st st1" using attributes by (rule win_quiet_attributes)
  show ?case
  proof (cases "we_ignored env candidate")
    case True
    then show ?thesis using 2(1) by simp
  next
    case seen: False
    show ?thesis
    proof (cases data)
      case None
      then show ?thesis using 2(2) [OF seen attributes [symmetric]] seen attributes one by (simp add: win_quiet_trans)
    next
      case (Some a)
      note here = seen attributes [symmetric] Some
      obtain entries st2 where listed: "list_entries env candidate (win_add_candidate candidate a st1) = (entries, st2)" by (metis surj_pair)
      have two: "win_quiet env st (win_add_candidate candidate a st1)" using win_quiet_trans [OF one win_quiet_candidate [OF seen]] .
      have three: "win_quiet env st st2" using win_quiet_trans [OF two win_quiet_list [OF listed]] .
      show ?thesis
      proof (cases "unsupported (wa_flags a)")
        case True
        then show ?thesis using 2(3) [OF here True] seen attributes one Some by (simp add: win_quiet_trans)
      next
        case plain: False
        show ?thesis
        proof (cases "is_directory a")
          case False
          then show ?thesis using 2(4) [OF here plain] seen attributes Some plain win_quiet_trans [OF two] by simp
        next
          case True
          then have dir: "\<not> \<not> is_directory a" by simp
          show ?thesis
          proof (cases entries)
            case None
            then show ?thesis using 2(5) [OF here plain dir listed [symmetric]] seen attributes Some plain True listed win_quiet_trans [OF three] by simp
          next
            case (Some es)
            then show ?thesis using 2(6) [OF here plain dir listed [symmetric]] seen attributes \<open>data = Some a\<close> plain True listed win_quiet_trans [OF three] by simp
          qed
        qed
      qed
    qed
  qed
qed

lemma win_quiet_addPath: "win_quiet env st (win_addPath env path st)"
  unfolding win_addPath_def by (rule win_quiet_add_loop)


lemma win_quiet_target:
  assumes "win_target_existed path st = (b, st')"
  shows "win_quiet env st st'" and "ws_tree st' = ws_tree st"
  using assms by (auto simp: win_target_existed_def same_control_def split: if_splits intro!: win_quiet_data)

lemma events_within_moved:
  assumes "events_within (\<lambda>p. \<not> we_ignored env p) l" and "\<forall>e \<in> set es. \<not> we_ignored env (de_path e)"
  shows "events_within (\<lambda>p. \<not> we_ignored env p) (fold (win_report_moved env existed supported rid old new) es l)"
proof -
  have "events_within (\<lambda>p. \<not> we_ignored env p) (win_report_moved env existed supported rid old new e l)"
    if "events_within (\<lambda>p. \<not> we_ignored env p) l" "\<not> we_ignored env (de_path e)" for e l
    using that by (simp add: win_report_moved_def Let_def events_within_ops)
  then show ?thesis using assms by (induction es arbitrary: l) simp_all
qed

lemma win_quiet_index_target:
  assumes "\<not> we_ignored env path"
  shows "win_quiet env st (win_index_target env path moved data st)"
proof (cases data)
  case (Some a)
  obtain found t where update: "dt_update (ws_tree st) path (wa_mtime a) = (found, t)" by (metis surj_pair)
  have tree: "win_tree_ok env (ws_tree st) \<Longrightarrow> win_tree_ok env t" using win_tree_ok_update [of env "ws_tree st" path "wa_mtime a"] by (simp add: update)
  define st1 where "st1 = (if found then win_set_tree t st else
      win_set_tree (dt_add t path (wa_mtime a) (is_directory a))
        (if moved = [] then win_log (\<lambda>l. el_create l path (entryKind (is_directory a))) st else st))"
  have "win_quiet env st st1"
    by (auto simp: st1_def win_quiet_def same_control_def win_data_ok_def win_log_def win_set_tree_def tree win_tree_ok_add assms events_within_ops)
  moreover have "win_index_target env path moved data st = (if is_directory a \<and> (moved = [] \<or> we_hasIgnores env) then win_addPath env path st1 else st1)"
    unfolding win_index_target_def Some option.case update st1_def Let_def prod.case
    by (cases found) (simp_all only: bool.case if_True if_False)
  ultimately show ?thesis using win_quiet_trans win_quiet_addPath by metis
qed (simp add: win_index_target_def)

lemma win_quiet_complete:
  assumes "\<not> we_ignored env path"
  shows "win_quiet env st (win_complete_rename env old path data st)"
proof -
  let ?supported = "case data of None \<Rightarrow> True | Some a \<Rightarrow> \<not> unsupported (wa_flags a)"
  obtain existed st1 where target: "win_target_existed path st = (existed, st1)" by (metis surj_pair)
  obtain moved t where ex: "dt_extract Windows (ws_tree st1) old = (moved, t)" by (metis surj_pair)
  define t1 where "t1 = (if existed then dt_remove Windows t path else t)"
  define n where "n = ws_renameSequence st1 + 1"
  define st2 where "st2 = win_log (fold (win_report_moved env existed ?supported (''windows:'' @ decimal (unat n)) old path) moved)
      ((win_set_tree t1 st1)\<lparr>ws_renameSequence := n\<rparr>)"
  define visible where "visible = filter (\<lambda>e. \<not> we_ignored env (win_moved_path old path e)) moved"
  define st3 where "st3 = (if ?supported then win_index_target env path moved data (win_set_tree (dt_restore (ws_tree st2) visible old path) st2) else st2)"
  have one: "win_quiet env st st1" using win_quiet_target(1) [OF target] .
  have "win_tree_ok env (ws_tree st1) \<Longrightarrow> win_tree_ok env t1 \<and> (\<forall>e \<in> set moved. \<not> we_ignored env (de_path e))"
    using win_tree_ok_extract [of env "ws_tree st1" old] extracted_not_ignored [of env "ws_tree st1" _ old]
    by (simp add: ex t1_def win_tree_ok_remove)
  then have "win_quiet env st1 st2"
    by (simp add: st2_def win_quiet_def same_control_def win_data_ok_def win_log_def win_set_tree_def events_within_moved)
  then have two: "win_quiet env st st2" using one win_quiet_trans by blast
  have "win_quiet env st2 (win_set_tree (dt_restore (ws_tree st2) visible old path) st2)"
    by (rule win_quiet_tree, rule win_tree_ok_restore) (simp_all add: visible_def)
  then have "win_quiet env st2 (win_index_target env path moved data (win_set_tree (dt_restore (ws_tree st2) visible old path) st2))"
    using win_quiet_index_target [OF assms] win_quiet_trans by blast
  then have "win_quiet env st st3" using two win_quiet_trans by (auto simp: st3_def)
  moreover have "win_quiet env st3 (st3\<lparr>ws_pendingRename := None\<rparr>)" by (rule win_quiet_data) (simp_all add: same_control_def)
  moreover have "win_complete_rename env old path data st = st3\<lparr>ws_pendingRename := None\<rparr>"
    unfolding win_complete_rename_def Let_def target ex prod.case
    by (simp only: st3_def st2_def t1_def n_def visible_def)
  ultimately show ?thesis using win_quiet_trans by metis
qed

lemma win_quiet_removed_paths:
  "win_quiet env st (st\<lparr>ws_removedPaths := xs, ws_previousRemovedPaths := ys\<rparr>)" "win_quiet env st (st\<lparr>ws_removedPaths := xs\<rparr>)"
  "win_quiet env st (st\<lparr>ws_previousRemovedPaths := ys\<rparr>)" "win_quiet env st (st\<lparr>ws_pendingRename := r\<rparr>)"
  "win_quiet env st (st\<lparr>ws_notified := n\<rparr>)"
  by (rule win_quiet_data; simp add: same_control_def)+

lemma win_quiet_added: "win_quiet env st (win_added env path st)"
  unfolding win_added_def Let_def
  by (rule win_quiet_trans [OF win_quiet_trans [OF win_quiet_flush win_quiet_removed_paths(1)] win_quiet_addPath])

lemma win_quiet_renamed_new:
  assumes "\<not> we_ignored env path"
  shows "win_quiet env st (win_renamed_new env path st)"
proof -
  obtain data st1 where attributes: "get_attributes env path st = (data, st1)" by (metis surj_pair)
  have one: "win_quiet env st st1" using attributes by (rule win_quiet_attributes)
  show ?thesis
    using win_quiet_trans [OF one win_quiet_complete [OF assms]] win_quiet_trans [OF one win_quiet_addPath] one
    by (simp add: win_renamed_new_def attributes split: option.split)
qed

lemma win_quiet_modified:
  assumes "\<not> we_ignored env path"
  shows "win_quiet env st (win_modified env path st)"
proof -
  obtain data st1 where attributes: "get_attributes env path (win_flushPendingRename st) = (data, st1)" by (metis surj_pair)
  have one: "win_quiet env st st1" using win_quiet_trans [OF win_quiet_flush win_quiet_attributes [OF attributes]] .
  have tree: "win_quiet env st1 (win_set_tree (snd (dt_update (ws_tree st1) path mtime)) st1)" for mtime
    by (rule win_quiet_tree, rule win_tree_ok_update)
  have log: "win_quiet env st2 (win_log (\<lambda>l. el_update l path File) st2)" for st2
    by (rule win_quiet_log) (simp add: events_within_ops assms)
  show ?thesis
    using one win_quiet_trans [OF one tree] win_quiet_trans [OF win_quiet_trans [OF one tree] log]
    by (simp add: win_modified_def attributes Let_def split: option.split)
qed

lemma win_quiet_removed: "win_quiet env st (win_removed env path st)"
proof -
  define st2 where "st2 = win_removePath path ((win_flushPendingRename st)\<lparr>ws_removedPaths := List.insert path (ws_removedPaths (win_flushPendingRename st))\<rparr>)"
  have two: "win_quiet env st st2"
    unfolding st2_def by (rule win_quiet_trans [OF win_quiet_trans [OF win_quiet_flush win_quiet_removed_paths(2)] win_quiet_removePath])
  obtain found st3 where call: "win_call (we_find env path) st2 = (found, st3)" by (metis surj_pair)
  have three: "win_quiet env st st3" using win_quiet_trans [OF two win_quiet_call [OF call]] .
  show ?thesis
    using three win_quiet_trans [OF three win_quiet_addPath]
    by (simp add: win_removed_def st2_def [symmetric] Let_def call split: option.split)
qed

lemma win_quiet_event: "win_quiet env st (win_processEvent env info st)"
  by (simp add: win_processEvent_def Let_def win_quiet_flush win_quiet_added win_quiet_renamed_new win_quiet_modified win_quiet_removed
      win_quiet_trans [OF win_quiet_flush win_quiet_removed_paths(4)])

lemma win_quiet_loop:
  "win_event_loop env bs st = (bad, st') \<Longrightarrow> \<exists>st1. win_quiet env st st1 \<and> st' = (if bad then win_failOverflow st1 else st1)"
proof (induction env bs st rule: win_event_loop.induct)
  case (1 env bs st)
  let ?next = "unat (u32_at bs 0)" and ?size = "NAME_OFFSET + unat (u32_at bs 8)"
  let ?st1 = "win_processEvent env (info_at bs) st"
  show ?case
  proof (cases "bs = [] \<or> length bs < NAME_OFFSET \<or> unat (u32_at bs 8) mod 2 \<noteq> 0 \<or> ?size > length bs")
    case True
    then show ?thesis using 1(2) by (subst (asm) win_event_loop.simps) (auto simp: Let_def split: if_splits intro: exI [of _ st])
  next
    case False
    show ?thesis
    proof (cases "?next = 0 \<or> ?next < ?size \<or> ?next \<ge> length bs")
      case True
      then show ?thesis using 1(2) False win_quiet_event [of env st "info_at bs"]
        by (subst (asm) win_event_loop.simps) (auto simp: Let_def split: if_splits intro: exI [of _ ?st1])
    next
      case more: False
      then have "win_event_loop env (drop ?next bs) ?st1 = (bad, st')"
        using 1(2) False by (subst (asm) win_event_loop.simps) (simp add: Let_def)
      from 1(1) [OF _ _ refl refl _ refl refl _ _ this] False more obtain st2 where
        "win_quiet env ?st1 st2" "st' = (if bad then win_failOverflow st2 else st2)" by auto
      then show ?thesis using win_quiet_trans [OF win_quiet_event [of env st "info_at bs"]] by blast
    qed
  qed
qed


lemma win_quiet_read_entries:
  "win_read_entries env path ffds directories st = (r, st') \<Longrightarrow> win_quiet env st st'"
proof (induction env path ffds directories st rule: win_read_entries.induct)
  case (1 env path directories st)
  then show ?case by simp
next
  case (2 env path ffd rest directories st)
  obtain stop st1 where call: "win_call (we_cancelled env) st = (stop, st1)" by (metis surj_pair)
  have one: "win_quiet env st st1" using win_quiet_call [OF call] .
  show ?case
  proof (cases stop)
    case True
    then show ?thesis using 2(3) call one by simp
  next
    case False
    let ?full = "win_child path (utf16ToUtf8 env (wf_name ffd))"
    let ?skip = "utf16ToUtf8 env (wf_name ffd) = ''.'' \<or> utf16ToUtf8 env (wf_name ffd) = ''..'' \<or> we_ignored env ?full \<or> unsupported (wa_flags ffd)"
    let ?dir = "wa_flags ffd AND FILE_ATTRIBUTE_DIRECTORY \<noteq> 0"
    show ?thesis
    proof (cases ?skip)
      case True
      have "win_quiet env st1 st'"
        by (rule 2(1) [OF call [symmetric] _ refl refl True]) (use 2(3) call False True in \<open>simp_all add: Let_def\<close>)
      then show ?thesis using win_quiet_trans [OF one] by blast
    next
      case skip: False
      have "win_quiet env st1 (win_set_tree (dt_add (ws_tree st1) ?full (wa_mtime ffd) ?dir) st1)"
        by (rule win_quiet_tree, rule win_tree_ok_add) (use skip in simp_all)
      moreover have "win_quiet env (win_set_tree (dt_add (ws_tree st1) ?full (wa_mtime ffd) ?dir) st1) st'"
        by (rule 2(2) [OF call [symmetric] _ refl refl skip refl]) (use 2(3) call False skip in \<open>simp_all add: Let_def\<close>)
      ultimately show ?thesis using win_quiet_trans [OF one] win_quiet_trans by blast
    qed
  qed
qed

lemma win_quiet_read_loop: "win_read_loop env paths st = (err, st') \<Longrightarrow> win_quiet env st st'"
proof (induction env paths st rule: win_read_loop.induct)
  case (1 env st)
  then show ?case by simp
next
  case (2 env path directories st)
  obtain stop st1 where call: "win_call (we_cancelled env) st = (stop, st1)" by (metis surj_pair)
  obtain listed st2 where listed: "list_entries env path st1 = (listed, st2)" by (metis surj_pair)
  have one: "win_quiet env st st1" using win_quiet_call [OF call] .
  have two: "win_quiet env st st2" using win_quiet_trans [OF one win_quiet_list [OF listed]] .
  show ?case
  proof (cases stop)
    case True
    then show ?thesis using 2(3) call one by simp
  next
    case go: False
    show ?thesis
    proof (cases listed)
      case None
      show ?thesis
      proof (cases "path = we_dir env")
        case True
        then show ?thesis using 2(3) call go listed None two by simp
      next
        case False
        have "win_quiet env st2 (win_set_tree (dt_remove Windows (ws_tree st2) path) st2)"
          by (rule win_quiet_tree, rule win_tree_ok_remove)
        moreover have "win_quiet env (win_set_tree (dt_remove Windows (ws_tree st2) path) st2) st'"
          by (rule 2(1) [OF call [symmetric] _ listed [symmetric] None False]) (use 2(3) call go listed None False in simp_all)
        ultimately show ?thesis using win_quiet_trans two by blast
      qed
    next
      case (Some ffds)
      obtain cancelled pushed st3 where entries: "win_read_entries env path ffds directories st2 = ((cancelled, pushed), st3)" by (metis surj_pair)
      have three: "win_quiet env st st3" using win_quiet_trans [OF two win_quiet_read_entries [OF entries]] .
      show ?thesis
      proof (cases cancelled)
        case True
        then show ?thesis using 2(3) call go listed Some entries three by simp
      next
        case False
        have "win_quiet env st3 st'"
          by (rule 2(2) [OF call [symmetric] _ listed [symmetric] Some entries [symmetric] refl])
            (use 2(3) call go listed Some entries False in simp_all)
        then show ?thesis using win_quiet_trans three by blast
      qed
    qed
  qed
qed

subsection \<open>Control\<close>

text \<open>
  The handle is open until the subscription has stopped, and closed once. When it no longer runs, a cancelled read
  is still to be completed, unless it has stopped. A stop that was requested while it runs is queued, unless \<open>q\<close>: another
  thread has set the flag and is about to queue it.
\<close>

definition control_ok :: "bool \<Rightarrow> 'k win_sub \<Rightarrow> bool" where
  "control_ok q st \<longleftrightarrow> ws_handle st = (\<not> ws_stopped st) \<and> ws_closes st = (if ws_stopped st then 1 else 0) \<and>
     (ws_stopped st \<longrightarrow> \<not> ws_running st \<and> \<not> ws_pollPending st) \<and>
     (\<not> ws_running st \<longrightarrow> ws_stopRequested st) \<and>
     (\<not> ws_running st \<and> \<not> ws_stopped st \<longrightarrow> ws_pollPending st \<and> ws_readCancelled st) \<and>
     (ws_stopQueued st \<longleftrightarrow> ws_stopRequested st \<and> ws_running st \<and> \<not> q) \<and> (q \<longrightarrow> ws_stopRequested st \<and> ws_running st)"

definition win_ok :: "bool \<Rightarrow> 'k win_env \<Rightarrow> 'k win_sub \<Rightarrow> bool" where
  "win_ok q env st \<longleftrightarrow> control_ok q st \<and> win_data_ok env st"

lemma win_ok_quiet: "win_ok q env st \<Longrightarrow> win_quiet env st st' \<Longrightarrow> win_ok q env st'"
  by (simp add: win_ok_def win_quiet_def same_control_def control_ok_def)

lemma data_ok_fields:
  "ws_tree st' = ws_tree st \<Longrightarrow> ws_events st' = ws_events st \<Longrightarrow> win_data_ok env st' = win_data_ok env st"
  by (simp add: win_data_ok_def)

lemma finishStop_fields [simp]:
  "ws_tree (win_finishStop st) = ws_tree st" "ws_events (win_finishStop st) = ws_events st"
  "ws_stopped (win_finishStop st)" "ws_running (win_finishStop st) = ws_running st" "ws_pollPending (win_finishStop st) = ws_pollPending st"
  "ws_stopRequested (win_finishStop st) = ws_stopRequested st" "ws_stopQueued (win_finishStop st) = ws_stopQueued st"
  "ws_started (win_finishStop st) = ws_started st"
  by (simp_all add: win_finishStop_def Let_def)

lemma finishStop_handle:
  "ws_handle st = (\<not> ws_stopped st) \<Longrightarrow> ws_closes st = (if ws_stopped st then 1 else 0) \<Longrightarrow>
    \<not> ws_handle (win_finishStop st) \<and> ws_closes (win_finishStop st) = 1"
  by (simp add: win_finishStop_def Let_def)

lemma win_ok_finish:
  "ws_handle st = (\<not> ws_stopped st) \<Longrightarrow> ws_closes st = (if ws_stopped st then 1 else 0) \<Longrightarrow> \<not> ws_running st \<Longrightarrow> \<not> ws_pollPending st \<Longrightarrow>
    ws_stopRequested st \<Longrightarrow> \<not> ws_stopQueued st \<Longrightarrow> win_data_ok env st \<Longrightarrow> \<not> q \<Longrightarrow> win_ok q env (win_finishStop st)"
  using finishStop_handle [of st] by (simp add: win_ok_def control_ok_def win_data_ok_def)

lemma win_ok_begin:
  assumes "control_ok q st0" and "\<not> q" and "win_data_ok env st" and "ws_running st0"
    and "ws_handle st = ws_handle st0" and "ws_closes st = ws_closes st0" and "ws_stopped st = ws_stopped st0"
    and "ws_stopRequested st" and "\<not> ws_stopQueued st"
  shows "win_ok q env (win_beginStop st)"
proof (cases "ws_pollPending st")
  case True
  then show ?thesis using assms by (simp add: win_beginStop_def Let_def win_ok_def control_ok_def win_data_ok_def)
next
  case False
  have "win_ok q env (win_finishStop (st\<lparr>ws_running := False\<rparr>))"
    by (rule win_ok_finish) (use assms False in \<open>simp_all add: control_ok_def win_data_ok_def\<close>)
  then show ?thesis using False by (simp add: win_beginStop_def Let_def)
qed

lemma win_ok_stop_here:
  assumes "win_ok q env st"
  shows "win_ok q env (win_requestStop_here st)"
proof (cases "ws_stopRequested st")
  case False
  have "control_ok q st" using assms by (simp add: win_ok_def)
  then have "win_ok q env (win_beginStop (st\<lparr>ws_stopRequested := True\<rparr>))"
    by (rule win_ok_begin) (use assms False in \<open>auto simp: win_ok_def control_ok_def win_data_ok_def\<close>)
  then show ?thesis using False by (simp add: win_requestStop_here_def)
qed (simp add: win_requestStop_here_def assms)

text \<open>The two steps of \<open>requestStop\<close> on another thread.\<close>

lemma win_ok_claim:
  assumes "win_ok q env st" and "win_claimStop st = (False, st')"
  shows "win_ok True env st'"
  using assms by (auto simp: win_claimStop_def win_ok_def control_ok_def win_data_ok_def)

lemma win_ok_queue:
  assumes "win_ok True env st"
  shows "win_ok False env (snd (win_queueStop env st))"
  using assms by (auto simp: win_queueStop_def win_call_def win_ok_def control_ok_def win_data_ok_def split: prod.split bool.split)

lemma win_ok_stop_apc:
  assumes "win_ok q env st" and "ws_stopQueued st"
  shows "win_ok q env (win_stop_apc st)"
  unfolding win_stop_apc_def
  by (rule win_ok_begin [where ?st0.0 = st]) (use assms in \<open>auto simp: win_ok_def control_ok_def win_data_ok_def\<close>)

lemma win_ok_overflow:
  assumes "win_ok q env st"
  shows "win_ok q env (win_failOverflow st)"
  unfolding win_failOverflow_def
  by (rule win_ok_stop_here) (use assms in \<open>simp add: win_ok_def control_ok_def win_data_ok_def win_log_def\<close>)

lemma win_poll_result:
  "win_poll env st = (err, st') \<Longrightarrow> \<exists>st1. win_quiet env st st1 \<and> (st' = st1 \<or> (ws_running st1 \<and> st' = st1\<lparr>ws_pollPending := True\<rparr>))"
proof (induction env st rule: win_poll.induct)
  case (1 env st)
  obtain lastError st1 where call: "win_call (we_read env (bf_size (ws_writeBuffer st))) st = (lastError, st1)" by (metis surj_pair)
  have one: "win_quiet env st st1" using win_quiet_call [OF call] .
  then have running: "ws_running st1 = ws_running st" by (simp add: win_quiet_def same_control_def)
  have network: "win_quiet env st1 (use_network_buffers st1)"
    by (rule win_quiet_data) (simp_all add: use_network_buffers_def same_control_def)
  show ?case
  proof (cases "ws_running st")
    case False
    then show ?thesis using 1(2) by (subst (asm) win_poll.simps) auto
  next
    case True
    show ?thesis
    proof (cases lastError)
      case None
      then show ?thesis using 1(2) True call one running by (subst (asm) win_poll.simps) auto
    next
      case (Some e)
      show ?thesis
      proof (cases "e = ERROR_INVALID_PARAMETER \<and> bf_size (ws_writeBuffer st1) > NETWORK_BUF_SIZE")
        case again: True
        then have "win_poll env (use_network_buffers st1) = (err, st')"
          using 1(2) True call Some by (subst (asm) win_poll.simps) simp
        from 1(1) [OF _ call [symmetric] Some again this] True obtain st2 where
          "win_quiet env (use_network_buffers st1) st2" "st' = st2 \<or> (ws_running st2 \<and> st' = st2\<lparr>ws_pollPending := True\<rparr>)" by auto
        then show ?thesis using win_quiet_trans [OF win_quiet_trans [OF one network]] by blast
      next
        case False
        then have "st' = st1" using 1(2) True call Some by (subst (asm) win_poll.simps) auto
        then show ?thesis using one by blast
      qed
    qed
  qed
qed

lemma win_ok_poll:
  assumes "win_ok q env st"
  shows "win_ok q env (snd (win_poll env st))"
proof -
  obtain err st' where poll: "win_poll env st = (err, st')" by (metis surj_pair)
  obtain st1 where st1: "win_quiet env st st1" "st' = st1 \<or> (ws_running st1 \<and> st' = st1\<lparr>ws_pollPending := True\<rparr>)"
    using win_poll_result [OF poll] by blast
  have "win_ok q env st1" using win_ok_quiet [OF assms st1(1)] .
  then show ?thesis using st1(2) by (auto simp: poll win_ok_def control_ok_def win_data_ok_def)
qed


lemma win_ok_read_changes:
  assumes "win_ok q env st"
  shows "win_ok q env (snd (win_read_changes env n st))"
proof (cases "n = 0 \<or> n > bf_size (ws_writeBuffer st)")
  case True
  then show ?thesis using win_ok_overflow [OF assms] by (auto simp: win_read_changes_def)
next
  case False
  define st0 where "st0 = st\<lparr>ws_writeBuffer := ws_readBuffer st, ws_readBuffer := ws_writeBuffer st\<rparr>"
  have "win_quiet env st st0" by (rule win_quiet_data) (simp_all add: st0_def same_control_def)
  then have "win_ok q env st0" using assms win_ok_quiet by blast
  then have polled: "win_ok q env (snd (win_poll env st0))" by (rule win_ok_poll)
  obtain err st1 where poll: "win_poll env st0 = (err, st1)" by (metis surj_pair)
  define st2 where "st2 = st1\<lparr>ws_previousRemovedPaths := ws_removedPaths st1, ws_removedPaths := []\<rparr>"
  obtain bad st3 where loop: "win_event_loop env (take n (bf_bytes (ws_readBuffer st1))) st2 = (bad, st3)" by (metis surj_pair)
  obtain st4 where st4: "win_quiet env st2 st4" "st3 = (if bad then win_failOverflow st4 else st4)" using win_quiet_loop [OF loop] by blast
  have "win_quiet env st1 st2" by (rule win_quiet_data) (simp_all add: st2_def same_control_def)
  then have "win_ok q env st4" using win_quiet_trans st4(1) win_ok_quiet polled poll by fastforce
  then have "win_ok q env st3" using st4(2) win_ok_overflow by auto
  moreover define st5 where "st5 = (win_flushPendingRename st3)\<lparr>ws_previousRemovedPaths := []\<rparr>"
  have "win_quiet env st3 (st5\<lparr>ws_notified := ws_notified st5 + 1\<rparr>)"
    unfolding st5_def by (rule win_quiet_trans [OF win_quiet_trans [OF win_quiet_flush win_quiet_removed_paths(3)] win_quiet_removed_paths(5)])
  ultimately have "win_ok q env (st5\<lparr>ws_notified := ws_notified st5 + 1\<rparr>)" using win_ok_quiet by blast
  moreover have "snd (win_read_changes env n st) = (case err of Some e \<Rightarrow> st1 | None \<Rightarrow> if bad then st3 else st5\<lparr>ws_notified := ws_notified st5 + 1\<rparr>)"
    using False unfolding win_read_changes_def st0_def [symmetric] poll prod.case st2_def [symmetric] loop Let_def st5_def [symmetric]
    by (cases bad) (simp_all split: option.split)
  ultimately show ?thesis using polled poll \<open>win_ok q env st3\<close> by (auto split: option.split)
qed

lemma win_ok_process:
  assumes "win_ok q env st" and "ws_running st"
  shows "win_ok q env (snd (win_processEvents env errorCode n st))"
proof -
  obtain data st1 where call: "win_call (we_attributes env (we_dir env)) st = (data, st1)" by (metis surj_pair)
  have one: "win_ok q env st1" using win_ok_quiet [OF assms(1) win_quiet_call [OF call]] .
  have "win_quiet env st (use_network_buffers st)"
    by (rule win_quiet_data) (simp_all add: use_network_buffers_def same_control_def)
  then have network: "win_ok q env (use_network_buffers st)" using assms(1) win_ok_quiet by blast
  show ?thesis
    using assms one win_ok_poll [OF network] win_ok_overflow [OF assms(1)] win_ok_read_changes [OF assms(1)]
    by (simp add: win_processEvents_def call)
qed

lemma win_ok_completion:
  assumes "win_ok q env st" and "ws_pollPending st"
  shows "win_ok q env (snd (win_completion env errorCode bytes st))"
proof -
  define st0 where "st0 = st\<lparr>ws_pollPending := False, ws_readCancelled := False,
    ws_writeBuffer := (ws_writeBuffer st)\<lparr>bf_bytes := bytes @ drop (length bytes) (bf_bytes (ws_writeBuffer st))\<rparr>\<rparr>"
  show ?thesis
  proof (cases "ws_running st")
    case True
    then have "win_ok q env st0" "ws_running st0" using assms by (auto simp: st0_def win_ok_def control_ok_def win_data_ok_def)
    then show ?thesis unfolding win_completion_def st0_def [symmetric] by (rule win_ok_process)
  next
    case False
    have "win_ok q env (win_finishStop st0)"
      by (rule win_ok_finish) (use assms False in \<open>auto simp: st0_def win_ok_def control_ok_def win_data_ok_def\<close>)
    then show ?thesis using False by (simp add: win_completion_def st0_def win_processEvents_def)
  qed
qed

lemma win_ok_start_failed: "win_ok q env st \<Longrightarrow> win_ok q env (win_start_failed err st)"
proof -
  assume "win_ok q env st"
  moreover have "win_quiet env st (st\<lparr>ws_startError := err\<rparr>)" by (rule win_quiet_data) (simp_all add: same_control_def)
  ultimately have "win_ok q env (win_requestStop_here (st\<lparr>ws_startError := err\<rparr>))" using win_ok_quiet win_ok_stop_here by blast
  moreover have "win_quiet env st' (st'\<lparr>ws_started := True\<rparr>)" for st' :: "'a win_sub" by (rule win_quiet_data) (simp_all add: same_control_def)
  ultimately show ?thesis unfolding win_start_failed_def using win_ok_quiet by blast
qed

lemma win_ok_run:
  assumes "win_ok q env st"
  shows "win_ok q env (win_run env st)"
proof -
  obtain err st1 where poll: "win_poll env st = (err, st1)" by (metis surj_pair)
  obtain err' st2 where read: "win_readTree env st1 = (err', st2)" by (metis surj_pair)
  obtain cancelled st3 where call: "win_call (we_cancelled env) st2 = (cancelled, st3)" by (metis surj_pair)
  have one: "win_ok q env st1" using win_ok_poll [OF assms] by (simp add: poll)
  then have two: "win_ok q env st2" using win_ok_quiet win_quiet_read_loop read unfolding win_readTree_def by blast
  then have three: "win_ok q env st3" using win_ok_quiet win_quiet_call [OF call] by blast
  have "win_quiet env st3 (st3\<lparr>ws_needsResubscribe := True\<rparr>)" by (rule win_quiet_data) (simp_all add: same_control_def)
  then have stop: "win_ok q env (win_requestStop_here (st3\<lparr>ws_needsResubscribe := True\<rparr>))" using three win_ok_quiet win_ok_stop_here by blast
  have "win_quiet env st3 (win_set_tree ((ws_tree st3)\<lparr>isComplete := True\<rparr>) st3)" by (rule win_quiet_tree) simp
  then have complete: "win_ok q env (win_set_tree ((ws_tree st3)\<lparr>isComplete := True\<rparr>) st3)" using three win_ok_quiet by blast
  have "win_quiet env st' (st'\<lparr>ws_started := True\<rparr>)" for st' :: "'a win_sub" by (rule win_quiet_data) (simp_all add: same_control_def)
  then have started: "win_ok q env st' \<Longrightarrow> win_ok q env (st'\<lparr>ws_started := True\<rparr>)" for st' :: "'a win_sub" using win_ok_quiet by blast
  show ?thesis
    using win_ok_start_failed [OF one] win_ok_start_failed [OF two] started [OF stop] started [OF complete]
    by (simp add: win_run_def poll read call split: option.split)
qed

subsection \<open>The life of a subscription\<close>

text \<open>
  The states a subscription gets into: \<open>run\<close> and the queued stop are executed on the thread of the backend, which
  may also stop it when it handles an error; a stop can be requested from another thread at any time, which \<open>claims\<close> the
  flag and later \<open>queues\<close> the stop (in between \<open>q\<close> is true, and only one thread can be there, since the others find the flag
  set); an outstanding read completes with any result; the events are delivered, and the system goes on.
\<close>

inductive win_life :: "'k win_env \<Rightarrow> bool \<Rightarrow> 'k win_sub \<Rightarrow> bool" for env :: "'k win_env" where
  constructed: "ws_events st = el_empty \<Longrightarrow> win_construct env st = (None, st') \<Longrightarrow> win_life env False st'"
| runs: "win_life env q st \<Longrightarrow> \<not> ws_started st \<Longrightarrow> win_life env q (win_run env st)"
| claims: "win_life env q st \<Longrightarrow> win_claimStop st = (False, st') \<Longrightarrow> win_life env True st'"
| queues: "win_life env True st \<Longrightarrow> win_life env False (snd (win_queueStop env st))"
| stopped_by_backend: "win_life env q st \<Longrightarrow> win_life env q (win_requestStop_here st)"
| stop_runs: "win_life env q st \<Longrightarrow> ws_stopQueued st \<Longrightarrow> win_life env q (win_stop_apc st)"
| completed: "win_life env q st \<Longrightarrow> ws_pollPending st \<Longrightarrow> win_life env q (snd (win_completion env errorCode bytes st))"
| delivered: "win_life env q st \<Longrightarrow> win_life env q (st\<lparr>ws_events := snd (el_drain (ws_events st))\<rparr>)"
| system: "win_life env q st \<Longrightarrow> win_life env q (st\<lparr>ws_kernel := k, ws_needsResubscribe := b\<rparr>)"

lemma win_ok_construct:
  assumes "ws_events st = el_empty" and "win_construct env st = (None, st')"
  shows "win_ok False env st'"
  using assms
  by (auto simp: win_construct_def win_call_def Let_def win_ok_def control_ok_def win_data_ok_def split: prod.splits bool.splits option.splits if_splits)

lemma win_life_ok: "win_life env q st \<Longrightarrow> win_ok q env st"
proof (induction rule: win_life.induct)
  case (constructed st st')
  then show ?case by (rule win_ok_construct)
next
  case (claims q st st')
  then show ?case using win_ok_claim by blast
next
  case (delivered q st)
  then show ?case by (simp add: win_ok_def control_ok_def win_data_ok_def)
next
  case (system q st k b)
  then show ?case by (simp add: win_ok_def control_ok_def win_data_ok_def)
qed (simp_all add: win_ok_run win_ok_queue win_ok_stop_here win_ok_stop_apc win_ok_completion)

text \<open>A whole \<open>requestStop\<close> is a run of these steps.\<close>

lemma win_life_requestStop:
  assumes "win_life env False st"
  shows "win_life env False (snd (win_requestStop env st))"
proof (cases "ws_stopRequested st")
  case True
  then have "win_requestStop env st = (None, st)" by (cases st) (simp add: win_requestStop_def win_claimStop_def)
  then show ?thesis using assms by simp
next
  case False
  then have "win_claimStop st = (False, st\<lparr>ws_stopRequested := True\<rparr>)" by (simp add: win_claimStop_def)
  from win_life.queues [OF win_life.claims [OF assms this]] show ?thesis
    using False by (simp add: win_requestStop_def win_claimStop_def)
qed


subsection \<open>Buffers as the system lays them out\<close>

text \<open>
  A record is given by its action, its name and the padding after it. The offset to the next one is its size, and
  zero for the last.
\<close>

type_synonym raw_change = "u32 \<times> wchar list \<times> 8 word list"

definition le_bytes32 :: "u32 \<Rightarrow> 8 word list" where
  "le_bytes32 w = [ucast w, ucast (drop_bit 8 w), ucast (drop_bit 16 w), ucast (drop_bit 24 w)]"

definition le_bytes16 :: "wchar \<Rightarrow> 8 word list" where
  "le_bytes16 w = [ucast w, ucast (drop_bit 8 w)]"

definition raw_size :: "raw_change \<Rightarrow> nat" where
  "raw_size = (\<lambda>(action, name, padding). NAME_OFFSET + 2 * length name + length padding)"

definition encode_change :: "nat \<Rightarrow> raw_change \<Rightarrow> 8 word list" where
  "encode_change next = (\<lambda>(action, name, padding).
     le_bytes32 (of_nat next) @ le_bytes32 action @ le_bytes32 (of_nat (2 * length name)) @ concat (map le_bytes16 name) @ padding)"

fun encode_changes :: "raw_change list \<Rightarrow> 8 word list" where
  "encode_changes [] = []"
| "encode_changes [c] = encode_change 0 c"
| "encode_changes (c # d # cs) = encode_change (raw_size c) c @ encode_changes (d # cs)"

definition info_of :: "raw_change \<Rightarrow> notify_info" where
  "info_of = (\<lambda>(action, name, padding). \<lparr>ni_next = 0, ni_action = action, ni_length = of_nat (2 * length name), ni_name = name\<rparr>)"

lemma u32_at_le: "u32_at (pre @ le_bytes32 w @ post) (length pre) = w"
proof -
  have "ucast (ucast w :: 8 word) OR push_bit 8 (ucast (ucast (drop_bit 8 w) :: 8 word)) OR
      push_bit 16 (ucast (ucast (drop_bit 16 w) :: 8 word)) OR push_bit 24 (ucast (ucast (drop_bit 24 w) :: 8 word)) = w"
    (is "?bytes = w")
  proof (rule bit_word_eqI)
    show "bit ?bytes n = bit w n" if "n < LENGTH(32)" for n
      using that by (cases "24 \<le> n"; cases "16 \<le> n"; cases "8 \<le> n") (auto simp: bit_simps)
  qed
  then show ?thesis by (simp add: u32_at_def le_bytes32_def nth_append)
qed

lemma u16_at_le: "u16_at (pre @ le_bytes16 w @ post) (length pre) = w"
proof -
  have "ucast (ucast w :: 8 word) OR push_bit 8 (ucast (ucast (drop_bit 8 w) :: 8 word)) = w"
    by (rule bit_word_eqI) (auto simp: bit_simps)
  then show ?thesis by (simp add: u16_at_def le_bytes16_def nth_append)
qed

lemma length_le_bytes [simp]: "length (le_bytes32 w) = 4" "length (le_bytes16 v) = 2"
  by (simp_all add: le_bytes32_def le_bytes16_def)

lemma length_names [simp]: "length (concat (map le_bytes16 name)) = 2 * length name"
  by (induction name) simp_all

lemma length_encode_change [simp]: "length (encode_change next c) = raw_size c"
  by (cases c) (simp add: encode_change_def raw_size_def NAME_OFFSET_def)

lemma names_at:
  "map (\<lambda>i. u16_at (pre @ concat (map le_bytes16 name) @ post) (length pre + 2 * i)) [0..<length name] = name"
proof (rule nth_equalityI)
  show "map (\<lambda>i. u16_at (pre @ concat (map le_bytes16 name) @ post) (length pre + 2 * i)) [0..<length name] ! i = name ! i"
    if "i < length (map (\<lambda>i. u16_at (pre @ concat (map le_bytes16 name) @ post) (length pre + 2 * i)) [0..<length name])" for i
  proof -
    have "i < length name" using that by simp
    then have "name = take i name @ name ! i # drop (Suc i) name" by (rule id_take_nth_drop)
    then have "concat (map le_bytes16 name) = concat (map le_bytes16 (take i name)) @ le_bytes16 (name ! i) @ concat (map le_bytes16 (drop (Suc i) name))"
      by (metis concat.simps(2) concat_append list.simps(9) map_append)
    then have split: "pre @ concat (map le_bytes16 name) @ post =
        (pre @ concat (map le_bytes16 (take i name))) @ le_bytes16 (name ! i) @ concat (map le_bytes16 (drop (Suc i) name)) @ post" by simp
    have "length (pre @ concat (map le_bytes16 (take i name))) = length pre + 2 * i"
      using \<open>i < length name\<close> by simp
    then show ?thesis
      using u16_at_le [of "pre @ concat (map le_bytes16 (take i name))" "name ! i" "concat (map le_bytes16 (drop (Suc i) name)) @ post"]
        \<open>i < length name\<close> by (simp only: split length_map length_upt nth_map nth_upt add_0 diff_zero)
  qed
qed simp

lemma unat_of_nat32: "n < 2 ^ 32 \<Longrightarrow> unat (of_nat n :: u32) = n"
  by (simp add: unat_of_nat take_bit_eq_mod)

lemma info_at_encode:
  fixes offset :: nat and rest :: "8 word list"
  assumes "raw_size (action, name, padding) < 2 ^ 32"
  defines "bs \<equiv> encode_change offset (action, name, padding) @ rest"
  shows "u32_at bs 0 = of_nat offset" and "u32_at bs 8 = of_nat (2 * length name)"
    and "info_at bs = \<lparr>ni_next = of_nat offset, ni_action = action, ni_length = of_nat (2 * length name), ni_name = name\<rparr>"
proof -
  have next_at: "u32_at bs 0 = of_nat offset" using u32_at_le [of "[]"] by (simp add: bs_def encode_change_def)
  have action_at: "u32_at bs 4 = action"
    using u32_at_le [of "le_bytes32 (of_nat offset)" action] by (simp add: bs_def encode_change_def)
  have length_at: "u32_at bs 8 = of_nat (2 * length name)"
    using u32_at_le [of "le_bytes32 (of_nat offset) @ le_bytes32 action"] by (simp add: bs_def encode_change_def)
  have "2 * length name < 2 ^ 32" using assms(1) by (simp add: raw_size_def)
  then have "unat (of_nat (2 * length name) :: u32) = 2 * length name" by (rule unat_of_nat32)
  moreover have "map (\<lambda>i. u16_at bs (NAME_OFFSET + 2 * i)) [0..<length name] = name"
    using names_at [of "le_bytes32 (of_nat offset) @ le_bytes32 action @ le_bytes32 (of_nat (2 * length name))" name "padding @ rest"]
    by (simp add: bs_def encode_change_def NAME_OFFSET_def)
  ultimately show "info_at bs = \<lparr>ni_next = of_nat offset, ni_action = action, ni_length = of_nat (2 * length name), ni_name = name\<rparr>"
    by (simp add: info_at_def Let_def next_at action_at length_at del: of_nat_mult)
  show "u32_at bs 0 = of_nat offset" "u32_at bs 8 = of_nat (2 * length name)" by (rule next_at, rule length_at)
qed

lemma processEvent_next: "win_processEvent env (info\<lparr>ni_next := n\<rparr>) st = win_processEvent env info st"
  by (simp add: win_processEvent_def)


lemma event_loop_encoded:
  assumes "\<forall>c \<in> set cs. raw_size c < 2 ^ 32" and "cs \<noteq> []"
  shows "win_event_loop env (encode_changes cs) st = (False, fold (\<lambda>c. win_processEvent env (info_of c)) cs st)"
  using assms
proof (induction cs arbitrary: st rule: encode_changes.induct)
  case 1
  then show ?case by simp
next
  case (2 c)
  obtain action name padding where c: "c = (action, name, padding)" by (metis surj_pair)
  have small: "raw_size (action, name, padding) < 2 ^ 32" using 2 by (simp add: c)
  note info = info_at_encode [OF small, of 0 "[]", unfolded append_Nil2]
  have n: "unat (of_nat (2 * length name) :: u32) = 2 * length name" by (rule unat_of_nat32) (use small in \<open>simp add: raw_size_def\<close>)
  have size: "raw_size (action, name, padding) = NAME_OFFSET + 2 * length name + length padding" by (simp add: raw_size_def)
  have "encode_change 0 (action, name, padding) \<noteq> []" using length_encode_change [of 0 "(action, name, padding)"] size
    by (auto simp: NAME_OFFSET_def simp del: length_encode_change)
  then show ?case
    by (subst win_event_loop.simps)
      (simp add: c info n size Let_def info_of_def NAME_OFFSET_def del: of_nat_mult)
next
  case (3 c d cs)
  obtain action name padding where c: "c = (action, name, padding)" by (metis surj_pair)
  have small: "raw_size (action, name, padding) < 2 ^ 32" using 3(2) by (simp add: c)
  let ?rest = "encode_changes (d # cs)" and ?size = "raw_size (action, name, padding)"
  note info = info_at_encode [OF small, of ?size ?rest]
  have n: "unat (of_nat (2 * length name) :: u32) = 2 * length name" by (rule unat_of_nat32) (use small in \<open>simp add: raw_size_def\<close>)
  have next_at: "unat (of_nat ?size :: u32) = ?size" using small by (rule unat_of_nat32)
  have size: "?size = NAME_OFFSET + 2 * length name + length padding" by (simp add: raw_size_def)
  have more: "0 < length ?rest" by (cases cs; cases d) (auto simp: raw_size_def NAME_OFFSET_def)
  define bs where "bs = encode_change ?size (action, name, padding) @ ?rest"
  have length: "length bs = ?size + length ?rest" by (simp add: bs_def)
  have "win_event_loop env bs st = win_event_loop env (drop ?size bs) (win_processEvent env (info_at bs) st)"
  proof (subst win_event_loop.simps)
    have "bs \<noteq> []" "\<not> length bs < NAME_OFFSET" using length more size by auto
    moreover have "\<not> (unat (u32_at bs 8) mod 2 \<noteq> 0 \<or> NAME_OFFSET + unat (u32_at bs 8) > length bs)"
      using info(2) n length size unfolding bs_def by simp
    moreover have "unat (u32_at bs 0) = ?size" using info(1) next_at unfolding bs_def by simp
    moreover have "?size \<noteq> 0" "\<not> (?size < NAME_OFFSET + unat (u32_at bs 8) \<or> ?size \<ge> length bs)"
      using info(2) n length size more unfolding bs_def by (simp_all add: NAME_OFFSET_def)
    ultimately show "(if bs = [] then (False, st)
      else if length bs < NAME_OFFSET then (True, win_failOverflow st)
      else
        (let fileNameLength = unat (u32_at bs 8); recordSize = NAME_OFFSET + fileNameLength in
         if fileNameLength mod 2 \<noteq> 0 \<or> recordSize > length bs then (True, win_failOverflow st)
         else
           (let next = unat (u32_at bs 0); st1 = win_processEvent env (info_at bs) st in
            if next = 0 then (False, st1)
            else if next < recordSize \<or> next \<ge> length bs then (True, win_failOverflow st1)
            else win_event_loop env (drop next bs) st1))) =
      win_event_loop env (drop ?size bs) (win_processEvent env (info_at bs) st)"
      by (simp only: Let_def if_False)
  qed
  also have "drop ?size bs = ?rest" by (simp add: bs_def)
  also have "win_processEvent env (info_at bs) st = win_processEvent env (info_of c) st"
    using processEvent_next [where env = env and info = "info_of c" and n = "of_nat ?size" and st = st] info(3) by (simp add: bs_def c info_of_def)
  finally show ?case using 3 by (simp add: c bs_def)
qed

subsection \<open>Properties\<close>

text \<open>
  C19. A buffer that the system fills with changes is read as it was written: whatever padding aligns the records,
  the loop handles each change once, in order, with its action and its name, and does not take the buffer
  for a broken one.
\<close>

theorem buffer_is_read_as_written:
  assumes "cs \<noteq> []" and "\<forall>c \<in> set cs. raw_size c < 2 ^ 32"
  shows "win_event_loop env (encode_changes cs) st = (False, fold (\<lambda>c. win_processEvent env (info_of c)) cs st)"
  using assms by (rule event_loop_encoded [rotated])

text \<open>The loop with every access to the buffer checked: \<open>None\<close> when a byte outside is read.\<close>

definition checked_u32 :: "8 word list \<Rightarrow> nat \<Rightarrow> u32 option" where
  "checked_u32 bs i = (if i + 4 \<le> length bs then Some (u32_at bs i) else None)"

definition checked_u16 :: "8 word list \<Rightarrow> nat \<Rightarrow> wchar option" where
  "checked_u16 bs i = (if i + 2 \<le> length bs then Some (u16_at bs i) else None)"

fun checked_name :: "8 word list \<Rightarrow> nat \<Rightarrow> nat \<Rightarrow> wchar list option" where
  "checked_name bs i 0 = Some []"
| "checked_name bs i (Suc n) =
     (case checked_u16 bs i of None \<Rightarrow> None | Some c \<Rightarrow> map_option ((#) c) (checked_name bs (i + 2) n))"

definition checked_info :: "8 word list \<Rightarrow> notify_info option" where
  "checked_info bs =
     (case (checked_u32 bs 0, checked_u32 bs 4, checked_u32 bs 8) of
        (Some offset, Some action, Some n) \<Rightarrow>
          map_option (\<lambda>name. \<lparr>ni_next = offset, ni_action = action, ni_length = n, ni_name = name\<rparr>) (checked_name bs NAME_OFFSET (unat n div 2))
      | _ \<Rightarrow> None)"

function checked_loop :: "'k win_env \<Rightarrow> 8 word list \<Rightarrow> 'k win_sub \<Rightarrow> (bool \<times> 'k win_sub) option" where
  "checked_loop env bs st =
     (if bs = [] then Some (False, st)
      else if length bs < NAME_OFFSET then Some (True, win_failOverflow st)
      else
        (case checked_u32 bs 8 of
           None \<Rightarrow> None
         | Some n \<Rightarrow>
             if unat n mod 2 \<noteq> 0 \<or> NAME_OFFSET + unat n > length bs then Some (True, win_failOverflow st)
             else
               (case checked_info bs of
                  None \<Rightarrow> None
                | Some info \<Rightarrow>
                    (let offset = unat (ni_next info); st1 = win_processEvent env info st in
                     if offset = 0 then Some (False, st1)
                     else if offset < NAME_OFFSET + unat n \<or> offset \<ge> length bs then Some (True, win_failOverflow st1)
                     else checked_loop env (drop offset bs) st1))))"
  by pat_completeness auto
termination
  by (relation "measure (\<lambda>(env, bs, st). length bs)") (auto simp: NAME_OFFSET_def)

declare checked_loop.simps [simp del]

lemma checked_name_inside:
  "i + 2 * n \<le> length bs \<Longrightarrow> checked_name bs i n = Some (map (\<lambda>j. u16_at bs (i + 2 * j)) [0..<n])"
proof (induction n arbitrary: i)
  case (Suc n)
  have "map (\<lambda>j. u16_at bs (i + 2 * j)) [0..<Suc n] = u16_at bs i # map (\<lambda>j. u16_at bs (i + 2 + 2 * j)) [0..<n]"
    by (simp only: upt_conv_Cons map_Suc_upt [symmetric]) (simp add: upt_conv_Cons map_Suc_upt [symmetric] del: upt_Suc)
  then show ?case using Suc by (simp add: checked_u16_def)
qed simp

lemma checked_info_inside:
  assumes "NAME_OFFSET \<le> length bs" and "NAME_OFFSET + unat (u32_at bs 8) \<le> length bs"
  shows "checked_info bs = Some (info_at bs)"
proof -
  have "NAME_OFFSET + 2 * (unat (u32_at bs 8) div 2) \<le> length bs" using assms(2) by linarith
  from checked_name_inside [OF this] show ?thesis
    using assms(1) by (simp add: checked_info_def checked_u32_def info_at_def Let_def NAME_OFFSET_def)
qed

text \<open>
  C18. The loop over the buffer reads no byte outside of what was written, for any bytes at all: the loop with every
  access checked gives the same result, and a buffer that is cut short or has a bad length or offset
  ends in \<open>failOverflow\<close>.
\<close>

theorem buffer_reads_stay_inside: "checked_loop env bs st = Some (win_event_loop env bs st)"
proof (induction env bs st rule: win_event_loop.induct)
  case (1 env bs st)
  let ?n = "unat (u32_at bs 8)" and ?offset = "unat (u32_at bs 0)"
  let ?st1 = "win_processEvent env (info_at bs) st"
  have next_of: "ni_next (info_at bs) = u32_at bs 0" by (simp add: info_at_def Let_def)
  show ?case
  proof (cases "bs = [] \<or> length bs < NAME_OFFSET")
    case True
    then show ?thesis by (subst checked_loop.simps, subst win_event_loop.simps) auto
  next
    case long: False
    then have n: "checked_u32 bs 8 = Some (u32_at bs 8)" by (simp add: checked_u32_def NAME_OFFSET_def)
    show ?thesis
    proof (cases "?n mod 2 \<noteq> 0 \<or> NAME_OFFSET + ?n > length bs")
      case True
      then show ?thesis using long n by (subst checked_loop.simps, subst win_event_loop.simps) (auto simp: Let_def)
    next
      case fits: False
      have info: "checked_info bs = Some (info_at bs)" by (rule checked_info_inside) (use long fits in auto)
      show ?thesis
      proof (cases "?offset = 0 \<or> ?offset < NAME_OFFSET + ?n \<or> ?offset \<ge> length bs")
        case True
        then show ?thesis using long n fits info by (subst checked_loop.simps, subst win_event_loop.simps) (auto simp: Let_def next_of)
      next
        case False
        have "checked_loop env (drop ?offset bs) ?st1 = Some (win_event_loop env (drop ?offset bs) ?st1)"
          by (rule 1 [OF _ _ refl refl _ refl refl]) (use long fits False in auto)
        then show ?thesis using long n fits info False by (subst checked_loop.simps, subst win_event_loop.simps) (simp add: Let_def next_of)
      qed
    qed
  qed
qed


text \<open>
  C15. A stop that was requested completes, unless its queueing fails. If a thread has set the flag but not yet queued
  the stop, let it do so: when that fails it throws, and the request is forgotten. Otherwise let the queued stop run, and
  then the outstanding read complete if it was cancelled, with whatever result; the system does not complete a read that
  nobody cancels. Then the subscription has stopped, its directory handle has been closed, exactly once,
  no read is outstanding that could touch it, and it does not run. Before that the handle is open.
\<close>

theorem requested_stop_completes:
  assumes "win_life env q st" and "ws_stopRequested st"
  shows "let (err, st0) = (if q then win_queueStop env st else (None, st));
             st1 = (if ws_stopQueued st0 then win_stop_apc st0 else st0);
             st2 = (if ws_pollPending st1 \<and> ws_readCancelled st1 then snd (win_completion env errorCode bytes st1) else st1) in
         ws_handle st = (\<not> ws_stopped st) \<and>
         (case err of
            Some e \<Rightarrow> \<not> ws_stopRequested st0 \<and> ws_running st0
          | None \<Rightarrow> ws_stopped st2 \<and> \<not> ws_handle st2 \<and> ws_closes st2 = 1 \<and> \<not> ws_pollPending st2 \<and> \<not> ws_running st2)"
proof -
  obtain err st0 where st0: "(if q then win_queueStop env st else (None, st)) = (err, st0)" by (metis surj_pair)
  define st1 where "st1 = (if ws_stopQueued st0 then win_stop_apc st0 else st0)"
  define st2 where "st2 = (if ws_pollPending st1 \<and> ws_readCancelled st1 then snd (win_completion env errorCode bytes st1) else st1)"
  have ok: "control_ok q st" using win_life_ok [OF assms(1)] by (simp add: win_ok_def)
  have life0: "win_life env False st0"
    using assms(1) win_life.queues [of env st] st0 by (cases q) auto
  then have life1: "win_life env False st1" using win_life.stop_runs by (auto simp: st1_def)
  have ok0: "control_ok False st0" and ok1: "control_ok False st1"
    using win_life_ok [OF life0] win_life_ok [OF life1] by (simp_all add: win_ok_def)
  have life2: "win_life env False st2" using life1 win_life.completed by (auto simp: st2_def)
  have ok2: "control_ok False st2" using win_life_ok [OF life2] by (simp add: win_ok_def)
  show ?thesis
  proof (cases err)
    case (Some e)
    then have "\<not> ws_stopRequested st0 \<and> ws_running st0"
      using st0 ok by (cases q) (auto simp: win_queueStop_def win_call_def control_ok_def split: prod.splits bool.splits)
    then show ?thesis using ok unfolding st0 Let_def prod.case Some by (simp add: control_ok_def)
  next
    case None
    then have "ws_stopRequested st0"
      using st0 assms(2) by (cases q) (auto simp: win_queueStop_def win_call_def split: prod.splits bool.splits)
    then have idle: "\<not> ws_running st1" using ok0 by (auto simp: st1_def control_ok_def win_stop_apc_def win_beginStop_def Let_def)
    have "ws_stopped st2"
      using ok1 idle by (auto simp: st2_def control_ok_def win_completion_def win_processEvents_def)
    then show ?thesis using ok ok2 unfolding st0 Let_def prod.case None st1_def [symmetric] st2_def [symmetric]
      by (simp add: control_ok_def)
  qed
qed

text \<open>
  C16. Whatever the system reports and in whichever order, and whatever it answers, the Windows backend indexes and
  reports only paths that are not ignored: every event of every batch, and every entry of the tree.
\<close>

theorem windows_reports_only_watched_paths:
  assumes "win_life env q st"
  shows "(\<forall>e \<in> set (batch_events (fst (el_drain (ws_events st)))). \<not> we_ignored env (ev_path e)) \<and>
    (\<forall>p. dt_find (ws_tree st) p \<noteq> None \<longrightarrow> \<not> we_ignored env p)"
  using win_life_ok [OF assms] events_within_batch
  unfolding win_ok_def win_data_ok_def win_tree_ok_def by blast

lemma attributes_pending:
  "get_attributes env path (st\<lparr>ws_pendingRename := r\<rparr>) =
    (fst (get_attributes env path st), st\<lparr>ws_pendingRename := r, ws_kernel := ws_kernel (snd (get_attributes env path st))\<rparr>)"
  by (simp add: get_attributes_def win_call_def split: prod.split)

text \<open>
  C17. A pair of notifications with the old and the new name is one rename: when the source is indexed, nothing was
  known at the target and no ignore rules apply, the tree after both is the tree renamed, with the new time of the
  moved entry, and what is recorded is one rename per entry of the subtree, with an id of its own.
\<close>

theorem windows_rename_moves_the_tree:
  assumes ok: "dt_ok (ws_tree st)" and idle: "ws_pendingRename st = None"
    and first: "ni_action info1 = FILE_ACTION_RENAMED_OLD_NAME" "win_child (we_dir env) (utf16ToUtf8 env (ni_name info1)) = old"
    and second: "ni_action info2 = FILE_ACTION_RENAMED_NEW_NAME" "win_child (we_dir env) (utf16ToUtf8 env (ni_name info2)) = new"
    and ignores: "\<not> we_hasIgnores env" "\<not> we_ignored env old" "\<And>p. in_subtree CHR 0x5C new p \<Longrightarrow> \<not> we_ignored env p"
    and source: "dt_find (ws_tree st) old \<noteq> None"
    and target: "dt_find (ws_tree st) new = None" "new \<notin> set (ws_removedPaths st)" "new \<notin> set (ws_previousRemovedPaths st)"
    and found: "fst (get_attributes env new st) = Some a" "\<not> unsupported (wa_flags a)"
  shows "let st' = win_processEvent env info2 (win_processEvent env info1 st);
             rid = ''windows:'' @ decimal (unat (ws_renameSequence st + 1)) in
         ws_tree st' = snd (dt_update (dt_rename Windows (ws_tree st) old new) new (wa_mtime a)) \<and>
         ws_events st' =
           fold (\<lambda>e l. el_rename l (de_path e) (new @ drop (length old) (de_path e)) (rid @ '':'' @ drop (length old) (de_path e))
               (entryKind (de_isDir e)))
             (fst (dt_extract Windows (ws_tree st) old)) (ws_events st) \<and>
         ws_pendingRename st' = None"
proof -
  obtain moved t where extracted: "dt_extract Windows (ws_tree st) old = (moved, t)" by (metis surj_pair)
  have sub: "in_subtree CHR 0x5C old (de_path e)" if "e \<in> set moved" for e
    using that set_extracted [OF ok, where plat = Windows and p = old] extracted by auto
  have visible: "\<not> we_ignored env (win_moved_path old new e)" if "e \<in> set moved" for e
    using ignores(3) [OF relocate_in_subtree [OF sub [OF that]]] by (simp add: win_moved_path_def relocate_def)
  obtain e where e: "dt_find (ws_tree st) old = Some e" using source by blast
  then have "de_path e = old" using ok by (rule dt_ok_path [rotated])
  then have "e \<in> set moved"
    using e set_extracted [OF ok, where plat = Windows and p = old and e = e] extracted by (simp add: in_subtree_def)
  then have "moved \<noteq> []" by auto
  define st1 where "st1 = st\<lparr>ws_pendingRename := Some old\<rparr>"
  have one: "win_processEvent env info1 st = st1"
    using first ignores(2) idle
    by (simp add: win_processEvent_def Let_def win_flushPendingRename_def st1_def FILE_ACTION_ADDED_def FILE_ACTION_RENAMED_OLD_NAME_def
        FILE_ACTION_RENAMED_NEW_NAME_def FILE_ACTION_MODIFIED_def FILE_ACTION_REMOVED_def)
  define st2 where "st2 = st1\<lparr>ws_kernel := ws_kernel (snd (get_attributes env new st))\<rparr>"
  have got: "get_attributes env new st1 = (Some a, st2)"
    unfolding st2_def st1_def attributes_pending found(1) ..
  have "\<not> we_ignored env new" by (rule ignores(3)) (simp add: in_subtree_def)
  then have two: "win_processEvent env info2 st1 = win_complete_rename env old new (Some a) st2"
    unfolding win_processEvent_def Let_def second win_renamed_new_def got
    by (simp add: st1_def st2_def FILE_ACTION_ADDED_def FILE_ACTION_RENAMED_NEW_NAME_def)
  have fields: "ws_tree st2 = ws_tree st" "ws_events st2 = ws_events st" "ws_renameSequence st2 = ws_renameSequence st"
    by (simp_all add: st1_def st2_def)
  have existed: "win_target_existed new st2 = (False, st2)"
    using target by (simp add: win_target_existed_def st1_def st2_def)
  have all: "filter (\<lambda>e. \<not> we_ignored env (win_moved_path old new e)) moved = moved" using visible by (simp add: filter_id_conv)
  have tree: "dt_restore t moved old new = dt_rename Windows (ws_tree st) old new"
    by (simp add: dt_rename_extract_restore extracted)
  have "dt_find (dt_rename Windows (ws_tree st) old new) new \<noteq> None"
    using source by (auto simp: dt_find_rename [OF ok] in_subtree_def relocate_def split: option.split)
  then obtain t' where update: "dt_update (dt_rename Windows (ws_tree st) old new) new (wa_mtime a) = (True, t')"
    by (metis fst_dt_update prod.collapse)
  have report: "fold (win_report_moved env False True rid old new) moved l =
      fold (\<lambda>e l. el_rename l (de_path e) (new @ drop (length old) (de_path e)) (rid @ '':'' @ drop (length old) (de_path e))
        (entryKind (de_isDir e))) moved l" for rid l
    by (rule fold_cong) (use visible in \<open>auto simp: win_report_moved_def win_moved_path_def Let_def\<close>)
  show ?thesis
    unfolding Let_def one two
    by (simp add: win_complete_rename_def existed fields extracted found(2) all tree update report win_index_target_def \<open>moved \<noteq> []\<close>
        ignores(1) win_log_def win_set_tree_def Let_def)
qed


text \<open>A watcher of \<open>w\<close> that ignores \<open>w\x\<close>, on a system where every path is a file and every call succeeds.\<close>

definition win_sample_env :: "unit win_env" where
  "win_sample_env =
     \<lparr>we_dir = ''w'', we_ignored = (\<lambda>p. p = win_child ''w'' ''x''), we_hasIgnores = True,
      we_utf8 = map (\<lambda>c. char_of (unat c)), we_sameName = (\<lambda>_ _. False),
      we_attributes = (\<lambda>_ k. (Some \<lparr>wa_flags = 0x20, wa_mtime = 7\<rparr>, k)), we_find = (\<lambda>_ k. (None, k)), we_list = (\<lambda>_ k. (Some [], k)),
      we_cancelled = (\<lambda>k. (False, k)), we_read = (\<lambda>_ k. (None, k)), we_queue = (\<lambda>k. (True, k)), we_create = (\<lambda>k. (True, k)),
      we_information = (\<lambda>k. (Some FILE_ATTRIBUTE_DIRECTORY, k))\<rparr>"

definition win_sample_watcher :: "unit win_sub" where
  "win_sample_watcher =
     \<lparr>ws_running = False, ws_pollPending = False, ws_stopRequested = False, ws_stopped = False, ws_overflowed = False,
      ws_started = False, ws_startError = [], ws_pendingRename = None, ws_removedPaths = [], ws_previousRemovedPaths = [],
      ws_renameSequence = 0, ws_handle = False, ws_readBuffer = new_buffer, ws_writeBuffer = new_buffer,
      ws_tree = dt_new ''w'', ws_events = el_empty, ws_needsResubscribe = False, ws_invalidated = 0, ws_notified = 0, ws_closes = 0,
      ws_stopQueued = False, ws_readCancelled = False, ws_kernel = ()\<rparr>"

definition win_sample :: "unit win_sub" where
  "win_sample = win_sample_watcher\<lparr>ws_running := True, ws_handle := True\<rparr>"

definition win_sample_running :: "unit win_sub" where
  "win_sample_running = win_sample\<lparr>ws_pollPending := True, ws_started := True, ws_tree := (dt_new ''w'')\<lparr>isComplete := True\<rparr>\<rparr>"

lemma win_sample_constructed: "win_construct win_sample_env win_sample_watcher = (None, win_sample)"
  by (simp add: win_sample_def win_sample_watcher_def win_construct_def Let_def win_call_def win_sample_env_def FILE_ATTRIBUTE_DIRECTORY_def)

lemma win_sample_runs: "win_run win_sample_env win_sample = win_sample_running"
proof -
  have "win_poll win_sample_env win_sample = (None, win_sample\<lparr>ws_pollPending := True\<rparr>)"
    by (subst win_poll.simps) (simp add: win_sample_def win_sample_watcher_def win_call_def win_sample_env_def)
  then show ?thesis
    by (simp add: win_run_def win_readTree_def win_call_def list_entries_def win_sample_env_def WIN_PATH_BYTES_def win_set_tree_def
        win_sample_running_def win_sample_def win_sample_watcher_def)
qed

lemma win_sample_life: "win_life win_sample_env False win_sample_running"
proof -
  have "win_life win_sample_env False win_sample" by (rule win_life.constructed [OF _ win_sample_constructed]) (simp add: win_sample_watcher_def)
  then have "win_life win_sample_env False (win_run win_sample_env win_sample)" by (rule win_life.runs) (simp add: win_sample_def win_sample_watcher_def)
  then show ?thesis unfolding win_sample_runs .
qed

lemma requested_stop_completes_witness:
  "ws_stopped (snd (win_completion win_sample_env ERROR_OPERATION_ABORTED []
     (win_stop_apc (snd (win_requestStop win_sample_env win_sample_running)))))"
proof -
  define st where "st = win_sample_running\<lparr>ws_stopRequested := True\<rparr>"
  have claim: "win_claimStop win_sample_running = (False, st)"
    by (simp add: win_claimStop_def st_def win_sample_running_def win_sample_def win_sample_watcher_def)
  have life: "win_life win_sample_env True st" by (rule win_life.claims [OF win_sample_life claim])
  have queue: "win_queueStop win_sample_env st = (None, st\<lparr>ws_stopQueued := True\<rparr>)"
    by (simp add: st_def win_queueStop_def win_call_def win_sample_env_def win_sample_running_def win_sample_def win_sample_watcher_def)
  have all: "snd (win_requestStop win_sample_env win_sample_running) = st\<lparr>ws_stopQueued := True\<rparr>"
    by (simp add: win_requestStop_def claim queue)
  have stop: "ws_pollPending (win_stop_apc (st\<lparr>ws_stopQueued := True\<rparr>))" "ws_readCancelled (win_stop_apc (st\<lparr>ws_stopQueued := True\<rparr>))"
    by (simp_all add: st_def win_stop_apc_def win_beginStop_def Let_def win_sample_running_def)
  show ?thesis
    using requested_stop_completes [OF life, where errorCode = ERROR_OPERATION_ABORTED and bytes = "[]"] stop
    unfolding all queue by (simp add: st_def Let_def)
qed

text \<open>
  The case where a stop is forgotten: another thread claims the stop, the thread of the backend finds the flag set when
  the buffer overflows, and then the queueing fails. The subscription has told the watcher of the overflow but
  runs on, and nobody has still to stop it.
\<close>

definition win_refusing_env :: "unit win_env" where
  "win_refusing_env = win_sample_env\<lparr>we_queue := \<lambda>k. (False, k)\<rparr>"

lemma overflow_stop_is_forgotten:
  "let st1 = snd (win_claimStop win_sample_running);
       st2 = win_failOverflow st1;
       st3 = snd (win_queueStop win_refusing_env st2) in
   ws_overflowed st3 \<and> ws_running st3 \<and> \<not> ws_stopRequested st3 \<and> \<not> ws_stopQueued st3"
  by (simp add: win_claimStop_def win_failOverflow_def win_requestStop_here_def win_log_def win_queueStop_def win_call_def
      win_refusing_env_def win_sample_running_def win_sample_def win_sample_watcher_def)

definition win_sample_renamed :: "unit win_sub" where
  "win_sample_renamed = win_sample_running\<lparr>ws_tree := dt_add (dt_new ''w'') (win_child ''w'' ''a'') 1 False\<rparr>"

lemma windows_rename_moves_the_tree_witness:
  "ws_events (win_processEvent (win_sample_env\<lparr>we_hasIgnores := False, we_ignored := \<lambda>_. False\<rparr>)
      \<lparr>ni_next = 0, ni_action = FILE_ACTION_RENAMED_NEW_NAME, ni_length = 2, ni_name = [0x62]\<rparr>
      (win_processEvent (win_sample_env\<lparr>we_hasIgnores := False, we_ignored := \<lambda>_. False\<rparr>)
        \<lparr>ni_next = 0, ni_action = FILE_ACTION_RENAMED_OLD_NAME, ni_length = 2, ni_name = [0x61]\<rparr> win_sample_renamed)) =
    el_rename el_empty (win_child ''w'' ''a'') (win_child ''w'' ''b'') (''windows:'' @ decimal 1 @ '':'') File"
proof -
  define env where "env = win_sample_env\<lparr>we_hasIgnores := False, we_ignored := \<lambda>_. False\<rparr>"
  define info where "info = (\<lambda>action c. \<lparr>ni_next = 0, ni_action = action, ni_length = 2, ni_name = [c]\<rparr> :: notify_info)"
  have st: "dt_ok (ws_tree win_sample_renamed)" "ws_pendingRename win_sample_renamed = None"
    "dt_find (ws_tree win_sample_renamed) (win_child ''w'' ''a'') \<noteq> None" "dt_find (ws_tree win_sample_renamed) (win_child ''w'' ''b'') = None"
    "win_child ''w'' ''b'' \<notin> set (ws_removedPaths win_sample_renamed)" "win_child ''w'' ''b'' \<notin> set (ws_previousRemovedPaths win_sample_renamed)"
    "ws_events win_sample_renamed = el_empty" "ws_renameSequence win_sample_renamed = 0"
    by (simp_all add: win_sample_renamed_def win_sample_running_def win_sample_def win_sample_watcher_def dt_ok_new tree_ok tree_find win_child_def)
  have moved: "fst (dt_extract Windows (ws_tree win_sample_renamed) (win_child ''w'' ''a'')) = [new_entry (win_child ''w'' ''a'') 1 False]"
    by (simp add: win_sample_renamed_def dt_add_def dt_new_def emplace_entry_def new_entry_def dt_extract_def in_tree_at_subtree in_subtree_def)
  have env: "\<not> we_hasIgnores env" "\<not> we_ignored env p" "we_dir env = ''w''" for p
    by (simp_all add: env_def win_sample_env_def)
  have names: "utf16ToUtf8 env [0x61] = ''a''" "utf16ToUtf8 env [0x62] = ''b''"
    unfolding env_def by code_simp+
  have found: "fst (get_attributes env (win_child ''w'' ''b'') win_sample_renamed) = Some \<lparr>wa_flags = 0x20, wa_mtime = 7\<rparr>"
    by (simp add: get_attributes_def win_call_def env_def win_sample_env_def WIN_PATH_BYTES_def win_child_def)
  have "ws_events (win_processEvent env (info FILE_ACTION_RENAMED_NEW_NAME 0x62) (win_processEvent env (info FILE_ACTION_RENAMED_OLD_NAME 0x61) win_sample_renamed)) =
    el_rename el_empty (win_child ''w'' ''a'') (win_child ''w'' ''b'') (''windows:'' @ decimal 1 @ '':'') File"
    using windows_rename_moves_the_tree [OF st(1,2), where env = env and ?info1.0 = "info FILE_ACTION_RENAMED_OLD_NAME 0x61" and
        ?info2.0 = "info FILE_ACTION_RENAMED_NEW_NAME 0x62" and old = "win_child ''w'' ''a''" and new = "win_child ''w'' ''b''",
        OF _ _ _ _ env(1,2) env(2) st(3-6) found]
    by (simp add: info_def env(3) names moved st(7,8) Let_def unsupported_def FILE_ATTRIBUTE_REPARSE_POINT_def FILE_ATTRIBUTE_DEVICE_def
        new_entry_def entryKind_def)
  then show ?thesis unfolding env_def info_def .
qed


text \<open>Two files are created; the second one is ignored.\<close>

definition win_sample_changes :: "raw_change list" where
  "win_sample_changes = [(FILE_ACTION_ADDED, [0x61], [0, 0]), (FILE_ACTION_ADDED, [0x78], [])]"

lemma buffer_is_read_as_written_witness:
  "win_event_loop win_sample_env (encode_changes win_sample_changes) win_sample_running =
    (False, win_processEvent win_sample_env (info_of (FILE_ACTION_ADDED, [0x78], []))
      (win_processEvent win_sample_env (info_of (FILE_ACTION_ADDED, [0x61], [0, 0])) win_sample_running))"
  using buffer_is_read_as_written [of win_sample_changes win_sample_env win_sample_running]
  by (simp add: win_sample_changes_def raw_size_def NAME_OFFSET_def)

definition win_sample_changed :: "unit win_sub" where
  "win_sample_changed = snd (win_completion win_sample_env ERROR_SUCCESS (encode_changes win_sample_changes) win_sample_running)"

lemma win_sample_names: "utf16ToUtf8 win_sample_env [0x61] = ''a''" "utf16ToUtf8 win_sample_env [0x78] = ''x''"
  by code_simp+

lemma win_sample_events: "ws_events win_sample_changed = el_create el_empty (win_child ''w'' ''a'') File"
proof -
  define bytes where "bytes = encode_changes win_sample_changes"
  have size: "length bytes = 30" by (simp add: bytes_def win_sample_changes_def raw_size_def NAME_OFFSET_def)
  have poll: "win_poll win_sample_env st = (None, st\<lparr>ws_pollPending := True\<rparr>)" if "ws_running st" for st
    using that by (subst win_poll.simps) (simp add: win_call_def win_sample_env_def)
  have loop: "win_event_loop win_sample_env bytes st = (False, fold (\<lambda>c. win_processEvent win_sample_env (info_of c)) win_sample_changes st)" for st
    unfolding bytes_def by (rule event_loop_encoded) (simp_all add: win_sample_changes_def raw_size_def NAME_OFFSET_def)
  have attributes: "get_attributes win_sample_env (win_child ''w'' ''a'') st = (Some \<lparr>wa_flags = 0x20, wa_mtime = 7\<rparr>, st)" for st
    by (simp add: get_attributes_def win_call_def win_sample_env_def WIN_PATH_BYTES_def win_child_def)
  have env: "we_dir win_sample_env = ''w''" "we_ignored win_sample_env (win_child ''w'' ''x'')" "\<not> we_ignored win_sample_env (win_child ''w'' ''a'')"
    by (simp_all add: win_sample_env_def win_child_def)
  have first: "win_processEvent win_sample_env (info_of (FILE_ACTION_ADDED, [0x61], [0, 0])) st =
      win_add_candidate (win_child ''w'' ''a'') \<lparr>wa_flags = 0x20, wa_mtime = 7\<rparr> (st\<lparr>ws_removedPaths := [], ws_previousRemovedPaths := []\<rparr>)"
    if "ws_pendingRename st = None" "ws_removedPaths st = []" "ws_previousRemovedPaths st = []" for st
    using that by (simp add: win_processEvent_def Let_def info_of_def env win_sample_names win_added_def win_flushPendingRename_def
        win_addPath_def attributes unsupported_def is_directory_def FILE_ATTRIBUTE_REPARSE_POINT_def FILE_ATTRIBUTE_DEVICE_def
        FILE_ATTRIBUTE_DIRECTORY_def)
  have second: "win_processEvent win_sample_env (info_of (FILE_ACTION_ADDED, [0x78], [])) st = win_flushPendingRename st" for st
    by (simp add: win_processEvent_def Let_def info_of_def env win_sample_names)
  have handled: "fold (\<lambda>c. win_processEvent win_sample_env (info_of c)) win_sample_changes st =
      win_flushPendingRename (win_add_candidate (win_child ''w'' ''a'') \<lparr>wa_flags = 0x20, wa_mtime = 7\<rparr>
        (st\<lparr>ws_removedPaths := [], ws_previousRemovedPaths := []\<rparr>))"
    if "ws_pendingRename st = None" "ws_removedPaths st = []" "ws_previousRemovedPaths st = []" for st
    using first [OF that] by (simp add: win_sample_changes_def second)
  have "dt_find (dt_new ''w''\<lparr>isComplete := True\<rparr>) p = None" for p by (simp add: dt_find_def dt_new_def)
  then show ?thesis
    unfolding win_sample_changed_def bytes_def [symmetric]
    by (simp add: win_completion_def win_processEvents_def win_read_changes_def size win_sample_running_def win_sample_def win_sample_watcher_def
        new_buffer_def DEFAULT_BUF_SIZE_def poll loop handled win_flushPendingRename_def win_add_candidate_def win_set_tree_def win_log_def
        is_directory_def FILE_ATTRIBUTE_DIRECTORY_def Let_def ERROR_SUCCESS_def ERROR_OPERATION_ABORTED_def ERROR_INVALID_PARAMETER_def
        ERROR_NOTIFY_ENUM_DIR_def ERROR_ACCESS_DENIED_def)
qed

lemma windows_reports_only_watched_paths_witness:
  "map ev_path (batch_events (fst (el_drain (ws_events win_sample_changed)))) = [win_child ''w'' ''a''] \<and>
   dt_find (ws_tree win_sample_changed) (win_child ''w'' ''x'') = None"
proof -
  have "win_life win_sample_env False win_sample_changed"
    unfolding win_sample_changed_def by (rule win_life.completed [OF win_sample_life]) (simp add: win_sample_running_def)
  from windows_reports_only_watched_paths [OF this]
  have "dt_find (ws_tree win_sample_changed) (win_child ''w'' ''x'') = None" by (auto simp: win_sample_env_def)
  moreover have "map ev_path (batch_events (fst (el_drain (el_create el_empty (win_child ''w'' ''a'') File)))) = [win_child ''w'' ''a'']"
    by code_simp
  ultimately show ?thesis by (simp add: win_sample_events)
qed

end
