(* ===== verification/UnixTree.thy ===== *)
theory UnixTree
  imports DirTrees Files
begin

section \<open>Reading a tree on Unix (src/unix/legacy.cc)\<close>

text \<open>
  \<open>BruteForceBackend::readTree\<close> walks a directory with \<open>openat\<close>, \<open>fstatat\<close> and \<open>readdir\<close>. The
  record \<open>reader\<close> holds the tree that is filled, the number of open descriptors and the state \<open>'k\<close> of the
  operating system; \<open>read_env\<close> has the answers of the calls. A file is named by its path, which is what the
  pair of a descriptor and a name stands for. Calls return the value of \<open>errno\<close> when they fail.
\<close>

subsection \<open>State and system calls\<close>

record 'k reader =
  rd_tree :: dir_tree
  rd_fds :: nat
  rd_kernel :: 'k

record 'k read_env =
  re_dir :: string
  re_ignored :: "string \<Rightarrow> bool"
  re_strerror :: "nat \<Rightarrow> string"
  re_limit :: nat
  re_open :: "string \<Rightarrow> 'k \<Rightarrow> nat option \<times> 'k"
  re_openat :: "string \<Rightarrow> 'k \<Rightarrow> nat option \<times> 'k"
  re_fstat :: "string \<Rightarrow> 'k \<Rightarrow> (nat + stat) \<times> 'k"
  re_fdopendir :: "string \<Rightarrow> 'k \<Rightarrow> nat option \<times> 'k"
  re_readdir :: "string \<Rightarrow> 'k \<Rightarrow> (string list \<times> nat) \<times> 'k"

definition EACCES :: nat where "EACCES = 13"
definition EMFILE :: nat where "EMFILE = 24"

definition rd_call :: "('k \<Rightarrow> 'a \<times> 'k) \<Rightarrow> 'k reader \<Rightarrow> 'a \<times> 'k reader" where
  "rd_call f st = (let (x, k) = f (rd_kernel st) in (x, st\<lparr>rd_kernel := k\<rparr>))"

definition rd_close :: "'k reader \<Rightarrow> 'k reader" where
  "rd_close st = st\<lparr>rd_fds := rd_fds st - 1\<rparr>"

text \<open>
  Every directory on the way down is held open, and a process has at most \<open>re_limit\<close> descriptors, so \<open>openat\<close>
  fails below that depth.
\<close>

definition open_below :: "'k read_env \<Rightarrow> nat \<Rightarrow> string \<Rightarrow> 'k reader \<Rightarrow> nat option \<times> 'k reader" where
  "open_below env depth path st =
     (if depth \<ge> re_limit env then (Some EMFILE, st)
      else
        (case rd_call (re_openat env path) st of
           (Some e, st1) \<Rightarrow> (Some e, st1)
         | (None, st1) \<Rightarrow> (None, st1\<lparr>rd_fds := rd_fds st1 + 1\<rparr>)))"

definition ISDOT :: "string \<Rightarrow> bool" where
  "ISDOT name \<longleftrightarrow> name = ''.'' \<or> name = ''..''"

definition rd_child :: "string \<Rightarrow> string \<Rightarrow> string" where
  "rd_child dirname name = dirname @ CHR ''/'' # name"

definition rd_add :: "string \<Rightarrow> u64 \<Rightarrow> bool \<Rightarrow> 'k reader \<Rightarrow> 'k reader" where
  "rd_add path mtime isDir st = st\<lparr>rd_tree := dt_add (rd_tree st) path mtime isDir\<rparr>"

subsection \<open>The walk\<close>

text \<open>
  \<open>iterateDir\<close> and its loop over the entries of a directory. The result is the error that is thrown, if any. What
  \<open>readdir\<close> returns is given as the list of names up to its end, with the value of \<open>errno\<close> there.
\<close>

function iterateDir :: "'k read_env \<Rightarrow> nat \<Rightarrow> string \<Rightarrow> 'k reader \<Rightarrow> string option \<times> 'k reader"
  and iterate_entries :: "'k read_env \<Rightarrow> nat \<Rightarrow> string \<Rightarrow> string list \<Rightarrow> 'k reader \<Rightarrow> string option \<times> 'k reader" where
  "iterateDir env depth dirname st =
     (case open_below env depth dirname st of
        (Some e, st1) \<Rightarrow> if e = EACCES \<or> e = ENOENT then (None, st1) else (Some (re_strerror env e), st1)
      | (None, st1) \<Rightarrow>
          (case rd_call (re_fstat env dirname) st1 of
             (Inl e, st2) \<Rightarrow> (Some (re_strerror env e), rd_close st2)
           | (Inr rootAttributes, st2) \<Rightarrow>
               (case rd_call (re_fdopendir env dirname) (rd_add dirname (CONVERT_TIME rootAttributes) True st2) of
                  (Some e, st3) \<Rightarrow> (Some (re_strerror env e), rd_close st3)
                | (None, st3) \<Rightarrow>
                    (case rd_call (re_readdir env dirname) st3 of
                       ((names, readError), st4) \<Rightarrow>
                         (case iterate_entries env depth dirname names st4 of
                            (Some err, st5) \<Rightarrow> (Some err, rd_close st5)
                          | (None, st5) \<Rightarrow> (if readError \<noteq> 0 then Some (re_strerror env readError) else None, rd_close st5))))))"
| "iterate_entries env depth dirname [] st = (None, st)"
| "iterate_entries env depth dirname (name # rest) st =
     (let fullPath = rd_child dirname name in
      if ISDOT name \<or> re_ignored env fullPath then iterate_entries env depth dirname rest st
      else
        (case rd_call (re_fstat env fullPath) st of
           (Inl e, st1) \<Rightarrow>
             if e = ENOENT then iterate_entries env depth dirname rest st1 else (Some (re_strerror env e), st1)
         | (Inr attrib, st1) \<Rightarrow>
             if S_ISDIR attrib
             then
               (case iterateDir env (depth + 1) fullPath st1 of
                  (Some err, st2) \<Rightarrow> (Some err, st2)
                | (None, st2) \<Rightarrow> iterate_entries env depth dirname rest st2)
             else iterate_entries env depth dirname rest (rd_add fullPath (CONVERT_TIME attrib) False st1)))"
  by pat_completeness auto
termination
  by (relation "inv_image (less_than <*lex*> less_than)
      (case_sum (\<lambda>(env, depth, dirname, st). (re_limit env - depth, 0 :: nat))
        (\<lambda>(env, depth, dirname, names, st). (re_limit env - Suc depth, Suc (length names))))")
    (auto simp: open_below_def split: if_splits)

declare iterateDir.simps [simp del]

definition unix_readTree :: "'k read_env \<Rightarrow> 'k reader \<Rightarrow> string option \<times> 'k reader" where
  "unix_readTree env st =
     (case rd_call (re_open env (re_dir env)) st of
        (Some e, st1) \<Rightarrow> (Some (re_strerror env e), st1)
      | (None, st1) \<Rightarrow>
          (case iterateDir env 1 (re_dir env) (st1\<lparr>rd_fds := rd_fds st1 + 1\<rparr>) of
             (err, st2) \<Rightarrow> (err, rd_close st2)))"


subsection \<open>Descriptors\<close>

lemma rd_call_fields: "rd_call f st = (x, st') \<Longrightarrow> rd_fds st' = rd_fds st \<and> rd_tree st' = rd_tree st"
  by (auto simp: rd_call_def split: prod.splits)

lemma open_below_fields:
  "open_below env depth path st = (r, st') \<Longrightarrow> rd_fds st' = (if r = None then rd_fds st + 1 else rd_fds st) \<and> rd_tree st' = rd_tree st"
  by (auto simp: open_below_def rd_call_def split: if_splits option.splits prod.splits)

lemma rd_add_close [simp]:
  "rd_fds (rd_add path m d st) = rd_fds st" "rd_fds (rd_close st) = rd_fds st - 1" "rd_tree (rd_close st) = rd_tree st"
  "rd_tree (rd_add path m d st) = dt_add (rd_tree st) path m d"
  by (simp_all add: rd_add_def rd_close_def)

text \<open>The directory is skipped, or something fails, or its entries are read.\<close>

lemma iterateDir_cases:
  assumes "iterateDir env depth dirname st = (err, st')"
  obtains (closed) e where "open_below env depth dirname st = (Some e, st')" "err = None \<longleftrightarrow> e = EACCES \<or> e = ENOENT"
  | (failed) st1 where "open_below env depth dirname st = (None, st1)" "err \<noteq> None" "rd_fds st' = rd_fds st1 - 1"
  | (read) st1 attributes st2 st3 names readError st4 err' st5 where "open_below env depth dirname st = (None, st1)"
      "rd_call (re_fstat env dirname) st1 = (Inr attributes, st2)"
      "rd_call (re_fdopendir env dirname) (rd_add dirname (CONVERT_TIME attributes) True st2) = (None, st3)"
      "rd_call (re_readdir env dirname) st3 = ((names, readError), st4)"
      "iterate_entries env depth dirname names st4 = (err', st5)"
      "st' = rd_close st5" "err = None \<longleftrightarrow> err' = None \<and> readError = 0"
proof (cases "open_below env depth dirname st")
  case (Pair r st1)
  show ?thesis
  proof (cases r)
    case (Some e)
    show ?thesis by (rule closed [of e]) (use assms Pair Some in \<open>auto simp: iterateDir.simps [of env] split: if_splits\<close>)
  next
    case None
    obtain x st2 where stat: "rd_call (re_fstat env dirname) st1 = (x, st2)" by (metis surj_pair)
    show ?thesis
    proof (cases x)
      case (Inl e)
      show ?thesis by (rule failed [of st1]) (use assms Pair None stat Inl rd_call_fields [OF stat] in \<open>auto simp: iterateDir.simps [of env]\<close>)
    next
      case (Inr a)
      obtain y st3 where dir: "rd_call (re_fdopendir env dirname) (rd_add dirname (CONVERT_TIME a) True st2) = (y, st3)" by (metis surj_pair)
      obtain names readError st4 where entries: "rd_call (re_readdir env dirname) st3 = ((names, readError), st4)" by (metis surj_pair)
      obtain err' st5 where loop: "iterate_entries env depth dirname names st4 = (err', st5)" by (metis surj_pair)
      show ?thesis
      proof (cases y)
        case (Some e)
        show ?thesis
          by (rule failed [of st1])
            (use assms Pair None stat Inr dir Some rd_call_fields [OF stat] rd_call_fields [OF dir] in \<open>auto simp: iterateDir.simps [of env]\<close>)
      next
        case y: None
        show ?thesis
          by (rule read [OF _ stat [unfolded Inr] dir [unfolded y] entries loop])
            (use assms Pair None stat Inr dir y entries loop in \<open>auto simp: iterateDir.simps [of env] split: option.splits if_splits\<close>)
      qed
    qed
  qed
qed

lemma walk_fds:
  "rd_fds (snd (iterateDir env depth dirname st)) = rd_fds st"
  "rd_fds (snd (iterate_entries env depth dirname names st)) = rd_fds st"
proof (induction env depth dirname st and env depth dirname names st rule: iterateDir_iterate_entries.induct)
  case (1 env depth dirname st)
  obtain err st' where run: "iterateDir env depth dirname st = (err, st')" by (metis surj_pair)
  then show ?case
  proof (cases rule: iterateDir_cases)
    case (closed e)
    then show ?thesis using open_below_fields [OF closed(1)] run by simp
  next
    case (failed st1)
    then show ?thesis using open_below_fields [OF failed(1)] run by simp
  next
    case (read st1 attributes st2 st3 names readError st4 err' st5)
    have "rd_fds (snd (iterate_entries env depth dirname names st4)) = rd_fds st4"
      by (rule 1 [OF read(1) [symmetric] refl read(2) [symmetric] refl read(3) [symmetric] refl read(4) [symmetric] refl])
    then show ?thesis
      using open_below_fields [OF read(1)] rd_call_fields [OF read(2)] rd_call_fields [OF read(3)] rd_call_fields [OF read(4)] run read(5,6)
      by simp
  qed
next
  case (2 env depth dirname st)
  then show ?case by simp
next
  case (3 env depth dirname name rest st)
  obtain x st1 where stat: "rd_call (re_fstat env (rd_child dirname name)) st = (x, st1)" by (metis surj_pair)
  obtain err st2 where sub: "iterateDir env (depth + 1) (rd_child dirname name) st1 = (err, st2)" by (metis surj_pair)
  from rd_call_fields [OF stat] show ?case
    using 3(1) [OF refl] 3(2) [OF refl _ stat [symmetric]] 3(3,4) [OF refl _ stat [symmetric]] 3(5) [OF refl _ stat [symmetric]] stat sub
    by (cases x; cases err) (auto simp: Let_def)
qed


subsection \<open>What is indexed\<close>

text \<open>
  On a file system that does not change, whose calls depend on the path alone: \<open>walked env dir e\<close> says that \<open>e\<close> is
  the entry of \<open>dir\<close> or of something below it, reached through directories that can be opened and names that are
  not ignored.
\<close>

inductive walked :: "unit read_env \<Rightarrow> string \<Rightarrow> dir_entry \<Rightarrow> bool" for env :: "unit read_env" where
  self: "fst (re_openat env dir ()) = None \<Longrightarrow> fst (re_fstat env dir ()) = Inr a \<Longrightarrow>
    walked env dir (new_entry dir (CONVERT_TIME a) True)"
| entry: "fst (re_openat env dir ()) = None \<Longrightarrow> name \<in> set (fst (fst (re_readdir env dir ()))) \<Longrightarrow> \<not> ISDOT name \<Longrightarrow>
    \<not> re_ignored env (rd_child dir name) \<Longrightarrow> fst (re_fstat env (rd_child dir name) ()) = Inr a \<Longrightarrow> \<not> S_ISDIR a \<Longrightarrow>
    walked env dir (new_entry (rd_child dir name) (CONVERT_TIME a) False)"
| below: "fst (re_openat env dir ()) = None \<Longrightarrow> name \<in> set (fst (fst (re_readdir env dir ()))) \<Longrightarrow> \<not> ISDOT name \<Longrightarrow>
    \<not> re_ignored env (rd_child dir name) \<Longrightarrow> fst (re_fstat env (rd_child dir name) ()) = Inr a \<Longrightarrow> S_ISDIR a \<Longrightarrow>
    walked env (rd_child dir name) e \<Longrightarrow> walked env dir e"

definition walked_name :: "unit read_env \<Rightarrow> string \<Rightarrow> string \<Rightarrow> dir_entry \<Rightarrow> bool" where
  "walked_name env dir name e \<longleftrightarrow> \<not> ISDOT name \<and> \<not> re_ignored env (rd_child dir name) \<and>
     (\<exists>a. fst (re_fstat env (rd_child dir name) ()) = Inr a \<and>
        (if S_ISDIR a then walked env (rd_child dir name) e else e = new_entry (rd_child dir name) (CONVERT_TIME a) False))"

lemma new_entry_path [simp]: "de_path (new_entry p m d) = p"
  by (simp add: new_entry_def)

lemma walked_iff:
  "walked env dir e \<longleftrightarrow> fst (re_openat env dir ()) = None \<and>
    ((\<exists>a. fst (re_fstat env dir ()) = Inr a \<and> e = new_entry dir (CONVERT_TIME a) True) \<or>
     (\<exists>name \<in> set (fst (fst (re_readdir env dir ()))). walked_name env dir name e))"
proof
  assume "walked env dir e"
  then show "fst (re_openat env dir ()) = None \<and>
    ((\<exists>a. fst (re_fstat env dir ()) = Inr a \<and> e = new_entry dir (CONVERT_TIME a) True) \<or>
     (\<exists>name \<in> set (fst (fst (re_readdir env dir ()))). walked_name env dir name e))"
  proof cases
    case (entry name a)
    then have "walked_name env dir name e" by (simp add: walked_name_def)
    with entry show ?thesis by blast
  next
    case (below name a)
    then have "walked_name env dir name e" by (simp add: walked_name_def)
    with below show ?thesis by blast
  qed simp
next
  assume "fst (re_openat env dir ()) = None \<and>
    ((\<exists>a. fst (re_fstat env dir ()) = Inr a \<and> e = new_entry dir (CONVERT_TIME a) True) \<or>
     (\<exists>name \<in> set (fst (fst (re_readdir env dir ()))). walked_name env dir name e))"
  then show "walked env dir e"
    using walked.intros unfolding walked_name_def by metis
qed

lemma walked_data:
  "walked env dir e \<Longrightarrow> length dir \<le> length (de_path e) \<and>
    (\<exists>a. fst (re_fstat env (de_path e) ()) = Inr a \<and> e = new_entry (de_path e) (CONVERT_TIME a) (S_ISDIR a \<or> de_path e = dir))"
proof (induction rule: walked.induct)
  case (below dir name a e)
  then have "de_path e \<noteq> dir" "length dir \<le> length (de_path e)" by (auto simp: rd_child_def)
  with below show ?case by (cases "de_path e = rd_child dir name") auto
qed (auto simp: rd_child_def)

lemma walked_name_data:
  assumes "walked_name env dir name e"
  shows "\<exists>a. fst (re_fstat env (de_path e) ()) = Inr a \<and> e = new_entry (de_path e) (CONVERT_TIME a) (S_ISDIR a)"
proof -
  obtain a where a: "fst (re_fstat env (rd_child dir name) ()) = Inr a"
    "if S_ISDIR a then walked env (rd_child dir name) e else e = new_entry (rd_child dir name) (CONVERT_TIME a) False"
    using assms by (auto simp: walked_name_def)
  then show ?thesis using walked_data [of env "rd_child dir name" e]
    by (cases "S_ISDIR a"; cases "de_path e = rd_child dir name") auto
qed

lemma walked_name_unique: "walked_name env dir n e \<Longrightarrow> walked_name env dir n' e' \<Longrightarrow> de_path e = de_path e' \<Longrightarrow> e = e'"
  using walked_name_data [of env dir n e] walked_name_data [of env dir n' e'] by auto

text \<open>\<open>indexes P st st'\<close>: what is new in the tree is described by \<open>P\<close>.\<close>

definition indexes :: "(dir_entry \<Rightarrow> bool) \<Rightarrow> 'k reader \<Rightarrow> 'k reader \<Rightarrow> bool" where
  "indexes P st st' \<longleftrightarrow> (\<forall>q e. dt_find (rd_tree st') q = Some e \<longleftrightarrow>
     dt_find (rd_tree st) q = Some e \<or> (dt_find (rd_tree st) q = None \<and> de_path e = q \<and> P e))"

lemma indexes_nothing: "(\<And>e. \<not> P e) \<Longrightarrow> rd_tree st' = rd_tree st \<Longrightarrow> indexes P st st'"
  by (simp add: indexes_def)

lemma indexes_cong: "indexes P st st' \<Longrightarrow> (\<And>e. P e = Q e) \<Longrightarrow> indexes Q st st'"
  by (simp add: indexes_def)

lemma indexes_add: "rd_tree st' = dt_add (rd_tree st) p m d \<Longrightarrow> indexes (\<lambda>e. e = new_entry p m d) st st'"
  by (auto simp: indexes_def dt_find_def dt_add_def emplace_entry_def update_conv' split: option.splits)

lemma indexes_trans:
  assumes "indexes P st st1" and "indexes Q st1 st2" and "\<And>e e'. P e \<Longrightarrow> Q e' \<Longrightarrow> de_path e = de_path e' \<Longrightarrow> e = e'"
  shows "indexes (\<lambda>e. P e \<or> Q e) st st2"
  unfolding indexes_def
proof (intro allI)
  fix q e
  show "dt_find (rd_tree st2) q = Some e \<longleftrightarrow>
     dt_find (rd_tree st) q = Some e \<or> (dt_find (rd_tree st) q = None \<and> de_path e = q \<and> (P e \<or> Q e))"
  proof (cases "dt_find (rd_tree st) q")
    case (Some x)
    then have "dt_find (rd_tree st1) q = Some x" using assms(1) by (simp add: indexes_def)
    then have "dt_find (rd_tree st2) q = Some x" using assms(2) by (simp add: indexes_def)
    with Some show ?thesis by simp
  next
    case None
    then have first: "dt_find (rd_tree st1) q = Some e' \<longleftrightarrow> de_path e' = q \<and> P e'" for e' using assms(1) by (simp add: indexes_def)
    show ?thesis
    proof (cases "dt_find (rd_tree st1) q")
      case (Some x)
      then have x: "de_path x = q" "P x" using first by auto
      have "dt_find (rd_tree st2) q = Some x" using assms(2) Some by (simp add: indexes_def)
      moreover have "e = x" if "de_path e = q" "P e \<or> Q e" using that first [of e] Some x assms(3) [of x e] by auto
      ultimately show ?thesis using None x by auto
    next
      case none: None
      then have "dt_find (rd_tree st2) q = Some e \<longleftrightarrow> de_path e = q \<and> Q e" using assms(2) by (simp add: indexes_def)
      then show ?thesis using None none first [of e] by auto
    qed
  qed
qed

lemma indexes_tree: "indexes P st st1 \<Longrightarrow> rd_tree st0 = rd_tree st \<Longrightarrow> rd_tree st' = rd_tree st1 \<Longrightarrow> indexes P st0 st'"
  by (simp add: indexes_def)

lemma walked_name_longer: "walked_name env dir name e \<Longrightarrow> de_path e \<noteq> dir"
proof
  assume e: "walked_name env dir name e" "de_path e = dir"
  show False
  proof (cases "walked env (rd_child dir name) e")
    case True
    then show False using walked_data [of env "rd_child dir name" e] e(2) by (simp add: rd_child_def)
  next
    case False
    then have "de_path e = rd_child dir name" using e(1) by (auto simp: walked_name_def split: if_splits)
    then show False using e(2) by (simp add: rd_child_def)
  qed
qed

lemma rd_call_static: "rd_call f (st :: unit reader) = (x, st') \<Longrightarrow> fst (f ()) = x"
  by (auto simp: rd_call_def split: prod.splits)

lemma open_below_static:
  "open_below env depth path (st :: unit reader) = (r, st') \<Longrightarrow> r \<noteq> Some EMFILE \<Longrightarrow> fst (re_openat env path ()) = r"
  by (auto simp: open_below_def split: if_splits option.splits prod.splits dest: rd_call_static)

lemma walk_indexes:
  fixes env :: "unit read_env"
  shows "fst (iterateDir env depth dirname st) = None \<Longrightarrow> indexes (walked env dirname) st (snd (iterateDir env depth dirname st))"
    and "fst (iterate_entries env depth dirname names st) = None \<Longrightarrow>
      indexes (\<lambda>e. \<exists>name \<in> set names. walked_name env dirname name e) st (snd (iterate_entries env depth dirname names st))"
proof (induction env depth dirname st and env depth dirname names st rule: iterateDir_iterate_entries.induct)
  case (1 env depth dirname st)
  obtain st' where run: "iterateDir env depth dirname st = (None, st')" using 1(2) by (metis prod.collapse)
  then show ?case
  proof (cases rule: iterateDir_cases)
    case (closed e)
    then have "fst (re_openat env dirname ()) = Some e"
      using open_below_static [OF closed(1)] by (auto simp: EACCES_def EMFILE_def ENOENT_def)
    then have "\<not> walked env dirname e'" for e' by (simp add: walked_iff)
    then show ?thesis using indexes_nothing open_below_fields [OF closed(1)] run by force
  next
    case (failed st1)
    then show ?thesis by simp
  next
    case (read st1 attributes st2 st3 names readError st4 err' st5)
    have "indexes (\<lambda>e. \<exists>name \<in> set names. walked_name env dirname name e) st4 (snd (iterate_entries env depth dirname names st4))"
      by (rule 1(1) [OF read(1) [symmetric] refl read(2) [symmetric] refl read(3) [symmetric] refl read(4) [symmetric] refl])
        (use read(5,7) in simp)
    then have rest: "indexes (\<lambda>e. \<exists>name \<in> set names. walked_name env dirname name e) st4 st5" by (simp add: read(5))
    have "rd_tree st4 = dt_add (rd_tree st) dirname (CONVERT_TIME attributes) True"
      using open_below_fields [OF read(1)] rd_call_fields [OF read(2)] rd_call_fields [OF read(3)] rd_call_fields [OF read(4)] by simp
    from indexes_trans [OF indexes_add [OF this] rest]
    have "indexes (\<lambda>e. e = new_entry dirname (CONVERT_TIME attributes) True \<or> (\<exists>name \<in> set names. walked_name env dirname name e)) st st5"
      using walked_name_longer by fastforce
    then have "indexes (walked env dirname) st st5"
      by (rule indexes_cong)
        (use open_below_static [OF read(1)] rd_call_static [OF read(2)] rd_call_static [OF read(4)] in \<open>simp add: walked_iff\<close>)
    then show ?thesis using run read(6) by (simp add: indexes_tree)
  qed
next
  case (2 env depth dirname st)
  then show ?case by (simp add: indexes_nothing)
next
  case (3 env depth dirname name rest st)
  let ?path = "rd_child dirname name" and ?run = "iterate_entries env depth dirname (name # rest) st"
  have later: "indexes (\<lambda>e. \<exists>name \<in> set (name # rest). walked_name env dirname name e) st (snd ?run)"
    if "indexes (walked_name env dirname name) st st1" "indexes (\<lambda>e. \<exists>name \<in> set rest. walked_name env dirname name e) st1 (snd ?run)" for st1
    by (rule indexes_cong [OF indexes_trans [OF that]]) (auto dest: walked_name_unique)
  show ?case
  proof (cases "ISDOT name \<or> re_ignored env ?path")
    case True
    have "indexes (walked_name env dirname name) st st" by (rule indexes_nothing) (use True in \<open>auto simp: walked_name_def\<close>)
    moreover have "indexes (\<lambda>e. \<exists>name \<in> set rest. walked_name env dirname name e) st (snd ?run)"
      using 3(1) [OF refl True] 3(6) True by simp
    ultimately show ?thesis by (rule later)
  next
    case watched: False
    obtain x st1 where stat: "rd_call (re_fstat env ?path) st = (x, st1)" by (metis surj_pair)
    note static = rd_call_static [OF stat] and fields = rd_call_fields [OF stat]
    show ?thesis
    proof (cases x)
      case (Inl e)
      have run: "?run = iterate_entries env depth dirname rest st1" "e = ENOENT"
        using 3(6) watched stat Inl by (auto simp: Let_def split: if_splits)
      have "indexes (walked_name env dirname name) st st1"
        by (rule indexes_nothing) (use Inl static fields in \<open>auto simp: walked_name_def\<close>)
      moreover have "indexes (\<lambda>e. \<exists>name \<in> set rest. walked_name env dirname name e) st1 (snd ?run)"
        using 3(2) [OF refl watched stat [symmetric] Inl run(2)] 3(6) unfolding run(1) by simp
      ultimately show ?thesis by (rule later)
    next
      case (Inr a)
      show ?thesis
      proof (cases "S_ISDIR a")
        case True
        obtain err st2 where sub: "iterateDir env (depth + 1) ?path st1 = (err, st2)" by (metis surj_pair)
        have run: "?run = iterate_entries env depth dirname rest st2" and ok: "err = None"
          using 3(6) watched stat Inr True sub by (auto simp: Let_def split: option.splits)
        have "indexes (walked env ?path) st1 st2" using 3(3) [OF refl watched stat [symmetric] Inr True] sub ok by simp
        then have "indexes (walked_name env dirname name) st1 st2"
          by (rule indexes_cong) (use watched static Inr True in \<open>simp add: walked_name_def\<close>)
        then have "indexes (walked_name env dirname name) st st2" by (rule indexes_tree) (simp_all add: fields)
        moreover have "indexes (\<lambda>e. \<exists>name \<in> set rest. walked_name env dirname name e) st2 (snd ?run)"
          using 3(4) [OF refl watched stat [symmetric] Inr True sub [symmetric] ok] 3(6) unfolding run by simp
        ultimately show ?thesis by (rule later)
      next
        case False
        define st2 where "st2 = rd_add ?path (CONVERT_TIME a) False st1"
        have run: "?run = iterate_entries env depth dirname rest st2"
          using watched stat Inr False by (simp add: Let_def st2_def)
        have "indexes (\<lambda>e. e = new_entry ?path (CONVERT_TIME a) False) st st2" by (rule indexes_add) (simp add: st2_def fields)
        then have "indexes (walked_name env dirname name) st st2"
          by (rule indexes_cong) (use watched static Inr False in \<open>simp add: walked_name_def\<close>)
        moreover have "indexes (\<lambda>e. \<exists>name \<in> set rest. walked_name env dirname name e) st2 (snd ?run)"
          using 3(5) [OF refl watched stat [symmetric] Inr False] 3(6) unfolding run st2_def [symmetric] by simp
        ultimately show ?thesis by (rule later)
      qed
    qed
  qed
qed


subsection \<open>Properties\<close>

text \<open>
  C14. Whatever the file system answers, and whether the tree is read or an error is thrown on the way, every
  descriptor that was opened is closed again.
\<close>

theorem reading_closes_what_it_opened: "rd_fds (snd (unix_readTree env st)) = rd_fds st"
proof -
  obtain r st1 where root: "rd_call (re_open env (re_dir env)) st = (r, st1)" by (metis surj_pair)
  show ?thesis
    using rd_call_fields [OF root] walk_fds(1) [of env 1 "re_dir env" "st1\<lparr>rd_fds := rd_fds st1 + 1\<rparr>"]
    by (cases r) (auto simp: unix_readTree_def root split: prod.split)
qed

text \<open>
  C13. When the tree of a file system that does not change is read without an error, the new entries are exactly
  those that can be reached from the watched directory through directories that can be opened, by names that are not
  ignored, each with its time and kind; what was in the tree is left as it is.
\<close>

theorem tree_is_read_exactly:
  assumes "unix_readTree env st = (None, st')"
  shows "dt_find (rd_tree st') q = Some e \<longleftrightarrow>
    dt_find (rd_tree st) q = Some e \<or> (dt_find (rd_tree st) q = None \<and> de_path e = q \<and> walked env (re_dir env) e)"
proof -
  obtain st1 where root: "rd_call (re_open env (re_dir env)) st = (None, st1)"
    using assms by (auto simp: unix_readTree_def split: prod.splits option.splits)
  obtain err st2 where walk: "iterateDir env 1 (re_dir env) (st1\<lparr>rd_fds := rd_fds st1 + 1\<rparr>) = (err, st2)" by (metis surj_pair)
  have "err = None" "st' = rd_close st2"
    using assms unfolding unix_readTree_def root prod.case option.case walk by simp_all
  then have "indexes (walked env (re_dir env)) (st1\<lparr>rd_fds := rd_fds st1 + 1\<rparr>) st2"
    using walk_indexes(1) [of env 1 "re_dir env" "st1\<lparr>rd_fds := rd_fds st1 + 1\<rparr>"] walk by simp
  then have "indexes (walked env (re_dir env)) st st'"
    by (rule indexes_tree) (simp_all add: rd_call_fields [OF root] \<open>st' = rd_close st2\<close>)
  then show ?thesis by (simp add: indexes_def)
qed

text \<open>A directory with a file, an ignored file, a directory with a file in it, and one that must not be read.\<close>

definition read_sample_env :: "unit read_env" where
  "read_sample_env =
     \<lparr>re_dir = ''/w'', re_ignored = (\<lambda>p. p = ''/w/x''), re_strerror = (\<lambda>_. ''error''), re_limit = 8,
      re_open = (\<lambda>_ k. (None, k)), re_openat = (\<lambda>p k. (if p = ''/w/e'' then Some EACCES else None, k)),
      re_fstat = (\<lambda>p k. (Inr \<lparr>stat_dev = 1, stat_ino = 2, stat_sec = 0, stat_nsec = 7, stat_nlink = 1,
        stat_type = (if p \<in> {''/w'', ''/w/d'', ''/w/e''} then Folder else Regular)\<rparr>, k)),
      re_fdopendir = (\<lambda>_ k. (None, k)),
      re_readdir = (\<lambda>p k. ((if p = ''/w'' then [''.'', ''..'', ''a'', ''x'', ''d'', ''e''] else [''f''], 0), k))\<rparr>"

definition read_sample :: "unit reader" where
  "read_sample = \<lparr>rd_tree = dt_new ''/w'', rd_fds = 3, rd_kernel = ()\<rparr>"

lemma read_sample_fields:
  "re_dir read_sample_env = ''/w''" "re_ignored read_sample_env p = (p = ''/w/x'')" "re_limit read_sample_env = 8"
  "re_open read_sample_env p k = (None, k)" "re_openat read_sample_env p k = (if p = ''/w/e'' then Some EACCES else None, k)"
  "re_fdopendir read_sample_env p k = (None, k)"
  "re_readdir read_sample_env p k = ((if p = ''/w'' then [''.'', ''..'', ''a'', ''x'', ''d'', ''e''] else [''f''], 0), k)"
  "re_fstat read_sample_env p k = (Inr \<lparr>stat_dev = 1, stat_ino = 2, stat_sec = 0, stat_nsec = 7, stat_nlink = 1,
        stat_type = (if p \<in> {''/w'', ''/w/d'', ''/w/e''} then Folder else Regular)\<rparr>, k)"
  by (simp_all add: read_sample_env_def)

lemmas read_sample_steps = read_sample_fields open_below_def rd_call_def rd_add_def rd_close_def rd_child_def ISDOT_def S_ISDIR_def CONVERT_TIME_def Let_def

lemma read_sample_d:
  "iterateDir read_sample_env 2 ''/w/d'' st = (None, rd_add ''/w/d/f'' 7 False (rd_add ''/w/d'' 7 True st))"
  by (subst iterateDir.simps) (simp add: read_sample_steps)

lemma read_sample_e: "iterateDir read_sample_env 2 ''/w/e'' st = (None, st)"
  by (subst iterateDir.simps) (simp add: read_sample_steps)

definition read_sample_end :: "unit reader" where
  "read_sample_end = rd_add ''/w/d/f'' 7 False (rd_add ''/w/d'' 7 True (rd_add ''/w/a'' 7 False (rd_add ''/w'' 7 True read_sample)))"

lemma read_sample_runs: "unix_readTree read_sample_env read_sample = (None, read_sample_end)"
proof -
  have "iterateDir read_sample_env 1 ''/w'' st =
      (None, rd_add ''/w/d/f'' 7 False (rd_add ''/w/d'' 7 True (rd_add ''/w/a'' 7 False (rd_add ''/w'' 7 True st))))" for st
    by (subst iterateDir.simps)
      (simp add: read_sample_steps read_sample_d [unfolded rd_add_def] read_sample_e numeral_2_eq_2 [symmetric])
  then show ?thesis by (simp add: unix_readTree_def read_sample_fields rd_call_def read_sample_end_def rd_add_def rd_close_def)
qed

lemma tree_is_read_exactly_witness:
  "walked read_sample_env ''/w'' (new_entry ''/w/d/f'' 7 False) \<and> \<not> walked read_sample_env ''/w'' (new_entry ''/w/e/f'' 7 False)"
proof -
  have fresh: "dt_find (rd_tree read_sample) q = None" for q
    by (simp add: read_sample_def dt_find_new)
  have "dt_find (rd_tree read_sample_end) ''/w/d/f'' = Some (new_entry ''/w/d/f'' 7 False)" "dt_find (rd_tree read_sample_end) ''/w/e/f'' = None"
    by (simp_all add: read_sample_end_def read_sample_def tree_find tree_ok)
  then show ?thesis
    using tree_is_read_exactly [OF read_sample_runs, of "''/w/d/f''" "new_entry ''/w/d/f'' 7 False"]
      tree_is_read_exactly [OF read_sample_runs, of "''/w/e/f''" "new_entry ''/w/e/f'' 7 False"]
    by (simp add: fresh read_sample_fields)
qed

end
