(* ===== verification/Binding.thy ===== *)
theory Binding
  imports Backends
begin

section \<open>The calls from JavaScript (src/binding.cc, src/PromiseRunner.hh)\<close>

text \<open>
  A call \<open>subscribe\<close> or \<open>unsubscribe\<close> checks its arguments, reserves a backend and a watcher, changes the
  callbacks of the watcher, and queues a \<open>runner\<close>, whose \<open>execute\<close> runs on another thread and whose end settles
  the promise and destroys the runner. The model follows one call through these steps, on the registries of
  \<open>Watchers\<close> and \<open>Backends\<close>; what other threads do in between are the steps of those theories.
\<close>

subsection \<open>JavaScript values\<close>

text \<open>Objects have plain data properties. A string is what \<open>Utf8Value\<close> makes of it.\<close>

datatype js_value =
    JUndefined
  | JNull
  | JString string
  | JFunction nat
  | JArray "js_value list"
  | JObject "(string \<times> js_value) list"
  | JOther

fun IsString :: "js_value \<Rightarrow> bool" where
  "IsString (JString s) = True"
| "IsString _ = False"

fun IsFunction :: "js_value \<Rightarrow> bool" where
  "IsFunction (JFunction f) = True"
| "IsFunction _ = False"

fun IsObject :: "js_value \<Rightarrow> bool" where
  "IsObject (JObject ps) = True"
| "IsObject (JArray vs) = True"
| "IsObject (JFunction f) = True"
| "IsObject _ = False"

fun js_get :: "js_value \<Rightarrow> string \<Rightarrow> js_value" where
  "js_get (JObject ps) name = (case map_of ps name of None \<Rightarrow> JUndefined | Some v \<Rightarrow> v)"
| "js_get _ name = JUndefined"

subsection \<open>Options\<close>

text \<open>The two sets are lists without duplicates, in the order of insertion.\<close>

fun ignore_path_items :: "js_value list \<Rightarrow> string list \<Rightarrow> string list" where
  "ignore_path_items [] result = result"
| "ignore_path_items (JString s # items) result = ignore_path_items items (if c_str s \<in> set result then result else result @ [c_str s])"
| "ignore_path_items (_ # items) result = ignore_path_items items result"

definition getIgnorePaths :: "js_value \<Rightarrow> string list" where
  "getIgnorePaths opts =
     (if IsObject opts then (case js_get opts ''ignorePaths'' of JArray items \<Rightarrow> ignore_path_items items [] | _ \<Rightarrow> []) else [])"

fun ignore_glob_items :: "text_env \<Rightarrow> js_value list \<Rightarrow> glob list \<Rightarrow> string + glob list" where
  "ignore_glob_items env [] result = Inr result"
| "ignore_glob_items env (JString key # items) result =
     (if CHR 0x00 \<in> set key then Inl ''ignoreGlobs cannot contain NUL characters''
      else
        (let g = make_glob env key in
         ignore_glob_items env items (if \<exists>h \<in> set result. glob_equal h g then result else result @ [g])))"
| "ignore_glob_items env (_ # items) result = Inl ''Expected ignoreGlobs to be an array of strings''"

definition getIgnoreGlobs :: "text_env \<Rightarrow> js_value \<Rightarrow> string + glob list" where
  "getIgnoreGlobs env opts =
     (if IsObject opts then
        (case js_get opts ''ignoreGlobs'' of
           JUndefined \<Rightarrow> Inr []
         | JArray items \<Rightarrow> ignore_glob_items env items []
         | _ \<Rightarrow> Inl ''Expected ignoreGlobs to be an array of strings'')
      else Inr [])"

definition backend_name :: "js_value \<Rightarrow> string" where
  "backend_name opts = (if IsObject opts then (case js_get opts ''backend'' of JString s \<Rightarrow> c_str s | _ \<Rightarrow> []) else [])"

subsection \<open>State\<close>

text \<open>
  \<open>bd_watched\<close> are the fields of the watchers that backends use, \<open>bd_exiting\<close> the flag of
  \<open>notifyProcessExiting\<close>. The parameters: the build and what a new backend does, the code of the derived classes, which
  weak references to backends can be locked, and the environment and thread of the caller.
\<close>

record 's binding =
  bd_world :: world
  bd_backends :: "'s backends"
  bd_watched :: "wref \<Rightarrow> watched"
  bd_exiting :: bool

record 's binding_env =
  be_text :: text_env
  be_build :: build
  be_init :: "backend_kind \<Rightarrow> 's"
  be_startup :: "bref \<Rightarrow> string"
  be_subscribe :: "'s subscriber"
  be_finishSubscribe :: "wref \<Rightarrow> nat option \<Rightarrow> string option"
  be_unsubscribe :: "'s subscriber"
  be_alive :: "bref \<Rightarrow> bool"
  be_env :: nat
  be_thread :: nat

definition bd_get :: "bref \<Rightarrow> wref \<Rightarrow> 's binding \<Rightarrow> watched \<times> 's backend" where
  "bd_get b r st = (bd_watched st r, bs_obj (bd_backends st) b)"

definition bd_put :: "bref \<Rightarrow> wref \<Rightarrow> watched \<times> 's backend \<Rightarrow> 's binding \<Rightarrow> 's binding" where
  "bd_put b r wb st =
     st\<lparr>bd_backends := bs_set b (snd wb) (bd_backends st), bd_watched := (bd_watched st)(r := fst wb)\<rparr>"

definition on_backends :: "('s backends \<Rightarrow> 's backends) \<Rightarrow> 's binding \<Rightarrow> 's binding" where
  "on_backends f st = st\<lparr>bd_backends := f (bd_backends st)\<rparr>"

definition on_world :: "(world \<Rightarrow> world) \<Rightarrow> 's binding \<Rightarrow> 's binding" where
  "on_world f st = st\<lparr>bd_world := f (bd_world st)\<rparr>"

subsection \<open>Whole calls of a backend\<close>

text \<open>\<open>Backend::watch\<close> and \<open>Backend::unwatch\<close> from beginning to end: the exception they throw, if any.\<close>

definition failed_watch :: "bref \<Rightarrow> watch_result \<Rightarrow> 's binding \<Rightarrow> string option \<times> 's binding" where
  "failed_watch b res st =
     (case res of
        Watch_failed err \<Rightarrow> (Some err, st)
      | Watch_failed_unref err \<Rightarrow> (Some err, on_backends (backend_unref b) st)
      | _ \<Rightarrow> (None, st))"

definition call_watch :: "'s binding_env \<Rightarrow> bref \<Rightarrow> wref \<Rightarrow> 's binding \<Rightarrow> string option \<times> 's binding" where
  "call_watch env b r st =
     (case watch_begin (be_subscribe env) r (isCancelled (bd_exiting st) (wd_obj (bd_world st) r)) (bd_get b r st) of
        (Watch_subscribed wasInvalid state, wb) \<Rightarrow>
          (let st1 = bd_put b r wb st in
           case watch_end r wasInvalid state (be_finishSubscribe env r state) (bd_get b r st1) of
             (res, wb1) \<Rightarrow> failed_watch b res (bd_put b r wb1 st1))
      | (res, wb) \<Rightarrow> failed_watch b res (bd_put b r wb st))"

definition call_unwatch :: "'s binding_env \<Rightarrow> bref \<Rightarrow> wref \<Rightarrow> 's binding \<Rightarrow> string option \<times> 's binding" where
  "call_unwatch env b r st =
     (case unwatch_begin (be_unsubscribe env) r False (hasCallbacks (wd_obj (bd_world st) r)) (bd_get b r st) of
        (Unwatch_done, wb) \<Rightarrow> (None, bd_put b r wb st)
      | (Unwatch_failed err, wb) \<Rightarrow> (Some err, bd_put b r wb st)
      | (Unwatch_unsubscribed state, wb) \<Rightarrow>
          (None, on_backends (backend_unref b)
             (on_world (\<lambda>wd. wd_set r (unwatch_end (be_alive env) b (wd_obj wd r)) wd) (bd_put b r wb st))))"

subsection \<open>Runners\<close>

datatype runner_kind = SubscribeRunner | UnsubscribeRunner

record runner =
  rn_kind :: runner_kind
  rn_watcher :: wref
  rn_backend :: bref
  rn_callback :: nat
  rn_hasBackendReservation :: bool
  rn_cleanupAfterFailure :: bool
  rn_addedCallback :: bool
  rn_shouldUnwatch :: bool
  rn_error :: string

text \<open>
  The constructors, once the asynchronous work is created: \<open>Inl\<close> an exception, with its message if it is derived from
  \<open>std::exception\<close>; the runtime's own \<open>Error\<close>, which \<open>watch\<close> throws, is not, as exceptions of
  the runtime's wrapper are disabled. \<open>made\<close> is the thread-safe function that the runtime makes.
\<close>

definition new_runner :: "runner_kind \<Rightarrow> wref \<Rightarrow> bref \<Rightarrow> nat \<Rightarrow> bool \<Rightarrow> bool \<Rightarrow> runner" where
  "new_runner kind r b fn added shouldUnwatch =
     \<lparr>rn_kind = kind, rn_watcher = r, rn_backend = b, rn_callback = fn, rn_hasBackendReservation = True,
      rn_cleanupAfterFailure = False, rn_addedCallback = added, rn_shouldUnwatch = shouldUnwatch, rn_error = []\<rparr>"

definition construct_subscribe ::
  "'s binding_env \<Rightarrow> string \<Rightarrow> nat \<Rightarrow> string list \<Rightarrow> glob list \<Rightarrow> bref \<Rightarrow> tsfn option \<Rightarrow> 's binding \<Rightarrow> (string option + runner) \<times> 's binding" where
  "construct_subscribe env dir fn ignorePaths ignoreGlobs b made st =
     (let (r, wd) = getShared (be_text env) dir ignorePaths ignoreGlobs (bd_world st);
          (added, w) = watcher_watch (be_env env) (be_thread env) fn made (wd_obj wd r);
          st1 = st\<lparr>bd_world := releaseShared r (wd_set r w wd)\<rparr> in
      case added of
        Inl err \<Rightarrow> (Inl None, st1)
      | Inr addedCallback \<Rightarrow> (Inr (new_runner SubscribeRunner r b fn addedCallback False), st1))"

definition construct_unsubscribe ::
  "'s binding_env \<Rightarrow> string \<Rightarrow> nat \<Rightarrow> string list \<Rightarrow> glob list \<Rightarrow> bref \<Rightarrow> 's binding \<Rightarrow> (string option + runner) \<times> 's binding" where
  "construct_unsubscribe env dir fn ignorePaths ignoreGlobs b st =
     (let (r, wd) = getShared (be_text env) dir ignorePaths ignoreGlobs (bd_world st);
          (shouldUnwatch, wd1) = unwatch r (be_thread env) fn wd in
      (Inr (new_runner UnsubscribeRunner r b fn False shouldUnwatch), st\<lparr>bd_world := releaseShared r wd1\<rparr>))"

definition releaseBackend :: "runner \<times> 's binding \<Rightarrow> runner \<times> 's binding" where
  "releaseBackend rs =
     (let (rn, st) = rs in
      if rn_hasBackendReservation rn
      then (rn\<lparr>rn_hasBackendReservation := False\<rparr>, on_backends (backend_releaseShared (rn_backend rn)) st)
      else (rn, st))"

text \<open>\<open>execute\<close> of the two classes: the exception they throw, if any.\<close>

definition has_own_callback :: "'s binding_env \<Rightarrow> wref \<Rightarrow> 's binding \<Rightarrow> bool" where
  "has_own_callback env r st \<longleftrightarrow> hasCallbacksForEnvironment (be_env env) (wd_obj (bd_world st) r)"

definition subscribe_watch :: "'s binding_env \<Rightarrow> bref \<Rightarrow> wref \<Rightarrow> 's binding \<Rightarrow> string option \<times> 's binding" where
  "subscribe_watch env b r st =
     (if \<not> isCancelled (bd_exiting st) (wd_obj (bd_world st) r) \<and> has_own_callback env r st
      then
        (case call_watch env b r st of
           (Some err, st1) \<Rightarrow> (Some err, st1)
         | (None, st1) \<Rightarrow> (None, on_world (\<lambda>wd. wd_set r (addBackend (be_alive env) b (wd_obj wd r)) wd) st1))
      else (None, st))"

definition subscribe_body :: "'s binding_env \<Rightarrow> runner \<Rightarrow> 's binding \<Rightarrow> string option \<times> 's binding" where
  "subscribe_body env rn st =
     (case subscribe_watch env (rn_backend rn) (rn_watcher rn) st of
        (Some err, st1) \<Rightarrow> (Some err, st1)
      | (None, st1) \<Rightarrow>
          if \<not> bd_exiting st1 \<and> \<not> has_own_callback env (rn_watcher rn) st1
          then call_unwatch env (rn_backend rn) (rn_watcher rn) st1 else (None, st1))"

definition unsubscribe_body :: "'s binding_env \<Rightarrow> runner \<Rightarrow> 's binding \<Rightarrow> string option \<times> 's binding" where
  "unsubscribe_body env rn st =
     (if rn_shouldUnwatch rn then call_unwatch env (rn_backend rn) (rn_watcher rn) st else (None, st))"

definition execute :: "'s binding_env \<Rightarrow> runner \<times> 's binding \<Rightarrow> string option \<times> runner \<times> 's binding" where
  "execute env rs =
     (let (rn, st) = rs;
          (err, st1) = (case rn_kind rn of SubscribeRunner \<Rightarrow> subscribe_body env rn st | UnsubscribeRunner \<Rightarrow> unsubscribe_body env rn st);
          rn1 = (if err \<noteq> None \<and> rn_kind rn = SubscribeRunner then rn\<lparr>rn_cleanupAfterFailure := True\<rparr> else rn) in
      (err, releaseBackend (rn1, st1)))"

definition onExecute :: "'s binding_env \<Rightarrow> runner \<times> 's binding \<Rightarrow> runner \<times> 's binding" where
  "onExecute env rs =
     (case execute env rs of
        (Some err, rn, st) \<Rightarrow> (rn\<lparr>rn_error := err\<rparr>, st)
      | (None, rn, st) \<Rightarrow> (rn, st))"

text \<open>The destructors.\<close>

definition destroy_runner :: "'s binding_env \<Rightarrow> runner \<times> 's binding \<Rightarrow> 's binding" where
  "destroy_runner env rs =
     (let (rn, st) = rs;
          st1 = (if rn_kind rn = SubscribeRunner \<and> rn_cleanupAfterFailure rn \<and> rn_addedCallback rn
            then on_world (\<lambda>wd. snd (unwatch (rn_watcher rn) (be_thread env) (rn_callback rn) wd)) st else st) in
      snd (releaseBackend (rn, st1)))"

text \<open>
  \<open>onWorkComplete\<close>: how the promise is settled. \<open>status\<close> is the status of the work, \<open>deleted\<close> whether the work could be
  deleted, \<open>info\<close> the runtime's message for its last error.
\<close>

datatype settled = Resolved | Rejected string

datatype work_status = Work_ok | Work_cancelled | Work_failed

definition onWorkComplete ::
  "'s binding_env \<Rightarrow> work_status \<Rightarrow> bool \<Rightarrow> string \<Rightarrow> runner \<times> 's binding \<Rightarrow> settled \<times> 's binding" where
  "onWorkComplete env status deleted info rs =
     ((if status = Work_ok \<and> deleted then (if rn_error (fst rs) = [] then Resolved else Rejected (rn_error (fst rs))) else Rejected info),
      destroy_runner env rs)"

subsection \<open>The entry points\<close>

text \<open>The exception a call throws, or the runner it has queued; \<open>work\<close> is the message if the work cannot be created.\<close>

definition binding_getBackend :: "'s binding_env \<Rightarrow> js_value \<Rightarrow> 's binding \<Rightarrow> ((string + bref) \<times> 's binding) option" where
  "binding_getBackend env opts st =
     (case backend_getShared (be_build env) (be_init env) (be_startup env) (backend_name opts) (bd_backends st) of
        None \<Rightarrow> None
      | Some (result, bs) \<Rightarrow> Some (result, st\<lparr>bd_backends := bs\<rparr>))"

definition argument :: "js_value list \<Rightarrow> nat \<Rightarrow> js_value" where
  "argument info i = (if i < length info then info ! i else JUndefined)"

fun string_of :: "js_value \<Rightarrow> string" where
  "string_of (JString s) = s"
| "string_of _ = []"

fun function_of :: "js_value \<Rightarrow> nat" where
  "function_of (JFunction f) = f"
| "function_of _ = 0"

definition bad_arguments :: "js_value list \<Rightarrow> string option" where
  "bad_arguments info =
     (if length info < 1 \<or> \<not> IsString (argument info 0) then Some ''Expected a string''
      else if length info < 2 \<or> \<not> IsFunction (argument info 1) then Some ''Expected a function''
      else if length info \<ge> 3 \<and> \<not> IsObject (argument info 2) then Some ''Expected an object''
      else None)"

definition construct_runner ::
  "'s binding_env \<Rightarrow> runner_kind \<Rightarrow> js_value list \<Rightarrow> glob list \<Rightarrow> bref \<Rightarrow> string option \<Rightarrow> tsfn option \<Rightarrow> 's binding \<Rightarrow>
    (string option + runner) \<times> 's binding" where
  "construct_runner env kind info ignoreGlobs b work made st =
     (case work of
        Some err \<Rightarrow> (Inl (Some err), st)
      | None \<Rightarrow>
          (let dir = string_of (argument info 0); fn = function_of (argument info 1); ignorePaths = getIgnorePaths (argument info 2) in
           case kind of
             SubscribeRunner \<Rightarrow> construct_subscribe env dir fn ignorePaths ignoreGlobs b made st
           | UnsubscribeRunner \<Rightarrow> construct_unsubscribe env dir fn ignorePaths ignoreGlobs b st))"

definition queueSubscriptionWork ::
  "'s binding_env \<Rightarrow> runner_kind \<Rightarrow> js_value list \<Rightarrow> string option \<Rightarrow> tsfn option \<Rightarrow> 's binding \<Rightarrow> ((string + runner) \<times> 's binding) option" where
  "queueSubscriptionWork env kind info work made st =
     (case bad_arguments info of
        Some err \<Rightarrow> Some (Inl err, st)
      | None \<Rightarrow>
          (case getIgnoreGlobs (be_text env) (argument info 2) of
             Inl err \<Rightarrow> Some (Inl err, st)
           | Inr ignoreGlobs \<Rightarrow>
               (case binding_getBackend env (argument info 2) st of
                  None \<Rightarrow> None
                | Some (Inl err, st1) \<Rightarrow> Some (Inl err, st1)
                | Some (Inr b, st1) \<Rightarrow>
                    (case construct_runner env kind info ignoreGlobs b work made st1 of
                       (Inr rn, st2) \<Rightarrow> Some (Inr rn, st2)
                     | (Inl err, st2) \<Rightarrow>
                         Some (Inl (case err of Some m \<Rightarrow> m | None \<Rightarrow> ''Failed to initialize runner''),
                           on_backends (backend_releaseShared b) st2)))))"

text \<open>
  \<open>queue\<close>: the promise is still pending when the work is queued (\<open>accepted\<close>); when the runtime refuses it, the promise is
  rejected with the runtime's message, and nothing else happens to the runner.
\<close>

definition promise_queue :: "bool \<Rightarrow> string \<Rightarrow> settled option" where
  "promise_queue accepted info = (if accepted then None else Some (Rejected info))"

text \<open>
  One call from its arguments to its settled promise, while no other thread acts. Work that is cancelled is not
  executed.
\<close>

definition whole_call ::
  "'s binding_env \<Rightarrow> runner_kind \<Rightarrow> js_value list \<Rightarrow> string option \<Rightarrow> tsfn option \<Rightarrow> bool \<Rightarrow> work_status \<Rightarrow> bool \<Rightarrow> string \<Rightarrow>
    's binding \<Rightarrow> (settled \<times> 's binding) option" where
  "whole_call env kind info work made accepted status deleted message st =
     (case queueSubscriptionWork env kind info work made st of
        None \<Rightarrow> None
      | Some (Inl err, st1) \<Rightarrow> Some (Rejected err, st1)
      | Some (Inr rn, st1) \<Rightarrow>
          (case promise_queue accepted message of
             Some result \<Rightarrow> Some (result, st1)
           | None \<Rightarrow> Some (onWorkComplete env status deleted message (if status = Work_cancelled then (rn, st1) else onExecute env (rn, st1)))))"


subsection \<open>What a call leaves alone\<close>

definition reserved :: "'s binding \<Rightarrow> bref \<Rightarrow> u64" where
  "reserved st b = (case bs_objs (bd_backends st) b of None \<Rightarrow> 0 | Some x \<Rightarrow> bk_reservations x)"

definition watcher_reserved :: "'s binding \<Rightarrow> wref \<Rightarrow> u64" where
  "watcher_reserved st r = (case wd_objs (bd_world st) r of None \<Rightarrow> 0 | Some w \<Rightarrow> mSharedReservations w)"

definition callbacks_of :: "'s binding \<Rightarrow> wref \<Rightarrow> callback list" where
  "callbacks_of st r = (case wd_objs (bd_world st) r of None \<Rightarrow> [] | Some w \<Rightarrow> mCallbacks w)"

definition has_backend :: "'s binding \<Rightarrow> bref \<Rightarrow> bool" where
  "has_backend st b \<longleftrightarrow> bs_objs (bd_backends st) b \<noteq> None"

definition has_watcher :: "'s binding \<Rightarrow> wref \<Rightarrow> bool" where
  "has_watcher st r \<longleftrightarrow> wd_objs (bd_world st) r \<noteq> None"

definition keeps :: "'s binding \<Rightarrow> 's binding \<Rightarrow> bool" where
  "keeps st st' \<longleftrightarrow> reserved st' = reserved st \<and> watcher_reserved st' = watcher_reserved st \<and> callbacks_of st' = callbacks_of st \<and>
     has_backend st' = has_backend st \<and> has_watcher st' = has_watcher st \<and> bd_exiting st' = bd_exiting st"

lemma keeps_refl [simp]: "keeps st st"
  by (simp add: keeps_def)

lemma keeps_trans: "keeps st st1 \<Longrightarrow> keeps st1 st2 \<Longrightarrow> keeps st st2"
  by (simp add: keeps_def)

lemma keeps_put:
  assumes "has_backend st b" and "bk_reservations (snd wb) = bk_reservations (bs_obj (bd_backends st) b)"
  shows "keeps st (bd_put b r wb st)"
  using assms by (auto simp: keeps_def bd_put_def reserved_def watcher_reserved_def callbacks_of_def has_backend_def has_watcher_def
      bs_set_def bs_obj_def fun_eq_iff)

lemma keeps_world:
  assumes "has_watcher st r" and "mSharedReservations w = mSharedReservations (wd_obj (bd_world st) r)"
    and "mCallbacks w = mCallbacks (wd_obj (bd_world st) r)"
  shows "keeps st (on_world (wd_set r w) st)"
  using assms by (auto simp: keeps_def on_world_def reserved_def watcher_reserved_def callbacks_of_def has_backend_def has_watcher_def
      wd_set_def wd_obj_def fun_eq_iff)

lemma unref_objs [simp]: "bs_objs (backend_unref b bs) = bs_objs bs"
  by (simp add: backend_unref_def backend_removeSharedLocked_def stop_backend_def)

lemma keeps_unref: "keeps st (on_backends (backend_unref b) st)"
  by (simp add: keeps_def on_backends_def reserved_def watcher_reserved_def callbacks_of_def has_backend_def has_watcher_def fun_eq_iff)

lemma keeps_failed: "keeps st (snd (failed_watch b res st))"
  by (simp add: failed_watch_def keeps_unref split: watch_result.split)

lemma begin_reservations: "watch_begin subscribe r c wb = (res, wb') \<Longrightarrow> bk_reservations (snd wb') = bk_reservations (snd wb)"
  by (auto simp: watch_begin_def Let_def split: prod.splits option.splits if_splits)

lemma end_reservations: "watch_end r i s f wb = (res, wb') \<Longrightarrow> bk_reservations (snd wb') = bk_reservations (snd wb)"
  by (auto simp: watch_end_def Let_def split: prod.splits option.splits if_splits)

lemma unwatch_reservations: "unwatch_begin u r f h wb = (res, wb') \<Longrightarrow> bk_reservations (snd wb') = bk_reservations (snd wb)"
  by (auto simp: unwatch_begin_def Let_def split: prod.splits option.splits if_splits)

lemma keeps_watch:
  assumes "has_backend st b"
  shows "keeps st (snd (call_watch env b r st))"
proof -
  obtain res wb where started: "watch_begin (be_subscribe env) r (isCancelled (bd_exiting st) (wd_obj (bd_world st) r)) (bd_get b r st) = (res, wb)"
    by (metis surj_pair)
  have one: "keeps st (bd_put b r wb st)"
    by (rule keeps_put [OF assms]) (use begin_reservations [OF started] in \<open>simp add: bd_get_def\<close>)
  then have b: "has_backend (bd_put b r wb st) b" using assms by (simp add: keeps_def)
  have two: "keeps (bd_put b r wb st) (bd_put b r wb1 (bd_put b r wb st))"
    if "watch_end r w s f (bd_get b r (bd_put b r wb st)) = (res1, wb1)" for w s f res1 wb1
    by (rule keeps_put [OF b]) (use end_reservations [OF that] in \<open>simp add: bd_get_def\<close>)
  show ?thesis
    using one two keeps_trans keeps_failed
    by (simp add: call_watch_def started Let_def split: watch_result.split prod.split) blast
qed

lemma keeps_unwatch:
  assumes "has_backend st b" and "has_watcher st r"
  shows "keeps st (snd (call_unwatch env b r st))"
proof -
  obtain res wb where started: "unwatch_begin (be_unsubscribe env) r False (hasCallbacks (wd_obj (bd_world st) r)) (bd_get b r st) = (res, wb)"
    by (metis surj_pair)
  have one: "keeps st (bd_put b r wb st)"
    by (rule keeps_put [OF assms(1)]) (use unwatch_reservations [OF started] in \<open>simp add: bd_get_def\<close>)
  then have "has_watcher (bd_put b r wb st) r" using assms(2) by (simp add: keeps_def)
  then have "keeps (bd_put b r wb st) (on_world (wd_set r (unwatch_end (be_alive env) b (wd_obj (bd_world (bd_put b r wb st)) r))) (bd_put b r wb st))"
    by (rule keeps_world) (simp_all add: unwatch_end_def removeBackend_def)
  moreover have "on_world (\<lambda>wd. wd_set r (unwatch_end (be_alive env) b (wd_obj wd r)) wd) st1 =
      on_world (wd_set r (unwatch_end (be_alive env) b (wd_obj (bd_world st1) r))) st1" for st1 :: "'a binding"
    by (simp add: on_world_def)
  ultimately show ?thesis
    using one keeps_trans keeps_unref
    by (simp add: call_unwatch_def started split: unwatch_result.split) blast
qed

lemma keeps_addBackend:
  assumes "has_watcher st r"
  shows "keeps st (on_world (\<lambda>wd. wd_set r (addBackend alive b (wd_obj wd r)) wd) st)"
proof -
  have "on_world (\<lambda>wd. wd_set r (addBackend alive b (wd_obj wd r)) wd) st = on_world (wd_set r (addBackend alive b (wd_obj (bd_world st) r))) st"
    by (simp add: on_world_def)
  moreover have "keeps st (on_world (wd_set r (addBackend alive b (wd_obj (bd_world st) r))) st)"
    by (rule keeps_world [OF assms]) (simp_all add: addBackend_def)
  ultimately show ?thesis by simp
qed

lemma keeps_unsubscribe_body:
  "has_backend st (rn_backend rn) \<Longrightarrow> has_watcher st (rn_watcher rn) \<Longrightarrow> keeps st (snd (unsubscribe_body env rn st))"
  by (simp add: unsubscribe_body_def keeps_unwatch)

lemma keeps_subscribe_watch:
  assumes "has_backend st b" and "has_watcher st r"
  shows "keeps st (snd (subscribe_watch env b r st))"
proof -
  obtain err st1 where watch: "call_watch env b r st = (err, st1)" by (metis surj_pair)
  have one: "keeps st st1" using keeps_watch [OF assms(1), of env r] by (simp add: watch)
  have two: "keeps st (on_world (\<lambda>wd. wd_set r (addBackend (be_alive env) b (wd_obj wd r)) wd) st1)"
    by (rule keeps_trans [OF one keeps_addBackend]) (use one assms(2) in \<open>simp add: keeps_def\<close>)
  show ?thesis using one two by (cases err) (simp_all add: subscribe_watch_def watch)
qed

lemma keeps_subscribe_body:
  assumes "has_backend st (rn_backend rn)" and "has_watcher st (rn_watcher rn)"
  shows "keeps st (snd (subscribe_body env rn st))"
proof -
  obtain err st1 where watch: "subscribe_watch env (rn_backend rn) (rn_watcher rn) st = (err, st1)" by (metis surj_pair)
  have one: "keeps st st1" using keeps_subscribe_watch [OF assms, of env] by (simp add: watch)
  have "keeps st1 (snd (call_unwatch env (rn_backend rn) (rn_watcher rn) st1))"
    by (rule keeps_unwatch) (use one assms in \<open>simp_all add: keeps_def\<close>)
  then have "keeps st (snd (call_unwatch env (rn_backend rn) (rn_watcher rn) st1))" using one keeps_trans by blast
  then show ?thesis using one by (cases err) (simp_all add: subscribe_body_def watch)
qed


subsection \<open>Reservations\<close>

definition same_watchers :: "'s binding \<Rightarrow> 's binding \<Rightarrow> bool" where
  "same_watchers st st' \<longleftrightarrow> watcher_reserved st' = watcher_reserved st \<and> callbacks_of st' = callbacks_of st \<and>
     has_watcher st' = has_watcher st \<and> bd_exiting st' = bd_exiting st"

lemma same_watchers_backends [simp]: "same_watchers st (on_backends f st)" "same_watchers st (st\<lparr>bd_backends := bs\<rparr>)"
  by (simp_all add: same_watchers_def on_backends_def watcher_reserved_def callbacks_of_def has_watcher_def fun_eq_iff)

text \<open>
  What the registries guarantee: registered objects exist, registered backends are not stopped, and the next address
  is free. Both hold in every state that the threads can reach (\<open>reachable_registries_ok\<close>).
\<close>

definition watchers_ok :: "'s binding \<Rightarrow> bool" where
  "watchers_ok st \<longleftrightarrow> (\<forall>r \<in> set (wd_shared (bd_world st)). has_watcher st r) \<and> \<not> has_watcher st (wd_nextRef (bd_world st))"

definition registries_ok :: "'s binding \<Rightarrow> bool" where
  "registries_ok st \<longleftrightarrow>
     (\<forall>b \<in> snd ` set (bs_shared (bd_backends st)). has_backend st b \<and> b \<notin> set (bs_stops (bd_backends st))) \<and>
     \<not> has_backend st (bs_nextRef (bd_backends st)) \<and> bs_nextRef (bd_backends st) \<notin> set (bs_stops (bd_backends st)) \<and>
     watchers_ok st"

lemma reachable_registries_ok:
  assumes "watch_reachable p" and "backend_reachable subscribe unsubscribe q" and "bd_world st = world p" and "bd_backends st = bp_backends q"
  shows "registries_ok st"
proof -
  note inv = registry_inv_reachable [OF assms(1)] and binv = backend_inv_reachable [OF assms(2)]
  have "watchers_ok st"
    using registry_invD(1,3) [OF inv] by (simp add: watchers_ok_def has_watcher_def assms(3))
  moreover have "b \<notin> set (bs_stops (bp_backends q))" if b: "b \<in> set (map snd (bs_shared (bp_backends q)))" for b
    using backend_okD(7) [OF backend_invD(9) [OF binv backend_invD(4) [OF binv b]]] b by blast
  moreover have "bs_nextRef (bp_backends q) \<notin> set (bs_stops (bp_backends q))" using backend_invD(7) [OF binv] by blast
  ultimately show ?thesis
    using backend_invD(1,4) [OF binv] by (simp add: registries_ok_def has_backend_def assms(4))
qed

lemma release_objs:
  "bs_objs (backend_releaseShared b bs) =
    (bs_objs bs)(b := Some ((bs_obj bs b)\<lparr>bk_reservations := bk_reservations (bs_obj bs b) - 1\<rparr>))"
  by (simp add: backend_releaseShared_def release_backend_def Let_def bs_set_def)

lemma release_reserved:
  assumes "has_backend st b"
  shows "reserved (on_backends (backend_releaseShared b) st) = (reserved st)(b := reserved st b - 1)"
    and "has_backend (on_backends (backend_releaseShared b) st) = has_backend st"
  using assms by (auto simp: reserved_def has_backend_def on_backends_def release_objs bs_obj_def fun_eq_iff)

definition backend_reserved :: "'s backends \<Rightarrow> bref \<Rightarrow> u64" where
  "backend_reserved bs b = (case bs_objs bs b of None \<Rightarrow> 0 | Some x \<Rightarrow> bk_reservations x)"

lemma reserve_effect:
  assumes "bs_objs bs b \<noteq> None"
  shows "backend_reserved (reserve_backend b bs) = (backend_reserved bs)(b := backend_reserved bs b + 1)"
    and "\<And>x. bs_objs (reserve_backend b bs) x \<noteq> None \<longleftrightarrow> bs_objs bs x \<noteq> None"
  using assms by (auto simp: backend_reserved_def reserve_backend_def bs_set_def bs_obj_def fun_eq_iff)

lemma make_effect:
  assumes "bs_objs bs (bs_nextRef bs) = None" and "make_backend s bs = (b, bs1)"
  shows "b = bs_nextRef bs \<and> bs_shared bs1 = bs_shared bs \<and> bs_objs bs1 b \<noteq> None \<and> backend_reserved bs1 = backend_reserved bs \<and>
    (\<forall>x. bs_objs bs x \<noteq> None \<longrightarrow> bs_objs bs1 x \<noteq> None)"
  using assms by (auto simp: make_backend_def bs_set_def backend_reserved_def backend_new_def fun_eq_iff)

lemma getShared_reserves:
  assumes "backend_getShared build init start name bs = Some res"
    and "\<forall>b \<in> snd ` set (bs_shared bs). bs_objs bs b \<noteq> None" and "bs_objs bs (bs_nextRef bs) = None"
  shows "(case fst res of Inl err \<Rightarrow> backend_reserved (snd res) = backend_reserved bs
     | Inr b \<Rightarrow> bs_objs (snd res) b \<noteq> None \<and> backend_reserved (snd res) = (backend_reserved bs)(b := backend_reserved bs b + 1)) \<and>
     (\<forall>x. bs_objs bs x \<noteq> None \<longrightarrow> bs_objs (snd res) x \<noteq> None)"
  using assms
proof (induction rule: backend_getShared.raw_induct [rotated, consumes 1])
  case (1 f build init start name bs res)
  show ?case
  proof (cases "map_of (bs_shared bs) name")
    case (Some b)
    then have "bs_objs bs b \<noteq> None" using 1(3) by (force dest: map_of_SomeD)
    then show ?thesis using 1(2) Some reserve_effect [of bs b] by auto
  next
    case unregistered: None
    show ?thesis
    proof (cases "getBackend build name")
      case None
      then have "f build init start ''default'' bs = Some res" using 1(2) unregistered by simp
      then show ?thesis using 1(1,3,4) by blast
    next
      case (Some kind)
      obtain b bs1 where make: "make_backend (init kind) bs = (b, bs1)" by (metis surj_pair)
      note made = make_effect [OF 1(4) make]
      define bs2 where "bs2 = bs1\<lparr>bs_shared := bs_shared bs1 @ [(name, b)]\<rparr>"
      have emplace: "emplace_backend name b bs1 = (b, reserve_backend b bs2)"
        using made unregistered by (simp add: emplace_backend_def bs2_def)
      have same: "backend_reserved bs2 = backend_reserved bs1" "bs_objs bs2 = bs_objs bs1"
        by (simp_all add: bs2_def backend_reserved_def fun_eq_iff)
      have "res = (if start b \<noteq> [] then (Inl (start b), bs1) else (Inr b, reserve_backend b bs2))"
        using 1(2) by (simp add: unregistered Some Let_def make emplace split: if_splits)
      then show ?thesis using made reserve_effect [of bs2 b] same by auto
    qed
  qed
qed

text \<open>The backend that \<open>getShared\<close> hands out is not stopped.\<close>

lemma getShared_not_stopped:
  assumes "backend_getShared build init start name bs = Some res"
    and "\<forall>b \<in> snd ` set (bs_shared bs). b \<notin> set (bs_stops bs)" and "bs_nextRef bs \<notin> set (bs_stops bs)"
  shows "bs_stops (snd res) = bs_stops bs \<and> (case fst res of Inl err \<Rightarrow> True | Inr b \<Rightarrow> b \<notin> set (bs_stops bs))"
  using assms
proof (induction rule: backend_getShared.raw_induct [rotated, consumes 1])
  case (1 f build init start name bs res)
  show ?case
  proof (cases "map_of (bs_shared bs) name")
    case (Some b)
    then have "b \<notin> set (bs_stops bs)" using 1(3) by (force dest: map_of_SomeD)
    then show ?thesis using 1(2) Some by auto
  next
    case unregistered: None
    show ?thesis
    proof (cases "getBackend build name")
      case None
      then have "f build init start ''default'' bs = Some res" using 1(2) unregistered by simp
      then show ?thesis using 1(1,3,4) by blast
    next
      case (Some kind)
      obtain b bs1 where make: "make_backend (init kind) bs = (b, bs1)" by (metis surj_pair)
      have bs1: "b = bs_nextRef bs" "bs_stops bs1 = bs_stops bs" "bs_shared bs1 = bs_shared bs"
        using make by (auto simp: make_backend_def)
      have emplace: "emplace_backend name b bs1 = (b, reserve_backend b (bs1\<lparr>bs_shared := bs_shared bs1 @ [(name, b)]\<rparr>))"
        using bs1 unregistered by (simp add: emplace_backend_def)
      have "res = (if start b \<noteq> [] then (Inl (start b), bs1)
          else (Inr b, reserve_backend b (bs1\<lparr>bs_shared := bs_shared bs1 @ [(name, b)]\<rparr>)))"
        using 1(2) by (simp add: unregistered Some Let_def make emplace split: if_splits)
      then show ?thesis using bs1 1(4) by simp
    qed
  qed
qed

lemma getBackend_reserves:
  assumes "binding_getBackend env opts st = Some (result, st1)" and "registries_ok st"
  shows "same_watchers st st1" and "bd_world st1 = bd_world st" and "has_backend st x \<Longrightarrow> has_backend st1 x"
    and "case result of Inl err \<Rightarrow> reserved st1 = reserved st | Inr b \<Rightarrow> has_backend st1 b \<and> reserved st1 = (reserved st)(b := reserved st b + 1)"
    and "case result of Inl err \<Rightarrow> True | Inr b \<Rightarrow> b \<notin> set (bs_stops (bd_backends st1))"
proof -
  obtain bs where run: "backend_getShared (be_build env) (be_init env) (be_startup env) (backend_name opts) (bd_backends st) = Some (result, bs)"
    and st1: "st1 = st\<lparr>bd_backends := bs\<rparr>"
    using assms(1) by (auto simp: binding_getBackend_def split: option.splits)
  have "reserved st' = backend_reserved (bd_backends st')" for st' :: "'a binding" by (simp add: reserved_def backend_reserved_def fun_eq_iff)
  then show "case result of Inl err \<Rightarrow> reserved st1 = reserved st | Inr b \<Rightarrow> has_backend st1 b \<and> reserved st1 = (reserved st)(b := reserved st b + 1)"
    and "has_backend st x \<Longrightarrow> has_backend st1 x"
    using getShared_reserves [OF run] assms(2) by (auto simp: registries_ok_def has_backend_def st1 split: sum.splits)
  show "same_watchers st st1" "bd_world st1 = bd_world st" by (simp_all add: st1)
  show "case result of Inl err \<Rightarrow> True | Inr b \<Rightarrow> b \<notin> set (bs_stops (bd_backends st1))"
    using getShared_not_stopped [OF run] assms(2) by (auto simp: registries_ok_def st1 split: sum.splits)
qed


subsection \<open>Callbacks\<close>

lemma shared_watcher_effect:
  assumes "getShared tenv dir ps gs wd = (r, wd')"
    and "\<forall>r \<in> set (wd_shared wd). wd_objs wd r \<noteq> None" and "wd_objs wd (wd_nextRef wd) = None"
  shows "\<exists>w. wd_objs wd' = (wd_objs wd)(r := Some w) \<and>
    mSharedReservations w = (case wd_objs wd r of None \<Rightarrow> 0 | Some x \<Rightarrow> mSharedReservations x) + 1 \<and>
    mCallbacks w = (case wd_objs wd r of None \<Rightarrow> [] | Some x \<Rightarrow> mCallbacks x)"
proof -
  define w where "w = new_watch_obj tenv (wd_nextId wd) dir ps gs"
  define wd1 where "wd1 = wd\<lparr>wd_nextId := wd_nextId wd + 1\<rparr>"
  show ?thesis
  proof (cases "List.find (\<lambda>r. same_watcher (wd_obj wd1 r) w) (wd_shared wd1)")
    case (Some x)
    then have "x \<in> set (wd_shared wd)" by (auto simp: find_Some_iff wd1_def)
    then obtain o1 where "wd_objs wd x = Some o1" using assms(2) by auto
    then show ?thesis
      using assms(1) Some by (auto simp: getShared_def w_def [symmetric] wd1_def [symmetric] Let_def wd_set_def wd_obj_def)
        (auto simp: wd1_def)
  next
    case None
    have "mCallbacks w = []" by (simp add: w_def new_watch_obj_def watcher.extend_def)
    then show ?thesis
      using assms None by (auto simp: getShared_def w_def [symmetric] wd1_def [symmetric] Let_def wd_set_def)
        (auto simp: wd1_def)
  qed
qed

lemma watcher_unref_objs [simp]: "wd_objs (watcher_unref r wd) = wd_objs wd"
  by (simp add: watcher_unref_def removeSharedLocked_def)

lemma releaseShared_objs:
  "wd_objs wd r = Some w \<Longrightarrow> wd_objs (releaseShared r wd) = (wd_objs wd)(r := Some (w\<lparr>mSharedReservations := mSharedReservations w - 1\<rparr>))"
  by (simp add: releaseShared_def release_reservation_def Let_def wd_set_def wd_obj_def)

lemma unwatch_objs:
  assumes "wd_objs wd r = Some w"
  shows "\<exists>w'. wd_objs (snd (unwatch r thread fn wd)) = (wd_objs wd)(r := Some w') \<and>
    mSharedReservations w' = mSharedReservations w \<and>
    mCallbacks w' = (if findCallback thread fn w = None then mCallbacks w else erase_first (is_callback thread fn) (mCallbacks w))"
  using assms
  by (auto simp: unwatch_def Let_def watcher_unwatch_def wd_update_def wd_say_def wd_set_def wd_obj_def split: prod.split option.split)

text \<open>The two constructors, on the watcher \<open>r\<close> that they use.\<close>

lemma construct_subscribe_effect:
  assumes "construct_subscribe env dir fn ps gs b made st = (res, st')" and "watchers_ok st"
  shows "bd_backends st' = bd_backends st" and "bd_exiting st' = bd_exiting st" and "watcher_reserved st' = watcher_reserved st"
    and "has_watcher st x \<Longrightarrow> has_watcher st' x"
    and "case res of Inl err \<Rightarrow> callbacks_of st' = callbacks_of st
      | Inr rn \<Rightarrow> rn_kind rn = SubscribeRunner \<and> rn_backend rn = b \<and> rn_callback rn = fn \<and> rn_hasBackendReservation rn \<and>
          \<not> rn_cleanupAfterFailure rn \<and> rn_error rn = [] \<and> has_watcher st' (rn_watcher rn) \<and>
          \<not> mCancelled (wd_obj (bd_world st') (rn_watcher rn)) \<and>
          (if rn_addedCallback rn
           then (\<exists>cb. is_callback (be_thread env) fn cb \<and> cb_env cb = be_env env \<and>
              \<not> (\<exists>cb \<in> set (callbacks_of st (rn_watcher rn)). is_callback (be_thread env) fn cb) \<and>
              callbacks_of st' = (callbacks_of st)(rn_watcher rn := callbacks_of st (rn_watcher rn) @ [cb]))
           else (\<exists>cb \<in> set (callbacks_of st (rn_watcher rn)). is_callback (be_thread env) fn cb) \<and> callbacks_of st' = callbacks_of st)"
proof -
  obtain r wd where shared: "getShared (be_text env) dir ps gs (bd_world st) = (r, wd)" by (metis surj_pair)
  obtain w where w: "wd_objs wd = (wd_objs (bd_world st))(r := Some w)"
    "mSharedReservations w = watcher_reserved st r + 1" "mCallbacks w = callbacks_of st r"
    using shared_watcher_effect [OF shared] assms(2) by (auto simp: watchers_ok_def has_watcher_def watcher_reserved_def callbacks_of_def)
  obtain added w' where watch: "watcher_watch (be_env env) (be_thread env) fn made w = (added, w')" by (metis surj_pair)
  have w': "mSharedReservations w' = mSharedReservations w" "\<not> mCancelled w'"
    using watch by (auto simp: watcher_watch_def Let_def split: if_splits option.splits)
  have st': "st' = st\<lparr>bd_world := releaseShared r (wd_set r w' wd)\<rparr>"
    "res = (case added of Inl err \<Rightarrow> Inl None | Inr a \<Rightarrow> Inr (new_runner SubscribeRunner r b fn a False))"
    using assms(1) shared w(1) watch by (auto simp: construct_subscribe_def Let_def wd_obj_def split: sum.splits)
  have objs: "wd_objs (bd_world st') = (wd_objs (bd_world st))(r := Some (w'\<lparr>mSharedReservations := mSharedReservations w' - 1\<rparr>))"
    using releaseShared_objs [of "wd_set r w' wd" r w'] by (simp add: st' wd_set_def w(1))
  show "bd_backends st' = bd_backends st" "bd_exiting st' = bd_exiting st" by (simp_all add: st')
  show "watcher_reserved st' = watcher_reserved st" using w(2) w'(1) by (auto simp: watcher_reserved_def objs fun_eq_iff)
  show "has_watcher st x \<Longrightarrow> has_watcher st' x" by (simp add: has_watcher_def objs)
  have callbacks: "callbacks_of st' = (callbacks_of st)(r := mCallbacks w')" by (auto simp: callbacks_of_def objs fun_eq_iff)
  show "case res of Inl err \<Rightarrow> callbacks_of st' = callbacks_of st
      | Inr rn \<Rightarrow> rn_kind rn = SubscribeRunner \<and> rn_backend rn = b \<and> rn_callback rn = fn \<and> rn_hasBackendReservation rn \<and>
          \<not> rn_cleanupAfterFailure rn \<and> rn_error rn = [] \<and> has_watcher st' (rn_watcher rn) \<and>
          \<not> mCancelled (wd_obj (bd_world st') (rn_watcher rn)) \<and>
          (if rn_addedCallback rn
           then (\<exists>cb. is_callback (be_thread env) fn cb \<and> cb_env cb = be_env env \<and>
              \<not> (\<exists>cb \<in> set (callbacks_of st (rn_watcher rn)). is_callback (be_thread env) fn cb) \<and>
              callbacks_of st' = (callbacks_of st)(rn_watcher rn := callbacks_of st (rn_watcher rn) @ [cb]))
           else (\<exists>cb \<in> set (callbacks_of st (rn_watcher rn)). is_callback (be_thread env) fn cb) \<and> callbacks_of st' = callbacks_of st)"
    using watch w'(2)
    by (auto simp: st'(2) callbacks watcher_watch_def Let_def findCallback_def find_None_iff w(3) new_runner_def has_watcher_def objs wd_obj_def
        is_callback_def split: if_splits option.splits)
      (rule exI [of _ "\<lparr>cb_id = mNextCallbackId w, cb_tsfn = the made, cb_ref = fn, cb_env = be_env env, cb_threadId = be_thread env,
        cb_closing = False\<rparr>"], simp)
qed

lemma construct_unsubscribe_effect:
  assumes "construct_unsubscribe env dir fn ps gs b st = (res, st')" and "watchers_ok st"
  shows "bd_backends st' = bd_backends st" and "bd_exiting st' = bd_exiting st" and "watcher_reserved st' = watcher_reserved st"
    and "\<exists>rn. res = Inr rn \<and> rn_kind rn = UnsubscribeRunner \<and> rn_backend rn = b \<and> rn_hasBackendReservation rn \<and> has_watcher st' (rn_watcher rn)"
proof -
  obtain r wd where shared: "getShared (be_text env) dir ps gs (bd_world st) = (r, wd)" by (metis surj_pair)
  obtain w where w: "wd_objs wd = (wd_objs (bd_world st))(r := Some w)" "mSharedReservations w = watcher_reserved st r + 1"
    using shared_watcher_effect [OF shared] assms(2) by (auto simp: watchers_ok_def has_watcher_def watcher_reserved_def)
  obtain u wd1 where un: "unwatch r (be_thread env) fn wd = (u, wd1)" by (metis surj_pair)
  obtain w' where w': "wd_objs wd1 = (wd_objs wd)(r := Some w')" "mSharedReservations w' = mSharedReservations w"
    using unwatch_objs [of wd r w "be_thread env" fn] w(1) un by auto
  have st': "st' = st\<lparr>bd_world := releaseShared r wd1\<rparr>" "res = Inr (new_runner UnsubscribeRunner r b fn False u)"
    using assms(1) shared un by (auto simp: construct_unsubscribe_def Let_def)
  have objs: "wd_objs (bd_world st') = (wd_objs (bd_world st))(r := Some (w'\<lparr>mSharedReservations := mSharedReservations w' - 1\<rparr>))"
    using releaseShared_objs [of wd1 r w'] by (simp add: st' w'(1) w(1))
  show "bd_backends st' = bd_backends st" "bd_exiting st' = bd_exiting st" by (simp_all add: st')
  show "watcher_reserved st' = watcher_reserved st" using w(2) w'(2) by (auto simp: watcher_reserved_def objs fun_eq_iff)
  show "\<exists>rn. res = Inr rn \<and> rn_kind rn = UnsubscribeRunner \<and> rn_backend rn = b \<and> rn_hasBackendReservation rn \<and> has_watcher st' (rn_watcher rn)"
    by (simp add: st'(2) new_runner_def has_watcher_def objs)
qed


subsection \<open>One call from beginning to end\<close>

definition queued_runner :: "'s binding_env \<Rightarrow> runner_kind \<Rightarrow> nat \<Rightarrow> 's binding \<Rightarrow> runner \<Rightarrow> 's binding \<Rightarrow> bool" where
  "queued_runner env kind fn st rn st1 \<longleftrightarrow>
     rn_kind rn = kind \<and> rn_backend rn \<notin> set (bs_stops (bd_backends st1)) \<and> rn_hasBackendReservation rn \<and> has_backend st1 (rn_backend rn) \<and> has_watcher st1 (rn_watcher rn) \<and>
     reserved st1 = (reserved st)(rn_backend rn := reserved st (rn_backend rn) + 1) \<and>
     (kind = SubscribeRunner \<longrightarrow> rn_callback rn = fn \<and> \<not> rn_cleanupAfterFailure rn \<and> rn_error rn = [] \<and> \<not> mCancelled (wd_obj (bd_world st1) (rn_watcher rn)) \<and>
       (if rn_addedCallback rn
        then (\<exists>cb. is_callback (be_thread env) (rn_callback rn) cb \<and> cb_env cb = be_env env \<and>
           \<not> (\<exists>cb \<in> set (callbacks_of st (rn_watcher rn)). is_callback (be_thread env) (rn_callback rn) cb) \<and>
           callbacks_of st1 = (callbacks_of st)(rn_watcher rn := callbacks_of st (rn_watcher rn) @ [cb]))
        else (\<exists>cb \<in> set (callbacks_of st (rn_watcher rn)). is_callback (be_thread env) (rn_callback rn) cb) \<and> callbacks_of st1 = callbacks_of st))"

lemma construct_runner_effect:
  assumes "construct_runner env kind info gs b work made st1 = (res, st2)" and "watchers_ok st1" and "has_backend st1 b"
    and "same_watchers st st1" and "reserved st1 = (reserved st)(b := reserved st b + 1)"
    and "b \<notin> set (bs_stops (bd_backends st1))"
  shows "bd_backends st2 = bd_backends st1" and "watcher_reserved st2 = watcher_reserved st" and "bd_exiting st2 = bd_exiting st"
    and "case res of Inl err \<Rightarrow> callbacks_of st2 = callbacks_of st | Inr rn \<Rightarrow> rn_backend rn = b \<and> queued_runner env kind (function_of (argument info 1)) st rn st2"
proof -
  have same: "watcher_reserved st1 = watcher_reserved st" "callbacks_of st1 = callbacks_of st" "bd_exiting st1 = bd_exiting st"
    using assms(4) by (simp_all add: same_watchers_def)
  have reserved: "reserved st' = reserved st1" "has_backend st' = has_backend st1" if "bd_backends st' = bd_backends st1" for st'
    using that by (simp_all add: reserved_def has_backend_def fun_eq_iff)
  define fn where "fn = function_of (argument info 1)"
  have "bd_backends st2 = bd_backends st1 \<and> watcher_reserved st2 = watcher_reserved st \<and> bd_exiting st2 = bd_exiting st \<and>
    (case res of Inl err \<Rightarrow> callbacks_of st2 = callbacks_of st | Inr rn \<Rightarrow> rn_backend rn = b \<and> queued_runner env kind (function_of (argument info 1)) st rn st2)"
  proof (cases work)
    case (Some err)
    then show ?thesis using assms(1) same by (auto simp: construct_runner_def)
  next
    case None
    show ?thesis
    proof (cases kind)
      case SubscribeRunner
      then have "construct_subscribe env (string_of (argument info 0)) fn (getIgnorePaths (argument info 2)) gs b made st1 = (res, st2)"
        using assms(1) None by (simp add: construct_runner_def Let_def fn_def)
      note E = construct_subscribe_effect [OF this assms(2)]
      show ?thesis using E(1,2,3) E(5) reserved [OF E(1)] same assms(3,5,6) SubscribeRunner
        unfolding queued_runner_def fn_def by (cases res) auto
    next
      case UnsubscribeRunner
      then have "construct_unsubscribe env (string_of (argument info 0)) fn (getIgnorePaths (argument info 2)) gs b st1 = (res, st2)"
        using assms(1) None by (simp add: construct_runner_def Let_def fn_def)
      note E = construct_unsubscribe_effect [OF this assms(2)]
      show ?thesis using E(1,2,3) E(4) reserved [OF E(1)] same assms(3,5,6) UnsubscribeRunner
        by (auto simp: queued_runner_def)
    qed
  qed
  then show "bd_backends st2 = bd_backends st1" and "watcher_reserved st2 = watcher_reserved st" and "bd_exiting st2 = bd_exiting st"
    and "case res of Inl err \<Rightarrow> callbacks_of st2 = callbacks_of st | Inr rn \<Rightarrow> rn_backend rn = b \<and> queued_runner env kind (function_of (argument info 1)) st rn st2"
    by blast+
qed


lemma queue_effect:
  assumes "queueSubscriptionWork env kind info work made st = Some (res, st')" and "registries_ok st"
  shows "watcher_reserved st' = watcher_reserved st \<and> bd_exiting st' = bd_exiting st \<and>
    (case res of Inl err \<Rightarrow> reserved st' = reserved st \<and> callbacks_of st' = callbacks_of st
     | Inr rn \<Rightarrow> queued_runner env kind (function_of (argument info 1)) st rn st')"
proof (cases "bad_arguments info")
  case (Some err)
  then show ?thesis using assms(1) by (auto simp: queueSubscriptionWork_def)
next
  case fine: None
  show ?thesis
  proof (cases "getIgnoreGlobs (be_text env) (argument info 2)")
    case (Inl err)
    then show ?thesis using assms(1) fine by (auto simp: queueSubscriptionWork_def)
  next
    case globs: (Inr gs)
    obtain x st1 where get: "binding_getBackend env (argument info 2) st = Some (x, st1)"
      using assms(1) fine globs by (auto simp: queueSubscriptionWork_def split: option.splits)
    note G = getBackend_reserves [OF get assms(2)]
    have same: "watcher_reserved st1 = watcher_reserved st" "callbacks_of st1 = callbacks_of st" "bd_exiting st1 = bd_exiting st"
      using G(1) by (simp_all add: same_watchers_def)
    show ?thesis
    proof (cases x)
      case (Inl err)
      then show ?thesis using assms(1) fine globs get G(4) same by (auto simp: queueSubscriptionWork_def)
    next
      case (Inr b)
      obtain c st2 where run: "construct_runner env kind info gs b work made st1 = (c, st2)" by (metis surj_pair)
      have ok: "watchers_ok st1" using assms(2) G(2) by (simp add: registries_ok_def watchers_ok_def has_watcher_def)
      have b: "has_backend st1 b" "reserved st1 = (reserved st)(b := reserved st b + 1)" "b \<notin> set (bs_stops (bd_backends st1))"
        using G(4,5) Inr by simp_all
      note C = construct_runner_effect [OF run ok b(1) G(1) b(2,3)]
      show ?thesis
      proof (cases c)
        case failed: (Inl err)
        have res: "st' = on_backends (backend_releaseShared b) st2" "\<exists>m. res = Inl m"
          using assms(1) fine globs get Inr run failed by (auto simp: queueSubscriptionWork_def)
        have "has_backend st2 b" "reserved st2 = reserved st1"
          using b(1) by (simp_all add: has_backend_def reserved_def C(1) fun_eq_iff)
        then have "reserved st' = reserved st" using b(2) by (simp add: res(1) release_reserved)
        moreover have "same_watchers st2 st'" by (simp add: res(1))
        ultimately show ?thesis using C(2-4) failed res(2) by (auto simp: same_watchers_def)
      next
        case made': (Inr rn)
        have "res = Inr rn" "st' = st2" using assms(1) fine globs get Inr run made' by (auto simp: queueSubscriptionWork_def)
        then show ?thesis using C(2-4) made' by simp
      qed
    qed
  qed
qed

lemma releaseBackend_effect:
  assumes "has_backend st (rn_backend rn)" and "releaseBackend (rn, st) = (rn', st')"
  shows "rn' = rn\<lparr>rn_hasBackendReservation := False\<rparr> \<and> same_watchers st st' \<and> has_backend st' = has_backend st \<and>
    reserved st' = (if rn_hasBackendReservation rn then (reserved st)(rn_backend rn := reserved st (rn_backend rn) - 1) else reserved st)"
proof (cases "rn_hasBackendReservation rn")
  case True
  then show ?thesis using assms release_reserved [OF assms(1)] by (auto simp: releaseBackend_def)
next
  case False
  then have "rn = rn\<lparr>rn_hasBackendReservation := False\<rparr>" by (cases rn) simp
  then show ?thesis using assms(2) False by (simp add: releaseBackend_def same_watchers_def)
qed

lemma execute_effect:
  assumes "has_backend st (rn_backend rn)" and "has_watcher st (rn_watcher rn)" and "onExecute env (rn, st) = (rn', st')"
  obtains err st1 where "(case rn_kind rn of SubscribeRunner \<Rightarrow> subscribe_body env rn st | UnsubscribeRunner \<Rightarrow> unsubscribe_body env rn st) = (err, st1)"
    and "keeps st st1" and "releaseBackend (rn, st1) = (rn\<lparr>rn_hasBackendReservation := False\<rparr>, st')"
    and "rn' = rn\<lparr>rn_hasBackendReservation := False,
        rn_cleanupAfterFailure := (rn_cleanupAfterFailure rn \<or> (err \<noteq> None \<and> rn_kind rn = SubscribeRunner)),
        rn_error := (case err of None \<Rightarrow> rn_error rn | Some e \<Rightarrow> e)\<rparr>"
proof -
  obtain err st1 where body: "(case rn_kind rn of SubscribeRunner \<Rightarrow> subscribe_body env rn st | UnsubscribeRunner \<Rightarrow> unsubscribe_body env rn st) = (err, st1)"
    by (cases "subscribe_body env rn st"; cases "unsubscribe_body env rn st"; cases "rn_kind rn") auto
  have keeps: "keeps st st1"
    using body keeps_subscribe_body [OF assms(1,2), of env] keeps_unsubscribe_body [OF assms(1,2), of env] by (cases "rn_kind rn") simp_all
  define rn1 where "rn1 = rn\<lparr>rn_cleanupAfterFailure := (rn_cleanupAfterFailure rn \<or> (err \<noteq> None \<and> rn_kind rn = SubscribeRunner))\<rparr>"
  obtain rn2 st2 where rel: "releaseBackend (rn, st1) = (rn2, st2)" by (metis surj_pair)
  have b: "has_backend st1 (rn_backend rn)" using assms(1) keeps by (simp add: keeps_def)
  have rn2: "rn2 = rn\<lparr>rn_hasBackendReservation := False\<rparr>" using releaseBackend_effect [OF b rel] by simp
  have rel1: "releaseBackend (rn1, st1) = (rn1\<lparr>rn_hasBackendReservation := False\<rparr>, st2)"
    using rel rn2 by (cases rn) (auto simp: rn1_def releaseBackend_def split: if_splits)
  have rn1: "(if err \<noteq> None \<and> rn_kind rn = SubscribeRunner then rn\<lparr>rn_cleanupAfterFailure := True\<rparr> else rn) = rn1"
    by (cases rn) (simp add: rn1_def)
  have run: "execute env (rn, st) = (err, rn1\<lparr>rn_hasBackendReservation := False\<rparr>, st2)"
    unfolding execute_def Let_def prod.case body rn1 rel1 ..
  show thesis
  proof (rule that [OF body keeps])
    show "releaseBackend (rn, st1) = (rn\<lparr>rn_hasBackendReservation := False\<rparr>, st')"
      using rel rn2 assms(3) run by (cases err) (simp_all add: onExecute_def)
    show "rn' = rn\<lparr>rn_hasBackendReservation := False,
        rn_cleanupAfterFailure := (rn_cleanupAfterFailure rn \<or> (err \<noteq> None \<and> rn_kind rn = SubscribeRunner)),
        rn_error := (case err of None \<Rightarrow> rn_error rn | Some e \<Rightarrow> e)\<rparr>"
      using assms(3) run by (cases err; cases rn; cases rn') (auto simp: onExecute_def rn1_def)
  qed
qed

text \<open>The callbacks after the destructor: a callback of a failed call is erased again.\<close>

lemma destroy_effect:
  assumes "has_backend st (rn_backend rn)" and "has_watcher st (rn_watcher rn)"
  shows "watcher_reserved (destroy_runner env (rn, st)) = watcher_reserved st"
    and "reserved (destroy_runner env (rn, st)) =
      (if rn_hasBackendReservation rn then (reserved st)(rn_backend rn := reserved st (rn_backend rn) - 1) else reserved st)"
    and "callbacks_of (destroy_runner env (rn, st)) =
      (if rn_kind rn = SubscribeRunner \<and> rn_cleanupAfterFailure rn \<and> rn_addedCallback rn \<and>
          (\<exists>cb \<in> set (callbacks_of st (rn_watcher rn)). is_callback (be_thread env) (rn_callback rn) cb)
       then (callbacks_of st)(rn_watcher rn := erase_first (is_callback (be_thread env) (rn_callback rn)) (callbacks_of st (rn_watcher rn)))
       else callbacks_of st)"
proof -
  let ?cleanup = "rn_kind rn = SubscribeRunner \<and> rn_cleanupAfterFailure rn \<and> rn_addedCallback rn"
  define st1 where "st1 = (if ?cleanup then on_world (\<lambda>wd. snd (unwatch (rn_watcher rn) (be_thread env) (rn_callback rn) wd)) st else st)"
  have destroyed: "destroy_runner env (rn, st) = snd (releaseBackend (rn, st1))"
    unfolding destroy_runner_def Let_def prod.case st1_def [symmetric] ..
  obtain w where w: "wd_objs (bd_world st) (rn_watcher rn) = Some w" using assms(2) by (auto simp: has_watcher_def)
  obtain w' where w': "wd_objs (snd (unwatch (rn_watcher rn) (be_thread env) (rn_callback rn) (bd_world st))) = (wd_objs (bd_world st))(rn_watcher rn := Some w')"
    "mSharedReservations w' = mSharedReservations w"
    "mCallbacks w' = (if findCallback (be_thread env) (rn_callback rn) w = None then mCallbacks w
      else erase_first (is_callback (be_thread env) (rn_callback rn)) (mCallbacks w))"
    using unwatch_objs [OF w] by blast
  have callbacks: "callbacks_of st (rn_watcher rn) = mCallbacks w" by (simp add: callbacks_of_def w)
  have found: "findCallback (be_thread env) (rn_callback rn) w = None \<longleftrightarrow>
      \<not> (\<exists>cb \<in> set (callbacks_of st (rn_watcher rn)). is_callback (be_thread env) (rn_callback rn) cb)"
    by (auto simp: findCallback_def find_None_iff callbacks)
  have one: "watcher_reserved st1 = watcher_reserved st" "has_backend st1 = has_backend st" "reserved st1 = reserved st"
    "callbacks_of st1 = (if ?cleanup \<and> (\<exists>cb \<in> set (callbacks_of st (rn_watcher rn)). is_callback (be_thread env) (rn_callback rn) cb)
       then (callbacks_of st)(rn_watcher rn := erase_first (is_callback (be_thread env) (rn_callback rn)) (callbacks_of st (rn_watcher rn)))
       else callbacks_of st)"
    unfolding found [THEN arg_cong [where f = Not], simplified, symmetric]
    by (auto simp: st1_def on_world_def watcher_reserved_def has_backend_def reserved_def callbacks_of_def w w' fun_eq_iff)
  obtain rn' st' where rel: "releaseBackend (rn, st1) = (rn', st')" by (metis surj_pair)
  have "has_backend st1 (rn_backend rn)" using assms(1) one(2) by simp
  note R = releaseBackend_effect [OF this rel]
  show "watcher_reserved (destroy_runner env (rn, st)) = watcher_reserved st"
    and "reserved (destroy_runner env (rn, st)) =
      (if rn_hasBackendReservation rn then (reserved st)(rn_backend rn := reserved st (rn_backend rn) - 1) else reserved st)"
    and "callbacks_of (destroy_runner env (rn, st)) =
      (if rn_kind rn = SubscribeRunner \<and> rn_cleanupAfterFailure rn \<and> rn_addedCallback rn \<and>
          (\<exists>cb \<in> set (callbacks_of st (rn_watcher rn)). is_callback (be_thread env) (rn_callback rn) cb)
       then (callbacks_of st)(rn_watcher rn := erase_first (is_callback (be_thread env) (rn_callback rn)) (callbacks_of st (rn_watcher rn)))
       else callbacks_of st)"
    using R one by (simp_all add: destroyed rel same_watchers_def)
qed


subsection \<open>Properties\<close>

lemma erase_first_added: "\<not> (\<exists>x \<in> set xs. P x) \<Longrightarrow> P y \<Longrightarrow> erase_first P (xs @ [y]) = xs"
  by (induction xs) auto

lemma whole_call_cases:
  assumes "whole_call env kind info work made accepted status deleted message st = Some (result, st')"
  obtains (thrown) err where "queueSubscriptionWork env kind info work made st = Some (Inl err, st')" "result = Rejected err"
  | (refused) rn where "queueSubscriptionWork env kind info work made st = Some (Inr rn, st')" "\<not> accepted" "result = Rejected message"
  | (cancelled) rn st1 where "queueSubscriptionWork env kind info work made st = Some (Inr rn, st1)" "accepted" "status = Work_cancelled"
      "result = Rejected message" "st' = destroy_runner env (rn, st1)"
  | (executed) rn st1 rn' st2 where "queueSubscriptionWork env kind info work made st = Some (Inr rn, st1)" "accepted"
      "status \<noteq> Work_cancelled" "onExecute env (rn, st1) = (rn', st2)" "onWorkComplete env status deleted message (rn', st2) = (result, st')"
proof -
  obtain x st1 where q: "queueSubscriptionWork env kind info work made st = Some (x, st1)"
    using assms by (auto simp: whole_call_def split: option.splits)
  show thesis
  proof (cases x)
    case (Inl err)
    then show thesis using thrown assms q by (simp add: whole_call_def)
  next
    case (Inr rn)
    obtain rn' st2 where run: "onExecute env (rn, st1) = (rn', st2)" by (metis surj_pair)
    consider "\<not> accepted" | "accepted" "status = Work_cancelled" | "accepted" "status \<noteq> Work_cancelled" by blast
    then show thesis
    proof cases
      case 1
      then show thesis using refused [of rn] assms q Inr by (simp add: whole_call_def promise_queue_def)
    next
      case 2
      then show thesis using cancelled [of rn st1] assms q Inr by (simp add: whole_call_def promise_queue_def onWorkComplete_def)
    next
      case 3
      then show thesis using executed [of rn st1 rn' st2] assms q Inr run by (simp add: whole_call_def promise_queue_def)
    qed
  qed
qed

text \<open>
  C10. What a call does to the reservations, on every path. Whether its arguments are wrong, the backend does not
  start, the runner cannot be built, the work is cancelled or fails, or all goes well: for every backend and every
  watcher the number of reservations is what it was before. The one exception is a runner that was built but that the
  runtime does not accept as work: it is never destroyed, and one reservation of its backend stays.
\<close>

theorem calls_leave_no_reservation:
  assumes "registries_ok st" and "whole_call env kind info work made accepted status deleted message st = Some (result, st')"
  shows "watcher_reserved st' = watcher_reserved st \<and>
    (case queueSubscriptionWork env kind info work made st of
       Some (Inr rn, st1) \<Rightarrow>
         reserved st' = (if accepted then reserved st else (reserved st)(rn_backend rn := reserved st (rn_backend rn) + 1))
     | _ \<Rightarrow> reserved st' = reserved st)"
  using assms(2)
proof (cases rule: whole_call_cases)
  case (thrown err)
  then show ?thesis using queue_effect [OF thrown(1) assms(1)] by simp
next
  case (refused rn)
  then show ?thesis using queue_effect [OF refused(1) assms(1)] by (simp add: queued_runner_def)
next
  case (cancelled rn st1)
  have Q: "watcher_reserved st1 = watcher_reserved st" "queued_runner env kind (function_of (argument info 1)) st rn st1"
    using queue_effect [OF cancelled(1) assms(1)] by simp_all
  note b = Q(2) [unfolded queued_runner_def]
  have "has_backend st1 (rn_backend rn)" "has_watcher st1 (rn_watcher rn)" using b by blast+
  note D = destroy_effect [OF this, of env]
  show ?thesis using D(1,2) Q(1) b cancelled(1,2) unfolding cancelled(5) by simp
next
  case (executed rn st1 rn' st2)
  have Q: "watcher_reserved st1 = watcher_reserved st" "queued_runner env kind (function_of (argument info 1)) st rn st1"
    using queue_effect [OF executed(1) assms(1)] by simp_all
  note b = Q(2) [unfolded queued_runner_def]
  have here: "has_backend st1 (rn_backend rn)" "has_watcher st1 (rn_watcher rn)" using b by blast+
  from here executed(4) obtain err st3 where E: "keeps st1 st3" "releaseBackend (rn, st3) = (rn\<lparr>rn_hasBackendReservation := False\<rparr>, st2)"
    "rn_hasBackendReservation rn' = False" "rn_backend rn' = rn_backend rn" "rn_watcher rn' = rn_watcher rn"
    by (rule execute_effect) auto
  have "has_backend st3 (rn_backend rn)" using E(1) here by (simp add: keeps_def)
  note R = releaseBackend_effect [OF this E(2)]
  have there: "has_backend st2 (rn_backend rn')" "has_watcher st2 (rn_watcher rn')"
    using R E here by (simp_all add: keeps_def same_watchers_def)
  have "st' = destroy_runner env (rn', st2)" using executed(5) by (simp add: onWorkComplete_def)
  moreover note D = destroy_effect [OF there, of env]
  ultimately show ?thesis using R E b Q(1) executed(1,2) by (simp add: keeps_def same_watchers_def)
qed

lemma queued_runner_callbacks:
  assumes "queued_runner env SubscribeRunner fn st rn st1"
  shows "callbacks_of st1 = callbacks_of st \<or>
    (\<exists>r cb. is_callback (be_thread env) fn cb \<and> \<not> (\<exists>cb \<in> set (callbacks_of st r). is_callback (be_thread env) fn cb) \<and>
       callbacks_of st1 = (callbacks_of st)(r := callbacks_of st r @ [cb]))"
proof (cases "rn_addedCallback rn")
  case True
  with assms obtain cb where cb: "is_callback (be_thread env) fn cb"
    "\<not> (\<exists>cb \<in> set (callbacks_of st (rn_watcher rn)). is_callback (be_thread env) fn cb)"
    "callbacks_of st1 = (callbacks_of st)(rn_watcher rn := callbacks_of st (rn_watcher rn) @ [cb])"
    unfolding queued_runner_def by auto
  then show ?thesis by blast
next
  case False
  then show ?thesis using assms by (auto simp: queued_runner_def)
qed

text \<open>
  C12. A \<open>subscribe\<close> that is rejected leaves no callback behind: when the arguments are wrong, the backend does not
  start, the runner cannot be built, or the work was done and the subscription failed, the callbacks of every watcher
  are what they were before. Only when the runtime refuses, cancels or fails the work itself may the call leave
  something, and then at most the callback for its own function, at the end of its watcher.
\<close>

theorem rejected_subscribe_leaves_no_callback:
  assumes "registries_ok st"
    and "whole_call env SubscribeRunner info work made accepted status deleted message st = Some (Rejected err, st')"
  shows "callbacks_of st' = callbacks_of st \<or>
    \<not> (accepted \<and> status = Work_ok \<and> deleted) \<and>
    (\<exists>r cb. is_callback (be_thread env) (function_of (argument info 1)) cb \<and>
       \<not> (\<exists>cb \<in> set (callbacks_of st r). is_callback (be_thread env) (function_of (argument info 1)) cb) \<and>
       callbacks_of st' = (callbacks_of st)(r := callbacks_of st r @ [cb]))"
  using assms(2)
proof (cases rule: whole_call_cases)
  case (thrown err')
  then show ?thesis using queue_effect [OF thrown(1) assms(1)] by simp
next
  case (refused rn)
  have "queued_runner env SubscribeRunner (function_of (argument info 1)) st rn st'"
    using queue_effect [OF refused(1) assms(1)] by simp
  then show ?thesis using queued_runner_callbacks refused(2) by blast
next
  case (cancelled rn st1)
  have Q: "queued_runner env SubscribeRunner (function_of (argument info 1)) st rn st1"
    using queue_effect [OF cancelled(1) assms(1)] by simp
  note b = this [unfolded queued_runner_def]
  have "has_backend st1 (rn_backend rn)" "has_watcher st1 (rn_watcher rn)" using b by blast+
  note D = destroy_effect(3) [OF this, of env]
  have "callbacks_of st' = callbacks_of st1" using D b unfolding cancelled(5) by simp
  then show ?thesis using queued_runner_callbacks [OF Q] cancelled(3) by auto
next
  case (executed rn st1 rn' st2)
  have Q: "queued_runner env SubscribeRunner (function_of (argument info 1)) st rn st1" using queue_effect [OF executed(1) assms(1)] by simp
  note b = this [unfolded queued_runner_def]
  have here: "has_backend st1 (rn_backend rn)" "has_watcher st1 (rn_watcher rn)" using b by blast+
  from here executed(4) obtain err' st3 where E: "keeps st1 st3" "releaseBackend (rn, st3) = (rn\<lparr>rn_hasBackendReservation := False\<rparr>, st2)"
    "rn' = rn\<lparr>rn_hasBackendReservation := False,
        rn_cleanupAfterFailure := (rn_cleanupAfterFailure rn \<or> (err' \<noteq> None \<and> rn_kind rn = SubscribeRunner)),
        rn_error := (case err' of None \<Rightarrow> rn_error rn | Some e \<Rightarrow> e)\<rparr>"
    by (rule execute_effect) auto
  have "has_backend st3 (rn_backend rn)" using E(1) here by (simp add: keeps_def)
  note R = releaseBackend_effect [OF this E(2)]
  have callbacks: "callbacks_of st2 = callbacks_of st1" using R E(1) by (simp add: keeps_def same_watchers_def)
  have there: "has_backend st2 (rn_backend rn')" "has_watcher st2 (rn_watcher rn')"
    using R E here by (simp_all add: keeps_def same_watchers_def)
  have st': "st' = destroy_runner env (rn', st2)" using executed(5) by (simp add: onWorkComplete_def)
  note D = destroy_effect(3) [OF there, of env]
  have rn': "rn_kind rn' = SubscribeRunner" "rn_cleanupAfterFailure rn' = (err' \<noteq> None)" "rn_addedCallback rn' = rn_addedCallback rn"
    "rn_watcher rn' = rn_watcher rn" "rn_callback rn' = rn_callback rn" using E(3) b by simp_all
  have "callbacks_of st' = (if err' \<noteq> None then callbacks_of st else callbacks_of st1)"
    using D b rn' unfolding callbacks st' by (cases "rn_addedCallback rn") (auto simp: erase_first_added)
  moreover have "\<not> (status = Work_ok \<and> deleted)" if "err' = None"
    using executed(5) that E(3) b by (auto simp: onWorkComplete_def)
  ultimately show ?thesis using queued_runner_callbacks [OF Q] by (cases err') auto
qed


lemma call_watch_subscribes:
  assumes "call_watch env b r st = (None, st')" and "\<not> isCancelled (bd_exiting st) (wd_obj (bd_world st) r)"
  shows "r \<in> set (bk_subscriptions (bs_obj (bd_backends st') b)) \<and> bs_stops (bd_backends st') = bs_stops (bd_backends st) \<and>
    bd_world st' = bd_world st \<and> bd_exiting st' = bd_exiting st"
proof -
  obtain res wb where started: "watch_begin (be_subscribe env) r False (bd_get b r st) = (res, wb)" by (metis surj_pair)
  have put: "bs_stops (bd_backends (bd_put b r x st'')) = bs_stops (bd_backends st'')" "bd_world (bd_put b r x st'') = bd_world st''"
    "bd_exiting (bd_put b r x st'') = bd_exiting st''" "bs_obj (bd_backends (bd_put b r x st'')) b = snd x" for x and st'' :: "'a binding"
    by (simp_all add: bd_put_def bs_set_def bs_obj_def)
  show ?thesis
  proof (cases res)
    case Watch_done
    then have "r \<in> set (bk_subscriptions (snd wb))"
      using started by (auto simp: watch_begin_def Let_def bd_get_def split: if_splits prod.splits option.splits)
    then show ?thesis using assms started Watch_done by (auto simp: call_watch_def failed_watch_def put)
  next
    case (Watch_subscribed wasInvalid state)
    obtain res1 wb1 where ended: "watch_end r wasInvalid state (be_finishSubscribe env r state) (bd_get b r (bd_put b r wb st)) = (res1, wb1)"
      by (metis surj_pair)
    have run: "failed_watch b res1 (bd_put b r wb1 (bd_put b r wb st)) = (None, st')"
      using assms started Watch_subscribed ended by (simp add: call_watch_def Let_def)
    then have fine: "be_finishSubscribe env r state = None"
      using ended by (auto simp: watch_end_def failed_watch_def Let_def split: option.splits if_splits prod.splits)
    then have "res1 = Watch_done" "r \<in> set (bk_subscriptions (snd wb1))" using ended by (auto simp: watch_end_def Let_def split: prod.splits)
    then show ?thesis using run by (auto simp: failed_watch_def put)
  next
    case (Watch_failed err)
    then show ?thesis using assms started by (simp add: call_watch_def failed_watch_def)
  next
    case (Watch_failed_unref err)
    then show ?thesis using assms started by (simp add: call_watch_def failed_watch_def)
  qed
qed

lemma call_watch_error:
  assumes "call_watch env b r st = (Some err, st')"
  shows "(\<exists>x y. be_subscribe env r x = (Some err, y)) \<or> (\<exists>state. be_finishSubscribe env r state = Some err)"
proof -
  obtain res wb where started: "watch_begin (be_subscribe env) r (isCancelled (bd_exiting st) (wd_obj (bd_world st) r)) (bd_get b r st) = (res, wb)"
    by (metis surj_pair)
  have failed: "\<exists>x y. be_subscribe env r x = (Some e, y)" if "res = Watch_failed e \<or> res = Watch_failed_unref e" for e
    using started that by (auto simp: watch_begin_def Let_def split: if_splits prod.splits option.splits)
  show ?thesis
  proof (cases res)
    case (Watch_subscribed wasInvalid state)
    obtain res1 wb1 where ended: "watch_end r wasInvalid state (be_finishSubscribe env r state) (bd_get b r (bd_put b r wb st)) = (res1, wb1)"
      by (metis surj_pair)
    have "res1 = Watch_failed err \<or> res1 = Watch_failed_unref err"
      using assms started Watch_subscribed ended by (auto simp: call_watch_def Let_def failed_watch_def split: watch_result.splits)
    then show ?thesis using ended by (auto simp: watch_end_def Let_def split: option.splits if_splits prod.splits)
  next
    case (Watch_failed e)
    then show ?thesis using failed [of e] assms started by (simp add: call_watch_def failed_watch_def)
  next
    case (Watch_failed_unref e)
    then show ?thesis using failed [of e] assms started by (simp add: call_watch_def failed_watch_def)
  qed (use assms started in \<open>simp add: call_watch_def failed_watch_def\<close>)
qed

text \<open>The body of a runner whose backend accepts the watcher.\<close>

lemma subscribe_body_subscribes:
  assumes w: "wd_objs (bd_world st) (rn_watcher rn) = Some w"
    and go: "\<not> isCancelled (bd_exiting st) (wd_obj (bd_world st) (rn_watcher rn))" "has_own_callback env (rn_watcher rn) st"
    and watch: "call_watch env (rn_backend rn) (rn_watcher rn) st = (None, st1)"
  shows "\<exists>st'. subscribe_body env rn st = (None, st') \<and>
    wd_objs (bd_world st') (rn_watcher rn) = Some (addBackend (be_alive env) (rn_backend rn) w) \<and>
    rn_watcher rn \<in> set (bk_subscriptions (bs_obj (bd_backends st') (rn_backend rn))) \<and>
    bs_stops (bd_backends st') = bs_stops (bd_backends st)"
proof -
  let ?r = "rn_watcher rn" and ?b = "rn_backend rn"
  note W = call_watch_subscribes [OF watch go(1)]
  define st' where "st' = on_world (\<lambda>wd. wd_set ?r (addBackend (be_alive env) ?b (wd_obj wd ?r)) wd) st1"
  have w': "wd_objs (bd_world st') ?r = Some (addBackend (be_alive env) ?b w)"
    using W w by (simp add: st'_def on_world_def wd_set_def wd_obj_def)
  have "has_own_callback env ?r st'"
    using go(2) by (simp add: has_own_callback_def wd_obj_def w w' hasCallbacksForEnvironment_def addBackend_def)
  then have "subscribe_body env rn st = (None, st')"
    using watch go unfolding st'_def by (simp add: subscribe_body_def subscribe_watch_def)
  moreover have "?r \<in> set (bk_subscriptions (bs_obj (bd_backends st') ?b))" "bs_stops (bd_backends st') = bs_stops (bd_backends st)"
    using W by (simp_all add: st'_def on_world_def)
  ultimately show ?thesis using w' by blast
qed

text \<open>A backend with a subscription is not stopped when a reservation of it is given back.\<close>

lemma release_keeps_subscribed:
  assumes "r \<in> set (bk_subscriptions (bs_obj (bd_backends st) b))"
  shows "r \<in> set (bk_subscriptions (bs_obj (bd_backends (on_backends (backend_releaseShared b) st)) b))"
    and "bs_stops (bd_backends (on_backends (backend_releaseShared b) st)) = bs_stops (bd_backends st)"
  using assms
  by (auto simp: on_backends_def bs_obj_def release_objs backend_releaseShared_def release_backend_def Let_def backend_unref_def bs_set_def)

text \<open>The executed runner of a \<open>subscribe\<close> whose promise is resolved.\<close>

lemma resolved_runner_subscribed:
  assumes ok: "registries_ok st" "\<not> bd_exiting st"
    and thread: "\<forall>r. \<forall>cb \<in> set (callbacks_of st r). cb_threadId cb = be_thread env \<longrightarrow> cb_env cb = be_env env"
    and errors: "\<forall>r x y. be_subscribe env r x \<noteq> (Some [], y)" "\<forall>r state. be_finishSubscribe env r state \<noteq> Some []"
    and built: "queueSubscriptionWork env SubscribeRunner info work made st = Some (Inr rn, st1)"
    and settled: "onWorkComplete env Work_ok True message (onExecute env (rn, st1)) = (Resolved, st')"
  shows "(\<exists>cb \<in> set (callbacks_of st' (rn_watcher rn)). is_callback (be_thread env) (function_of (argument info 1)) cb) \<and>
    rn_watcher rn \<in> set (bk_subscriptions (bs_obj (bd_backends st') (rn_backend rn))) \<and>
    rn_backend rn \<in> set (mBackends (wd_obj (bd_world st') (rn_watcher rn))) \<and>
    rn_backend rn \<notin> set (bs_stops (bd_backends st'))"
proof -
  let ?r = "rn_watcher rn" and ?b = "rn_backend rn"
  have Q: "queued_runner env SubscribeRunner (function_of (argument info 1)) st rn st1" "bd_exiting st1 = bd_exiting st"
    using queue_effect [OF built ok(1)] by simp_all
  note q = Q(1) [unfolded queued_runner_def]
  have here: "has_backend st1 ?b" "has_watcher st1 ?r" using q by blast+
  have own: "\<exists>cb \<in> set (callbacks_of st1 ?r). is_callback (be_thread env) (function_of (argument info 1)) cb \<and> cb_env cb = be_env env"
    using q thread by (cases "rn_addedCallback rn") (auto simp: is_callback_def)
  obtain w where w: "wd_objs (bd_world st1) ?r = Some w" using here(2) by (auto simp: has_watcher_def)
  have go: "\<not> isCancelled (bd_exiting st1) (wd_obj (bd_world st1) ?r)" "has_own_callback env ?r st1"
    using q Q(2) ok(2) own
    by (auto simp: isCancelled_def has_own_callback_def hasCallbacksForEnvironment_def callbacks_of_def wd_obj_def w)
  obtain err st2 where watch: "call_watch env ?b ?r st1 = (err, st2)" by (metis surj_pair)
  obtain rn' st4 where run: "onExecute env (rn, st1) = (rn', st4)" by (metis surj_pair)
  obtain err' st3 where body: "(case rn_kind rn of SubscribeRunner \<Rightarrow> subscribe_body env rn st1 | UnsubscribeRunner \<Rightarrow> unsubscribe_body env rn st1) = (err', st3)"
    and keeps: "keeps st1 st3"
    and rel: "releaseBackend (rn, st3) = (rn\<lparr>rn_hasBackendReservation := False\<rparr>, st4)"
    and rn': "rn' = rn\<lparr>rn_hasBackendReservation := False,
        rn_cleanupAfterFailure := (rn_cleanupAfterFailure rn \<or> (err' \<noteq> None \<and> rn_kind rn = SubscribeRunner)),
        rn_error := (case err' of None \<Rightarrow> rn_error rn | Some e \<Rightarrow> e)\<rparr>"
    using execute_effect [OF here run] by metis
  have no_error: "rn_error rn' = []" using settled run by (auto simp: onWorkComplete_def split: if_splits)
  show ?thesis
  proof (cases err)
    case (Some e)
    then have "err' = Some e" using body q watch go by (simp add: subscribe_body_def subscribe_watch_def)
    then have "e = []" using no_error rn' by simp
    then show ?thesis using call_watch_error [OF watch [unfolded Some]] errors by blast
  next
    case None
    obtain st3' where "subscribe_body env rn st1 = (None, st3')"
      and w3: "wd_objs (bd_world st3') ?r = Some (addBackend (be_alive env) ?b w)"
      and subscribed: "?r \<in> set (bk_subscriptions (bs_obj (bd_backends st3') ?b))" "bs_stops (bd_backends st3') = bs_stops (bd_backends st1)"
      using subscribe_body_subscribes [OF w go watch [unfolded None]] by blast
    then have st3: "err' = None" "st3 = st3'" using body q by simp_all
    have st4: "st4 = on_backends (backend_releaseShared ?b) st3" using rel q by (simp add: releaseBackend_def)
    have w4: "wd_objs (bd_world st4) ?r = Some (addBackend (be_alive env) ?b w)" by (simp add: st4 on_backends_def st3 w3)
    then have "callbacks_of st4 ?r = callbacks_of st1 ?r" by (simp add: callbacks_of_def w addBackend_def)
    moreover have "?b \<in> set (mBackends (addBackend (be_alive env) ?b w))" by (auto simp: addBackend_def)
    moreover have "st' = st4"
      using settled run rn' q st3(1) by (auto simp: onWorkComplete_def destroy_runner_def Let_def releaseBackend_def)
    moreover have "?b \<notin> set (bs_stops (bd_backends st1))" using q by blast
    ultimately show ?thesis using release_keeps_subscribed [OF subscribed(1)] subscribed(2) own w4 by (auto simp: st4 st3 wd_obj_def)
  qed
qed

text \<open>
  C11. A \<open>subscribe\<close> that is resolved has done what it says: its function is registered with a watcher, the watcher is
  subscribed with a backend, the backend is not stopped, neither before the call nor by giving back its
  reservation, and the watcher knows the backend. The errors of the derived classes have messages; the process does not exit; callbacks
  of one thread belong to one environment; no other thread acts meanwhile.
\<close>

theorem resolved_subscribe_is_subscribed:
  assumes "registries_ok st" and "\<not> bd_exiting st"
    and "\<forall>r. \<forall>cb \<in> set (callbacks_of st r). cb_threadId cb = be_thread env \<longrightarrow> cb_env cb = be_env env"
    and "\<forall>r x y. be_subscribe env r x \<noteq> (Some [], y)" and "\<forall>r state. be_finishSubscribe env r state \<noteq> Some []"
    and "whole_call env SubscribeRunner info work made accepted status deleted message st = Some (Resolved, st')"
  shows "\<exists>r b. (\<exists>cb \<in> set (callbacks_of st' r). is_callback (be_thread env) (function_of (argument info 1)) cb) \<and>
    r \<in> set (bk_subscriptions (bs_obj (bd_backends st') b)) \<and> b \<in> set (mBackends (wd_obj (bd_world st') r)) \<and>
    b \<notin> set (bs_stops (bd_backends st'))"
  using assms(6)
proof (cases rule: whole_call_cases)
  case (executed rn st1 rn' st2)
  then have "onWorkComplete env Work_ok True message (onExecute env (rn, st1)) = (Resolved, st')"
    by (auto simp: onWorkComplete_def split: if_splits)
  from resolved_runner_subscribed [OF assms(1-5) executed(1) this] show ?thesis by blast
qed simp_all


text \<open>A process that has not made any call, with a backend whose subscriptions succeed or fail.\<close>

definition binding_sample :: "unit binding" where
  "binding_sample = \<lparr>bd_world = world_new, bd_backends = backends_new,
     bd_watched = (\<lambda>r. \<lparr>wt_state = None, wt_needsResubscribe = False\<rparr>), bd_exiting = False\<rparr>"

definition binding_sample_env :: "string option \<Rightarrow> unit binding_env" where
  "binding_sample_env err =
     \<lparr>be_text = linux_text, be_build = \<lparr>FS_EVENTS = False, WINDOWS = False, INOTIFY = True\<rparr>, be_init = (\<lambda>k. ()),
      be_startup = (\<lambda>b. []), be_subscribe = (\<lambda>r (w, s). (err, w\<lparr>wt_state := Some 1\<rparr>, s)), be_finishSubscribe = (\<lambda>r state. None),
      be_unsubscribe = (\<lambda>r (w, s). (None, w, s)), be_alive = (\<lambda>b. True), be_env = 1, be_thread = 1\<rparr>"

declare backend_getShared.simps [code]

lemma binding_sample_ok: "registries_ok binding_sample"
  by (simp add: registries_ok_def watchers_ok_def has_backend_def has_watcher_def binding_sample_def world_new_def backends_new_def)

definition binding_sample_info :: "js_value list" where
  "binding_sample_info = [JString ''/w'', JFunction 7]"

definition binding_sample_call :: "string option \<Rightarrow> (settled \<times> unit binding) option" where
  "binding_sample_call err =
     whole_call (binding_sample_env err) SubscribeRunner binding_sample_info None (Some 5) True Work_ok True [] binding_sample"

lemma binding_sample_calls:
  "map_option fst (binding_sample_call None) = Some Resolved"
  "map_option fst (binding_sample_call (Some ''no'')) = Some (Rejected ''no'')"
  by code_simp+

lemma calls_leave_no_reservation_witness:
  "\<exists>st'. binding_sample_call (Some ''no'') = Some (Rejected ''no'', st') \<and> reserved st' = reserved binding_sample"
proof -
  obtain st' where call: "binding_sample_call (Some ''no'') = Some (Rejected ''no'', st')"
    using binding_sample_calls(2) by (cases "binding_sample_call (Some ''no'')") auto
  have "reserved st' = reserved binding_sample"
    using calls_leave_no_reservation [OF binding_sample_ok call [unfolded binding_sample_call_def]]
    by (auto split: option.splits prod.splits sum.splits)
  then show ?thesis using call by blast
qed

lemma rejected_subscribe_leaves_no_callback_witness:
  "\<exists>st'. binding_sample_call (Some ''no'') = Some (Rejected ''no'', st') \<and> callbacks_of st' = (\<lambda>r. [])"
proof -
  obtain st' where call: "binding_sample_call (Some ''no'') = Some (Rejected ''no'', st')"
    using binding_sample_calls(2) by (cases "binding_sample_call (Some ''no'')") auto
  have "callbacks_of st' = callbacks_of binding_sample"
    using rejected_subscribe_leaves_no_callback [OF binding_sample_ok call [unfolded binding_sample_call_def]] by blast
  also have "callbacks_of binding_sample = (\<lambda>r. [])" by (simp add: callbacks_of_def binding_sample_def world_new_def fun_eq_iff)
  finally show ?thesis using call by blast
qed

lemma resolved_subscribe_is_subscribed_witness:
  "\<exists>st' r b. binding_sample_call None = Some (Resolved, st') \<and> r \<in> set (bk_subscriptions (bs_obj (bd_backends st') b)) \<and>
     b \<notin> set (bs_stops (bd_backends st'))"
proof -
  obtain st' where call: "binding_sample_call None = Some (Resolved, st')"
    using binding_sample_calls(1) by (cases "binding_sample_call None") auto
  have "\<not> bd_exiting binding_sample"
    "\<forall>r. \<forall>cb \<in> set (callbacks_of binding_sample r). cb_threadId cb = be_thread (binding_sample_env None) \<longrightarrow> cb_env cb = be_env (binding_sample_env None)"
    "\<forall>r x y. be_subscribe (binding_sample_env None) r x \<noteq> (Some [], y)" "\<forall>r state. be_finishSubscribe (binding_sample_env None) r state \<noteq> Some []"
    by (auto simp: binding_sample_def binding_sample_env_def callbacks_of_def world_new_def)
  from resolved_subscribe_is_subscribed [OF binding_sample_ok this call [unfolded binding_sample_call_def]] show ?thesis
    using call by blast
qed

text \<open>Work that the runtime cancels: the promise is rejected, and the callback stays.\<close>

lemma cancelled_subscribe_leaves_callback:
  "map_option (\<lambda>(result, st). (result, length (callbacks_of st 0)))
     (whole_call (binding_sample_env None) SubscribeRunner binding_sample_info None (Some 5) True Work_cancelled True ''cancelled'' binding_sample) =
   Some (Rejected ''cancelled'', 1)"
  by code_simp

text \<open>
  Without a message an exception is taken for success: \<open>onExecute\<close> stores the message, and \<open>onWorkComplete\<close> looks whether
  it is empty.
\<close>

lemma exception_without_message_is_resolved: "map_option fst (binding_sample_call (Some [])) = Some Resolved"
  by code_simp

text \<open>
  The message of \<open>watch\<close>, which throws the runtime's \<open>Error\<close>, does not arrive: the handler for \<open>std::exception\<close> is not the
  one that catches it.
\<close>

lemma message_of_watch_is_lost:
  "map_option fst (whole_call (binding_sample_env None) SubscribeRunner binding_sample_info None None True Work_ok True [] binding_sample) =
    Some (Rejected ''Failed to initialize runner'')"
  by code_simp

text \<open>
  A runner that cannot be queued is never destroyed: \<open>queue\<close> rejects the promise and returns, so the reservation
  of the backend and the callback stay.
\<close>

lemma refused_subscribe_keeps_reservation:
  "map_option (\<lambda>(result, st). (result, reserved st 0, length (callbacks_of st 0)))
     (whole_call (binding_sample_env None) SubscribeRunner binding_sample_info None (Some 5) False Work_ok True ''refused'' binding_sample) =
   Some (Rejected ''refused'', 1, 1)"
  by code_simp

end
