(* ===== verification/Spec2Isabelle.thy ===== *)
theory Spec2Isabelle
  imports Events DirTrees CaseSense Wildcards Globs Ignoring Debouncing Watchers Backends Files Identities
    Inotify InotifySafety FSEvents FSEventsRescan FSEventsSafety WinBackend WinSafety
    UnixTree Binding
begin

text \<open>
  Verification of the native core of native-watcher, a recursive file watcher for JavaScript (the C++ code
  under src/).

  \<^bold>\<open>The program.\<close> A call \<open>subscribe(dir, fn, options)\<close> (binding.cc) looks up or makes a \<open>Watcher\<close> for the
  directory and its ignore rules in a registry (Watcher.cc), registers \<open>fn\<close> with it, looks up or makes the
  \<open>Backend\<close> of the platform in another registry (Backend.cc), and subscribes the watcher with the backend on a
  worker thread. Each backend keeps a \<open>DirTree\<close> of the entries below the directory, learns of changes from the
  operating system (inotify on Linux, FSEvents on macOS, \<open>ReadDirectoryChangesW\<close> on Windows), updates the tree,
  and records what happened in the \<open>EventList\<close> of the watcher (Event.hh), which coalesces it. Paths that
  \<open>Watcher::isIgnored\<close> rejects, by ignored paths or globs (Glob.cc), are neither indexed nor reported. \<open>notify\<close>
  triggers the shared \<open>Debounce\<close> thread (Debounce.cc), which some time later drains the event lists and queues the
  batches for the JavaScript callbacks.

  \<^bold>\<open>Theories and sources.\<close> In the order in which they build on each other:

  \<^item> \<open>Prelude\<close>: paths and subtrees, words, loops, and the locale \<open>keyed_store\<close>, the laws of a map from keys to
    values, with its client lemmas. It is interpreted on the association lists that stand for unordered (\<open>um\<close>)
    and ordered maps (\<open>om\<close>), and in \<open>Identities\<close> on the identity index (\<open>ix\<close>).
  \<^item> \<open>Events\<close> (Event.hh): the event list, its operations and \<open>drain\<close>. The locale \<open>change_log\<close> states what a log of
    changes promises to the backends; it is interpreted on the event list (\<open>el\<close>).
  \<^item> \<open>DirTrees\<close> (DirTree.hh, DirTree.cc, BruteForceBackend::getTree): the tree, its operations, its text form.
  \<^item> \<open>CaseSense\<close> (CaseSensitivity.cc): the query whether a directory is case sensitive, on each platform.
  \<^item> \<open>Wildcards\<close>, \<open>Globs\<close> (Glob.hh, Glob.cc): the matching of one component, and globs as bit automata or tables.
  \<^item> \<open>Ignoring\<close> (Watcher.cc): the constructor of a watcher and \<open>isIgnored\<close> with its cache per thread.
  \<^item> \<open>Debouncing\<close> (Signal.hh, Debounce.hh, Debounce.cc): the signal, the debouncer and its thread.
  \<^item> \<open>Watchers\<close> (Watcher.hh, Watcher.cc): callbacks, delivery, and the registry of watchers.
  \<^item> \<open>Backends\<close> (Backend.hh, Backend.cc): subscriptions, reservations, and the registry of backends.
  \<^item> \<open>Binding\<close> (binding.cc, PromiseRunner.hh): a call from JavaScript, on the two registries.
  \<^item> \<open>Files\<close>, \<open>Identities\<close> (macos/IdentityIndex.cc): \<open>struct stat\<close>, the index of entries by path and by identity.
  \<^item> \<open>Inotify\<close>, \<open>InotifySafety\<close> (linux/InotifyBackend.cc): the handlers, and what holds of them.
  \<^item> \<open>FSEvents\<close>, \<open>FSEventsRescan\<close>, \<open>FSEventsSafety\<close> (macos/FSEventsBackend.cc): the handlers, the comparison of two
    scans, and the invariants.
  \<^item> \<open>WinBackend\<close>, \<open>WinSafety\<close> (windows/WindowsBackend.cc): the handlers with the reading of the buffer of changes,
    and what holds of them.
  \<^item> \<open>UnixTree\<close> (unix/legacy.cc): the walk that reads a tree with file descriptors.

  \<^bold>\<open>How the code is modelled.\<close> Definitions have the names of the functions they translate, with a prefix where a
  name is used twice (\<open>el_\<close> event list, \<open>dt_\<close> tree, \<open>ix_\<close> identity index, \<open>win_\<close> Windows). An object is a record, an
  operation a function from the old to the new record. Exceptions are values: an option or a sum. Integers of the code
  are words of their width; strings are lists of bytes. Unordered containers are association lists or lists
  without duplicates, traversed in the order of insertion. Where the order decides what is reported, for the candidates
  of a rename on macOS, it is arbitrary (\<open>fe_rank\<close>). Objects that are shared and changed in place (watchers,
  backends, subscriptions and trees of inotify) live in a heap, a map from addresses. What the sources only call is a
  parameter: the operating system (a record of functions on an arbitrary state, so that it may answer
  differently every time), the runtime of JavaScript, the clock, the hash function, and the derived class in
  \<open>Backends\<close>. A function that holds a mutex is one step. For \<open>Watchers\<close>, \<open>Backends\<close>, \<open>Inotify\<close>, \<open>FSEvents\<close> and
  \<open>WinBackend\<close> the interleavings of these steps are an inductive relation or an inductively defined set of
  states (\<open>watch_step\<close>, \<open>backend_step\<close>, the reachable states of \<open>InotifySafety\<close>, \<open>FSEventsSafety\<close> and \<open>win_life\<close>), and
  the invariants are shown by rule induction.

  \<^bold>\<open>What is shown.\<close>
  \<^item> Events: a batch reports the net change of every entry since the last one, each rename id occurs on one creation and
    one deletion, and chains of renames collapse.
  \<^item> Trees: renaming moves a subtree and nothing else, \<open>getChanges\<close> is exact, the text form can be read back; the walk of
    \<open>UnixTree\<close> finds exactly what can be reached and leaks no descriptor, whatever goes wrong.
  \<^item> Globs and ignoring: automaton, table and the declarative language of a pattern agree, and \<open>isIgnored\<close> decides
    exactly what the options describe; the cache does not change an answer, as long as no directory changes its case
    sensitivity (\<open>cache_keeps_case_sensitivity\<close> runs a case where one does).
  \<^item> Watchers, backends, binding: objects are registered as long as they are used and are not leaked, functions of the
    runtime are released once and not used afterwards, a backend whose thread has started is
    stopped exactly when it is unused and no call is under way; after a call from JavaScript no reservation is left, and
    after a resolved \<open>subscribe\<close> the watcher is subscribed with a backend that has not been stopped. A rejected \<open>subscribe\<close>
    leaves no callback, except where the runtime cancels or refuses the work: these paths of PromiseRunner.hh lose the
    clean-up, and the theorems name exactly what is left behind.
  \<^item> Debouncing: the thread does not sleep while there is something to deliver, and delivers in bounded time.
  \<^item> Inotify: no kernel watch is leaked, a move is one rename, an unsubscribed watcher is silent, an overflow is
    reported to everyone.
  \<^item> FSEvents: a rescan reports the difference of the two trees, only watched paths are reported, streams are stopped
    once. \<open>reused_path_is_reported_deleted\<close> and \<open>new_file_at_renamed_path_is_lost\<close> run cases the code gets wrong.
  \<^item> Windows: a requested stop is under way or done unless it could not be queued, and the handle is closed once, only watched paths are reported, a rename moves the
    tree, and the buffer is read as it was written and never outside of its bytes, for any bytes.

  \<^bold>\<open>Termination.\<close> No definition uses fuel. Loops over directories end because a path below another one is
  longer, and the system opens no path beyond a bound: \<open>PATH_MAX\<close> bytes for inotify, \<open>WIN_PATH_BYTES\<close> for Windows (32767
  units of UTF-16, at most three bytes each), with the multiset order for the stack of directories. The
  walk of \<open>UnixTree\<close>, whose calls do not depend on the length of a path, ends because each level holds a descriptor
  and a process has finitely many. \<open>getShared\<close> of backends, which calls itself, the scan with fts and the loops of the
  inotify thread, which read until the system has no more, are partial functions, where not returning is \<open>None\<close>; for
  the first two it is shown when they return, and what holds of the third is an invariant of its steps.

  \<^bold>\<open>What is not modelled.\<close> unix/fts.cc, which binding.gyp does not compile; \<open>DirTree::getCached\<close>, which nothing
  calls; \<open>Init\<close> of binding.cc, which registers functions with the runtime; the threads of the backends as such (their
  loops around the handlers, \<open>start\<close>, \<open>stop\<close> and the destructors) and the waiting on signals between threads outside of the
  debouncer; \<open>utf8ToUtf16\<close> and \<open>normalizePath\<close>, which only convert strings for the system; and, in the three
  backends, exceptions of \<open>isIgnored\<close> (the query of the case sensitivity can throw), for which \<open>isIgnored\<close> is a total
  function there; a change of the case sensitivity of a directory during one question; \<open>std::out_of_range\<close> from the
  \<open>substr\<close> of \<open>moveSubscriptions\<close>, which needs overlapping moves (the model follows the code as long as \<open>paths_fit\<close>;
  \<open>overlapping_moves_shorten_paths\<close> runs a case where it does not), and the overflow of \<open>%d\<close> in the text of a tree.
  In \<open>Binding\<close> a call runs by itself: what other threads do meanwhile is the subject of \<open>Watchers\<close> and
  \<open>Backends\<close>.
\<close>

end
